(* ===== verification/Prelude.thy ===== *)
theory Prelude
  imports Main "HOL-Library.Word" "HOL-Library.Sublist"
begin

text \<open>
  Shared vocabulary of the development: the error values that stand for \<^verbatim>\<open>ereport(ERROR, ...)\<close>
  and \<^verbatim>\<open>elog(ERROR, ...)\<close>, the result type and its sequencing operator, the C library's decimal
  conversions, and the generic facts on lists that several components use.

  An \<open>ereport\<close> carries its SQLSTATE class and the text of its primary message, and its \<open>errdetail\<close> where the code gives one; \<open>elog(ERROR)\<close> reports
  \<open>ERRCODE_INTERNAL_ERROR\<close>. \<open>Crash\<close> marks the places where the C code would dereference a null
  pointer or access memory out of bounds, and \<open>Diverge\<close> a loop whose fuel ran out: the components
  that use it prove that it is not returned.
\<close>

named_theorems result_simps \<open>rewriting of sequenced results\<close>

section \<open>Errors and results\<close>

datatype errcode =
    ERRCODE_INTERNAL_ERROR
  | ERRCODE_SYNTAX_ERROR
  | ERRCODE_DATATYPE_MISMATCH
  | ERRCODE_PROGRAM_LIMIT_EXCEEDED
  | ERRCODE_UNDEFINED_OBJECT
  | ERRCODE_INVALID_TABLE_DEFINITION
  | ERRCODE_INVALID_PARAMETER_VALUE
  | ERRCODE_INVALID_COLUMN_REFERENCE
  | ERRCODE_UNIQUE_VIOLATION
  | ERRCODE_OBJECT_NOT_IN_PREREQUISITE_STATE
  | ERRCODE_FEATURE_NOT_SUPPORTED
  | ERRCODE_TOO_MANY_ARGUMENTS
  | ERRCODE_DUPLICATE_ALIAS
  | ERRCODE_DIVISION_BY_ZERO
  | ERRCODE_INVALID_ARGUMENT_FOR_POWER_FUNCTION
  | ERRCODE_INVALID_ARGUMENT_FOR_LOG
  | ERRCODE_NUMERIC_VALUE_OUT_OF_RANGE
  | ERRCODE_NULL_VALUE_NOT_ALLOWED
  | ERRCODE_INSUFFICIENT_RESOURCES
  | ERRCODE_SYSTEM_ERROR

datatype pg_error = Ereport errcode string | EreportDetail errcode string string | Crash | Diverge

type_synonym 'a result = "pg_error + 'a"
type_synonym oid = "32 word"

abbreviation InvalidOid :: oid where "InvalidOid \<equiv> 0"

abbreviation elog_error :: "string \<Rightarrow> pg_error" where
  "elog_error msg \<equiv> Ereport ERRCODE_INTERNAL_ERROR msg"

lemma unat_oid_less: "unat (w :: oid) < 4294967296"
  by (rule order_less_le_trans [OF unsigned_less]) simp

definition PG_INT32_MAX :: int where "PG_INT32_MAX = 2147483647"

definition rbind :: "'a result \<Rightarrow> ('a \<Rightarrow> 'b result) \<Rightarrow> 'b result" where
  "rbind x f = (case x of Inl e \<Rightarrow> Inl e | Inr v \<Rightarrow> f v)"

lemma rbind_simps [simp]:
  "rbind (Inl e) f = Inl e"
  "rbind (Inr v) f = f v"
  by (simp_all add: rbind_def)

declare rbind_def [code_unfold]

lemma rbind_cong [fundef_cong]:
  "x = y \<Longrightarrow> (\<And>v. y = Inr v \<Longrightarrow> f v = g v) \<Longrightarrow> rbind x f = rbind y g"
  by (cases y) auto

lemma rbind_eq_Inr [result_simps]: "rbind x f = Inr y \<longleftrightarrow> (\<exists>v. x = Inr v \<and> f v = Inr y)"
  by (cases x) auto

lemma rbind_eq_Inl [result_simps]:
  "rbind x f = Inl e \<longleftrightarrow> x = Inl e \<or> (\<exists>v. x = Inr v \<and> f v = Inl e)"
  by (cases x) auto

lemma rbind_assoc: "rbind (rbind x f) g = rbind x (\<lambda>v. rbind (f v) g)"
  by (cases x) auto

definition rmap :: "('a \<Rightarrow> 'b) \<Rightarrow> 'a result \<Rightarrow> 'b result" where
  "rmap f x = rbind x (\<lambda>v. Inr (f v))"

lemma rmap_simps [simp]: "rmap f (Inl e) = Inl e" "rmap f (Inr v) = Inr (f v)"
  by (simp_all add: rmap_def)

lemma rmap_eq_Inr [result_simps]: "rmap f x = Inr y \<longleftrightarrow> (\<exists>v. x = Inr v \<and> y = f v)"
  by (cases x) auto

text \<open>\<open>foreach\<close> with an operation that may report an error: the first error stops the loop.\<close>

fun rmapM :: "('a \<Rightarrow> 'b result) \<Rightarrow> 'a list \<Rightarrow> 'b list result" where
  "rmapM f [] = Inr []"
| "rmapM f (x # xs) = rbind (f x) (\<lambda>y. rbind (rmapM f xs) (\<lambda>ys. Inr (y # ys)))"

lemma rmapM_cong [fundef_cong]:
  "xs = ys \<Longrightarrow> (\<And>x. x \<in> set ys \<Longrightarrow> f x = g x) \<Longrightarrow> rmapM f xs = rmapM g ys"
proof (induction ys arbitrary: xs)
  case (Cons y ys)
  then show ?case by (cases "g y") auto
qed simp

lemma rmapM_eq_Inr: "rmapM f xs = Inr ys \<longleftrightarrow> list_all2 (\<lambda>x y. f x = Inr y) xs ys"
  by (induction xs arbitrary: ys) (auto simp: result_simps list_all2_Cons1)

lemma rmapM_map: "rmapM f (map g xs) = rmapM (\<lambda>x. f (g x)) xs"
  by (induction xs) simp_all

lemma rmapM_error: "rmapM f xs = Inl e \<Longrightarrow> \<exists>x \<in> set xs. f x = Inl e"
  by (induction xs) (auto simp: result_simps)

lemma rmapM_total: "(\<And>x. x \<in> set xs \<Longrightarrow> f x = Inr (g x)) \<Longrightarrow> rmapM f xs = Inr (map g xs)"
  by (induction xs) auto

text \<open>
  The approximation order of computations with fuel: running out of fuel is below everything.
\<close>

named_theorems fuel_mono \<open>monotonicity in the fuel\<close>

definition approx :: "'a result \<Rightarrow> 'a result \<Rightarrow> bool" where
  "approx r r' \<longleftrightarrow> r = Inl Diverge \<or> r = r'"

lemma approx_refl [simp]: "approx r r"
  by (simp add: approx_def)

lemma approx_Diverge [simp]: "approx (Inl Diverge) r"
  by (simp add: approx_def)

lemma approx_Inr: "approx r r' \<Longrightarrow> r = Inr v \<Longrightarrow> r' = Inr v"
  by (auto simp: approx_def)

lemma approx_rbind [fuel_mono]:
  "approx x x' \<Longrightarrow> (\<And>v. x = Inr v \<Longrightarrow> approx (f v) (f' v)) \<Longrightarrow> approx (rbind x f) (rbind x' f')"
  by (cases x) (auto simp: approx_def)

lemma approx_rmap [fuel_mono]: "approx x x' \<Longrightarrow> approx (rmap f x) (rmap f x')"
  by (cases x) (auto simp: approx_def)

lemma approx_rmapM [fuel_mono]:
  "(\<And>x. x \<in> set xs \<Longrightarrow> approx (f x) (g x)) \<Longrightarrow> approx (rmapM f xs) (rmapM g xs)"
proof (induction xs)
  case (Cons x xs)
  then show ?case by (auto intro!: approx_rbind)
qed simp

section \<open>Decimal conversions of the C library\<close>

definition digit_char :: "nat \<Rightarrow> char" where
  "digit_char d = char_of (48 + d)"

definition is_digit :: "char \<Rightarrow> bool" where
  "is_digit c \<longleftrightarrow> 48 \<le> (of_char c :: nat) \<and> (of_char c :: nat) \<le> 57"

definition digit_value :: "char \<Rightarrow> nat" where
  "digit_value c = of_char c - 48"

text \<open>\<^verbatim>\<open>%u\<close> and \<^verbatim>\<open>%d\<close> of \<^verbatim>\<open>printf\<close>.\<close>

fun show_nat :: "nat \<Rightarrow> string" where
  "show_nat n = (if n < 10 then [digit_char n] else show_nat (n div 10) @ [digit_char (n mod 10)])"

declare show_nat.simps [simp del]

definition show_int :: "int \<Rightarrow> string" where
  "show_int i = (if i < 0 then CHR ''-'' # show_nat (nat (- i)) else show_nat (nat i))"

definition nat_of_digits :: "string \<Rightarrow> nat" where
  "nat_of_digits ds = foldl (\<lambda>v c. 10 * v + digit_value c) 0 ds"

lemma of_char_digit_char [simp]: "d < 10 \<Longrightarrow> (of_char (digit_char d) :: nat) = 48 + d"
  by (simp add: digit_char_def)

lemma is_digit_digit_char [simp]: "d < 10 \<Longrightarrow> is_digit (digit_char d)"
  by (simp add: is_digit_def)

lemma digit_value_digit_char [simp]: "d < 10 \<Longrightarrow> digit_value (digit_char d) = d"
  by (simp add: digit_value_def)

lemma show_nat_digits: "\<forall>c \<in> set (show_nat n). is_digit c"
proof (induction n rule: show_nat.induct)
  case (1 n)
  then show ?case by (cases "n < 10") (auto simp: show_nat.simps [of n])
qed

lemma show_nat_nonempty [simp]: "show_nat n \<noteq> []"
  by (subst show_nat.simps) simp

lemma nat_of_digits_snoc: "nat_of_digits (ds @ [c]) = 10 * nat_of_digits ds + digit_value c"
  by (simp add: nat_of_digits_def)

lemma nat_of_digits_show_nat [simp]: "nat_of_digits (show_nat n) = n"
proof (induction n rule: show_nat.induct)
  case (1 n)
  show ?case
  proof (cases "n < 10")
    case True
    then show ?thesis by (simp add: show_nat.simps [of n] nat_of_digits_def)
  next
    case False
    with "1.IH" show ?thesis by (simp add: show_nat.simps [of n] nat_of_digits_snoc)
  qed
qed

lemma show_nat_inject [simp]: "show_nat m = show_nat n \<longleftrightarrow> m = n"
  by (metis nat_of_digits_show_nat)

lemma takeWhile_is_digit_show_nat:
  "rest = [] \<or> \<not> is_digit (hd rest) \<Longrightarrow> takeWhile is_digit (show_nat n @ rest) = show_nat n"
  using show_nat_digits [of n] by (cases rest) (auto simp: takeWhile_append)

lemma is_digit_hd_show_nat [simp]: "is_digit (hd (show_nat n))"
  using show_nat_digits [of n] by (simp add: hd_in_set)

lemma minus_notin_show_nat [simp]: "CHR ''-'' \<notin> set (show_nat n)"
  using show_nat_digits [of n] by (auto simp: is_digit_def)

lemma show_int_inject [simp]: "show_int i = show_int j \<longleftrightarrow> i = j"
proof -
  have "show_nat m \<noteq> CHR ''-'' # xs" for m xs
    by (metis list.set_intros(1) minus_notin_show_nat)
  then show ?thesis by (auto simp: show_int_def) (metis eq_nat_nat_iff linorder_not_less)
qed

section \<open>Lists\<close>

lemma drop_eq_ConsD: "drop n xs = y # ys \<Longrightarrow> n < length xs \<and> xs ! n = y \<and> drop (Suc n) xs = ys"
  by (metis Cons_nth_drop_Suc drop_all leI list.distinct(1) list.inject)

lemma drop_eq_appendD: "drop n xs = ys @ zs \<Longrightarrow> drop (n + length ys) xs = zs"
  by (metis add.commute append_eq_conv_conj drop_drop)

lemma filter_index_nths:
  "map snd (filter (\<lambda>(i, x). P i) (enumerate k xs)) = nths xs {i. P (k + i)}"
proof (induction xs arbitrary: k)
  case (Cons x xs)
  have "{i. P (Suc k + i)} = {i. Suc i \<in> {i. P (k + i)}}" by simp
  with Cons [of "Suc k"] show ?case by (simp add: nths_Cons)
qed simp

text \<open>Two-dimensional arrays in row-major order.\<close>

lemma concat_map_concat: "concat (map f (concat (map g xs))) = concat (map (\<lambda>x. concat (map f (g x))) xs)"
  by (induction xs) simp_all

lemma cell_unique: "i < n \<Longrightarrow> i' < n \<Longrightarrow> l * n + i = l' * n + i' \<Longrightarrow> l = l' \<and> i = i'" for i n :: nat
  by (metis add.commute div_mult_self3 div_less add_cancel_right_left mod_mult_self3 mod_less gr_implies_not0)

lemma concat_cells:
  "concat (map (\<lambda>l. map (h l) [0..<n]) [0..<m]) = map (\<lambda>k. h (k div n) (k mod n)) [0..<m * n]"
proof (induction m)
  case (Suc m)
  have "map (h m) [0..<n] = map (\<lambda>k. h (k div n) (k mod n)) [m * n..<m * n + n]"
    by (rule nth_equalityI) auto
  with Suc show ?case by (simp add: add.commute [of n] upt_add_eq_append [of 0 "m * n"])
qed simp

end
