(* ===== verification/Sig_Catalog.thy ===== *)
theory Sig_Catalog
  imports Prelude
begin

text \<open>
  The catalog of lambda signatures, \<^verbatim>\<open>src/backend/catalog/pg_lambdasig.c\<close>: signature trees, their
  validation, the canonical key and its parser, and the catalog operations that intern a signature
  under an \<open>int32\<close> typmod and read it back.

  A pointer the code tests against \<open>NULL\<close> is an option; the functions whose callers have already
  made that test take the node itself. A \<open>StringInfo\<close> is threaded as the string appended so far.
  The type cache (\<open>SearchSysCache1(TYPEOID, ...)\<close>) and \<open>format_type_be\<close> are arguments, and so are the errors of
  inserting a row: other transactions may have inserted rows that the scans of this one do not see.
\<close>

section \<open>Signature trees\<close>

datatype LambdaSignature =
    LambdaSignature (argtypes: "LambdaSigType list") (rettype: "LambdaSigType option") (sig_location: int)
and LambdaSigType =
    LambdaSigType (is_function: bool) (typeoid: oid) (signature: "LambdaSignature option") (typ_location: int)

record pg_type_form =
  typname :: string
  typisdefined :: bool
  typtype :: char

type_synonym type_cache = "oid \<Rightarrow> pg_type_form option"

definition TYPTYPE_PSEUDO :: char where "TYPTYPE_PSEUDO = CHR ''p''"

definition PG_UINT32_MAX :: int where "PG_UINT32_MAX = 4294967295"
definition ULONG_MAX :: int where "ULONG_MAX = 18446744073709551615"

section \<open>Validation\<close>

definition LambdaSigCheckScalarOid :: "type_cache \<Rightarrow> oid \<Rightarrow> int \<Rightarrow> unit result" where
  "LambdaSigCheckScalarOid tc toid location =
    (if toid = InvalidOid then
       Inl (Ereport ERRCODE_UNDEFINED_OBJECT ''invalid type in lambda signature'')
     else case tc toid of
       None \<Rightarrow> Inl (Ereport ERRCODE_UNDEFINED_OBJECT (''cache lookup failed for type '' @ show_nat (unat toid)))
     | Some typform \<Rightarrow>
         if \<not> typisdefined typform then
           Inl (Ereport ERRCODE_UNDEFINED_OBJECT (''type '' @ typname typform @ '' is only a shell''))
         else if typtype typform = TYPTYPE_PSEUDO then
           Inl (Ereport ERRCODE_INVALID_TABLE_DEFINITION
             (''pseudo-type '' @ typname typform @ '' is not allowed in a stored lambda signature''))
         else Inr ())"

fun LambdaSigValidateSignature :: "type_cache \<Rightarrow> LambdaSignature \<Rightarrow> unit result"
  and LambdaSigValidateArgs :: "type_cache \<Rightarrow> LambdaSigType list \<Rightarrow> unit result"
  and LambdaSigValidateType :: "type_cache \<Rightarrow> LambdaSigType \<Rightarrow> unit result" where
  "LambdaSigValidateSignature tc (LambdaSignature args rt loc) =
    (case rt of
       None \<Rightarrow> Inl (Ereport ERRCODE_SYNTAX_ERROR ''lambda signature has no return type'')
     | Some r \<Rightarrow> rbind (LambdaSigValidateArgs tc args) (\<lambda>_. LambdaSigValidateType tc r))"
| "LambdaSigValidateArgs tc [] = Inr ()"
| "LambdaSigValidateArgs tc (t # ts) =
    rbind (LambdaSigValidateType tc t) (\<lambda>_. LambdaSigValidateArgs tc ts)"
| "LambdaSigValidateType tc (LambdaSigType isf toid sig loc) =
    (if isf then
       (case sig of
          None \<Rightarrow> Inl (Ereport ERRCODE_SYNTAX_ERROR ''nested lambda signature has no signature'')
        | Some s \<Rightarrow> LambdaSigValidateSignature tc s)
     else LambdaSigCheckScalarOid tc toid loc)"

section \<open>Canonical key and display source\<close>

fun LambdaSigAppendKey :: "string \<Rightarrow> LambdaSignature \<Rightarrow> string result"
  and LambdaSigAppendKeyArgs :: "string \<Rightarrow> bool \<Rightarrow> LambdaSigType list \<Rightarrow> string result"
  and LambdaSigTypeAppendKey :: "string \<Rightarrow> LambdaSigType \<Rightarrow> string result" where
  "LambdaSigAppendKey buf (LambdaSignature args rt loc) =
    rbind (LambdaSigAppendKeyArgs (buf @ ''('') True args) (\<lambda>buf.
      case rt of None \<Rightarrow> Inl Crash | Some r \<Rightarrow> LambdaSigTypeAppendKey (buf @ '')->'') r)"
| "LambdaSigAppendKeyArgs buf first [] = Inr buf"
| "LambdaSigAppendKeyArgs buf first (t # ts) =
    rbind (LambdaSigTypeAppendKey (if \<not> first then buf @ '','' else buf) t) (\<lambda>buf.
      LambdaSigAppendKeyArgs buf False ts)"
| "LambdaSigTypeAppendKey buf (LambdaSigType isf toid sig loc) =
    (if isf then (case sig of None \<Rightarrow> Inl Crash | Some s \<Rightarrow> LambdaSigAppendKey buf s)
     else Inr (buf @ show_nat (unat toid)))"

fun LambdaSigAppendSource :: "(oid \<Rightarrow> string) \<Rightarrow> string \<Rightarrow> LambdaSignature \<Rightarrow> string result"
  and LambdaSigAppendSourceArgs :: "(oid \<Rightarrow> string) \<Rightarrow> string \<Rightarrow> bool \<Rightarrow> LambdaSigType list \<Rightarrow> string result"
  and LambdaSigTypeAppendSource :: "(oid \<Rightarrow> string) \<Rightarrow> string \<Rightarrow> LambdaSigType \<Rightarrow> string result" where
  "LambdaSigAppendSource format_type_be buf (LambdaSignature args rt loc) =
    rbind (LambdaSigAppendSourceArgs format_type_be (buf @ ''('') True args) (\<lambda>buf.
      case rt of None \<Rightarrow> Inl Crash
      | Some r \<Rightarrow> LambdaSigTypeAppendSource format_type_be (buf @ '') -> '') r)"
| "LambdaSigAppendSourceArgs format_type_be buf first [] = Inr buf"
| "LambdaSigAppendSourceArgs format_type_be buf first (t # ts) =
    rbind (LambdaSigTypeAppendSource format_type_be (if \<not> first then buf @ '', '' else buf) t) (\<lambda>buf.
      LambdaSigAppendSourceArgs format_type_be buf False ts)"
| "LambdaSigTypeAppendSource format_type_be buf (LambdaSigType isf toid sig loc) =
    (if isf then (case sig of None \<Rightarrow> Inl Crash | Some s \<Rightarrow> LambdaSigAppendSource format_type_be buf s)
     else Inr (buf @ format_type_be toid))"

section \<open>Parsing the key\<close>

text \<open>\<open>ptr\<close> is the offset of the C pointer in \<open>start\<close>; reading at the end of the string gives NUL.\<close>

record LambdaSigParser =
  start :: string
  ptr :: nat
  src :: "string option"

definition NUL :: char where "NUL = CHR 0x00"

definition deref :: "LambdaSigParser \<Rightarrow> char" where
  "deref p = (if ptr p < length (start p) then start p ! ptr p else NUL)"

definition LambdaSigParseError :: "LambdaSigParser \<Rightarrow> string \<Rightarrow> pg_error" where
  "LambdaSigParseError p msg =
    EreportDetail ERRCODE_INVALID_PARAMETER_VALUE
      (''invalid lambda signature key '' @ start p)
      (case src p of
         Some s \<Rightarrow> msg @ '' at byte offset '' @ show_nat (ptr p) @ ''; source signature is '' @ s
       | None \<Rightarrow> msg @ '' at byte offset '' @ show_nat (ptr p))"

definition LambdaSigConsume :: "LambdaSigParser \<Rightarrow> char \<Rightarrow> bool \<times> LambdaSigParser" where
  "LambdaSigConsume p ch = (if deref p = ch then (True, p\<lparr>ptr := Suc (ptr p)\<rparr>) else (False, p))"

definition LambdaSigExpect :: "LambdaSigParser \<Rightarrow> char \<Rightarrow> LambdaSigParser result" where
  "LambdaSigExpect p ch =
    (case LambdaSigConsume p ch of
       (True, p') \<Rightarrow> Inr p'
     | (False, p') \<Rightarrow> Inl (LambdaSigParseError p' (''expected '' @ [ch] @ '' in lambda signature key'')))"

text \<open>
  \<^verbatim>\<open>strtoul(s, &endptr, 10)\<close> on a string that starts with a digit: the value, the number of
  characters consumed and whether \<open>errno\<close> is \<open>ERANGE\<close>.
\<close>

definition strtoul :: "string \<Rightarrow> int \<times> nat \<times> bool" where
  "strtoul s = (let ds = takeWhile is_digit s; v = int (nat_of_digits ds) in
     if v \<le> ULONG_MAX then (v, length ds, False) else (ULONG_MAX, length ds, True))"

definition LambdaSigParseOid :: "LambdaSigParser \<Rightarrow> (oid \<times> LambdaSigParser) result" where
  "LambdaSigParseOid p =
    (if \<not> is_digit (deref p) then
       Inl (LambdaSigParseError p ''expected type OID in lambda signature key'')
     else case strtoul (drop (ptr p) (start p)) of (v, consumed, erange) \<Rightarrow>
       if consumed = 0 \<or> erange \<or> v > PG_UINT32_MAX then
         Inl (LambdaSigParseError p ''invalid type OID in lambda signature key'')
       else Inr (of_int v, p\<lparr>ptr := ptr p + consumed\<rparr>))"

function LambdaSigParseSignature :: "LambdaSigParser \<Rightarrow> (LambdaSignature \<times> LambdaSigParser) result"
  and LambdaSigParseArgs :: "LambdaSigType list \<Rightarrow> LambdaSigParser \<Rightarrow> (LambdaSigType list \<times> LambdaSigParser) result"
  and LambdaSigParseType :: "LambdaSigParser \<Rightarrow> (LambdaSigType \<times> LambdaSigParser) result" where
  "LambdaSigParseSignature p =
    rbind (LambdaSigExpect p CHR ''('') (\<lambda>p.
    rbind (case LambdaSigConsume p CHR '')'' of
             (True, p) \<Rightarrow> Inr ([], p)
           | (False, p) \<Rightarrow> LambdaSigParseArgs [] p) (\<lambda>(args, p).
    rbind (LambdaSigExpect p CHR ''-'') (\<lambda>p.
    rbind (LambdaSigExpect p CHR ''>'') (\<lambda>p.
    rbind (LambdaSigParseType p) (\<lambda>(rt, p).
    Inr (LambdaSignature args (Some rt) (- 1), p))))))"
| "LambdaSigParseArgs args p =
    rbind (LambdaSigParseType p) (\<lambda>(t, p).
      (case LambdaSigConsume p CHR '','' of
         (True, p) \<Rightarrow> LambdaSigParseArgs (args @ [t]) p
       | (False, p) \<Rightarrow> rbind (LambdaSigExpect p CHR '')'') (\<lambda>p. Inr (args @ [t], p))))"
| "LambdaSigParseType p =
    (if deref p = CHR ''('' then
       rbind (LambdaSigParseSignature p) (\<lambda>(s, p).
         Inr (LambdaSigType True InvalidOid (Some s) (- 1), p))
     else
       rbind (LambdaSigParseOid p) (\<lambda>(toid, p).
         Inr (LambdaSigType False toid None (- 1), p)))"
  by pat_completeness auto

text \<open>Every parsing function moves forward inside the key; this is what makes the recursion end.\<close>

definition advances :: "LambdaSigParser \<Rightarrow> LambdaSigParser \<Rightarrow> bool" where
  "advances p p' \<longleftrightarrow> start p' = start p \<and> src p' = src p \<and> ptr p < ptr p' \<and> ptr p' \<le> length (start p)"

lemma advances_trans: "advances p q \<Longrightarrow> advances q r \<Longrightarrow> advances p r"
  by (simp add: advances_def)

lemma Expect_advances: "LambdaSigExpect p ch = Inr p' \<Longrightarrow> ch \<noteq> NUL \<Longrightarrow> advances p p'"
  by (auto simp: LambdaSigExpect_def LambdaSigConsume_def deref_def advances_def split: if_splits)

lemma Consume_advances: "LambdaSigConsume p ch = (True, p') \<Longrightarrow> ch \<noteq> NUL \<Longrightarrow> advances p p'"
  by (auto simp: LambdaSigConsume_def deref_def advances_def split: if_splits)

lemma Consume_False: "LambdaSigConsume p ch = (False, p') \<Longrightarrow> p' = p"
  by (auto simp: LambdaSigConsume_def split: if_splits)

lemma ParseOid_advances:
  assumes "LambdaSigParseOid p = Inr (toid, p')" shows "advances p p'"
proof -
  have "length (takeWhile is_digit (drop (ptr p) (start p))) \<le> length (start p) - ptr p"
    by (metis length_drop length_takeWhile_le)
  with assms show ?thesis
    by (auto simp: LambdaSigParseOid_def strtoul_def advances_def Let_def deref_def NUL_def is_digit_def
        split: if_splits)
qed

lemmas parser_moves = Expect_advances Consume_advances Consume_False ParseOid_advances
  Consume_advances [OF sym] Consume_False [OF sym]

lemma NUL_neq [simp]:
  "CHR ''('' \<noteq> NUL" "CHR '')'' \<noteq> NUL" "CHR '','' \<noteq> NUL" "CHR ''-'' \<noteq> NUL" "CHR ''>'' \<noteq> NUL"
  by (simp_all add: NUL_def)

abbreviation parse_dom where
  "parse_dom \<equiv> LambdaSigParseSignature_LambdaSigParseArgs_LambdaSigParseType_dom"

lemma parse_advances_dom:
  "parse_dom (Inl p) \<Longrightarrow> LambdaSigParseSignature p = Inr (sig, p') \<Longrightarrow> advances p p'"
  "parse_dom (Inr (Inl (args, p))) \<Longrightarrow> LambdaSigParseArgs args p = Inr (args', p') \<Longrightarrow> advances p p'"
  "parse_dom (Inr (Inr p)) \<Longrightarrow> LambdaSigParseType p = Inr (t, p') \<Longrightarrow> advances p p'"
proof (induction arbitrary: sig p' and args' p' and t p'
    rule: LambdaSigParseSignature_LambdaSigParseArgs_LambdaSigParseType.pinduct)
  case (1 p)
  from "1.prems" obtain p1 args p2 p3 p4 rt where
    steps: "LambdaSigExpect p CHR ''('' = Inr p1"
      "(case LambdaSigConsume p1 CHR '')'' of (True, p) \<Rightarrow> Inr ([], p) | (False, p) \<Rightarrow> LambdaSigParseArgs [] p)
        = Inr (args, p2)"
      "LambdaSigExpect p2 CHR ''-'' = Inr p3" "LambdaSigExpect p3 CHR ''>'' = Inr p4"
      "LambdaSigParseType p4 = Inr (rt, p')"
    using "1.hyps" by (auto simp: LambdaSigParseSignature.psimps result_simps)
  have "advances p1 p2"
    using steps(2) "1.IH"(1) [OF steps(1)] by (auto split: prod.splits bool.splits dest: parser_moves)
  moreover have "advances p4 p'"
    using "1.IH"(2) [OF steps(1-2) _ steps(3-4)] steps(5) by auto
  ultimately show ?case
    using steps by (meson Expect_advances NUL_neq advances_trans)
next
  case (2 args p)
  from "2.prems" obtain t1 p1 where t1: "LambdaSigParseType p = Inr (t1, p1)" and
    rest: "(case LambdaSigConsume p1 CHR '','' of (True, p) \<Rightarrow> LambdaSigParseArgs (args @ [t1]) p
       | (False, p) \<Rightarrow> rbind (LambdaSigExpect p CHR '')'') (\<lambda>p. Inr (args @ [t1], p))) = Inr (args', p')"
    using "2.hyps" by (auto simp: LambdaSigParseArgs.psimps result_simps)
  have "advances p p1" using "2.IH"(1) t1 by simp
  moreover have "advances p1 p'"
  proof (cases "LambdaSigConsume p1 CHR '',''")
    case (Pair b p2)
    then show ?thesis
      using rest "2.IH"(2) [OF t1 refl Pair [symmetric]] Consume_advances [of p1 "CHR '',''" p2]
      by (cases b) (auto simp: result_simps dest: Consume_False Expect_advances intro: advances_trans)
  qed
  ultimately show ?case by (rule advances_trans)
next
  case (3 p)
  then show ?case
    by (auto simp: LambdaSigParseType.psimps result_simps split: if_splits dest: parser_moves)
qed

termination LambdaSigParseSignature
proof (relation "measure (\<lambda>x. case x of
    Inl p \<Rightarrow> 3 * (length (start p) - ptr p)
  | Inr (Inl (args, p)) \<Rightarrow> 3 * (length (start p) - ptr p) + 2
  | Inr (Inr p) \<Rightarrow> 3 * (length (start p) - ptr p) + 1)", goal_cases)
  case 1
  show ?case by simp
next
  case 2
  then show ?case by (auto dest!: parser_moves simp: advances_def)
next
  case 3
  then show ?case
    by (auto dest!: parser_moves parse_advances_dom(2) [rotated] simp: advances_def
        split: prod.splits bool.splits)
next
  case 4
  then show ?case by simp
next
  case 5
  then show ?case by (auto dest!: parser_moves parse_advances_dom simp: advances_def)
next
  case 6
  then show ?case by simp
qed

declare LambdaSigParseSignature.simps [simp del] LambdaSigParseArgs.simps [simp del]
  LambdaSigParseType.simps [simp del]

definition LambdaSigParseKey :: "type_cache \<Rightarrow> string option \<Rightarrow> string option \<Rightarrow> LambdaSignature result" where
  "LambdaSigParseKey tc sigkey sigsrc =
    (case sigkey of
       None \<Rightarrow> Inl (elog_error ''cannot parse null lambda signature key'')
     | Some key \<Rightarrow>
         rbind (LambdaSigParseSignature \<lparr>start = key, ptr = 0, src = sigsrc\<rparr>) (\<lambda>(sig, p).
           if deref p \<noteq> NUL then Inl (LambdaSigParseError p ''trailing junk after lambda signature key'')
           else rbind (LambdaSigValidateSignature tc sig) (\<lambda>_. Inr sig)))"

section \<open>The catalog relation\<close>

text \<open>
  The rows of \<open>pg_lambdasig\<close> a scan of the current command sees (\<open>visible\<close>), the rows it inserted
  since the last \<open>CommandCounterIncrement\<close> (\<open>pending\<close>) and the cluster's OID counter. The two
  text columns are options because the code tests them for NULL. \<open>insert_error\<close> stands for the heap and
  the indexes below \<open>CatalogTupleInsert\<close>: a row may be too big for a page, a long key too big for an
  index, or a unique index may meet the row of a concurrent transaction, which no scan of this command sees.
\<close>

record FormData_pg_lambdasig =
  row_oid :: oid
  lamsigid :: int
  lamsigkey :: "string option"
  lamsigsrc :: "string option"

record catalog =
  visible :: "FormData_pg_lambdasig list"
  pending :: "FormData_pg_lambdasig list"
  nextOid :: oid
  insert_error :: "FormData_pg_lambdasig \<Rightarrow> pg_error option"

definition all_rows :: "catalog \<Rightarrow> FormData_pg_lambdasig list" where
  "all_rows c = visible c @ pending c"

definition LambdaSigAllocateTypmod :: "catalog \<Rightarrow> int result" where
  "LambdaSigAllocateTypmod c =
    (let maxid = fold (\<lambda>form maxid. if lamsigid form > maxid then lamsigid form else maxid) (visible c) (- 1) in
     if maxid = PG_INT32_MAX then
       Inl (Ereport ERRCODE_PROGRAM_LIMIT_EXCEEDED ''too many lambda signatures'')
     else Inr (maxid + 1))"

fun lookup_scan :: "FormData_pg_lambdasig list \<Rightarrow> string \<Rightarrow> int result" where
  "lookup_scan [] sigkey = Inr (- 1)"
| "lookup_scan (tup # tups) sigkey =
    (case lamsigkey tup of
       None \<Rightarrow> Inl (elog_error ''null lamsigkey in pg_lambdasig'')
     | Some existing \<Rightarrow> if existing = sigkey then Inr (lamsigid tup) else lookup_scan tups sigkey)"

definition LambdaSigLookupTypmodByKeyInRelation :: "catalog \<Rightarrow> string \<Rightarrow> int result" where
  "LambdaSigLookupTypmodByKeyInRelation c sigkey = lookup_scan (visible c) sigkey"

definition SearchSysCache_LAMBDASIGID :: "catalog \<Rightarrow> int \<Rightarrow> FormData_pg_lambdasig option" where
  "SearchSysCache_LAMBDASIGID c typmod = find (\<lambda>form. lamsigid form = typmod) (visible c)"

definition cache_lookup_failed :: "int \<Rightarrow> pg_error" where
  "cache_lookup_failed typmod =
    elog_error (''cache lookup failed for lambda signature typmod '' @ show_int typmod)"

definition LambdaSigGetOidByTypmod :: "catalog \<Rightarrow> int \<Rightarrow> bool \<Rightarrow> oid result" where
  "LambdaSigGetOidByTypmod c typmod missing_ok =
    (case SearchSysCache_LAMBDASIGID c typmod of
       None \<Rightarrow> if missing_ok then Inr InvalidOid else Inl (cache_lookup_failed typmod)
     | Some tup \<Rightarrow> Inr (row_oid tup))"

definition LambdaSigGetSource :: "catalog \<Rightarrow> int \<Rightarrow> string result" where
  "LambdaSigGetSource c typmod =
    (case SearchSysCache_LAMBDASIGID c typmod of
       None \<Rightarrow> Inl (cache_lookup_failed typmod)
     | Some tup \<Rightarrow> (case lamsigsrc tup of
         None \<Rightarrow> Inl (elog_error (''null lamsigsrc for lambda signature typmod '' @ show_int typmod))
       | Some s \<Rightarrow> Inr s))"

definition LambdaSigGetKey :: "catalog \<Rightarrow> int \<Rightarrow> string result" where
  "LambdaSigGetKey c typmod =
    (case SearchSysCache_LAMBDASIGID c typmod of
       None \<Rightarrow> Inl (cache_lookup_failed typmod)
     | Some tup \<Rightarrow> (case lamsigkey tup of
         None \<Rightarrow> Inl (elog_error (''null lamsigkey for lambda signature typmod '' @ show_int typmod))
       | Some s \<Rightarrow> Inr s))"

definition LambdaSigGetTypmodByKey :: "catalog \<Rightarrow> string \<Rightarrow> bool \<Rightarrow> int result" where
  "LambdaSigGetTypmodByKey c sigkey missing_ok =
    rbind (LambdaSigLookupTypmodByKeyInRelation c sigkey) (\<lambda>result.
      if result < 0 \<and> \<not> missing_ok then
        Inl (elog_error (''cache lookup failed for lambda signature key '' @ sigkey))
      else Inr result)"

subsection \<open>OID generation\<close>

definition FirstNormalObjectId :: oid where "FirstNormalObjectId = 16384"

text \<open>\<open>GetNewObjectId\<close> in a normal (postmaster) server: the counter restarts at
  \<open>FirstNormalObjectId\<close> when it has wrapped around.\<close>

definition GetNewObjectId :: "catalog \<Rightarrow> oid \<times> catalog" where
  "GetNewObjectId c =
    (let next = (if nextOid c < FirstNormalObjectId then FirstNormalObjectId else nextOid c) in
     (next, c\<lparr>nextOid := next + 1\<rparr>))"

text \<open>The retry loop; the scan under \<open>SnapshotAny\<close> sees every row. Of \<open>length (all_rows c) + 1\<close>
  candidates one is free, so that much fuel is enough (\<open>GetNewOidWithIndex_fresh\<close>).\<close>

fun GetNewOid_loop :: "nat \<Rightarrow> catalog \<Rightarrow> (oid \<times> catalog) result" where
  "GetNewOid_loop 0 c = Inl Diverge"
| "GetNewOid_loop (Suc fuel) c =
    (case GetNewObjectId c of (newOid, c') \<Rightarrow>
       if newOid \<in> set (map row_oid (all_rows c')) then GetNewOid_loop fuel c' else Inr (newOid, c'))"

definition GetNewOidWithIndex :: "catalog \<Rightarrow> (oid \<times> catalog) result" where
  "GetNewOidWithIndex c = GetNewOid_loop (Suc (length (all_rows c))) c"

subsection \<open>Insertion\<close>

text \<open>\<open>CatalogTupleInsert\<close> checks the three unique indexes of the relation, which also see the rows
  of the current command, and may fail below them.\<close>

definition CatalogTupleInsert :: "catalog \<Rightarrow> FormData_pg_lambdasig \<Rightarrow> catalog result" where
  "CatalogTupleInsert c tup =
    (if row_oid tup \<in> set (map row_oid (all_rows c)) then
       Inl (Ereport ERRCODE_UNIQUE_VIOLATION ''pg_lambdasig_oid_index'')
     else if lamsigid tup \<in> set (map lamsigid (all_rows c)) then
       Inl (Ereport ERRCODE_UNIQUE_VIOLATION ''pg_lambdasig_sigid_index'')
     else if lamsigkey tup \<in> set (map lamsigkey (all_rows c)) then
       Inl (Ereport ERRCODE_UNIQUE_VIOLATION ''pg_lambdasig_key_index'')
     else (case insert_error c tup of Some e \<Rightarrow> Inl e | None \<Rightarrow> Inr (c\<lparr>pending := pending c @ [tup]\<rparr>)))"

definition CommandCounterIncrement :: "catalog \<Rightarrow> catalog" where
  "CommandCounterIncrement c = c\<lparr>visible := visible c @ pending c, pending := []\<rparr>"

definition LambdaSigCreate :: "catalog \<Rightarrow> string \<Rightarrow> string \<Rightarrow> (int \<times> catalog) result" where
  "LambdaSigCreate c sigkey sigsrc =
    rbind (LambdaSigLookupTypmodByKeyInRelation c sigkey) (\<lambda>found.
      if found \<ge> 0 then Inr (found, c)
      else
        rbind (LambdaSigAllocateTypmod c) (\<lambda>newid.
        rbind (GetNewOidWithIndex c) (\<lambda>(newoid, c).
        rbind (CatalogTupleInsert c \<lparr>row_oid = newoid, lamsigid = newid,
                  lamsigkey = Some sigkey, lamsigsrc = Some sigsrc\<rparr>) (\<lambda>c.
        Inr (newid, CommandCounterIncrement c)))))"

definition LambdaSigCreateFromSignature ::
  "type_cache \<Rightarrow> (oid \<Rightarrow> string) \<Rightarrow> catalog \<Rightarrow> LambdaSignature option \<Rightarrow> (int \<times> catalog) result" where
  "LambdaSigCreateFromSignature tc format_type_be c sig =
    (case sig of
       None \<Rightarrow> Inl (elog_error ''cannot create lambda typmod from null signature'')
     | Some s \<Rightarrow>
         rbind (LambdaSigValidateSignature tc s) (\<lambda>_.
         rbind (LambdaSigAppendKey [] s) (\<lambda>keybuf.
         rbind (LambdaSigAppendSource format_type_be [] s) (\<lambda>srcbuf.
         LambdaSigCreate c keybuf srcbuf))))"

definition LambdaSigGetSignature :: "type_cache \<Rightarrow> catalog \<Rightarrow> int \<Rightarrow> LambdaSignature result" where
  "LambdaSigGetSignature tc c typmod =
    (if typmod < 0 then
       Inl (Ereport ERRCODE_DATATYPE_MISMATCH
         (''lambda typmod '' @ show_int typmod @ '' does not reference a stored lambda signature''))
     else
       rbind (LambdaSigGetKey c typmod) (\<lambda>sigkey.
       rbind (LambdaSigGetSource c typmod) (\<lambda>sigsrc.
       LambdaSigParseKey tc (Some sigkey) (Some sigsrc))))"

subsection \<open>Narrowing\<close>

fun narrow_args :: "LambdaSigType list \<Rightarrow> bool list \<Rightarrow> LambdaSigType list" where
  "narrow_args (t # ts) (k # ks) = (if k then t # narrow_args ts ks else narrow_args ts ks)"
| "narrow_args _ _ = []"

definition LambdaSigNarrow :: "LambdaSignature option \<Rightarrow> bool list \<Rightarrow> LambdaSignature result" where
  "LambdaSigNarrow sig keep =
    (case sig of
       None \<Rightarrow> Inl (elog_error ''cannot narrow a null lambda signature'')
     | Some s \<Rightarrow>
         if length keep \<noteq> length (argtypes s) then
           Inl (elog_error (''lambda signature has '' @ show_nat (length (argtypes s)) @
             '' arguments, narrow mask has '' @ show_nat (length keep)))
         else Inr (LambdaSignature (narrow_args (argtypes s) keep) (rettype s) (- 1)))"

definition LambdaSigNarrowTypmod ::
  "type_cache \<Rightarrow> (oid \<Rightarrow> string) \<Rightarrow> catalog \<Rightarrow> int \<Rightarrow> bool list \<Rightarrow> (int \<times> catalog) result" where
  "LambdaSigNarrowTypmod tc format_type_be c typmod keep =
    rbind (LambdaSigGetSignature tc c typmod) (\<lambda>sig.
    rbind (LambdaSigNarrow (Some sig) keep) (\<lambda>narrowed.
    LambdaSigCreateFromSignature tc format_type_be c (Some narrowed)))"

section \<open>Canonical form and reference printer\<close>

text \<open>
  What a key keeps of a signature: not the parse locations, not the OID of a function type and
  not the signature pointer of a scalar type. \<open>complete_sig\<close> holds of the trees in which no pointer
  that printing follows is NULL, and \<open>key_sig\<close> prints them without a buffer.
\<close>

fun canon_sig :: "LambdaSignature \<Rightarrow> LambdaSignature"
  and canon_typ :: "LambdaSigType \<Rightarrow> LambdaSigType" where
  "canon_sig (LambdaSignature args rt loc) = LambdaSignature (map canon_typ args) (map_option canon_typ rt) (- 1)"
| "canon_typ (LambdaSigType isf toid sig loc) =
    (if isf then LambdaSigType True InvalidOid (map_option canon_sig sig) (- 1)
     else LambdaSigType False toid None (- 1))"

fun complete_sig :: "LambdaSignature \<Rightarrow> bool"
  and complete_typ :: "LambdaSigType \<Rightarrow> bool" where
  "complete_sig (LambdaSignature args rt loc) \<longleftrightarrow>
    (\<forall>t \<in> set args. complete_typ t) \<and> (case rt of None \<Rightarrow> False | Some r \<Rightarrow> complete_typ r)"
| "complete_typ (LambdaSigType isf toid sig loc) \<longleftrightarrow>
    (isf \<longrightarrow> (case sig of None \<Rightarrow> False | Some s \<Rightarrow> complete_sig s))"

fun key_sig :: "LambdaSignature \<Rightarrow> string"
  and key_args :: "LambdaSigType list \<Rightarrow> string"
  and key_typ :: "LambdaSigType \<Rightarrow> string" where
  "key_sig (LambdaSignature args rt loc) =
    ''('' @ key_args args @ '')->'' @ (case rt of None \<Rightarrow> [] | Some r \<Rightarrow> key_typ r)"
| "key_args [] = []"
| "key_args [t] = key_typ t"
| "key_args (t # t' # ts) = key_typ t @ '','' @ key_args (t' # ts)"
| "key_typ (LambdaSigType isf toid sig loc) =
    (if isf then (case sig of None \<Rightarrow> [] | Some s \<Rightarrow> key_sig s) else show_nat (unat toid))"

lemma append_key:
  "complete_sig s \<Longrightarrow> LambdaSigAppendKey buf s = Inr (buf @ key_sig s)"
  "\<forall>t \<in> set ts. complete_typ t \<Longrightarrow>
     LambdaSigAppendKeyArgs buf first ts = Inr (buf @ (if first \<or> ts = [] then [] else '','') @ key_args ts)"
  "complete_typ t \<Longrightarrow> LambdaSigTypeAppendKey buf t = Inr (buf @ key_typ t)"
proof (induction buf s and buf first ts and buf t
    rule: LambdaSigAppendKey_LambdaSigAppendKeyArgs_LambdaSigTypeAppendKey.induct)
  case (1 buf args rt loc)
  then obtain r where "rt = Some r" by (auto split: option.splits)
  with 1 "1.IH"(2) [of "buf @ ''('' @ key_args args" r] show ?case by simp
next
  case (3 buf first t ts)
  then show ?case by (cases ts) auto
qed (auto split: option.splits)

lemma append_source_total:
  "complete_sig s \<Longrightarrow> \<exists>out. LambdaSigAppendSource fmt buf s = Inr out"
  "\<forall>t \<in> set ts. complete_typ t \<Longrightarrow> \<exists>out. LambdaSigAppendSourceArgs fmt buf first ts = Inr out"
  "complete_typ t \<Longrightarrow> \<exists>out. LambdaSigTypeAppendSource fmt buf t = Inr out"
proof (induction fmt buf s and fmt buf first ts and fmt buf t
    rule: LambdaSigAppendSource_LambdaSigAppendSourceArgs_LambdaSigTypeAppendSource.induct)
  case (1 fmt buf args rt loc)
  then show ?case by (fastforce split: option.splits)
next
  case (3 fmt buf first t ts)
  then show ?case by fastforce
qed (auto split: option.splits)

lemma validated_complete:
  "LambdaSigValidateSignature tc s = Inr () \<Longrightarrow> complete_sig s"
  "LambdaSigValidateArgs tc ts = Inr () \<Longrightarrow> \<forall>t \<in> set ts. complete_typ t"
  "LambdaSigValidateType tc t = Inr () \<Longrightarrow> complete_typ t"
  by (induction tc s and tc ts and tc t
      rule: LambdaSigValidateSignature_LambdaSigValidateArgs_LambdaSigValidateType.induct)
    (auto simp: result_simps split: option.splits if_splits)

lemma validate_canon [simp]:
  "LambdaSigValidateSignature tc (canon_sig s) = LambdaSigValidateSignature tc s"
  "LambdaSigValidateArgs tc (map canon_typ ts) = LambdaSigValidateArgs tc ts"
  "LambdaSigValidateType tc (canon_typ t) = LambdaSigValidateType tc t"
proof (induction tc s and tc ts and tc t
    rule: LambdaSigValidateSignature_LambdaSigValidateArgs_LambdaSigValidateType.induct)
  case (4 tc isf toid sig loc)
  then show ?case by (cases sig) (auto simp: LambdaSigCheckScalarOid_def)
qed (auto split: option.splits intro!: rbind_cong)

lemma canon_idem [simp]: "canon_sig (canon_sig s) = canon_sig s" "canon_typ (canon_typ t) = canon_typ t"
  by (induction s and t rule: canon_sig_canon_typ.induct) (auto simp: option.map_comp cong: option.map_cong_simp)

lemma complete_canon [simp]: "complete_sig (canon_sig s) = complete_sig s" "complete_typ (canon_typ t) = complete_typ t"
  by (induction s and t rule: canon_sig_canon_typ.induct) (auto split: option.splits)

lemma key_canon [simp]:
  "key_sig (canon_sig s) = key_sig s" "key_args (map canon_typ ts) = key_args ts" "key_typ (canon_typ t) = key_typ t"
  by (induction s and ts and t rule: key_sig_key_args_key_typ.induct) (auto split: option.splits)

section \<open>Parsing what was printed\<close>

definition at :: "LambdaSigParser \<Rightarrow> string \<Rightarrow> bool" where
  "at p s \<longleftrightarrow> drop (ptr p) (start p) = s"

definition adv :: "LambdaSigParser \<Rightarrow> nat \<Rightarrow> LambdaSigParser" where
  "adv p n = p\<lparr>ptr := ptr p + n\<rparr>"

lemma adv_adv [simp]: "adv (adv p m) n = adv p (m + n)"
  by (simp add: adv_def add.assoc)

lemma at_adv: "at p (xs @ ys) \<Longrightarrow> at (adv p (length xs)) ys"
  by (simp add: at_def adv_def drop_eq_appendD)

lemma at_adv1: "at p (c # ys) \<Longrightarrow> at (adv p 1) ys"
  using at_adv [of p "[c]" ys] by simp

lemma deref_at: "at p (c # s) \<Longrightarrow> deref p = c"
  by (auto simp: at_def deref_def dest: drop_eq_ConsD)

lemma deref_end: "at p [] \<Longrightarrow> deref p = NUL"
  by (simp add: at_def deref_def)

lemma Consume_at: "at p (c # s) \<Longrightarrow> LambdaSigConsume p ch = (if c = ch then (True, adv p 1) else (False, p))"
  by (simp add: LambdaSigConsume_def deref_at adv_def)

lemma Expect_at: "at p (c # s) \<Longrightarrow> LambdaSigExpect p c = Inr (adv p 1)"
  by (simp add: LambdaSigExpect_def Consume_at)

definition no_digit :: "string \<Rightarrow> bool" where
  "no_digit rest \<longleftrightarrow> rest = [] \<or> \<not> is_digit (hd rest)"

lemma no_digit_simps [simp]: "no_digit []" "no_digit (CHR '')'' # s)" "no_digit (CHR '','' # s)"
  by (simp_all add: no_digit_def is_digit_def)

lemma ParseOid_at:
  assumes "at p (show_nat (unat toid) @ rest)" "no_digit rest"
  shows "LambdaSigParseOid p = Inr (toid, adv p (length (show_nat (unat toid))))"
proof -
  let ?d = "show_nat (unat toid)"
  have tw: "takeWhile is_digit (drop (ptr p) (start p)) = ?d"
    using assms takeWhile_is_digit_show_nat [of rest] by (simp add: at_def no_digit_def)
  have "deref p = hd ?d"
    using assms(1) by (cases ?d) (auto simp: deref_at)
  moreover have "int (unat toid) \<le> PG_UINT32_MAX"
    using unat_oid_less [of toid] unfolding PG_UINT32_MAX_def by linarith
  ultimately show ?thesis
    using unat_oid_less [of toid] by (auto simp: LambdaSigParseOid_def strtoul_def tw ULONG_MAX_def PG_UINT32_MAX_def adv_def Let_def)
qed

lemma key_typ_Cons:
  assumes "complete_typ t"
  obtains c s where "key_typ t = c # s" "c = CHR ''('' \<or> is_digit c"
proof (cases t)
  case (LambdaSigType isf toid sig loc)
  show thesis
  proof (cases isf)
    case True
    with assms LambdaSigType obtain s where "sig = Some s" by (auto split: option.splits)
    with True LambdaSigType that show thesis by (cases s) auto
  next
    case False
    with LambdaSigType that is_digit_hd_show_nat [of "unat toid"] show thesis
      by (cases "show_nat (unat toid)") auto
  qed
qed

lemma not_digit [simp]: "\<not> is_digit CHR '')''" "\<not> is_digit CHR ''(''"
  by (simp_all add: is_digit_def)

lemma key_args_Cons:
  assumes "complete_typ t"
  obtains c s where "key_args (t # ts) = c # s" "c \<noteq> CHR '')''"
proof -
  obtain c s where "key_typ t = c # s" "c = CHR ''('' \<or> is_digit c"
    using key_typ_Cons [OF assms] .
  moreover from this(2) have "c \<noteq> CHR '')''" by auto
  ultimately show thesis using that by (cases ts) auto
qed

lemma parse_key_sig:
  "complete_sig s \<Longrightarrow> at p (key_sig s @ rest) \<Longrightarrow> no_digit rest \<Longrightarrow>
     LambdaSigParseSignature p = Inr (canon_sig s, adv p (length (key_sig s)))"
  "ts \<noteq> [] \<Longrightarrow> \<forall>t \<in> set ts. complete_typ t \<Longrightarrow> at p (key_args ts @ CHR '')'' # rest) \<Longrightarrow>
     LambdaSigParseArgs acc p = Inr (acc @ map canon_typ ts, adv p (length (key_args ts) + 1))"
  "complete_typ t \<Longrightarrow> at p (key_typ t @ rest) \<Longrightarrow> no_digit rest \<Longrightarrow>
     LambdaSigParseType p = Inr (canon_typ t, adv p (length (key_typ t)))"
proof (induction s and ts and t arbitrary: p rest and p rest acc and p rest
    rule: key_sig_key_args_key_typ.induct)
  case (1 args rt loc)
  then obtain r where r: "rt = Some r" "complete_typ r" "\<forall>t \<in> set args. complete_typ t"
    by (auto split: option.splits)
  let ?p1 = "adv p 1" and ?p2 = "adv p (2 + length (key_args args))"
  have p1: "at ?p1 (key_args args @ CHR '')'' # ''->'' @ key_typ r @ rest)"
    using "1.prems"(2) r at_adv1 by fastforce
  have p2: "at ?p2 (CHR ''-'' # CHR ''>'' # key_typ r @ rest)"
    using at_adv1 [OF at_adv [OF p1]] by simp
  have args: "(case LambdaSigConsume ?p1 CHR '')'' of (True, p) \<Rightarrow> Inr ([], p)
      | (False, p) \<Rightarrow> LambdaSigParseArgs [] p) = Inr (map canon_typ args, ?p2)"
  proof (cases args)
    case Nil
    with p1 show ?thesis by (simp add: Consume_at numeral_2_eq_2)
  next
    case (Cons t ts)
    then obtain c s where "key_args args = c # s" "c \<noteq> CHR '')''"
      using key_args_Cons r(3) by (metis list.set_intros(1))
    with p1 "1.IH"(1) [OF _ r(3) p1] Cons show ?thesis by (simp add: Consume_at)
  qed
  have p4: "at (adv p (4 + length (key_args args))) (key_typ r @ rest)"
    using at_adv1 [OF at_adv1 [OF p2]] by (simp add: algebra_simps eval_nat_numeral)
  have "LambdaSigParseType (adv p (4 + length (key_args args)))
      = Inr (canon_typ r, adv p (4 + length (key_args args) + length (key_typ r)))"
    using "1.IH"(2) [OF r(1,2) p4 "1.prems"(3)] by simp
  moreover have "LambdaSigExpect p CHR ''('' = Inr ?p1"
    using "1.prems"(2) by (simp add: Expect_at)
  moreover have "LambdaSigExpect ?p2 CHR ''-'' = Inr (adv p (3 + length (key_args args)))"
    using Expect_at [OF p2] by (simp add: algebra_simps eval_nat_numeral)
  moreover have "LambdaSigExpect (adv p (3 + length (key_args args))) CHR ''>''
      = Inr (adv p (4 + length (key_args args)))"
    using Expect_at [OF at_adv1 [OF p2]] by (simp add: algebra_simps eval_nat_numeral)
  ultimately show ?case
    using args r by (simp add: LambdaSigParseSignature.simps [of p] algebra_simps eval_nat_numeral)
next
  case (3 t)
  let ?p1 = "adv p (length (key_typ t))"
  have "LambdaSigParseType p = Inr (canon_typ t, ?p1)"
    using "3.IH" [of p "CHR '')'' # rest"] "3.prems" by simp
  moreover have "at ?p1 (CHR '')'' # rest)"
    using "3.prems"(3) at_adv by simp
  ultimately show ?case
    by (simp add: LambdaSigParseArgs.simps [of acc p] Consume_at Expect_at)
next
  case (4 t t' ts)
  let ?p1 = "adv p (length (key_typ t))"
  have p: "at p (key_typ t @ CHR '','' # key_args (t' # ts) @ CHR '')'' # rest)"
    using "4.prems"(3) by simp
  have "LambdaSigParseType p = Inr (canon_typ t, ?p1)"
    using "4.IH"(1) [OF _ p] "4.prems"(2) by simp
  moreover have p1: "at ?p1 (CHR '','' # key_args (t' # ts) @ CHR '')'' # rest)"
    using at_adv [OF p] .
  moreover have "LambdaSigParseArgs (acc @ [canon_typ t]) (adv ?p1 1)
      = Inr ((acc @ [canon_typ t]) @ map canon_typ (t' # ts), adv (adv ?p1 1) (length (key_args (t' # ts)) + 1))"
    using "4.IH"(2) [OF _ _ at_adv1 [OF p1]] "4.prems"(2) by simp
  ultimately show ?case
    by (simp add: LambdaSigParseArgs.simps [of acc p] Consume_at algebra_simps eval_nat_numeral)
next
  case (5 isf toid sig loc)
  show ?case
  proof (cases isf)
    case True
    with "5.prems"(1) obtain s where s: "sig = Some s" "complete_sig s" by (auto split: option.splits)
    have "deref p = CHR ''(''"
      using "5.prems"(2) s True by (cases s) (simp add: deref_at)
    with "5.IH" [OF True s(1) s(2)] "5.prems" s True show ?thesis
      by (simp add: LambdaSigParseType.simps [of p])
  next
    case False
    then have *: "at p (show_nat (unat toid) @ rest)" using "5.prems"(2) by simp
    then have "deref p = hd (show_nat (unat toid))"
      by (cases "show_nat (unat toid)") (auto simp: deref_at)
    then have "deref p \<noteq> CHR ''(''" by (metis is_digit_hd_show_nat not_digit(2))
    with ParseOid_at [OF * "5.prems"(3)] False show ?thesis
      by (simp add: LambdaSigParseType.simps [of p])
  qed
qed simp

lemma ParseKey_key_sig:
  assumes "LambdaSigValidateSignature tc s = Inr ()"
  shows "LambdaSigParseKey tc (Some (key_sig s)) sigsrc = Inr (canon_sig s)"
proof -
  let ?p = "\<lparr>start = key_sig s, ptr = 0, src = sigsrc\<rparr>"
  have "at ?p (key_sig s @ [])" by (simp add: at_def)
  then have "LambdaSigParseSignature ?p = Inr (canon_sig s, adv ?p (length (key_sig s)))"
    by (rule parse_key_sig(1) [OF validated_complete(1) [OF assms]]) simp
  moreover have "deref (adv ?p (length (key_sig s))) = NUL"
    by (rule deref_end) (simp add: at_def adv_def)
  ultimately show ?thesis using assms by (simp add: LambdaSigParseKey_def)
qed

section \<open>Allocation of OIDs\<close>

text \<open>The \<open>i\<close>-th candidate counts modulo the number of normal OIDs from the position of the counter.\<close>

definition oid_range :: nat where "oid_range = 4294950912"

definition oid_pos :: "catalog \<Rightarrow> nat" where
  "oid_pos c = unat (fst (GetNewObjectId c)) - 16384"

definition oid_candidate :: "catalog \<Rightarrow> nat \<Rightarrow> oid" where
  "oid_candidate c i = word_of_nat (16384 + (oid_pos c + i) mod oid_range)"

lemma GetNewObjectId_ge: "16384 \<le> unat (fst (GetNewObjectId c))"
  by (auto simp: GetNewObjectId_def Let_def FirstNormalObjectId_def word_less_nat_alt)

lemma oid_pos_less: "oid_pos c < oid_range"
  using unat_oid_less [of "fst (GetNewObjectId c)"] GetNewObjectId_ge [of c]
  by (simp add: oid_pos_def oid_range_def)

lemma oid_candidate_0: "fst (GetNewObjectId c) = oid_candidate c 0"
  using GetNewObjectId_ge [of c] oid_pos_less [of c] by (simp add: oid_candidate_def oid_pos_def)

lemma oid_pos_step: "oid_pos (snd (GetNewObjectId c)) = Suc (oid_pos c) mod oid_range"
proof -
  let ?o = "fst (GetNewObjectId c)"
  have nxt: "nextOid (snd (GetNewObjectId c)) = ?o + 1"
    by (simp add: GetNewObjectId_def Let_def)
  show ?thesis
  proof (cases "?o = 4294967295")
    case True
    then have "nextOid (snd (GetNewObjectId c)) = 0" unfolding nxt True by simp
    then have "oid_pos (snd (GetNewObjectId c)) = 0"
      by (simp add: oid_pos_def GetNewObjectId_def Let_def FirstNormalObjectId_def)
    with True show ?thesis by (simp add: oid_pos_def oid_range_def)
  next
    case False
    then have lt: "unat ?o < 4294967295"
      using unat_oid_less [of ?o] by (simp add: word_unat_eq_iff)
    then have "unat (?o + 1) = Suc (unat ?o)"
      by (simp add: unat_word_ariths)
    with GetNewObjectId_ge [of c] lt show ?thesis
      by (auto simp: oid_pos_def GetNewObjectId_def [of "snd (GetNewObjectId c)"] nxt Let_def
          FirstNormalObjectId_def word_less_nat_alt oid_range_def)
  qed
qed

lemma GetNewObjectId_rows [simp]: "all_rows (snd (GetNewObjectId c)) = all_rows c"
  by (simp add: GetNewObjectId_def Let_def all_rows_def)

lemma GetNewOid_loop_Suc:
  "GetNewOid_loop (Suc fuel) c =
    (if fst (GetNewObjectId c) \<in> set (map row_oid (all_rows c))
     then GetNewOid_loop fuel (snd (GetNewObjectId c)) else Inr (GetNewObjectId c))"
  using GetNewObjectId_rows [of c] by (cases "GetNewObjectId c") simp

declare GetNewOid_loop.simps(2) [simp del]

lemma GetNewOid_loop_candidates:
  "GetNewOid_loop fuel c = Inl e \<Longrightarrow> i < fuel \<Longrightarrow> oid_candidate c i \<in> set (map row_oid (all_rows c))"
proof (induction fuel arbitrary: c i)
  case (Suc fuel)
  let ?c' = "snd (GetNewObjectId c)"
  from Suc.prems(1) have here: "oid_candidate c 0 \<in> set (map row_oid (all_rows c))"
    and more: "GetNewOid_loop fuel ?c' = Inl e"
    using oid_candidate_0 [of c] by (simp_all add: GetNewOid_loop_Suc split: if_splits)
  show ?case
  proof (cases i)
    case 0
    with here show ?thesis by simp
  next
    case (Suc j)
    have "oid_candidate c i = oid_candidate ?c' j"
      by (simp add: oid_candidate_def oid_pos_step Suc mod_simps)
    with Suc.IH [OF more, of j] Suc.prems(2) Suc show ?thesis by simp
  qed
qed simp

lemma oid_candidate_inj: "inj_on (oid_candidate c) {..<oid_range}"
proof (rule inj_onI)
  fix i j
  assume ij: "i \<in> {..<oid_range}" "j \<in> {..<oid_range}" and eq: "oid_candidate c i = oid_candidate c j"
  have "unat (oid_candidate c k) = 16384 + (oid_pos c + k) mod oid_range" for k
  proof -
    have "16384 + (oid_pos c + k) mod oid_range < 2 ^ 32"
      using mod_less_divisor [of oid_range "oid_pos c + k"] by (simp add: oid_range_def)
    then show ?thesis unfolding oid_candidate_def unat_of_nat by simp
  qed
  with eq have "(oid_pos c + i) mod oid_range = (oid_pos c + j) mod oid_range" by (metis add_left_cancel)
  moreover have "(oid_pos c + k) mod oid_range =
      (if oid_pos c + k < oid_range then oid_pos c + k else oid_pos c + k - oid_range)"
    if "k \<in> {..<oid_range}" for k
    using that oid_pos_less [of c] by (auto simp: mod_if)
  ultimately show "i = j"
    using ij oid_pos_less [of c] by (auto split: if_splits)
qed

lemma GetNewOid_loop_result:
  "GetNewOid_loop fuel c = Inr (newoid, c') \<Longrightarrow>
     newoid \<notin> set (map row_oid (all_rows c)) \<and> newoid \<noteq> InvalidOid \<and> (\<exists>n. c' = c\<lparr>nextOid := n\<rparr>)"
proof (induction fuel arbitrary: c)
  case (Suc fuel)
  let ?c1 = "snd (GetNewObjectId c)"
  have c1: "?c1 = c\<lparr>nextOid := nextOid ?c1\<rparr>" by (simp add: GetNewObjectId_def Let_def)
  show ?case
  proof (cases "fst (GetNewObjectId c) \<in> set (map row_oid (all_rows c))")
    case True
    with Suc.prems have "GetNewOid_loop fuel ?c1 = Inr (newoid, c')"
      by (simp add: GetNewOid_loop_Suc)
    from Suc.IH [OF this] c1 show ?thesis
      by (metis (no_types, lifting) GetNewObjectId_rows catalog.update_convs(3) catalog.surjective)
  next
    case False
    with Suc.prems have "newoid = fst (GetNewObjectId c)" "c' = ?c1"
      by (auto simp: GetNewOid_loop_Suc)
    with False c1 GetNewObjectId_ge [of c] show ?thesis by fastforce
  qed
qed simp

lemma GetNewOidWithIndex_fresh:
  assumes "length (all_rows c) < oid_range"
  obtains newoid n where "GetNewOidWithIndex c = Inr (newoid, c\<lparr>nextOid := n\<rparr>)"
    "newoid \<notin> set (map row_oid (all_rows c))" "newoid \<noteq> InvalidOid"
proof (cases "GetNewOidWithIndex c")
  case (Inl e)
  let ?n = "Suc (length (all_rows c))"
  have "oid_candidate c ` {..<?n} \<subseteq> set (map row_oid (all_rows c))"
    using GetNewOid_loop_candidates Inl by (fastforce simp: GetNewOidWithIndex_def)
  then have "card (oid_candidate c ` {..<?n}) \<le> length (all_rows c)"
    by (metis List.finite_set card_length card_mono length_map order_trans)
  moreover have "card (oid_candidate c ` {..<?n}) = ?n"
    using assms card_image [OF inj_on_subset [OF oid_candidate_inj [of c], of "{..<?n}"]] by simp
  ultimately show thesis by simp
next
  case (Inr r)
  with that show thesis
    by (cases r) (auto simp: GetNewOidWithIndex_def dest!: GetNewOid_loop_result)
qed

section \<open>The catalog invariant\<close>

text \<open>
  Between commands nothing is pending, the three unique indexes hold, typmods are in the range of
  a non-negative \<open>int32\<close>, and every key is the canonical print of a valid signature.
\<close>

definition canonical_key :: "type_cache \<Rightarrow> string \<Rightarrow> bool" where
  "canonical_key tc k \<longleftrightarrow> (case LambdaSigParseKey tc (Some k) None of Inl _ \<Rightarrow> False | Inr s \<Rightarrow> key_sig s = k)"

definition row_ok :: "type_cache \<Rightarrow> FormData_pg_lambdasig \<Rightarrow> bool" where
  "row_ok tc r \<longleftrightarrow> 0 \<le> lamsigid r \<and> lamsigid r \<le> PG_INT32_MAX \<and> lamsigsrc r \<noteq> None \<and>
     (case lamsigkey r of None \<Rightarrow> False | Some k \<Rightarrow> canonical_key tc k)"

definition catalog_inv :: "type_cache \<Rightarrow> catalog \<Rightarrow> bool" where
  "catalog_inv tc c \<longleftrightarrow> pending c = [] \<and> distinct (map row_oid (visible c)) \<and>
     distinct (map lamsigid (visible c)) \<and> distinct (map lamsigkey (visible c)) \<and>
     list_all (row_ok tc) (visible c)"

definition max_typmod :: "catalog \<Rightarrow> int" where
  "max_typmod c = fold (\<lambda>form maxid. if lamsigid form > maxid then lamsigid form else maxid) (visible c) (- 1)"

lemma fold_max_bounds:
  fixes rows :: "FormData_pg_lambdasig list"
  defines "upd \<equiv> \<lambda>form maxid. if lamsigid form > maxid then lamsigid form else maxid"
  shows "m0 \<le> fold upd rows m0" "\<forall>r \<in> set rows. lamsigid r \<le> fold upd rows m0"
    "fold upd rows m0 = m0 \<or> fold upd rows m0 \<in> lamsigid ` set rows"
proof (induction rows arbitrary: m0)
  case (Cons r rows)
  case 1 show ?case using Cons(1) [of "upd r m0"] by (auto simp: upd_def split: if_splits)
  case 2 show ?case using Cons(1) [of "upd r m0"] Cons(2) [of "upd r m0"] by (auto simp: upd_def split: if_splits)
  case 3 show ?case using Cons(3) [of "upd r m0"] by (auto simp: upd_def split: if_splits)
qed simp_all

lemma max_typmod_ge: "r \<in> set (visible c) \<Longrightarrow> lamsigid r \<le> max_typmod c"
  using fold_max_bounds(2) [of "visible c"] by (simp add: max_typmod_def)

lemma max_typmod_range:
  assumes "catalog_inv tc c" shows "- 1 \<le> max_typmod c" "max_typmod c \<le> PG_INT32_MAX"
  using assms fold_max_bounds(1) [of "- 1" "visible c"] fold_max_bounds(3) [of "visible c" "- 1"]
  by (auto simp: catalog_inv_def row_ok_def list_all_iff PG_INT32_MAX_def max_typmod_def)

lemma catalog_length:
  assumes "catalog_inv tc c" shows "length (visible c) < oid_range"
proof -
  have "set (map lamsigid (visible c)) \<subseteq> {0..PG_INT32_MAX}"
    using assms by (auto simp: catalog_inv_def row_ok_def list_all_iff)
  then have "card (set (map lamsigid (visible c))) \<le> card {0..PG_INT32_MAX}"
    by (rule card_mono [rotated]) simp
  moreover have "card (set (map lamsigid (visible c))) = length (visible c)"
    using assms by (metis catalog_inv_def distinct_card length_map)
  ultimately show ?thesis by (simp add: PG_INT32_MAX_def oid_range_def)
qed

lemma canonical_keyE:
  assumes "canonical_key tc k"
  obtains s where "k = key_sig s" "LambdaSigValidateSignature tc s = Inr ()" "canon_sig s = s"
proof -
  from assms obtain s where s: "LambdaSigParseKey tc (Some k) None = Inr s" "key_sig s = k"
    by (auto simp: canonical_key_def split: sum.splits)
  then have v: "LambdaSigValidateSignature tc s = Inr ()"
    by (auto simp: LambdaSigParseKey_def result_simps split: if_splits)
  with ParseKey_key_sig [of tc s] s have "canon_sig s = s" by (metis sum.inject(2))
  with s v that show thesis by blast
qed

lemma canonical_key_sig: "LambdaSigValidateSignature tc s = Inr () \<Longrightarrow> canonical_key tc (key_sig s)"
  by (simp add: canonical_key_def ParseKey_key_sig)

lemma key_sig_eq_iff:
  assumes "LambdaSigValidateSignature tc s = Inr ()" "LambdaSigValidateSignature tc s' = Inr ()"
  shows "key_sig s = key_sig s' \<longleftrightarrow> canon_sig s = canon_sig s'"
  using ParseKey_key_sig [OF assms(1)] ParseKey_key_sig [OF assms(2)] by (metis key_canon(1) sum.inject(2))

section \<open>Creation of a row\<close>

lemma lookup_scan_found:
  "r \<in> set rows \<Longrightarrow> lamsigkey r = Some k \<Longrightarrow> distinct (map lamsigkey rows) \<Longrightarrow>
     list_all (row_ok tc) rows \<Longrightarrow> lookup_scan rows k = Inr (lamsigid r)"
proof (induction rows)
  case (Cons r' rows)
  from Cons.prems obtain k' where "lamsigkey r' = Some k'" by (auto simp: row_ok_def split: option.splits)
  with Cons show ?case by (auto simp: image_iff)
qed simp

lemma lookup_scan_absent:
  "Some k \<notin> set (map lamsigkey rows) \<Longrightarrow> list_all (row_ok tc) rows \<Longrightarrow> lookup_scan rows k = Inr (- 1)"
  by (induction rows) (auto simp: row_ok_def split: option.splits)

lemma create_found:
  assumes "catalog_inv tc c" "r \<in> set (visible c)" "lamsigkey r = Some k"
  shows "LambdaSigCreate c k sigsrc = Inr (lamsigid r, c)"
proof -
  have "lookup_scan (visible c) k = Inr (lamsigid r)" "0 \<le> lamsigid r"
    using assms lookup_scan_found [OF assms(2,3)] by (auto simp: catalog_inv_def list_all_iff row_ok_def)
  then show ?thesis by (simp add: LambdaSigCreate_def LambdaSigLookupTypmodByKeyInRelation_def)
qed

lemma create_full:
  assumes "catalog_inv tc c" "Some k \<notin> set (map lamsigkey (visible c))" "max_typmod c = PG_INT32_MAX"
  shows "LambdaSigCreate c k sigsrc = Inl (Ereport ERRCODE_PROGRAM_LIMIT_EXCEEDED ''too many lambda signatures'')"
  using assms lookup_scan_absent [OF assms(2), of tc]
  by (simp add: LambdaSigCreate_def LambdaSigLookupTypmodByKeyInRelation_def LambdaSigAllocateTypmod_def
      catalog_inv_def max_typmod_def)

lemma create_new:
  assumes inv: "catalog_inv tc c" and k: "Some k \<notin> set (map lamsigkey (visible c))"
    and room: "max_typmod c \<noteq> PG_INT32_MAX"
  obtains row n where
    "LambdaSigCreate c k sigsrc = (case insert_error c row of Some e \<Rightarrow> Inl e
       | None \<Rightarrow> Inr (lamsigid row, c\<lparr>visible := visible c @ [row], pending := [], nextOid := n\<rparr>))"
    "row_oid row \<notin> set (map row_oid (visible c))" "lamsigid row \<notin> set (map lamsigid (visible c))"
    "lamsigid row = max_typmod c + 1" "lamsigkey row = Some k" "lamsigsrc row = Some sigsrc"
proof -
  have rows: "all_rows c = visible c" and p: "pending c = []"
    using inv by (simp_all add: all_rows_def catalog_inv_def)
  obtain newoid n where new: "GetNewOidWithIndex c = Inr (newoid, c\<lparr>nextOid := n\<rparr>)"
    "newoid \<notin> set (map row_oid (visible c))"
    using GetNewOidWithIndex_fresh [of c] catalog_length [OF inv] rows by metis
  let ?row = "\<lparr>row_oid = newoid, lamsigid = max_typmod c + 1, lamsigkey = Some k, lamsigsrc = Some sigsrc\<rparr>"
  have id: "max_typmod c + 1 \<notin> set (map lamsigid (visible c))"
    using max_typmod_ge [of _ c] by fastforce
  have "LambdaSigLookupTypmodByKeyInRelation c k = Inr (- 1)"
    using lookup_scan_absent [OF k, of tc] inv by (simp add: LambdaSigLookupTypmodByKeyInRelation_def catalog_inv_def)
  moreover have "LambdaSigAllocateTypmod c = Inr (max_typmod c + 1)"
    using room by (simp add: LambdaSigAllocateTypmod_def max_typmod_def)
  moreover have "all_rows (c\<lparr>nextOid := n\<rparr>) = visible c"
    using rows by (simp add: all_rows_def)
  ultimately have "LambdaSigCreate c k sigsrc = (case insert_error c ?row of Some e \<Rightarrow> Inl e
      | None \<Rightarrow> Inr (lamsigid ?row, c\<lparr>visible := visible c @ [?row], pending := [], nextOid := n\<rparr>))"
    using new id k p
    by (cases "insert_error c ?row") (simp_all add: LambdaSigCreate_def CatalogTupleInsert_def CommandCounterIncrement_def)
  then show thesis by (rule that) (use new(2) id in simp_all)
qed

lemma create_from_valid:
  assumes "LambdaSigValidateSignature tc s = Inr ()"
  obtains sigsrc where "LambdaSigCreateFromSignature tc fmt c (Some s) = LambdaSigCreate c (key_sig s) sigsrc"
proof -
  have comp: "complete_sig s" using validated_complete(1) [OF assms] .
  obtain out where "LambdaSigAppendSource fmt [] s = Inr out"
    using append_source_total(1) [OF comp] by blast
  with that assms append_key(1) [OF comp, of "[]"] show thesis
    by (simp add: LambdaSigCreateFromSignature_def)
qed

lemma create_success_valid:
  assumes "LambdaSigCreateFromSignature tc fmt c sig = Inr r"
  obtains s where "sig = Some s" "LambdaSigValidateSignature tc s = Inr ()"
  using assms by (auto simp: LambdaSigCreateFromSignature_def result_simps split: option.splits)

lemma row_of_typmod:
  assumes "catalog_inv tc c" "LambdaSigGetSignature tc c t = Inr x"
  obtains r where "r \<in> set (visible c)" "lamsigid r = t" "lamsigkey r = Some (key_sig x)" "canon_sig x = x"
    "LambdaSigValidateSignature tc x = Inr ()"
proof -
  from assms(2) obtain r k sigsrc where r: "SearchSysCache_LAMBDASIGID c t = Some r" "lamsigkey r = Some k"
    and x: "LambdaSigParseKey tc (Some k) (Some sigsrc) = Inr x"
    by (auto simp: LambdaSigGetSignature_def LambdaSigGetKey_def LambdaSigGetSource_def result_simps
        split: if_splits option.splits)
  from r have mem: "r \<in> set (visible c)" "lamsigid r = t"
    by (auto simp: SearchSysCache_LAMBDASIGID_def find_Some_iff in_set_conv_nth)
  with assms(1) r have "canonical_key tc k"
    by (auto simp: catalog_inv_def list_all_iff row_ok_def)
  then obtain s where s: "k = key_sig s" "LambdaSigValidateSignature tc s = Inr ()" "canon_sig s = s"
    by (rule canonical_keyE)
  with x ParseKey_key_sig [of tc s] have "x = s" by simp
  with that mem r s show thesis by blast
qed

lemma get_signature_row:
  assumes "catalog_inv tc c" "r \<in> set (visible c)" "lamsigkey r = Some (key_sig s)"
    "LambdaSigValidateSignature tc s = Inr ()"
  shows "LambdaSigGetSignature tc c (lamsigid r) = Inr (canon_sig s)"
proof -
  have "find (\<lambda>form. lamsigid form = lamsigid r) rows = Some r"
    if "r \<in> set rows" "distinct (map lamsigid rows)" for rows
    using that by (induction rows) (auto simp: image_iff)
  then have "SearchSysCache_LAMBDASIGID c (lamsigid r) = Some r"
    using assms(1,2) by (simp add: SearchSysCache_LAMBDASIGID_def catalog_inv_def)
  moreover obtain sigsrc where "lamsigsrc r = Some sigsrc" "0 \<le> lamsigid r"
    using assms(1,2) by (auto simp: catalog_inv_def list_all_iff row_ok_def)
  ultimately show ?thesis
    using assms ParseKey_key_sig [OF assms(4)]
    by (simp add: LambdaSigGetSignature_def LambdaSigGetKey_def LambdaSigGetSource_def)
qed

text \<open>The four outcomes of interning a valid signature, for the proofs below.\<close>

lemma create_from_cases [consumes 2, case_names found full failed new]:
  assumes inv: "catalog_inv tc c" and v: "LambdaSigValidateSignature tc s = Inr ()"
  obtains
    (found) r where "r \<in> set (visible c)" "lamsigkey r = Some (key_sig s)"
      "LambdaSigCreateFromSignature tc fmt c (Some s) = Inr (lamsigid r, c)"
  | (full) "Some (key_sig s) \<notin> set (map lamsigkey (visible c))" "max_typmod c = PG_INT32_MAX"
      "LambdaSigCreateFromSignature tc fmt c (Some s) =
         Inl (Ereport ERRCODE_PROGRAM_LIMIT_EXCEEDED ''too many lambda signatures'')"
  | (failed) row e where "insert_error c row = Some e" "lamsigkey row = Some (key_sig s)"
      "Some (key_sig s) \<notin> set (map lamsigkey (visible c))"
      "LambdaSigCreateFromSignature tc fmt c (Some s) = Inl e"
  | (new) row n where "LambdaSigCreateFromSignature tc fmt c (Some s) =
        Inr (lamsigid row, c\<lparr>visible := visible c @ [row], pending := [], nextOid := n\<rparr>)"
      "lamsigid row = max_typmod c + 1" "lamsigkey row = Some (key_sig s)"
      "Some (key_sig s) \<notin> set (map lamsigkey (visible c))"
      "catalog_inv tc (c\<lparr>visible := visible c @ [row], pending := [], nextOid := n\<rparr>)"
proof -
  obtain sigsrc where eq: "LambdaSigCreateFromSignature tc fmt c (Some s) = LambdaSigCreate c (key_sig s) sigsrc"
    using create_from_valid [OF v] .
  show thesis
  proof (cases "Some (key_sig s) \<in> set (map lamsigkey (visible c))")
    case True
    then obtain r where r: "r \<in> set (visible c)" "lamsigkey r = Some (key_sig s)" by auto
    with found eq create_found [OF inv r] show thesis by metis
  next
    case absent: False
    show thesis
    proof (cases "max_typmod c = PG_INT32_MAX")
      case True
      with absent full eq create_full [OF inv absent True] show thesis by metis
    next
      case False
      obtain row n where create: "LambdaSigCreate c (key_sig s) sigsrc = (case insert_error c row of Some e \<Rightarrow> Inl e
          | None \<Rightarrow> Inr (lamsigid row, c\<lparr>visible := visible c @ [row], pending := [], nextOid := n\<rparr>))"
        (is "_ = (case _ of Some e \<Rightarrow> _ | None \<Rightarrow> Inr (_, ?c'))")
        and fresh: "row_oid row \<notin> set (map row_oid (visible c))" "lamsigid row \<notin> set (map lamsigid (visible c))"
        and row: "lamsigid row = max_typmod c + 1" "lamsigkey row = Some (key_sig s)" "lamsigsrc row = Some sigsrc"
        using create_new [OF inv absent False] .
      have "catalog_inv tc ?c'"
        using inv fresh absent max_typmod_range [OF inv] False canonical_key_sig [OF v] row
        by (simp add: catalog_inv_def row_ok_def)
      with new failed eq create absent row show thesis by (cases "insert_error c row") simp_all
    qed
  qed
qed

section \<open>The contract of a signature store\<close>

text \<open>
  What the users of the catalog rely on (column definitions, \<open>lambda_in\<close>, narrowing): a typmod
  obtained from \<open>intern\<close> fetches the normal form of the signature, keeps doing so while more
  signatures are interned, and is reused for an equal normal form.
\<close>

locale signature_store =
  fixes intern :: "'st \<Rightarrow> 's \<Rightarrow> (int \<times> 'st) result"
    and fetch :: "'st \<Rightarrow> int \<Rightarrow> 's result"
    and wf_store :: "'st \<Rightarrow> bool"
    and norm :: "'s \<Rightarrow> 's"
  assumes intern_wf: "wf_store st \<Longrightarrow> intern st s = Inr (t, st') \<Longrightarrow> wf_store st'"
    and intern_fetch: "wf_store st \<Longrightarrow> intern st s = Inr (t, st') \<Longrightarrow> fetch st' t = Inr (norm s)"
    and intern_keeps: "wf_store st \<Longrightarrow> intern st s = Inr (t, st') \<Longrightarrow> fetch st u = Inr x \<Longrightarrow> fetch st' u = Inr x"
    and intern_reuses: "wf_store st \<Longrightarrow> intern st s = Inr (t, st') \<Longrightarrow> fetch st u = Inr (norm s) \<Longrightarrow> t = u"

text \<open>Interning the signatures of several columns one after the other.\<close>

fun intern_all :: "('st \<Rightarrow> 's \<Rightarrow> (int \<times> 'st) result) \<Rightarrow> 'st \<Rightarrow> 's list \<Rightarrow> (int list \<times> 'st) result" where
  "intern_all intern st [] = Inr ([], st)"
| "intern_all intern st (s # ss) =
    rbind (intern st s) (\<lambda>(t, st). rbind (intern_all intern st ss) (\<lambda>(ts, st). Inr (t # ts, st)))"

context signature_store
begin

lemma intern_all_keeps:
  "intern_all intern st ss = Inr (ts, st') \<Longrightarrow> wf_store st \<Longrightarrow>
     wf_store st' \<and> (\<forall>u x. fetch st u = Inr x \<longrightarrow> fetch st' u = Inr x)"
proof (induction ss arbitrary: st ts)
  case (Cons s ss)
  then obtain t st1 ts1 where "intern st s = Inr (t, st1)" "intern_all intern st1 ss = Inr (ts1, st')"
    by (auto simp: result_simps)
  with Cons.IH [of st1 ts1] Cons.prems(2) show ?case using intern_wf intern_keeps by blast
qed simp

lemma intern_all_fetch:
  "intern_all intern st ss = Inr (ts, st') \<Longrightarrow> wf_store st \<Longrightarrow> list_all2 (\<lambda>s t. fetch st' t = Inr (norm s)) ss ts"
proof (induction ss arbitrary: st ts)
  case (Cons s ss)
  then obtain t st1 ts1 where step: "intern st s = Inr (t, st1)" "intern_all intern st1 ss = Inr (ts1, st')" "ts = t # ts1"
    by (auto simp: result_simps)
  with Cons.prems(2) have "wf_store st1" using intern_wf by blast
  with step Cons.IH [of st1 ts1] intern_fetch [OF Cons.prems(2) step(1)] intern_all_keeps [OF step(2)] show ?case
    by simp
qed simp

lemma intern_all_reuses:
  "intern_all intern st ss = Inr (ts, st') \<Longrightarrow> wf_store st \<Longrightarrow> fetch st u = Inr (norm s) \<Longrightarrow>
     (s', t) \<in> set (zip ss ts) \<Longrightarrow> norm s' = norm s \<Longrightarrow> t = u"
proof (induction ss arbitrary: st ts)
  case (Cons s1 ss)
  then obtain t1 st1 ts1 where step: "intern st s1 = Inr (t1, st1)" "intern_all intern st1 ss = Inr (ts1, st')" "ts = t1 # ts1"
    by (auto simp: result_simps)
  moreover have "wf_store st1" "fetch st1 u = Inr (norm s)"
    using intern_wf [OF _ step(1)] intern_keeps [OF _ step(1)] Cons.prems by auto
  ultimately show ?case
    using Cons.IH [of st1 ts1] Cons.prems intern_reuses [OF Cons.prems(2) step(1), of u] by auto
qed simp

lemma intern_all_identity:
  assumes "intern_all intern st ss = Inr (ts, st')" "wf_store st"
  shows "length ts = length ss"
    and "i < length ss \<Longrightarrow> fetch st' (ts ! i) = Inr (norm (ss ! i))"
    and "i < length ss \<Longrightarrow> j < length ss \<Longrightarrow> ts ! i = ts ! j \<longleftrightarrow> norm (ss ! i) = norm (ss ! j)"
proof -
  show len: "length ts = length ss"
    using intern_all_fetch [OF assms] by (simp add: list_all2_lengthD)
  show fetch: "fetch st' (ts ! i) = Inr (norm (ss ! i))" if "i < length ss" for i
    using intern_all_fetch [OF assms] that by (simp add: list_all2_conv_all_nth)
  have "ts ! i = ts ! j" if ij: "i < j" "j < length ss" "norm (ss ! i) = norm (ss ! j)" for i j
    using assms ij len
  proof (induction ss arbitrary: st ts i j)
    case (Cons s ss)
    then obtain t st1 ts1 where step: "intern st s = Inr (t, st1)" "intern_all intern st1 ss = Inr (ts1, st')" "ts = t # ts1"
      by (auto simp: result_simps)
    have wf: "wf_store st1" using intern_wf [OF Cons.prems(2) step(1)] .
    obtain j' where j': "j = Suc j'" using Cons.prems(3) by (cases j) auto
    show ?case
    proof (cases i)
      case 0
      have "(ss ! j', ts1 ! j') \<in> set (zip ss ts1)"
        using Cons.prems j' step(3) by (force simp: in_set_zip)
      with intern_all_reuses [OF step(2) wf intern_fetch [OF Cons.prems(2) step(1)]] Cons.prems(5) 0 j' step(3)
      show ?thesis by (metis nth_Cons_0 nth_Cons_Suc)
    next
      case (Suc i')
      with Cons.IH [OF step(2) wf, of i' j'] Cons.prems j' step(3) show ?thesis by simp
    qed
  qed simp
  then show "ts ! i = ts ! j \<longleftrightarrow> norm (ss ! i) = norm (ss ! j)" if "i < length ss" "j < length ss"
    using fetch that by (metis linorder_neqE_nat sum.inject(2))
qed

end

interpretation sigs: signature_store
  "\<lambda>c s. LambdaSigCreateFromSignature tc fmt c (Some s)" "LambdaSigGetSignature tc" "catalog_inv tc" canon_sig
  for tc fmt
proof
  fix c s t c' u x
  assume inv: "catalog_inv tc c" and create: "LambdaSigCreateFromSignature tc fmt c (Some s) = Inr (t, c')"
  then obtain v: "LambdaSigValidateSignature tc s = Inr ()" using create_success_valid by blast
  have step: "catalog_inv tc c' \<and> set (visible c) \<subseteq> set (visible c') \<and>
      (\<exists>r \<in> set (visible c'). lamsigid r = t \<and> lamsigkey r = Some (key_sig s))"
    using inv v
  proof (cases rule: create_from_cases [where fmt = fmt])
    case (found r)
    with create have "c' = c" "t = lamsigid r" by simp_all
    with inv found(1,2) show ?thesis by blast
  next
    case full
    with create show ?thesis by simp
  next
    case (failed row e)
    with create show ?thesis by simp
  next
    case (new row n)
    with create have "c' = c\<lparr>visible := visible c @ [row], pending := [], nextOid := n\<rparr>" "t = lamsigid row" by simp_all
    with new(3,5) show ?thesis by auto
  qed
  then show "catalog_inv tc c'" by simp
  from step show "LambdaSigGetSignature tc c' t = Inr (canon_sig s)"
    using get_signature_row [of tc c' _ s] v by blast
  show "LambdaSigGetSignature tc c' u = Inr x" if fetch: "LambdaSigGetSignature tc c u = Inr x"
  proof -
    obtain r where r: "r \<in> set (visible c)" "lamsigid r = u" "lamsigkey r = Some (key_sig x)" "canon_sig x = x"
      "LambdaSigValidateSignature tc x = Inr ()"
      using row_of_typmod [OF inv fetch] .
    with step get_signature_row [of tc c' r x] show ?thesis by auto
  qed
  show "t = u" if fetch: "LambdaSigGetSignature tc c u = Inr (canon_sig s)"
  proof -
    obtain r where r: "r \<in> set (visible c)" "lamsigid r = u" "lamsigkey r = Some (key_sig s)"
      using row_of_typmod [OF inv fetch] by (metis key_canon(1))
    obtain sigsrc where "LambdaSigCreateFromSignature tc fmt c (Some s) = LambdaSigCreate c (key_sig s) sigsrc"
      using create_from_valid [OF v] .
    with create create_found [OF inv r(1,3)] r(2) show ?thesis by simp
  qed
qed

section \<open>Properties\<close>

text \<open>The scalar type OIDs of a signature, and a small type cache and signature to evaluate on.\<close>

fun leaves_sig :: "LambdaSignature \<Rightarrow> oid set"
  and leaves_typ :: "LambdaSigType \<Rightarrow> oid set" where
  "leaves_sig (LambdaSignature args rt loc) =
    \<Union> (set (map leaves_typ args)) \<union> (case rt of None \<Rightarrow> {} | Some r \<Rightarrow> leaves_typ r)"
| "leaves_typ (LambdaSigType isf toid sig loc) =
    (if isf then (case sig of None \<Rightarrow> {} | Some s \<Rightarrow> leaves_sig s) else {toid})"

definition storable_type :: "type_cache \<Rightarrow> oid \<Rightarrow> bool" where
  "storable_type tc toid \<longleftrightarrow> toid \<noteq> InvalidOid \<and>
    (case tc toid of None \<Rightarrow> False | Some f \<Rightarrow> typisdefined f \<and> typtype f \<noteq> TYPTYPE_PSEUDO)"

definition ex_types :: type_cache where
  "ex_types toid = (if toid \<in> {16, 23, 25} then Some \<lparr>typname = ''t'', typisdefined = True, typtype = CHR ''b''\<rparr>
     else None)"

definition ex_scalar :: "oid \<Rightarrow> LambdaSigType" where
  "ex_scalar toid = LambdaSigType False toid None 7"

definition ex_sig :: LambdaSignature where
  "ex_sig = LambdaSignature
     [LambdaSigType True 0 (Some (LambdaSignature [ex_scalar 23] (Some (ex_scalar 16)) 3)) 2, ex_scalar 25]
     (Some (ex_scalar 16)) 0"

definition ex_catalog :: catalog where
  "ex_catalog = \<lparr>visible = [], pending = [], nextOid = 20000, insert_error = (\<lambda>_. None)\<rparr>"

definition ex_format :: "oid \<Rightarrow> string" where "ex_format toid = ''t''"

text \<open>C16: the canonical key of a signature that validates is produced without error and parses back,
  whatever display source accompanies it, to the same signature up to the fields a key does not
  record (\<open>canon_sig\<close>).\<close>

theorem sig_key_roundtrip:
  assumes "LambdaSigValidateSignature tc s = Inr ()"
  shows "\<exists>k. LambdaSigAppendKey [] s = Inr k \<and> LambdaSigParseKey tc (Some k) sigsrc = Inr (canon_sig s)"
  using append_key(1) [OF validated_complete(1) [OF assms], of "[]"] ParseKey_key_sig [OF assms] by simp

theorem sig_key_roundtrip_witness:
  "\<exists>k. LambdaSigAppendKey [] ex_sig = Inr k \<and> LambdaSigParseKey ex_types (Some k) None = Inr (canon_sig ex_sig)"
proof (rule sig_key_roundtrip)
  show "LambdaSigValidateSignature ex_types ex_sig = Inr ()" by code_simp
qed

lemma validate_iff:
  "LambdaSigValidateSignature tc s = Inr () \<longleftrightarrow> complete_sig s \<and> (\<forall>toid \<in> leaves_sig s. storable_type tc toid)"
  "LambdaSigValidateArgs tc ts = Inr () \<longleftrightarrow>
     (\<forall>t \<in> set ts. complete_typ t \<and> (\<forall>toid \<in> leaves_typ t. storable_type tc toid))"
  "LambdaSigValidateType tc t = Inr () \<longleftrightarrow> complete_typ t \<and> (\<forall>toid \<in> leaves_typ t. storable_type tc toid)"
proof (induction tc s and tc ts and tc t
    rule: LambdaSigValidateSignature_LambdaSigValidateArgs_LambdaSigValidateType.induct)
  case (1 tc args rt loc)
  then show ?case by (cases rt; cases "LambdaSigValidateArgs tc args") auto
next
  case (3 tc t ts)
  then show ?case by (cases "LambdaSigValidateType tc t") auto
next
  case (4 tc isf toid sig loc)
  then show ?case
    by (cases isf; cases sig; cases "tc toid") (auto simp: LambdaSigCheckScalarOid_def storable_type_def)
qed simp

text \<open>C20: validation accepts exactly the signatures without a missing return type or nested signature
  whose scalar types are all defined, non-pseudo types of the type cache.\<close>

theorem sig_validate_iff:
  "LambdaSigValidateSignature tc s = Inr () \<longleftrightarrow>
     complete_sig s \<and> (\<forall>toid. toid \<in> leaves_sig s \<longrightarrow> storable_type tc toid)"
  by (simp add: validate_iff(1) Ball_def)

theorem sig_validate_iff_witness:
  "complete_sig ex_sig \<and> storable_type ex_types 23 \<and> storable_type ex_types 16 \<and> storable_type ex_types 25"
proof -
  have "LambdaSigValidateSignature ex_types ex_sig = Inr ()" by code_simp
  then have "complete_sig ex_sig \<and> (\<forall>toid. toid \<in> leaves_sig ex_sig \<longrightarrow> storable_type ex_types toid)"
    using sig_validate_iff [of ex_types ex_sig] by blast
  then show ?thesis by (auto simp: ex_sig_def ex_scalar_def)
qed

text \<open>C15: interning a valid signature into a well-formed catalog has three outcomes. It returns a typmod that fits a
  non-negative \<open>int32\<close>, keeps the catalog well-formed and only appends rows; or it reports that there
  are too many signatures because typmod \<open>PG_INT32_MAX\<close> is taken; or the heap or an index rejects the new row, which
  is one that no scan of the command has seen. In particular the unique indexes never meet a row of the
  catalog, and the search for a free OID does not fail.\<close>

theorem sig_create_total:
  assumes "catalog_inv tc c" and "LambdaSigValidateSignature tc s = Inr ()"
  shows "(\<exists>t c'. LambdaSigCreateFromSignature tc fmt c (Some s) = Inr (t, c') \<and> catalog_inv tc c' \<and>
            0 \<le> t \<and> t \<le> PG_INT32_MAX \<and> prefix (visible c) (visible c')) \<or>
         (LambdaSigCreateFromSignature tc fmt c (Some s) =
            Inl (Ereport ERRCODE_PROGRAM_LIMIT_EXCEEDED ''too many lambda signatures'') \<and>
          PG_INT32_MAX \<in> lamsigid ` set (visible c)) \<or>
         (\<exists>row e. LambdaSigCreateFromSignature tc fmt c (Some s) = Inl e \<and> insert_error c row = Some e \<and>
            lamsigkey row \<notin> lamsigkey ` set (visible c))"
  using assms
proof (cases rule: create_from_cases [where fmt = fmt])
  case (found r)
  then have "0 \<le> lamsigid r" "lamsigid r \<le> PG_INT32_MAX"
    using assms(1) by (auto simp: catalog_inv_def list_all_iff row_ok_def)
  with found(3) assms(1) show ?thesis by blast
next
  case full
  with fold_max_bounds(3) [of "visible c" "- 1"] show ?thesis by (auto simp: max_typmod_def PG_INT32_MAX_def)
next
  case (failed row e)
  then show ?thesis by (intro disjI2 exI [of _ row] exI [of _ e]) simp
next
  case (new row n)
  then have "0 \<le> lamsigid row" "lamsigid row \<le> PG_INT32_MAX"
    by (auto simp: catalog_inv_def row_ok_def)
  with new(1,5) show ?thesis by (intro disjI1) auto
qed

theorem sig_create_total_witness:
  "\<exists>t c'. LambdaSigCreateFromSignature ex_types ex_format ex_catalog (Some ex_sig) = Inr (t, c') \<and>
     catalog_inv ex_types c' \<and> 0 \<le> t"
proof -
  have "catalog_inv ex_types ex_catalog" "LambdaSigValidateSignature ex_types ex_sig = Inr ()"
    by code_simp+
  from sig_create_total [OF this, of ex_format] show ?thesis by (auto simp: ex_catalog_def)
qed

text \<open>C14: when several signatures are interned one after the other (a \<open>CREATE TABLE\<close> with several
  lambda columns), every returned typmod still fetches its own signature at the end, and two
  columns get the same typmod exactly when their signatures agree up to \<open>canon_sig\<close>.\<close>

theorem sig_intern_sequence:
  assumes "catalog_inv tc c"
    and "intern_all (\<lambda>c s. LambdaSigCreateFromSignature tc fmt c (Some s)) c ss = Inr (ts, c')"
    and "i < length ss" and "j < length ss"
  shows "LambdaSigGetSignature tc c' (ts ! i) = Inr (canon_sig (ss ! i)) \<and>
         (ts ! i = ts ! j \<longleftrightarrow> canon_sig (ss ! i) = canon_sig (ss ! j))"
  using sigs.intern_all_identity [OF assms(2,1)] assms(3,4) by blast

definition ex_columns :: "LambdaSignature list" where
  "ex_columns = [ex_sig, LambdaSignature [ex_scalar 23] (Some (ex_scalar 25)) 1, canon_sig ex_sig]"

theorem sig_intern_sequence_witness:
  "\<exists>c'. intern_all (\<lambda>c s. LambdaSigCreateFromSignature ex_types ex_format c (Some s)) ex_catalog ex_columns
      = Inr ([0, 1, 0], c') \<and>
    LambdaSigGetSignature ex_types c' 0 = Inr (canon_sig ex_sig)"
proof -
  let ?run = "intern_all (\<lambda>c s. LambdaSigCreateFromSignature ex_types ex_format c (Some s)) ex_catalog ex_columns"
  have inv: "catalog_inv ex_types ex_catalog" by code_simp
  have "(case ?run of Inl _ \<Rightarrow> [] | Inr (ts, _) \<Rightarrow> ts) = [0, 1, 0]" by code_simp
  then obtain c' where run: "?run = Inr ([0, 1, 0], c')" by (auto split: sum.splits prod.splits)
  have "LambdaSigGetSignature ex_types c' ([0, 1, 0] ! 0) = Inr (canon_sig (ex_columns ! 0))"
    using sig_intern_sequence [OF inv run, of 0 2] by (simp add: ex_columns_def)
  with run show ?thesis by (simp add: ex_columns_def)
qed

lemma narrow_args_conv: "length keep = length ts \<Longrightarrow> narrow_args ts keep = map fst (filter snd (zip ts keep))"
  by (induction ts keep rule: narrow_args.induct) auto

lemma narrow_args_subset: "set (narrow_args ts keep) \<subseteq> set ts"
  by (induction ts keep rule: narrow_args.induct) auto

lemma narrow_valid:
  assumes "LambdaSigValidateSignature tc s = Inr ()"
  shows "LambdaSigValidateSignature tc (LambdaSignature (narrow_args (argtypes s) keep) (rettype s) l) = Inr ()"
proof (cases s)
  case (LambdaSignature args rt loc)
  then have "LambdaSigValidateArgs tc args = Inr ()" using assms by (auto simp: result_simps split: option.splits)
  then have "LambdaSigValidateArgs tc (narrow_args args keep) = Inr ()"
    using narrow_args_subset [of args keep] by (auto simp: validate_iff)
  with LambdaSignature assms show ?thesis by (auto simp: result_simps split: option.splits)
qed

lemma narrow_canon:
  assumes "canon_sig s = s"
  shows "canon_sig (LambdaSignature (narrow_args (argtypes s) keep) (rettype s) (- 1)) =
    LambdaSignature (narrow_args (argtypes s) keep) (rettype s) (- 1)"
proof (cases s)
  case (LambdaSignature args rt loc)
  with assms have "map canon_typ args = map (\<lambda>t. t) args" "map_option canon_typ rt = rt" by simp_all
  then have "\<forall>t \<in> set args. canon_typ t = t" unfolding map_eq_conv by simp
  then have "map canon_typ (narrow_args args keep) = narrow_args args keep"
    using narrow_args_subset [of args keep] by (intro map_idI) blast
  with LambdaSignature \<open>map_option canon_typ rt = rt\<close> show ?thesis by simp
qed

text \<open>C19: narrowing the typmod of a partial application with a mask of the right length stores the
  signature that keeps exactly the masked argument types in order and the return type unchanged;
  the original typmod is not disturbed. The only errors are the exhaustion of typmods and those of inserting the row.\<close>

theorem sig_narrow_typmod:
  assumes "catalog_inv tc c" and "LambdaSigGetSignature tc c t = Inr s"
    and "length keep = length (argtypes s)"
  shows "(\<exists>t' c'. LambdaSigNarrowTypmod tc fmt c t keep = Inr (t', c') \<and> catalog_inv tc c' \<and>
            LambdaSigGetSignature tc c' t' =
              Inr (LambdaSignature (map fst (filter snd (zip (argtypes s) keep))) (rettype s) (- 1)) \<and>
            LambdaSigGetSignature tc c' t = Inr s) \<or>
         LambdaSigNarrowTypmod tc fmt c t keep =
            Inl (Ereport ERRCODE_PROGRAM_LIMIT_EXCEEDED ''too many lambda signatures'') \<or>
         (\<exists>row e. insert_error c row = Some e \<and> LambdaSigNarrowTypmod tc fmt c t keep = Inl e)"
proof -
  let ?n = "LambdaSignature (narrow_args (argtypes s) keep) (rettype s) (- 1)"
  obtain v: "canon_sig s = s" "LambdaSigValidateSignature tc s = Inr ()"
    using row_of_typmod [OF assms(1,2)] by blast
  have eq: "LambdaSigNarrowTypmod tc fmt c t keep = LambdaSigCreateFromSignature tc fmt c (Some ?n)"
    using assms by (simp add: LambdaSigNarrowTypmod_def LambdaSigNarrow_def)
  show ?thesis
  proof (cases "LambdaSigCreateFromSignature tc fmt c (Some ?n)")
    case (Inl e)
    from assms(1) narrow_valid [OF v(2), of keep "- 1"] show ?thesis
      by (cases rule: create_from_cases [where fmt = fmt]) (use Inl eq in auto)
  next
    case (Inr r)
    then obtain t' c' where r: "LambdaSigCreateFromSignature tc fmt c (Some ?n) = Inr (t', c')" by (cases r) auto
    with eq sigs.intern_wf [OF assms(1) r] sigs.intern_fetch [OF assms(1) r] sigs.intern_keeps [OF assms(1) r assms(2)]
      narrow_canon [OF v(1), of keep] narrow_args_conv [OF assms(3)]
    show ?thesis by simp
  qed
qed

definition ex_catalog1 :: catalog where
  "ex_catalog1 = \<lparr>visible = [\<lparr>row_oid = 20000, lamsigid = 0, lamsigkey = Some ''((23)->16,25)->16'',
     lamsigsrc = Some ''((t) -> t, t) -> t''\<rparr>], pending = [], nextOid = 20001, insert_error = (\<lambda>_. None)\<rparr>"

theorem sig_narrow_typmod_witness:
  "\<exists>t' c'. LambdaSigNarrowTypmod ex_types ex_format ex_catalog1 0 [False, True] = Inr (t', c') \<and>
     LambdaSigGetSignature ex_types c' t' = Inr (canon_sig (LambdaSignature [ex_scalar 25] (Some (ex_scalar 16)) 0))"
proof -
  have inv: "catalog_inv ex_types ex_catalog1" by code_simp
  have get: "LambdaSigGetSignature ex_types ex_catalog1 0 = Inr (canon_sig ex_sig)" by code_simp
  have len: "length [False, True] = length (argtypes (canon_sig ex_sig))" by (simp add: ex_sig_def)
  have "(case LambdaSigNarrowTypmod ex_types ex_format ex_catalog1 0 [False, True] of Inl _ \<Rightarrow> False | Inr _ \<Rightarrow> True)"
    by code_simp
  moreover have "map fst (filter snd (zip (argtypes (canon_sig ex_sig)) [False, True])) = [canon_typ (ex_scalar 25)]"
    "rettype (canon_sig ex_sig) = Some (canon_typ (ex_scalar 16))"
    by (simp_all add: ex_sig_def)
  ultimately show ?thesis
    using sig_narrow_typmod [OF inv get len, of ex_format] by (auto simp: ex_catalog1_def split: sum.splits)
qed

end
