(* ===== verification/Lambda_Nodes.thy ===== *)
theory Lambda_Nodes
  imports Prelude
begin

text \<open>
  Expression trees: the node types of \<^verbatim>\<open>src/include/nodes/primnodes.h\<close> that lambda bodies are made
  of, the tree walker and mutator of \<^verbatim>\<open>src/backend/nodes/nodeFuncs.c\<close>, and the analyses of a
  lambda body (\<open>lambda_injector.c\<close>: prescan and search for function aliases; \<open>lambda_helpers.c\<close>:
  L3 safety and input lookup).

  A datum is either a scalar, left abstract, or a serialized lambda (the varlena that a lambda
  column stores), or the bare address of a \<open>LambdaExpr\<close> node. The last two are different: only the
  second is what \<open>lambda_deserialize\<close> expects.
\<close>

section \<open>Nodes\<close>

datatype ParamKind = PARAM_EXTERN | PARAM_EXEC | PARAM_SUBLINK | PARAM_MULTIEXPR

datatype LambdaKind = LAMBDA_ROW_CONTEXT | LAMBDA_SCALAR_CONTEXT

datatype BoolExprType = AND_EXPR | OR_EXPR | NOT_EXPR

text \<open>\<open>DistinctExpr\<close> and \<open>NullIfExpr\<close> share the layout of \<open>OpExpr\<close>.\<close>

datatype OpTag = T_OpExpr | T_DistinctExpr | T_NullIfExpr

datatype LambdaInputParam =
  LambdaInputParam (ip_name: "string list") (ip_type: oid) (isAtomic: bool)
    (input_types: "LambdaInputParam list") (ip_idx: int)

text \<open>
  \<open>CaseExpr\<close> is the searched form, \<open>Var\<close> a column of the current row; \<open>OtherExpr\<close> stands for every
  other expression node all of whose subexpressions are evaluated before it.
\<close>

datatype 'a Node =
    Const (consttype: oid) (consttypmod: int) (constcollid: oid) (constvalue: "'a Datum") (constisnull: bool)
  | Param (paramkind: ParamKind) (paramid: int) (paramtype: oid) (paramtypmod: int) (paramcollid: oid) (param_lambda: bool)
  | Var nat oid
  | OpExpr OpTag oid oid "'a Node list"
  | FuncExpr oid oid "'a Node list"
  | BoolExpr BoolExprType "'a Node list"
  | CaseExpr oid "('a Node \<times> 'a Node) list" "'a Node"
  | FieldSelect "'a Node" int oid
  | LambdaFuncAliasExpr "string list" oid int int "'a Node list"
  | LambdaExpr LambdaKind "string list" "LambdaInputParam list list" "'a Node option" oid int bool int bool
  | CallLambdaExpr "'a Node" "'a Node list" "nat list option" oid int int
  | HolePlaceholder
  | OtherExpr nat oid "'a Node list"
and 'a Datum =
    Scalar 'a
  | Serialized "'a Node"
  | PointerTo "'a Node"

definition LAMBDAOID :: oid where "LAMBDAOID = 8501"
definition BOOLOID :: oid where "BOOLOID = 16"

fun exprType :: "'a Node \<Rightarrow> oid" where
  "exprType (Const t _ _ _ _) = t"
| "exprType (Param _ _ t _ _ _) = t"
| "exprType (Var _ t) = t"
| "exprType (OpExpr _ _ t _) = t"
| "exprType (FuncExpr _ t _) = t"
| "exprType (BoolExpr _ _) = BOOLOID"
| "exprType (CaseExpr t _ _) = t"
| "exprType (FieldSelect _ _ t) = t"
| "exprType (LambdaFuncAliasExpr _ rettype _ _ _) = rettype"
| "exprType (LambdaExpr _ _ _ _ _ _ _ _ _) = LAMBDAOID"
| "exprType (CallLambdaExpr _ _ _ rettype _ _) = rettype"
| "exprType HolePlaceholder = InvalidOid"
| "exprType (OtherExpr _ t _) = t"

fun exprTypmod :: "'a Node \<Rightarrow> int" where
  "exprTypmod (Const _ tm _ _ _) = tm"
| "exprTypmod (Param _ _ _ tm _ _) = tm"
| "exprTypmod (LambdaExpr _ _ _ _ _ _ _ lambdatypmod _) = lambdatypmod"
| "exprTypmod (CallLambdaExpr _ _ _ _ rettypmod _) = rettypmod"
| "exprTypmod _ = - 1"

section \<open>Walker and mutator\<close>

text \<open>The subexpressions the tree walker visits, in order, and the node with them replaced.\<close>

fun children :: "'a Node \<Rightarrow> 'a Node list" where
  "children (OpExpr _ _ _ args) = args"
| "children (FuncExpr _ _ args) = args"
| "children (BoolExpr _ args) = args"
| "children (CaseExpr _ whens def) = concat (map (\<lambda>(w, r). [w, r]) whens) @ [def]"
| "children (FieldSelect arg _ _) = [arg]"
| "children (LambdaFuncAliasExpr _ _ _ _ args) = args"
| "children (LambdaExpr _ _ _ expr _ _ _ _ _) = (case expr of None \<Rightarrow> [] | Some e \<Rightarrow> [e])"
| "children (CallLambdaExpr le args _ _ _ _) = le # args"
| "children (OtherExpr _ _ args) = args"
| "children _ = []"

fun pair_up :: "'b list \<Rightarrow> ('b \<times> 'b) list" where
  "pair_up (w # r # rest) = (w, r) # pair_up rest"
| "pair_up _ = []"

fun set_children :: "'a Node \<Rightarrow> 'a Node list \<Rightarrow> 'a Node" where
  "set_children (OpExpr tag f t _) cs = OpExpr tag f t cs"
| "set_children (FuncExpr f t _) cs = FuncExpr f t cs"
| "set_children (BoolExpr op _) cs = BoolExpr op cs"
| "set_children (CaseExpr t _ _) cs = CaseExpr t (pair_up (butlast cs)) (last cs)"
| "set_children (FieldSelect _ n t) cs = FieldSelect (hd cs) n t"
| "set_children (LambdaFuncAliasExpr nm t p k _) cs = LambdaFuncAliasExpr nm t p k cs"
| "set_children (LambdaExpr kind names types expr rt rtm strict ltm l3) cs =
    LambdaExpr kind names types (map_option (\<lambda>_. hd cs) expr) rt rtm strict ltm l3"
| "set_children (CallLambdaExpr _ _ held t tm ltm) cs = CallLambdaExpr (hd cs) (tl cs) held t tm ltm"
| "set_children (OtherExpr tag t _) cs = OtherExpr tag t cs"
| "set_children n _ = n"

definition expression_tree_walker :: "('a Node \<Rightarrow> bool) \<Rightarrow> 'a Node \<Rightarrow> bool" where
  "expression_tree_walker walker node = list_ex walker (children node)"

definition expression_tree_mutator :: "('a Node \<Rightarrow> 'a Node result) \<Rightarrow> 'a Node \<Rightarrow> 'a Node result" where
  "expression_tree_mutator mutator node = rmap (set_children node) (rmapM mutator (children node))"

lemma list_ex_cong [fundef_cong]:
  "xs = ys \<Longrightarrow> (\<And>x. x \<in> set ys \<Longrightarrow> f x = g x) \<Longrightarrow> list_ex f xs = list_ex g ys"
  by (auto simp: list_ex_iff)

lemma expression_tree_walker_cong [fundef_cong]:
  "n = m \<Longrightarrow> (\<And>c. c \<in> set (children m) \<Longrightarrow> f c = g c) \<Longrightarrow> expression_tree_walker f n = expression_tree_walker g m"
  by (simp add: expression_tree_walker_def cong: list_ex_cong)

lemma expression_tree_mutator_cong [fundef_cong]:
  "n = m \<Longrightarrow> (\<And>c. c \<in> set (children m) \<Longrightarrow> f c = g c) \<Longrightarrow> expression_tree_mutator f n = expression_tree_mutator g m"
  by (simp add: expression_tree_mutator_def cong: rmapM_cong)

lemma approx_mutator [fuel_mono]:
  "(\<And>c. c \<in> set (children n) \<Longrightarrow> approx (f c) (g c)) \<Longrightarrow>
     approx (expression_tree_mutator f n) (expression_tree_mutator g n)"
  by (auto simp: expression_tree_mutator_def intro!: fuel_mono)

lemma size_child_args: "x \<in> set xs \<Longrightarrow> size x < Suc (size_list size xs)"
  by (induction xs) auto

lemma size_when:
  "(w, r) \<in> set whens \<Longrightarrow> size w < Suc (size_list (size_prod size size) whens + n)"
  "(w, r) \<in> set whens \<Longrightarrow> size r < Suc (size_list (size_prod size size) whens + n)"
  by (induction whens) auto

lemma size_children [termination_simp]: "c \<in> set (children n) \<Longrightarrow> size c < size n"
proof (cases n)
  case (CaseExpr t whens def)
  assume "c \<in> set (children n)"
  moreover have "size c < Suc (size_list (size_prod size size) whens)" if "(w, r) \<in> set whens" "c = w \<or> c = r" for w r
    using that by (induction whens) auto
  ultimately show ?thesis using CaseExpr by fastforce
qed (auto dest: size_child_args split: option.splits)

lemma children_case:
  "(w, r) \<in> set whens \<Longrightarrow> w \<in> set (children (CaseExpr t whens def)) \<and> r \<in> set (children (CaseExpr t whens def))"
  by (induction whens) auto

lemma node_induct [case_names node]:
  "(\<And>n. (\<And>c. c \<in> set (children n) \<Longrightarrow> P c) \<Longrightarrow> P n) \<Longrightarrow> P n"
  by (induction n rule: measure_induct_rule [where f = size]) (use size_children in blast)

lemma fuel_node_induct [case_names node]:
  "(\<And>f e. (\<And>c. c \<in> set (children e) \<Longrightarrow> P f c) \<Longrightarrow> (\<And>f' e'. f' < f \<Longrightarrow> P f' e') \<Longrightarrow> P f e) \<Longrightarrow> P (f :: nat) e"
proof (induction f arbitrary: e rule: less_induct)
  case (less f e)
  show ?case
  proof (induction e rule: node_induct)
    case (node n)
    show ?case
    proof (rule less.prems)
      show "P f c" if "c \<in> set (children n)" for c using node that .
      show "P f' e'" if "f' < f" for f' e' using less.IH [OF that less.prems] .
    qed
  qed
qed

lemma pair_up_concat [simp]: "pair_up (concat (map (\<lambda>(w, r). [w, r]) whens)) = whens"
  by (induction whens) auto

lemma set_children_children [simp]: "set_children n (children n) = n"
  by (cases n) (auto split: option.splits)

lemma concat_pair_up: "even (length xs) \<Longrightarrow> concat (map (\<lambda>(w, r). [w, r]) (pair_up xs)) = xs"
  by (induction xs rule: pair_up.induct) auto

lemma children_set_children [simp]: "length cs = length (children n) \<Longrightarrow> children (set_children n cs) = cs"
proof (cases n)
  case (CaseExpr t whens def)
  assume len: "length cs = length (children n)"
  have "even (length (concat (map (\<lambda>(w, r). [w, r]) whens)))" by (induction whens) auto
  with len CaseExpr have "even (length (butlast cs))" "cs \<noteq> []" by auto
  with CaseExpr show ?thesis by (simp add: concat_pair_up)
qed (auto simp: length_Suc_conv split: option.splits)

section \<open>Analyses of a lambda body\<close>

fun le_kind :: "'a Node \<Rightarrow> LambdaKind" where
  "le_kind (LambdaExpr kind _ _ _ _ _ _ _ _) = kind"
| "le_kind _ = LAMBDA_ROW_CONTEXT"

fun le_argnames :: "'a Node \<Rightarrow> string list" where
  "le_argnames (LambdaExpr _ names _ _ _ _ _ _ _) = names"
| "le_argnames _ = []"

fun le_argtypes :: "'a Node \<Rightarrow> LambdaInputParam list list" where
  "le_argtypes (LambdaExpr _ _ types _ _ _ _ _ _) = types"
| "le_argtypes _ = []"

fun le_expr :: "'a Node \<Rightarrow> 'a Node option" where
  "le_expr (LambdaExpr _ _ _ expr _ _ _ _ _) = expr"
| "le_expr _ = None"

fun is_LambdaExpr :: "'a Node \<Rightarrow> bool" where
  "is_LambdaExpr (LambdaExpr _ _ _ _ _ _ _ _ _) = True"
| "is_LambdaExpr _ = False"

fun is_LFA :: "'a Node \<Rightarrow> bool" where
  "is_LFA (LambdaFuncAliasExpr _ _ _ _ _) = True"
| "is_LFA _ = False"

text \<open>The nodes that the walks over a scalar body only pass through.\<close>

fun traversed :: "'a Node \<Rightarrow> bool" where
  "traversed (LambdaExpr _ _ _ _ _ _ _ _ _) = False"
| "traversed (Param _ _ _ _ _ _) = False"
| "traversed (LambdaFuncAliasExpr _ _ _ _ _) = False"
| "traversed _ = True"

text \<open>The prescan state: which inputs are functions, and a representative \<open>Param\<close> of each input.\<close>

type_synonym 'a prescan = "bool list \<times> 'a Node option list"

function scalar_prescan_walker :: "nat \<Rightarrow> 'a Node \<Rightarrow> 'a prescan \<Rightarrow> 'a prescan" where
  "scalar_prescan_walker nargs node s =
    (case node of
       LambdaExpr _ _ _ _ _ _ _ _ _ \<Rightarrow> s
     | Param kind pid t _ _ lam \<Rightarrow>
         (if kind = PARAM_EXEC \<and> lam \<and> 0 \<le> pid \<and> pid < int nargs then
            ((if t = LAMBDAOID then (fst s)[nat pid := True] else fst s),
             (if snd s ! nat pid = None then (snd s)[nat pid := Some node] else snd s))
          else s)
     | LambdaFuncAliasExpr _ _ _ k _ \<Rightarrow>
         (let s = (if 0 \<le> k \<and> k < int nargs then ((fst s)[nat k := True], snd s) else s) in
          fold (\<lambda>c s. scalar_prescan_walker nargs c s) (children node) s)
     | _ \<Rightarrow> fold (\<lambda>c s. scalar_prescan_walker nargs c s) (children node) s)"
  by pat_completeness auto
termination
  by (relation "measure (\<lambda>(nargs, node, s). size node)") (auto simp only: in_measure prod.case wf_measure intro: size_children)

declare scalar_prescan_walker.simps [simp del]

definition scalar_prescan :: "'a Node \<Rightarrow> nat \<Rightarrow> 'a prescan" where
  "scalar_prescan mother nargs =
    (let s = (replicate nargs False, replicate nargs None) in
     case le_expr mother of
       None \<Rightarrow> s
     | Some e \<Rightarrow> if nargs > 0 then scalar_prescan_walker nargs e s else s)"

function has_lfa_walker :: "'a Node \<Rightarrow> bool" where
  "has_lfa_walker node = (is_LFA node \<or> expression_tree_walker has_lfa_walker node)"
  by pat_completeness auto
termination
  by (relation "measure size") (auto simp only: in_measure wf_measure intro: size_children)

declare has_lfa_walker.simps [simp del]

definition lambda_body_has_lfa :: "'a Node \<Rightarrow> bool" where
  "lambda_body_has_lfa lambda = (case le_expr lambda of None \<Rightarrow> False | Some e \<Rightarrow> has_lfa_walker e)"

definition lambda_scalar_func_inputs :: "'a Node \<Rightarrow> nat \<Rightarrow> nat list" where
  "lambda_scalar_func_inputs mother nargs =
    (case le_expr mother of
       None \<Rightarrow> []
     | Some _ \<Rightarrow> filter (\<lambda>i. fst (scalar_prescan mother nargs) ! i) [0..<nargs])"

subsection \<open>Lookup of row inputs\<close>

definition get_input_param_from_index :: "'a Node \<Rightarrow> int \<Rightarrow> int \<Rightarrow> LambdaInputParam option" where
  "get_input_param_from_index lambda rowIndex colIndex =
    (let argtypes = le_argtypes lambda in
     if rowIndex < 0 \<or> rowIndex \<ge> int (length argtypes) then None
     else let row = argtypes ! nat rowIndex in
       if colIndex < 0 \<or> colIndex \<ge> int (length row) then None
       else Some (row ! nat colIndex))"

fun find_col :: "string \<Rightarrow> LambdaInputParam list \<Rightarrow> LambdaInputParam option" where
  "find_col colName [] = None"
| "find_col colName (param # params) =
    (if length (ip_name param) = 1 \<and> hd (ip_name param) = colName then Some param else find_col colName params)"

text \<open>\<open>argnames\<close> is read only for a row that has a column with a one-part name.\<close>

fun find_row_col ::
  "string \<Rightarrow> string \<Rightarrow> string list \<Rightarrow> LambdaInputParam list list \<Rightarrow> LambdaInputParam option result" where
  "find_row_col rowAlias colName names [] = Inr None"
| "find_row_col rowAlias colName [] (row # rows) =
    (if list_ex (\<lambda>param. length (ip_name param) = 1) row then Inl Crash
     else find_row_col rowAlias colName [] rows)"
| "find_row_col rowAlias colName (alias # names) (row # rows) =
    (case (if alias = rowAlias then find_col colName row else None) of
       Some param \<Rightarrow> Inr (Some param)
     | None \<Rightarrow> find_row_col rowAlias colName names rows)"

definition get_input_param_from_name :: "'a Node \<Rightarrow> string list \<Rightarrow> LambdaInputParam option result" where
  "get_input_param_from_name lambda name =
    (if le_argtypes lambda = [] \<or> length name \<noteq> 2 then Inr None
     else find_row_col (name ! 0) (name ! 1) (le_argnames lambda) (le_argtypes lambda))"

fun flat_index :: "int \<Rightarrow> int \<Rightarrow> LambdaInputParam list list \<Rightarrow> int \<Rightarrow> int result" where
  "flat_index rowIdx colIdx [] tmp_res =
    Inl (elog_error (''attempting to access row out of range: '' @ show_int rowIdx))"
| "flat_index rowIdx colIdx (row # rows) tmp_res =
    (if rowIdx = 0 then
       (if colIdx \<ge> int (length row) \<or> colIdx < 0 then
          Inl (elog_error (''attempting to access column out of range: '' @ show_int colIdx))
        else Inr (tmp_res + colIdx))
     else flat_index (rowIdx - 1) colIdx rows (tmp_res + int (length row)))"

definition find_arg_from_rowAlias_colId :: "'a Node \<Rightarrow> int \<Rightarrow> int \<Rightarrow> int result" where
  "find_arg_from_rowAlias_colId lambda rowIdx colIdx = flat_index rowIdx colIdx (le_argtypes lambda) 0"

section \<open>L3 safety\<close>

definition LAMBDA_L3_FUNC_LIST :: "oid list" where
  "LAMBDA_L3_FUNC_LIST =
    [216, 1726, 217, 1727, 218, 1724, 219, 1725, 220, 221, 1395,
     232, 1346, 1368, 230, 1344, 1347, 1341, 1339,
     1604, 1605, 1606, 1607, 1600, 1601, 1602, 1603,
     7801, 7802, 7803, 7804, 7805,
     9000, 9001, 9002, 9003, 9004, 9005]"

definition lambda_op_has_l3_impl :: "oid \<Rightarrow> bool" where
  "lambda_op_has_l3_impl funcid \<longleftrightarrow> funcid \<in> set LAMBDA_L3_FUNC_LIST"

function lambda_l3_unsafe_walker :: "'a Node \<Rightarrow> bool" where
  "lambda_l3_unsafe_walker node =
    (case node of
       Const _ _ _ _ _ \<Rightarrow> False
     | Param kind _ _ _ _ _ \<Rightarrow> kind \<noteq> PARAM_EXEC
     | FuncExpr funcid _ _ \<Rightarrow>
         (if \<not> lambda_op_has_l3_impl funcid then True
          else expression_tree_walker lambda_l3_unsafe_walker node)
     | OpExpr _ opfuncid _ _ \<Rightarrow>
         (if \<not> lambda_op_has_l3_impl opfuncid then True
          else expression_tree_walker lambda_l3_unsafe_walker node)
     | LambdaFuncAliasExpr _ _ _ _ args \<Rightarrow> list_ex lambda_l3_unsafe_walker args
     | CallLambdaExpr _ args _ _ _ _ \<Rightarrow> list_ex lambda_l3_unsafe_walker args
     | _ \<Rightarrow> True)"
  by pat_completeness auto
termination
  by (relation "measure size")
    (auto simp only: in_measure wf_measure children.simps list.set intro: size_children)

declare lambda_l3_unsafe_walker.simps [simp del]

definition lambda_expr_is_l3_safe :: "'a Node \<Rightarrow> bool" where
  "lambda_expr_is_l3_safe lambda =
    (case le_expr lambda of None \<Rightarrow> False | Some e \<Rightarrow> \<not> lambda_l3_unsafe_walker e)"

section \<open>What the prescan finds\<close>

text \<open>The lambda parameters that occur in a body and the inputs it calls, outside embedded lambdas.\<close>

function lambda_params :: "'a Node \<Rightarrow> 'a Node list" where
  "lambda_params n =
    (case n of
       LambdaExpr _ _ _ _ _ _ _ _ _ \<Rightarrow> []
     | Param kind _ _ _ _ lam \<Rightarrow> (if kind = PARAM_EXEC \<and> lam then [n] else [])
     | _ \<Rightarrow> concat (map lambda_params (children n)))"
  by pat_completeness auto
termination
  by (relation "measure size") (auto simp only: in_measure wf_measure intro: size_children)

function called_inputs :: "'a Node \<Rightarrow> int list" where
  "called_inputs n =
    (case n of
       LambdaExpr _ _ _ _ _ _ _ _ _ \<Rightarrow> []
     | LambdaFuncAliasExpr _ _ _ k _ \<Rightarrow> k # concat (map called_inputs (children n))
     | _ \<Rightarrow> concat (map called_inputs (children n)))"
  by pat_completeness auto
termination
  by (relation "measure size") (auto simp only: in_measure wf_measure intro: size_children)

declare lambda_params.simps [simp del] called_inputs.simps [simp del]

definition function_input :: "'a Node \<Rightarrow> nat \<Rightarrow> bool" where
  "function_input e i \<longleftrightarrow> int i \<in> set (called_inputs e) \<or>
     (\<exists>p \<in> set (lambda_params e). paramid p = int i \<and> paramtype p = LAMBDAOID)"

text \<open>The effect of the walker on one slot of the prescan state.\<close>

definition prescan_slot :: "nat \<Rightarrow> 'a prescan \<Rightarrow> 'a prescan \<Rightarrow> int list \<Rightarrow> 'a Node list \<Rightarrow> bool" where
  "prescan_slot nargs s s' called params \<longleftrightarrow>
    length (fst s') = nargs \<and> length (snd s') = nargs \<and>
    (\<forall>i < nargs. fst s' ! i = (fst s ! i \<or> int i \<in> set called \<or>
       (\<exists>p \<in> set params. paramid p = int i \<and> paramtype p = LAMBDAOID))) \<and>
    (\<forall>i < nargs. snd s' ! i = (case snd s ! i of Some p \<Rightarrow> Some p | None \<Rightarrow> find (\<lambda>p. paramid p = int i) params))"

lemma prescan_slot_refl: "length (fst s) = nargs \<Longrightarrow> length (snd s) = nargs \<Longrightarrow> prescan_slot nargs s s [] []"
  by (auto simp: prescan_slot_def split: option.splits)

lemma find_append: "find Q (xs @ ys) = (case find Q xs of None \<Rightarrow> find Q ys | Some x \<Rightarrow> Some x)"
  by (induction xs) auto

lemma prescan_slot_trans:
  "prescan_slot n s s' c p \<Longrightarrow> prescan_slot n s' s'' c' p' \<Longrightarrow> prescan_slot n s s'' (c @ c') (p @ p')"
  by (auto simp: prescan_slot_def find_append split: option.splits)

lemma prescan_fold:
  assumes "\<And>c s. c \<in> set cs \<Longrightarrow> length (fst s) = nargs \<Longrightarrow> length (snd s) = nargs \<Longrightarrow>
      prescan_slot nargs s (scalar_prescan_walker nargs c s) (called_inputs c) (lambda_params c)"
    and "length (fst s) = nargs" "length (snd s) = nargs"
  shows "prescan_slot nargs s (fold (scalar_prescan_walker nargs) cs s)
      (concat (map called_inputs cs)) (concat (map lambda_params cs))"
  using assms
proof (induction cs arbitrary: s)
  case Nil
  then show ?case by (simp add: prescan_slot_refl)
next
  case (Cons c cs)
  let ?s1 = "scalar_prescan_walker nargs c s"
  have first: "prescan_slot nargs s ?s1 (called_inputs c) (lambda_params c)"
    using Cons.prems by simp
  then have "length (fst ?s1) = nargs" "length (snd ?s1) = nargs" by (simp_all add: prescan_slot_def)
  with Cons.IH [of ?s1] Cons.prems(1) prescan_slot_trans [OF first] show ?case by simp
qed

lemma prescan_traversed:
  assumes "traversed n"
  shows "scalar_prescan_walker nargs n s = fold (scalar_prescan_walker nargs) (children n) s"
    and "called_inputs n = concat (map called_inputs (children n))"
    and "lambda_params n = concat (map lambda_params (children n))"
  unfolding scalar_prescan_walker.simps [of nargs n s] called_inputs.simps [of n] lambda_params.simps [of n]
  using assms by (cases n; simp)+

lemmas prescan_lambda = scalar_prescan_walker.simps [of nargs "LambdaExpr k nm t e r m st l l3" for nargs k nm t e r m st l l3, simplified]
  called_inputs.simps [of "LambdaExpr k nm t e r m st l l3" for k nm t e r m st l l3, simplified]
  lambda_params.simps [of "LambdaExpr k nm t e r m st l l3" for k nm t e r m st l l3, simplified]
lemmas prescan_param = scalar_prescan_walker.simps [of nargs "Param k i t tm c lam" for nargs k i t tm c lam, simplified]
  called_inputs.simps [of "Param k i t tm c lam" for k i t tm c lam, simplified]
  lambda_params.simps [of "Param k i t tm c lam" for k i t tm c lam, simplified]
lemmas prescan_lfa = scalar_prescan_walker.simps [of nargs "LambdaFuncAliasExpr nm rt pid k args" for nargs nm rt pid k args, simplified]
  called_inputs.simps [of "LambdaFuncAliasExpr nm rt pid k args" for nm rt pid k args, simplified]
  lambda_params.simps [of "LambdaFuncAliasExpr nm rt pid k args" for nm rt pid k args, simplified]

lemma prescan_walker:
  "length (fst s) = nargs \<Longrightarrow> length (snd s) = nargs \<Longrightarrow>
     prescan_slot nargs s (scalar_prescan_walker nargs n s) (called_inputs n) (lambda_params n)"
proof (induction n arbitrary: s rule: node_induct)
  case (node n)
  show ?case
  proof (cases "traversed n")
    case True
    with prescan_fold [of "children n" nargs s] node show ?thesis by (simp add: prescan_traversed)
  next
    case False
    then show ?thesis
    proof (cases n)
      case (LambdaFuncAliasExpr nm rt pid k args)
      let ?s = "if 0 \<le> k \<and> k < int nargs then ((fst s)[nat k := True], snd s) else s"
      have s: "length (fst ?s) = nargs" "length (snd ?s) = nargs" using node.prems by auto
      have "prescan_slot nargs ?s (fold (scalar_prescan_walker nargs) args ?s)
        (concat (map called_inputs args)) (concat (map lambda_params args))"
        by (rule prescan_fold) (use node.IH s LambdaFuncAliasExpr in auto)
      moreover have "prescan_slot nargs s ?s [k] []"
        using node.prems by (auto simp: prescan_slot_def nth_list_update split: option.splits)
      ultimately have "prescan_slot nargs s (fold (scalar_prescan_walker nargs) args ?s)
        (k # concat (map called_inputs args)) (concat (map lambda_params args))"
        using prescan_slot_trans [of nargs s ?s "[k]" "[]"] by simp
      with LambdaFuncAliasExpr show ?thesis by (simp add: prescan_lfa Let_def)
    qed (use node.prems in \<open>auto simp: prescan_lambda prescan_param prescan_slot_refl prescan_slot_def
        nth_list_update split: option.splits\<close>)
  qed
qed

lemma prescan_correct:
  assumes "le_expr mother = Some e" "i < nargs"
  shows "fst (scalar_prescan mother nargs) ! i \<longleftrightarrow> function_input e i"
    and "snd (scalar_prescan mother nargs) ! i = find (\<lambda>p. paramid p = int i) (lambda_params e)"
  using prescan_walker [of "(replicate nargs False, replicate nargs None)" nargs e] assms
  by (simp_all add: scalar_prescan_def prescan_slot_def function_input_def)

end
