(* ===== verification/Injector.thy ===== *)
theory Injector
  imports Lambda_Nodes
begin

text \<open>
  Inlining of lambdas, \<^verbatim>\<open>src/backend/utils/adt/lambda_injector.c\<close>: the scalar injector that flattens a
  higher-order lambda, partial application, and the row-context injector of the table functions.

  A binding array is a list of optional nodes (\<open>None\<close> is the NULL entry). The recursion of
  \<open>scalar_inject_walk\<close> follows the body of the lambda bound to the called input, which untyped
  bindings could make endless: it takes fuel, spent at each inlined call, and \<open>Diverge\<close> marks its
  exhaustion. \<open>Flattening\<close> proves that well-typed lambdas never run out of it.
\<close>

section \<open>Deserialization of a lambda datum\<close>

text \<open>\<open>lambda_deserialize (PG_DETOAST_DATUM d)\<close>: anything but a serialized lambda is read as garbage.\<close>

fun deserialize_datum :: "'a Datum \<Rightarrow> 'a Node result" where
  "deserialize_datum (Serialized le) = Inr le"
| "deserialize_datum _ = Inl Crash"

section \<open>The scalar inliner\<close>

record 'a ScalarBind =
  binding :: "'a Node option list"
  slotnames :: "string list option list"

definition slot_name :: "'a ScalarBind \<Rightarrow> int \<Rightarrow> string list \<Rightarrow> string list" where
  "slot_name ctx k name =
    (if 0 \<le> k \<and> k < int (length (slotnames ctx)) then
       (case slotnames ctx ! nat k of None \<Rightarrow> name | Some nm \<Rightarrow> nm)
     else name)"

definition bound :: "'a ScalarBind \<Rightarrow> int \<Rightarrow> 'a Node option" where
  "bound ctx i = (if 0 \<le> i \<and> i < int (length (binding ctx)) then binding ctx ! nat i else None)"

function scalar_inject_walk :: "nat \<Rightarrow> 'a ScalarBind \<Rightarrow> 'a Node \<Rightarrow> 'a Node result" where
  "scalar_inject_walk fuel ctx node =
    (case node of
       LambdaExpr _ _ _ _ _ _ _ _ _ \<Rightarrow> Inr node
     | Param kind pid _ _ _ lam \<Rightarrow>
         (if kind = PARAM_EXEC \<and> lam then
            (case bound ctx pid of Some b \<Rightarrow> Inr b | None \<Rightarrow> Inr node)
          else Inr node)
     | LambdaFuncAliasExpr name rettype pid k args \<Rightarrow>
         (if k < 0 \<or> k \<ge> int (length (binding ctx)) then
            Inl (elog_error (''scalar injector: function input '' @ show_int k @ '' out of range''))
          else (case bound ctx k of
            Some (LambdaExpr _ argnames _ body _ _ _ _ _) \<Rightarrow>
              (if length args \<noteq> length argnames then
                 Inl (elog_error (''scalar injector: call to input '' @ show_int k @ '' passes '' @
                   show_nat (length args) @ '' args, expected '' @ show_nat (length argnames)))
               else
                 rbind (rmapM (scalar_inject_walk fuel ctx) args) (\<lambda>child_binding.
                   (case body of \<comment> \<open>a NULL body would become a NULL subtree\<close>
                      None \<Rightarrow> Inl Crash
                    | Some e \<Rightarrow>
                        (case fuel of
                           0 \<Rightarrow> Inl Diverge
                         | Suc fuel' \<Rightarrow>
                             scalar_inject_walk fuel'
                               \<lparr>binding = map Some child_binding, slotnames = slotnames ctx\<rparr> e))))
          | Some (Param _ slot _ _ _ _) \<Rightarrow>
              rbind (rmapM (scalar_inject_walk fuel ctx) args) (\<lambda>newargs.
                Inr (LambdaFuncAliasExpr (slot_name ctx slot name) rettype pid slot newargs))
          | _ \<Rightarrow> Inl (elog_error (''scalar injector: input '' @ show_int k @ '' is not a function''))))
     | _ \<Rightarrow> expression_tree_mutator (scalar_inject_walk fuel ctx) node)"
  by pat_completeness auto
termination
  by (relation "measures [\<lambda>(fuel, ctx, node). fuel, \<lambda>(fuel, ctx, node). size node]")
    (auto dest: size_child_args size_children size_when)

declare scalar_inject_walk.simps [simp del]

text \<open>Its equations by node, the last one for the nodes that are only traversed.\<close>

lemma inject_traversed:
  "traversed n \<Longrightarrow> scalar_inject_walk fuel ctx n = expression_tree_mutator (scalar_inject_walk fuel ctx) n"
  unfolding scalar_inject_walk.simps [of fuel ctx n] by (cases n) simp_all

lemmas inject_lambda [simp] =
  scalar_inject_walk.simps [of fuel ctx "LambdaExpr k n t e r m s l l3" for fuel ctx k n t e r m s l l3, simplified]
lemmas inject_param =
  scalar_inject_walk.simps [of fuel ctx "Param k i t m c l" for fuel ctx k i t m c l, simplified]
lemmas inject_lfa =
  scalar_inject_walk.simps [of fuel ctx "LambdaFuncAliasExpr nm rt pid k args" for fuel ctx nm rt pid k args, simplified]

definition lambda_injector_scalar :: "nat \<Rightarrow> 'a Node \<Rightarrow> 'a Datum option list \<Rightarrow> 'a Node result" where
  "lambda_injector_scalar fuel mother args =
    (case mother of
       LambdaExpr kind names types expr rt rtm strict ltm l3 \<Rightarrow>
         (let nargs = length args; isFunc = fst (scalar_prescan mother nargs) in
          rbind (rmapM (\<lambda>i.
                   if \<not> isFunc ! i then Inr None
                   else (case args ! i of
                      None \<Rightarrow> Inl (elog_error (''scalar injector: function input '' @ show_nat i @ '' is NULL''))
                    | Some d \<Rightarrow> rmap Some (deserialize_datum d))) [0..<nargs]) (\<lambda>binding.
          (case expr of
             None \<Rightarrow> Inr mother
           | Some e \<Rightarrow>
               rbind (scalar_inject_walk fuel \<lparr>binding = binding, slotnames = []\<rparr> e) (\<lambda>e'.
                 Inr (LambdaExpr kind names types (Some e') rt rtm strict ltm l3)))))
     | _ \<Rightarrow> Inl (elog_error ''expected a LambdaExpr in scalar injector''))"

section \<open>Partial application\<close>

text \<open>\<open>newidx\<close>: the dense residual index of a held position.\<close>

definition newidx :: "nat list \<Rightarrow> nat \<Rightarrow> nat" where
  "newidx held p = length (filter (\<lambda>q. q \<in> set held) [0..<p])"

definition residual_param :: "'a Node option \<Rightarrow> nat \<Rightarrow> 'a Node" where
  "residual_param proto slot =
    (case proto of
       Some (Param kind _ t tm coll lam) \<Rightarrow> Param kind (int slot) t tm coll lam
     | _ \<Rightarrow> Param PARAM_EXEC (int slot) LAMBDAOID (- 1) InvalidOid True)"

definition partial_binding ::
  "nat list \<Rightarrow> 'a prescan \<Rightarrow> 'a Datum option list \<Rightarrow> 'a Datum \<Rightarrow> nat \<Rightarrow> 'a Node option result" where
  "partial_binding held scan vals null_datum p =
    (if p \<in> set held then Inr (Some (residual_param (snd scan ! p) (newidx held p)))
     else if fst scan ! p then
       (case vals ! p of
          None \<Rightarrow> Inl (elog_error (''partial apply: filled function input '' @ show_nat p @ '' is NULL''))
        | Some d \<Rightarrow> rmap Some (deserialize_datum d))
     else
       (case snd scan ! p of
          Some (Param _ _ t tm coll _) \<Rightarrow>
            (case vals ! p of
               None \<Rightarrow> Inr (Some (Const t tm coll null_datum True))
             | Some d \<Rightarrow> Inr (Some (Const t tm coll d False)))
        | _ \<Rightarrow> Inr None))"

text \<open>\<open>null_datum\<close> is \<open>(Datum) 0\<close>. The position of a held argument always has a name: \<open>nargs\<close> is the
  length of the mother's \<open>argnames\<close> at the only call (\<open>ExecEvalCallLambdaExpr\<close>).\<close>

definition lambda_partial_apply ::
  "nat \<Rightarrow> 'a Node \<Rightarrow> nat list \<Rightarrow> 'a Datum option list \<Rightarrow> 'a Datum \<Rightarrow> 'a Node result" where
  "lambda_partial_apply fuel mother held vals null_datum =
    (case mother of
       LambdaExpr _ names _ (Some e) rt rtm strict _ _ \<Rightarrow>
         (let nargs = length vals; scan = scalar_prescan mother nargs;
              heldps = filter (\<lambda>p. p \<in> set held) [0..<nargs] in
          rbind (rmapM (partial_binding held scan vals null_datum) [0..<nargs]) (\<lambda>binding.
          if \<exists>p \<in> set heldps. p \<ge> length names then Inl Crash
          else
            rbind (scalar_inject_walk fuel
                     \<lparr>binding = binding,
                      slotnames = map (\<lambda>p. Some [names ! p]) heldps @ replicate (nargs - length heldps) None\<rparr> e) (\<lambda>e'.
            Inr (LambdaExpr LAMBDA_SCALAR_CONTEXT (map (\<lambda>p. names ! p) heldps) [] (Some e')
                   rt rtm strict (- 1) False))))
     | _ \<Rightarrow> Inl (elog_error ''partial apply: empty mother lambda''))"

section \<open>The row-context injector\<close>

function adjust_input_nodes_walker_callback :: "'a Node \<Rightarrow> 'a Node list \<Rightarrow> 'a Node \<Rightarrow> 'a Node result" where
  "adjust_input_nodes_walker_callback current args node =
    (case node of
       LambdaFuncAliasExpr name rettype pid fsid cur_args \<Rightarrow>
         rbind (find_arg_from_rowAlias_colId current (pid - 1) (fsid - 1)) (\<lambda>i.
         (if i < 0 \<or> i \<ge> int (length args) then Inl Crash
          else (case args ! nat i of
            LambdaFuncAliasExpr name' rettype' pid' fsid' _ \<Rightarrow>
              rbind (rmapM (adjust_input_nodes_walker_callback current args) cur_args) (\<lambda>new_args.
                Inr (LambdaFuncAliasExpr name' rettype' pid' fsid' new_args))
          | _ \<Rightarrow> Inl Crash)))
     | FieldSelect arg fieldnum t \<Rightarrow>
         (case arg of
            Param _ rowid _ _ _ _ \<Rightarrow>
              rbind (find_arg_from_rowAlias_colId current (rowid - 1) (fieldnum - 1)) (\<lambda>i.
              (if i < 0 \<or> i \<ge> int (length args) then Inl Crash
               else if is_LFA (args ! nat i) then
                 Inl (elog_error ''Lambda tried to access passed lambda-arg as fieldSelect input!'')
               else Inr (args ! nat i)))
          | _ \<Rightarrow> Inl Crash)
     | _ \<Rightarrow> expression_tree_mutator (adjust_input_nodes_walker_callback current args) node)"
  by pat_completeness auto
termination
  by (relation "measure (\<lambda>(current, args, node). size node)") (auto dest: size_child_args size_children size_when)

declare adjust_input_nodes_walker_callback.simps [simp del]

type_synonym 'a mother_args = "'a Node option list list"

definition mother_arg :: "string \<Rightarrow> 'a mother_args \<Rightarrow> int \<Rightarrow> int \<Rightarrow> 'a Node option result" where
  "mother_arg what margs pid fsid =
    (if pid \<le> 0 \<or> pid > int (length margs) then
       Inl (elog_error (what @ '' param_id '' @ show_int pid @ '' out of bounds''))
     else
       (let tuple = margs ! nat (pid - 1) in
        if fsid \<le> 0 \<or> fsid > int (length tuple) then
          Inl (elog_error (what @ '' fieldSelect_id '' @ show_int fsid @ '' out of bounds''))
        else Inr (tuple ! nat (fsid - 1))))"

definition inject_scalar_child_from_row_context ::
  "nat \<Rightarrow> 'a Node \<Rightarrow> 'a Node list \<Rightarrow> 'a mother_args \<Rightarrow> 'a Node result" where
  "inject_scalar_child_from_row_context fuel child callArgs motherArgs =
    (if length callArgs \<noteq> length (le_argnames child) then
       Inl (elog_error (''scalar child called with '' @ show_nat (length callArgs) @ '' args, expected '' @
         show_nat (length (le_argnames child))))
     else
       rbind (rmapM (\<lambda>arg. case arg of
                LambdaFuncAliasExpr _ _ pid fsid [] \<Rightarrow> mother_arg ''scalar child arg'' motherArgs pid fsid
              | _ \<Rightarrow> Inr (Some arg)) callArgs) (\<lambda>binding.
       (case le_expr child of
          None \<Rightarrow> Inl Crash
        | Some e \<Rightarrow> scalar_inject_walk fuel \<lparr>binding = binding, slotnames = []\<rparr> e)))"

function mother_mutator_callback :: "nat \<Rightarrow> 'a mother_args \<Rightarrow> 'a Node \<Rightarrow> 'a Node result" where
  "mother_mutator_callback fuel margs node =
    (case node of
       LambdaFuncAliasExpr name _ pid fsid args \<Rightarrow>
         rbind (mother_arg ''LFA'' margs pid fsid) (\<lambda>target.
         (case target of
            Some le \<Rightarrow>
              (if \<not> is_LambdaExpr le then Inl (elog_error ''No valid lambda found for LFA'')
               else if le_kind le = LAMBDA_SCALAR_CONTEXT then
                 inject_scalar_child_from_row_context fuel le args margs
               else
                 (case le_expr le of
                    None \<Rightarrow> Inl Crash
                  | Some e \<Rightarrow>
                      rbind (expression_tree_mutator (adjust_input_nodes_walker_callback le args) e) (\<lambda>e1.
                      (case fuel of
                         0 \<Rightarrow> Inl Diverge
                       | Suc fuel' \<Rightarrow> expression_tree_mutator (mother_mutator_callback fuel' margs) e1))))
          | None \<Rightarrow> Inl (elog_error ''No valid lambda found for LFA'')))
     | _ \<Rightarrow> expression_tree_mutator (mother_mutator_callback fuel margs) node)"
  by pat_completeness auto
termination
  by (relation "measures [\<lambda>(fuel, margs, node). fuel, \<lambda>(fuel, margs, node). size node]")
    (auto dest: size_child_args size_children size_when)

declare mother_mutator_callback.simps [simp del]

text \<open>The arguments of the row injector: the lambdas deserialized from the function columns of the
  current tuples, NULL for the atomic columns.\<close>

definition collect_column :: "'a Datum list \<Rightarrow> nat \<times> LambdaInputParam \<Rightarrow> 'a Node option result" where
  "collect_column data = (\<lambda>(colIdx, input).
    if isAtomic input then Inr None
    else if colIdx \<ge> length data then Inl Crash
    else rbind (deserialize_datum (data ! colIdx)) (\<lambda>inner.
      if le_kind inner \<noteq> LAMBDA_SCALAR_CONTEXT then
        Inl (elog_error ''Non-column-stored Lambda function passed to injector!'')
      else Inr (Some inner)))"

definition collect_row :: "'a Datum list list \<Rightarrow> nat \<times> LambdaInputParam list \<Rightarrow> 'a Node option list result" where
  "collect_row innerLambdas = (\<lambda>(tupleIdx, row).
    if tupleIdx \<ge> length innerLambdas \<and> list_ex (\<lambda>input. \<not> isAtomic input) row then Inl Crash
    else rmapM (collect_column (if tupleIdx < length innerLambdas then innerLambdas ! tupleIdx else []))
      (enumerate 0 row))"

definition lambda_injector :: "nat \<Rightarrow> 'a Node \<Rightarrow> 'a Datum list list \<Rightarrow> 'a Node result" where
  "lambda_injector fuel lambda innerLambdas =
    (if \<not> is_LambdaExpr lambda then Inl (elog_error ''expected a LambdaExpr in injector'')
     else
       rbind (rmapM (collect_row innerLambdas) (enumerate 0 (le_argtypes lambda))) (\<lambda>margs.
       expression_tree_mutator (mother_mutator_callback fuel margs) lambda))"

section \<open>More fuel does not change a result\<close>

lemma inject_mono: "f \<le> g \<Longrightarrow> approx (scalar_inject_walk f ctx e) (scalar_inject_walk g ctx e)"
proof (induction f "e :: 'a Node" arbitrary: ctx g rule: fuel_node_induct)
  case (node f e)
  have kids: "approx (scalar_inject_walk f ctx c) (scalar_inject_walk g ctx c)" if "c \<in> set (children e)" for c
    using node.IH(1) that node.prems by blast
  show ?case
  proof (cases "traversed e")
    case True
    then show ?thesis by (simp add: inject_traversed approx_mutator kids)
  next
    case False
    then show ?thesis
    proof (cases e)
      case lfa: (LambdaFuncAliasExpr name rt pid k args)
      have args: "approx (rmapM (scalar_inject_walk f ctx) args) (rmapM (scalar_inject_walk g ctx) args)"
        using kids lfa by (intro approx_rmapM) simp
      have body: "approx (case f of 0 \<Rightarrow> Inl Diverge | Suc f' \<Rightarrow> scalar_inject_walk f' c b)
          (case g of 0 \<Rightarrow> Inl Diverge | Suc g' \<Rightarrow> scalar_inject_walk g' c b)" for c and b :: "'a Node"
        using node.IH(2) node.prems by (cases f; cases g) auto
      show ?thesis
      proof (cases "bound ctx k")
        case (Some b)
        show ?thesis
          unfolding lfa inject_lfa Some
          by (cases b) (simp_all add: approx_rbind args body split: option.split)
      qed (simp add: lfa inject_lfa)
    qed (auto simp: inject_param split: option.splits)
  qed
qed

end
