(* ===== verification/Evaluator.thy ===== *)
theory Evaluator
  imports Injector
begin

text \<open>
  Evaluation of expressions with lambda calls: \<open>ExecInitExprRec\<close>, \<open>ExecInitLambdaFuncAlias\<close> and
  \<open>ExecInitCallLambdaExpr\<close> of \<^verbatim>\<open>src/backend/executor/execExpr.c\<close>, \<open>ExecEvalCallLambdaExpr\<close> of
  \<^verbatim>\<open>src/backend/executor/execExprInterp.c\<close> and \<open>lambda_cache_build\<close> of
  \<^verbatim>\<open>src/backend/utils/adt/lambda_cache.c\<close>.

  The catalogued functions, operators and remaining node types are the arguments collected in
  \<open>prims\<close>, as is the constant folder \<open>eval_const_expressions\<close>, which evaluates constant subexpressions ahead of time and
  may report their errors. Functions depend on their arguments only: volatile functions, whose evaluations inlining may
  repeat, are not modelled. A lambda call evaluates the callee's
  body in a fresh frame of \<open>PARAM_EXEC\<close> values; fuel bounds the depth of such calls. The \<open>hoist\<close>
  argument is the setting \<open>custom_lambda_hoisting_var\<close>.
\<close>

section \<open>Primitives\<close>

record 'a prims =
  call_op :: "OpTag \<Rightarrow> oid \<Rightarrow> 'a Datum option list \<Rightarrow> 'a Datum option result"
  call_function :: "oid \<Rightarrow> 'a Datum option list \<Rightarrow> 'a Datum option result"
  select_field :: "int \<Rightarrow> 'a Datum option \<Rightarrow> 'a Datum option result"
  other_op :: "nat \<Rightarrow> 'a Datum option list \<Rightarrow> 'a Datum option result"
  is_true :: "'a Datum \<Rightarrow> bool"
  bool_datum :: "bool \<Rightarrow> 'a Datum"
  null_datum :: "'a Datum"
  const_fold :: "'a Node \<Rightarrow> 'a Node result"

record 'a econtext =
  param_exec_vals :: "'a Datum option list"
  scan_row :: "'a Datum option list"

definition LAMBDA_MAX_ARGS :: nat where "LAMBDA_MAX_ARGS = 512"

definition param_exec :: "'a econtext \<Rightarrow> int \<Rightarrow> 'a Datum option result" where
  "param_exec ec i =
    (if 0 \<le> i \<and> i < int (length (param_exec_vals ec)) then Inr (param_exec_vals ec ! nat i) else Inl Crash)"

text \<open>Short-circuit evaluation of \<open>AND\<close>, \<open>OR\<close> and \<open>CASE\<close>.\<close>

fun eval_junction ::
  "'a prims \<Rightarrow> bool \<Rightarrow> ('n \<Rightarrow> 'a Datum option result) \<Rightarrow> bool \<Rightarrow> 'n list \<Rightarrow> 'a Datum option result" where
  "eval_junction P isand f anynull [] = Inr (if anynull then None else Some (bool_datum P isand))"
| "eval_junction P isand f anynull (x # xs) =
    rbind (f x) (\<lambda>v.
      (case v of
         None \<Rightarrow> eval_junction P isand f True xs
       | Some d \<Rightarrow> if is_true P d = isand then eval_junction P isand f anynull xs else Inr (Some d)))"

fun eval_case ::
  "'a prims \<Rightarrow> ('n \<Rightarrow> 'a Datum option result) \<Rightarrow> ('n \<times> 'n) list \<Rightarrow> 'n \<Rightarrow> 'a Datum option result" where
  "eval_case P f [] def = f def"
| "eval_case P f ((w, r) # whens) def =
    rbind (f w) (\<lambda>v.
      if (case v of None \<Rightarrow> False | Some d \<Rightarrow> is_true P d) then f r else eval_case P f whens def)"

lemma eval_junction_eq: "(\<And>x. x \<in> set xs \<Longrightarrow> f x = g x) \<Longrightarrow> eval_junction P c f n xs = eval_junction P c g n xs"
proof (induction xs arbitrary: n)
  case (Cons x xs)
  then have "eval_junction P c f n xs = eval_junction P c g n xs" for n by simp
  with Cons.prems show ?case by (cases "g x") (auto split: option.splits)
qed simp

lemma eval_junction_cong [fundef_cong]:
  "P = P' \<Longrightarrow> c = c' \<Longrightarrow> xs = ys \<Longrightarrow> n = n' \<Longrightarrow> (\<And>x. x \<in> set ys \<Longrightarrow> f x = g x) \<Longrightarrow>
     eval_junction P c f n xs = eval_junction P' c' g n' ys"
  using eval_junction_eq by blast

lemma eval_case_eq:
  "(\<And>w r. (w, r) \<in> set ws \<Longrightarrow> f w = g w \<and> f r = g r) \<Longrightarrow> f d = g d \<Longrightarrow> eval_case P f ws d = eval_case P g ws d"
proof (induction ws)
  case (Cons wr ws)
  obtain w r where wr: "wr = (w, r)" by (cases wr)
  have "eval_case P f ws d = eval_case P g ws d"
    using Cons.prems by (intro Cons.IH) (auto simp: wr)
  moreover have "f w = g w" "f r = g r" using Cons.prems(1) [of w r] by (simp_all add: wr)
  ultimately show ?case by (cases "g w") (auto simp: wr split: option.splits)
qed simp

lemma eval_case_cong [fundef_cong]:
  "P = P' \<Longrightarrow> ws = ws' \<Longrightarrow> d = d' \<Longrightarrow> (\<And>w r. (w, r) \<in> set ws' \<Longrightarrow> f w = g w) \<Longrightarrow>
     (\<And>w r. (w, r) \<in> set ws' \<Longrightarrow> f r = g r) \<Longrightarrow> f d' = g d' \<Longrightarrow> eval_case P f ws d = eval_case P' g ws' d'"
  using eval_case_eq [of ws' f g d' P'] by auto

fun eval_bool ::
  "'a prims \<Rightarrow> ('n \<Rightarrow> 'a Datum option result) \<Rightarrow> BoolExprType \<Rightarrow> 'n list \<Rightarrow> 'a Datum option result" where
  "eval_bool P f AND_EXPR args = eval_junction P True f False args"
| "eval_bool P f OR_EXPR args = eval_junction P False f False args"
| "eval_bool P f NOT_EXPR [x] = rmap (map_option (\<lambda>d. bool_datum P (\<not> is_true P d))) (f x)"
| "eval_bool P f NOT_EXPR _ = Inl Crash"

lemma eval_bool_cong [fundef_cong]:
  "P = P' \<Longrightarrow> op = op' \<Longrightarrow> xs = ys \<Longrightarrow> (\<And>x. x \<in> set ys \<Longrightarrow> f x = g x) \<Longrightarrow> eval_bool P f op xs = eval_bool P' g op' ys"
  by (cases "(P, f, op, xs)" rule: eval_bool.cases) (auto intro: eval_junction_cong)

section \<open>A lambda call\<close>

text \<open>The lambda-typed argument positions of a call site: the key of its cache.\<close>

definition ExecInitCallLambdaCacheKey :: "'a Node list \<Rightarrow> nat list" where
  "ExecInitCallLambdaCacheKey args =
    filter (\<lambda>i. args ! i \<noteq> HolePlaceholder \<and> exprType (args ! i) = LAMBDAOID) [0..<length args]"

definition lambda_cache_build ::
  "'a prims \<Rightarrow> bool \<Rightarrow> nat \<Rightarrow> 'a Datum \<Rightarrow> 'a Datum option list \<Rightarrow> nat list \<Rightarrow> 'a Node result" where
  "lambda_cache_build P hoist fuel lambda_value argvalues cache_key_idx =
    rbind (deserialize_datum lambda_value) (\<lambda>le.
    (case le_expr le of
       None \<Rightarrow> Inl (elog_error ''deserialized lambda has no expression body'')
     | Some e \<Rightarrow>
         if length (le_argnames le) > length argvalues then
           Inl (elog_error (''lambda takes '' @ show_nat (length (le_argnames le)) @ '' arguments, call passes '' @
             show_nat (length argvalues)))
         else if hoist \<and> lambda_body_has_lfa le then
           (case find (\<lambda>i. i \<notin> set cache_key_idx) (lambda_scalar_func_inputs le (length argvalues)) of
              Some i \<Rightarrow> Inl (elog_error (''lambda argument '' @ show_nat (i + 1) @
                '' is embedded into the body, but is not lambda-typed''))
            | None \<Rightarrow>
                rbind (lambda_injector_scalar fuel le argvalues) (\<lambda>injected.
                (case le_expr injected of None \<Rightarrow> Inl Crash | Some e' \<Rightarrow> const_fold P e')))
         else Inr e))"

text \<open>The filled arguments spread back over the mother's positions; held positions have no value.\<close>

fun spread_args :: "nat list \<Rightarrow> nat list \<Rightarrow> 'v option list \<Rightarrow> 'v option list result" where
  "spread_args held [] vs = Inr []"
| "spread_args held (p # ps) vs =
    (if p \<in> set held then rmap (Cons None) (spread_args held ps vs)
     else (case vs of
       [] \<Rightarrow> Inl (elog_error ''partial apply: fewer filled args than expected'')
     | v # vs' \<Rightarrow> rmap (Cons v) (spread_args held ps vs')))"

fun set_le_expr :: "'a Node \<Rightarrow> 'a Node option \<Rightarrow> 'a Node" where
  "set_le_expr (LambdaExpr kind names types _ rt rtm strict ltm l3) e = LambdaExpr kind names types e rt rtm strict ltm l3"
| "set_le_expr n _ = n"

datatype 'a outcome = Value "'a Datum option" | RunBody "'a Node"

definition ExecEvalCallLambdaExpr ::
  "'a prims \<Rightarrow> bool \<Rightarrow> nat \<Rightarrow> 'a Datum option \<Rightarrow> 'a Datum option list \<Rightarrow> nat list option \<Rightarrow> nat list \<Rightarrow>
     'a outcome result" where
  "ExecEvalCallLambdaExpr P hoist fuel lambda_value argvalues heldargs cache_key_idx =
    (case lambda_value of
       None \<Rightarrow> Inr (Value None)
     | Some d \<Rightarrow>
         (case heldargs of
            Some held \<Rightarrow>
              rbind (deserialize_datum d) (\<lambda>mother.
              (case le_expr mother of
                 None \<Rightarrow> Inl (elog_error ''deserialized lambda has no expression body'')
               | Some _ \<Rightarrow>
                   rbind (spread_args held [0..<length (le_argnames mother)] argvalues) (\<lambda>full_vals.
                   rbind (lambda_partial_apply fuel mother held full_vals (null_datum P)) (\<lambda>residual.
                   rbind (case le_expr residual of None \<Rightarrow> Inr None | Some e \<Rightarrow> rmap Some (const_fold P e)) (\<lambda>expr.
                   Inr (Value (Some (Serialized (set_le_expr residual expr)))))))))
          | None \<Rightarrow>
              rmap RunBody (lambda_cache_build P hoist fuel d argvalues cache_key_idx)))"

section \<open>Evaluation\<close>

definition too_many_args :: "nat \<Rightarrow> pg_error" where
  "too_many_args n = Ereport ERRCODE_TOO_MANY_ARGUMENTS (''too many lambda arguments: '' @ show_nat n)"

function eval :: "'a prims \<Rightarrow> bool \<Rightarrow> nat \<Rightarrow> 'a econtext \<Rightarrow> 'a Node \<Rightarrow> 'a Datum option result" where
  "eval P hoist fuel ec node =
    (case node of
       Const _ _ _ v isnull \<Rightarrow> Inr (if isnull then None else Some v)
     | Param kind pid _ _ _ _ \<Rightarrow>
         (if kind = PARAM_EXEC then param_exec ec pid
          else if kind = PARAM_EXTERN then
            Inl (Ereport ERRCODE_UNDEFINED_OBJECT (''no value found for parameter '' @ show_int pid))
          else Inl (elog_error ''unrecognized paramkind''))
     | Var i _ \<Rightarrow> (if i < length (scan_row ec) then Inr (scan_row ec ! i) else Inl Crash)
     | OpExpr tag f _ args \<Rightarrow> rbind (rmapM (eval P hoist fuel ec) args) (call_op P tag f)
     | FuncExpr f _ args \<Rightarrow> rbind (rmapM (eval P hoist fuel ec) args) (call_function P f)
     | BoolExpr op args \<Rightarrow> eval_bool P (eval P hoist fuel ec) op args
     | CaseExpr _ whens def \<Rightarrow> eval_case P (eval P hoist fuel ec) whens def
     | FieldSelect arg n _ \<Rightarrow> rbind (eval P hoist fuel ec arg) (select_field P n)
     | LambdaExpr _ _ _ _ _ _ _ _ _ \<Rightarrow> Inr (Some (PointerTo node))
     | HolePlaceholder \<Rightarrow> Inl (elog_error ''unrecognized node type'')
     | OtherExpr tag _ args \<Rightarrow> rbind (rmapM (eval P hoist fuel ec) args) (other_op P tag)
     | LambdaFuncAliasExpr _ _ _ k args \<Rightarrow>
         (if length args > LAMBDA_MAX_ARGS then Inl (too_many_args (length args))
          else
            rbind (param_exec ec k) (\<lambda>lambda_value.
            rbind (rmapM (eval P hoist fuel ec) args) (\<lambda>argvalues.
            rbind (ExecEvalCallLambdaExpr P hoist fuel lambda_value argvalues None
                     (ExecInitCallLambdaCacheKey args)) (\<lambda>r.
            (case r of
               Value v \<Rightarrow> Inr v
             | RunBody body \<Rightarrow>
                 (case fuel of
                    0 \<Rightarrow> Inl Diverge
                  | Suc fuel' \<Rightarrow> eval P hoist fuel' (ec\<lparr>param_exec_vals := argvalues\<rparr>) body))))))
     | CallLambdaExpr le args heldargs _ _ _ \<Rightarrow>
         (if length args > LAMBDA_MAX_ARGS then Inl (too_many_args (length args))
          else
            rbind (eval P hoist fuel ec le) (\<lambda>lambda_value.
            rbind (rmapM (eval P hoist fuel ec) args) (\<lambda>argvalues.
            rbind (ExecEvalCallLambdaExpr P hoist fuel lambda_value argvalues heldargs
                     (ExecInitCallLambdaCacheKey args)) (\<lambda>r.
            (case r of
               Value v \<Rightarrow> Inr v
             | RunBody body \<Rightarrow>
                 (case fuel of
                    0 \<Rightarrow> Inl Diverge
                  | Suc fuel' \<Rightarrow> eval P hoist fuel' (ec\<lparr>param_exec_vals := argvalues\<rparr>) body)))))))"
  by pat_completeness auto
termination
  by (relation "measures [\<lambda>(P, hoist, fuel, ec, node). fuel, \<lambda>(P, hoist, fuel, ec, node). size node]")
    (auto dest: size_child_args size_children size_when simp: less_Suc_eq_le trans_le_add1)

declare eval.simps [simp del]

text \<open>The equations of \<open>eval\<close> by node; \<open>run_call\<close> is what both kinds of call do at the end.\<close>

definition run_call ::
  "'a prims \<Rightarrow> bool \<Rightarrow> nat \<Rightarrow> 'a econtext \<Rightarrow> 'a Datum option list \<Rightarrow> 'a outcome \<Rightarrow> 'a Datum option result" where
  "run_call P hoist fuel ec argvalues r =
    (case r of
       Value v \<Rightarrow> Inr v
     | RunBody body \<Rightarrow>
         (case fuel of
            0 \<Rightarrow> Inl Diverge
          | Suc fuel' \<Rightarrow> eval P hoist fuel' (ec\<lparr>param_exec_vals := argvalues\<rparr>) body))"

lemma eval_eqs:
  "eval P h f ec (Const t tm c v isnull) = Inr (if isnull then None else Some v)"
  "eval P h f ec (Var i vt) = (if i < length (scan_row ec) then Inr (scan_row ec ! i) else Inl Crash)"
  "eval P h f ec (OpExpr tag fn rt args) = rbind (rmapM (eval P h f ec) args) (call_op P tag fn)"
  "eval P h f ec (FuncExpr fn rt args) = rbind (rmapM (eval P h f ec) args) (call_function P fn)"
  "eval P h f ec (BoolExpr op args) = eval_bool P (eval P h f ec) op args"
  "eval P h f ec (CaseExpr rt whens def) = eval_case P (eval P h f ec) whens def"
  "eval P h f ec (FieldSelect arg n rt) = rbind (eval P h f ec arg) (select_field P n)"
  "eval P h f ec (LambdaExpr kd nm ty e rt tm st ltm l3) = Inr (Some (PointerTo (LambdaExpr kd nm ty e rt tm st ltm l3)))"
  "eval P h f ec HolePlaceholder = Inl (elog_error ''unrecognized node type'')"
  "eval P h f ec (OtherExpr k rt args) = rbind (rmapM (eval P h f ec) args) (other_op P k)"
  by (subst eval.simps; simp)+

lemma eval_param:
  "eval P h f ec (Param kind pid t tm c lam) =
    (if kind = PARAM_EXEC then param_exec ec pid
     else if kind = PARAM_EXTERN then
       Inl (Ereport ERRCODE_UNDEFINED_OBJECT (''no value found for parameter '' @ show_int pid))
     else Inl (elog_error ''unrecognized paramkind''))"
  by (subst eval.simps) simp

lemma eval_param_exec: "eval P h f ec (Param PARAM_EXEC i t tm c lam) = param_exec ec i"
  by (subst eval.simps) simp

lemma eval_lfa:
  "eval P h f ec (LambdaFuncAliasExpr nm rt pid k args) =
    (if length args > LAMBDA_MAX_ARGS then Inl (too_many_args (length args))
     else
       rbind (param_exec ec k) (\<lambda>lambda_value.
       rbind (rmapM (eval P h f ec) args) (\<lambda>argvalues.
       rbind (ExecEvalCallLambdaExpr P h f lambda_value argvalues None (ExecInitCallLambdaCacheKey args))
         (run_call P h f ec argvalues))))"
  by (subst eval.simps) (simp add: run_call_def [abs_def])

lemma eval_cle:
  "eval P h f ec (CallLambdaExpr le args held rt tm ltm) =
    (if length args > LAMBDA_MAX_ARGS then Inl (too_many_args (length args))
     else
       rbind (eval P h f ec le) (\<lambda>lambda_value.
       rbind (rmapM (eval P h f ec) args) (\<lambda>argvalues.
       rbind (ExecEvalCallLambdaExpr P h f lambda_value argvalues held (ExecInitCallLambdaCacheKey args))
         (run_call P h f ec argvalues))))"
  by (subst eval.simps) (simp add: run_call_def [abs_def])

end
