(* ===== verification/Flattening.thy ===== *)
theory Flattening
  imports Evaluator
begin

text \<open>
  Correctness of inlining. A lambda body is typed by the kinds of its inputs: scalars, or functions
  of given inputs. Well-typed lambdas flatten without running out of fuel and without leaving a call
  behind, evaluation of a well-typed call always ends, and the flattened or partially applied body
  gives every result the original gives.
\<close>

section \<open>Evaluation and fuel\<close>

lemma approx_junction [fuel_mono]:
  "(\<And>x. x \<in> set xs \<Longrightarrow> approx (f x) (g x)) \<Longrightarrow> approx (eval_junction P c f n xs) (eval_junction P c g n xs)"
proof (induction xs arbitrary: n)
  case (Cons x xs)
  then have "approx (eval_junction P c f n xs) (eval_junction P c g n xs)" for n by simp
  with Cons.prems [of x] show ?case by (auto intro!: approx_rbind split: option.splits)
qed simp

lemma approx_bool [fuel_mono]:
  "(\<And>x. x \<in> set xs \<Longrightarrow> approx (f x) (g x)) \<Longrightarrow> approx (eval_bool P f op xs) (eval_bool P g op xs)"
  by (cases "(P, f, op, xs)" rule: eval_bool.cases) (auto intro!: fuel_mono)

lemma approx_case [fuel_mono]:
  "(\<And>w r. (w, r) \<in> set ws \<Longrightarrow> approx (f w) (g w) \<and> approx (f r) (g r)) \<Longrightarrow> approx (f d) (g d) \<Longrightarrow>
     approx (eval_case P f ws d) (eval_case P g ws d)"
proof (induction ws)
  case (Cons wr ws)
  obtain w r where wr: "wr = (w, r)" by (cases wr)
  have "approx (eval_case P f ws d) (eval_case P g ws d)"
    by (rule Cons.IH) (use Cons.prems wr in auto)
  with Cons.prems(1) [of w r] show ?case by (auto simp: wr intro!: approx_rbind)
qed simp

lemma approx_injector_scalar:
  "f \<le> g \<Longrightarrow> approx (lambda_injector_scalar f le vs) (lambda_injector_scalar g le vs)"
  by (cases le) (auto simp: lambda_injector_scalar_def Let_def intro!: approx_rbind inject_mono split: option.splits)

lemma approx_partial_apply:
  "f \<le> g \<Longrightarrow> approx (lambda_partial_apply f le held vs d) (lambda_partial_apply g le held vs d)"
  by (cases le) (auto simp: lambda_partial_apply_def Let_def intro!: approx_rbind inject_mono split: option.splits)

lemma approx_cache_build:
  "f \<le> g \<Longrightarrow> approx (lambda_cache_build P h f d vs ks) (lambda_cache_build P h g d vs ks)"
  by (auto simp: lambda_cache_build_def intro!: approx_rbind approx_injector_scalar split: option.splits)

lemma approx_call:
  "f \<le> g \<Longrightarrow> approx (ExecEvalCallLambdaExpr P h f lv vs held ks) (ExecEvalCallLambdaExpr P h g lv vs held ks)"
  by (auto simp: ExecEvalCallLambdaExpr_def
      intro!: approx_rbind approx_rmap approx_partial_apply approx_cache_build split: option.splits)

lemma eval_mono: "f \<le> g \<Longrightarrow> approx (eval P h f ec e) (eval P h g ec e)"
proof (induction f "e :: 'a Node" arbitrary: ec g rule: fuel_node_induct)
  case (node f e)
  have kids: "approx (eval P h f ec c) (eval P h g ec c)" if "c \<in> set (children e)" for c ec
    using node.IH(1) that node.prems by blast
  have run: "approx (run_call P h f ec vs r) (run_call P h g ec vs r)" for ec vs and r :: "'a outcome"
    using node.IH(2) node.prems by (cases f; cases g) (auto simp: run_call_def split: outcome.split)
  note call = approx_rbind [OF approx_call [OF node.prems] run]
  show ?case
  proof (cases e)
    case (LambdaFuncAliasExpr nm rt pid k args)
    with kids have "approx (rmapM (eval P h f ec) args) (rmapM (eval P h g ec) args)" by (intro approx_rmapM) simp
    then show ?thesis unfolding LambdaFuncAliasExpr eval_lfa by (simp add: approx_rbind call)
  next
    case (CallLambdaExpr le args held rt tm ltm)
    with kids have "approx (rmapM (eval P h f ec) args) (rmapM (eval P h g ec) args)" "approx (eval P h f ec le) (eval P h g ec le)"
      by (auto intro!: approx_rmapM)
    then show ?thesis unfolding CallLambdaExpr eval_cle by (simp add: approx_rbind call)
  next
    case (Param k i t tm c l)
    then show ?thesis by (simp add: eval_param)
  next
    case (CaseExpr rt whens def)
    have "approx (eval_case P (eval P h f ec) whens def) (eval_case P (eval P h g ec) whens def)"
    proof (rule approx_case)
      show "approx (eval P h f ec w) (eval P h g ec w) \<and> approx (eval P h f ec r) (eval P h g ec r)"
        if "(w, r) \<in> set whens" for w r
        using kids [of w] kids [of r] children_case [OF that] by (simp add: CaseExpr)
    qed (simp add: kids CaseExpr)
    then show ?thesis by (simp add: CaseExpr eval_eqs)
  qed (use kids in \<open>auto simp: eval_eqs intro!: approx_rbind approx_rmapM approx_bool\<close>)
qed

lemma eval_mono_Inr: "eval P h f ec e = Inr v \<Longrightarrow> f \<le> g \<Longrightarrow> eval P h g ec e = Inr v"
  by (rule approx_Inr [OF eval_mono])

section \<open>Trees without calls\<close>

text \<open>\<open>flat\<close>: no call, no embedded lambda; \<open>no_lambda\<close>: no embedded lambda.\<close>

fun is_CLE :: "'a Node \<Rightarrow> bool" where
  "is_CLE (CallLambdaExpr _ _ _ _ _ _) = True"
| "is_CLE _ = False"

function flat :: "'a Node \<Rightarrow> bool" where
  "flat n \<longleftrightarrow> \<not> is_LFA n \<and> \<not> is_LambdaExpr n \<and> \<not> is_CLE n \<and> list_all flat (children n)"
  by pat_completeness auto
termination
  by (relation "measure size") (auto simp only: in_measure wf_measure intro: size_children)

function no_lambda :: "'a Node \<Rightarrow> bool" where
  "no_lambda n \<longleftrightarrow> \<not> is_LambdaExpr n \<and> list_all no_lambda (children n)"
  by pat_completeness auto
termination
  by (relation "measure size") (auto simp only: in_measure wf_measure intro: size_children)

declare flat.simps [simp del] no_lambda.simps [simp del]

lemma flat_no_lambda: "flat n \<Longrightarrow> no_lambda n"
proof (induction n rule: node_induct)
  case (node n)
  then show ?case by (simp add: flat.simps [of n] no_lambda.simps [of n] list_all_iff)
qed

lemma flat_no_lfa: "flat n \<Longrightarrow> \<not> has_lfa_walker n"
proof (induction n rule: node_induct)
  case (node n)
  then show ?case
    by (simp add: flat.simps [of n] has_lfa_walker.simps [of n] expression_tree_walker_def list_all_iff list_ex_iff)
qed

section \<open>Typing\<close>

text \<open>
  An input is a scalar or a function of given inputs that returns a scalar (functions as inputs
  \<open>are only allowed to return an atomic value\<close>, \<open>primnodes.h\<close>). A function input may be called, and
  passed on as an argument of a call; it has no other use.
\<close>

datatype ty = Base | Fun "ty list"

definition lookup_ty :: "ty list \<Rightarrow> int \<Rightarrow> ty option" where
  "lookup_ty \<Gamma> i = (if 0 \<le> i \<and> i < int (length \<Gamma>) then Some (\<Gamma> ! nat i) else None)"

fun fun_ref :: "ty list \<Rightarrow> ty \<Rightarrow> 'a Node \<Rightarrow> bool" where
  "fun_ref \<Gamma> ty (Param kind j t _ _ lam) \<longleftrightarrow>
     kind = PARAM_EXEC \<and> lam \<and> t = LAMBDAOID \<and> lookup_ty \<Gamma> j = Some ty"
| "fun_ref \<Gamma> ty _ \<longleftrightarrow> False"

function wt :: "ty list \<Rightarrow> 'a Node \<Rightarrow> bool" where
  "wt \<Gamma> node =
    (case node of
       Param kind i t _ _ lam \<Rightarrow> kind = PARAM_EXEC \<and> lam \<and> t \<noteq> LAMBDAOID \<and> lookup_ty \<Gamma> i = Some Base
     | LambdaFuncAliasExpr _ _ _ k args \<Rightarrow>
         (case lookup_ty \<Gamma> k of
            Some (Fun tys) \<Rightarrow> length args = length tys \<and> length args \<le> LAMBDA_MAX_ARGS \<and>
              list_all (\<lambda>(ty, arg). case ty of Base \<Rightarrow> wt \<Gamma> arg | Fun _ \<Rightarrow> fun_ref \<Gamma> ty arg) (zip tys args)
          | _ \<Rightarrow> False)
     | LambdaExpr _ _ _ _ _ _ _ _ _ \<Rightarrow> False
     | CallLambdaExpr _ _ _ _ _ _ \<Rightarrow> False
     | HolePlaceholder \<Rightarrow> False
     | _ \<Rightarrow> list_all (wt \<Gamma>) (children node))"
  by pat_completeness auto
termination
  by (relation "measure (\<lambda>(\<Gamma>, node). size node)")
    (auto dest: size_child_args size_when set_zip_rightD)

declare wt.simps [simp del]

fun wt_lambda :: "ty \<Rightarrow> 'a Node \<Rightarrow> bool" where
  "wt_lambda (Fun tys) (LambdaExpr kind names _ (Some e) _ _ _ _ _) \<longleftrightarrow>
     kind = LAMBDA_SCALAR_CONTEXT \<and> length names = length tys \<and> wt tys e"
| "wt_lambda _ _ \<longleftrightarrow> False"

text \<open>The arguments of a call: a function argument is a serialized lambda of its type.\<close>

fun wt_value :: "ty \<Rightarrow> 'a Datum option \<Rightarrow> bool" where
  "wt_value Base v \<longleftrightarrow> True"
| "wt_value (Fun tys) (Some (Serialized le)) \<longleftrightarrow> wt_lambda (Fun tys) le"
| "wt_value (Fun tys) _ \<longleftrightarrow> False"

lemma wt_param: "wt \<Gamma> (Param kind i t tm c lam) \<longleftrightarrow>
    kind = PARAM_EXEC \<and> lam \<and> t \<noteq> LAMBDAOID \<and> lookup_ty \<Gamma> i = Some Base"
  by (subst wt.simps) simp

lemma wt_lfa: "wt \<Gamma> (LambdaFuncAliasExpr nm rt pid k args) \<longleftrightarrow>
    (\<exists>tys. lookup_ty \<Gamma> k = Some (Fun tys) \<and> length args = length tys \<and> length args \<le> LAMBDA_MAX_ARGS \<and>
       (\<forall>(ty, arg) \<in> set (zip tys args). case ty of Base \<Rightarrow> wt \<Gamma> arg | Fun _ \<Rightarrow> fun_ref \<Gamma> ty arg))"
  by (subst wt.simps) (auto simp: list_all_iff split: option.splits ty.splits)

lemma wt_not_lambda: "\<not> wt \<Gamma> (LambdaExpr k n t e r m s l l3)"
  by (subst wt.simps) simp

lemma wt_traversed: "traversed n \<Longrightarrow> wt \<Gamma> n \<Longrightarrow> \<not> is_CLE n \<and> n \<noteq> HolePlaceholder \<and> (\<forall>c \<in> set (children n). wt \<Gamma> c)"
  unfolding wt.simps [of \<Gamma> n] by (cases n) (simp_all add: list_all_iff)

lemma wt_cases [consumes 1, case_names traversed param lfa]:
  assumes "wt \<Gamma> n"
  obtains "traversed n" "\<not> is_CLE n" "n \<noteq> HolePlaceholder" "\<forall>c \<in> set (children n). wt \<Gamma> c"
  | i t tm c where "n = Param PARAM_EXEC i t tm c True" "t \<noteq> LAMBDAOID" "lookup_ty \<Gamma> i = Some Base"
  | nm rt pid k args tys where "n = LambdaFuncAliasExpr nm rt pid k args" "lookup_ty \<Gamma> k = Some (Fun tys)"
      "length args = length tys" "length args \<le> LAMBDA_MAX_ARGS"
      "\<forall>(ty, arg) \<in> set (zip tys args). case ty of Base \<Rightarrow> wt \<Gamma> arg | Fun _ \<Rightarrow> fun_ref \<Gamma> ty arg"
proof (cases "traversed n")
  case True
  with wt_traversed [OF True assms] that(1) show thesis by blast
next
  case False
  then show thesis
  proof (cases n)
    case (Param kind i t tm c lam)
    with assms that(2) show thesis by (auto simp: wt_param)
  next
    case (LambdaFuncAliasExpr nm rt pid k args)
    with assms obtain tys where "lookup_ty \<Gamma> k = Some (Fun tys)" "length args = length tys" "length args \<le> LAMBDA_MAX_ARGS"
      "\<forall>(ty, arg) \<in> set (zip tys args). case ty of Base \<Rightarrow> wt \<Gamma> arg | Fun _ \<Rightarrow> fun_ref \<Gamma> ty arg"
      unfolding LambdaFuncAliasExpr wt_lfa by blast
    with LambdaFuncAliasExpr that(3) show thesis by blast
  next
    case (LambdaExpr k n' t e r m s l l3)
    with assms show thesis by (simp add: wt_not_lambda)
  qed auto
qed

section \<open>Flattening ends\<close>

text \<open>
  \<open>reducible ty b\<close>: a scalar binding is a flat expression; a function binding is a lambda whose body
  flattens whenever its inputs are bound to reducible nodes. By induction on the body, every
  well-typed lambda is reducible.
\<close>

function reducible :: "ty \<Rightarrow> 'a Node \<Rightarrow> bool" where
  "reducible ty b =
    (case ty of
       Base \<Rightarrow> flat b
     | Fun tys \<Rightarrow>
         (\<exists>k names t e r m s l l3. b = LambdaExpr k names t (Some e) r m s l l3 \<and> length names = length tys \<and>
           (\<forall>bs sn. length tys = length bs \<longrightarrow> (\<forall>(ty', b') \<in> set (zip tys bs). reducible ty' b') \<longrightarrow>
             (\<exists>fuel e'. scalar_inject_walk fuel \<lparr>binding = map Some bs, slotnames = sn\<rparr> e = Inr e' \<and> flat e'))))"
  by pat_completeness auto
termination
  by (relation "measure (\<lambda>(ty, b). size ty)") (auto dest!: set_zip_leftD simp: size_list_estimation' less_Suc_eq_le)

declare reducible.simps [simp del]

lemma reducible_Base: "reducible Base b = flat b"
  by (subst reducible.simps) simp

lemma reducible_Fun: "reducible (Fun tys) b =
    (\<exists>k names t e r m s l l3. b = LambdaExpr k names t (Some e) r m s l l3 \<and> length names = length tys \<and>
      (\<forall>bs sn. list_all2 reducible tys bs \<longrightarrow>
        (\<exists>fuel e'. scalar_inject_walk fuel \<lparr>binding = map Some bs, slotnames = sn\<rparr> e = Inr e' \<and> flat e')))"
  by (subst reducible.simps) (simp add: list_all2_iff conj_commute imp_conjL)

text \<open>A binding array that fits a context; a scalar may be left unbound.\<close>

definition reducible_ctx :: "ty list \<Rightarrow> 'a ScalarBind \<Rightarrow> bool" where
  "reducible_ctx \<Gamma> ctx \<longleftrightarrow> list_all2 (\<lambda>ty b. case b of None \<Rightarrow> ty = Base | Some n \<Rightarrow> reducible ty n) \<Gamma> (binding ctx)"

lemma bound_ctx:
  assumes "lookup_ty \<Gamma> i = Some ty" "length (binding ctx) = length \<Gamma>"
  obtains "0 \<le> i" "i < int (length (binding ctx))" "bound ctx i = binding ctx ! nat i" "\<Gamma> ! nat i = ty" "nat i < length \<Gamma>"
  using assms by (auto simp: lookup_ty_def bound_def split: if_splits)

lemma reducible_bound:
  assumes "reducible_ctx \<Gamma> ctx" "lookup_ty \<Gamma> i = Some ty"
  shows "0 \<le> i" "i < int (length (binding ctx))" "case bound ctx i of None \<Rightarrow> ty = Base | Some n \<Rightarrow> reducible ty n"
proof -
  have len: "length (binding ctx) = length \<Gamma>"
    using assms(1) by (auto simp: reducible_ctx_def dest: list_all2_lengthD)
  obtain *: "0 \<le> i" "i < int (length (binding ctx))" "bound ctx i = binding ctx ! nat i" "\<Gamma> ! nat i = ty" "nat i < length \<Gamma>"
    using bound_ctx [OF assms(2) len] .
  show "0 \<le> i" "i < int (length (binding ctx))" using * by simp_all
  show "case bound ctx i of None \<Rightarrow> ty = Base | Some n \<Rightarrow> reducible ty n"
    using list_all2_nthD [OF assms(1) [unfolded reducible_ctx_def] *(5)] unfolding *(3,4) .
qed

lemma inject_args:
  assumes "length ts = length xs" "\<forall>(t, x) \<in> set (zip ts xs). \<exists>fuel y. scalar_inject_walk fuel ctx x = Inr y \<and> Q t y"
  shows "\<exists>fuel ys. (\<forall>g \<ge> fuel. rmapM (scalar_inject_walk g ctx) xs = Inr ys) \<and> list_all2 Q ts ys"
  using assms
proof (induction ts xs rule: list_induct2)
  case (Cons t ts x xs)
  then obtain f y where y: "scalar_inject_walk f ctx x = Inr y" "Q t y" by auto
  obtain f' ys where ys: "\<forall>g \<ge> f'. rmapM (scalar_inject_walk g ctx) xs = Inr ys" "list_all2 Q ts ys"
    using Cons by auto
  have "rmapM (scalar_inject_walk g ctx) (x # xs) = Inr (y # ys)" if "g \<ge> max f f'" for g
    using that ys(1) approx_Inr [OF inject_mono y(1), of g] by simp
  with y(2) ys(2) show ?case by (intro exI [of _ "max f f'"] exI [of _ "y # ys"]) simp
qed simp

lemma set_children_kind:
  "is_LFA (set_children n cs) = is_LFA n" "is_LambdaExpr (set_children n cs) = is_LambdaExpr n"
  "is_CLE (set_children n cs) = is_CLE n"
  by (cases n; simp)+

lemma traversed_kind: "traversed n \<Longrightarrow> \<not> is_LFA n \<and> \<not> is_LambdaExpr n"
  by (cases n) simp_all

lemma flat_set_children:
  "traversed n \<Longrightarrow> \<not> is_CLE n \<Longrightarrow> length cs = length (children n) \<Longrightarrow> list_all flat cs \<Longrightarrow> flat (set_children n cs)"
  by (simp add: flat.simps [of "set_children n cs"] set_children_kind traversed_kind)

lemma flat_param [simp]: "flat (Param k i t tm c l)"
  by (simp add: flat.simps [of "Param k i t tm c l"])

lemma flatten_wt:
  assumes "wt \<Gamma> e" "reducible_ctx \<Gamma> ctx"
  shows "\<exists>fuel e'. scalar_inject_walk fuel ctx e = Inr e' \<and> flat e'"
  using assms(1)
proof (induction e rule: node_induct)
  case (node n)
  from node.prems show ?case
  proof (cases rule: wt_cases)
    case traversed
    then obtain fuel ys where ys: "rmapM (scalar_inject_walk fuel ctx) (children n) = Inr ys" "list_all2 (\<lambda>_. flat) (children n) ys"
      using inject_args [of "children n" "children n" ctx "\<lambda>_. flat"] node.IH
      by (fastforce dest: set_zip_rightD)
    have "list_all flat ys" "length ys = length (children n)"
      using ys(2) by (auto simp: list_all2_conv_all_nth list_all_length)
    with traversed flat_set_children [of n ys] ys(1) show ?thesis
      by (intro exI [of _ fuel] exI [of _ "set_children n ys"])
        (simp add: inject_traversed expression_tree_mutator_def)
  next
    case (param i t tm c)
    with reducible_bound(3) [OF assms(2) param(3)] show ?thesis
      by (auto simp: inject_param reducible_Base split: option.splits)
  next
    case (lfa nm rt pid k args tys)
    have k: "0 \<le> k" "k < int (length (binding ctx))" using reducible_bound(1,2) [OF assms(2) lfa(2)] .
    obtain kd names t e r m s l l3 where
      b: "bound ctx k = Some (LambdaExpr kd names t (Some e) r m s l l3)" "length names = length tys"
      and good: "\<And>bs sn. list_all2 reducible tys bs \<Longrightarrow>
        \<exists>fuel e'. scalar_inject_walk fuel \<lparr>binding = map Some bs, slotnames = sn\<rparr> e = Inr e' \<and> flat e'"
      using reducible_bound(3) [OF assms(2) lfa(2)] by (auto simp: reducible_Fun split: option.splits)
    have "\<exists>fuel y. scalar_inject_walk fuel ctx arg = Inr y \<and> reducible ty y"
      if arg: "(ty, arg) \<in> set (zip tys args)" for ty arg
    proof (cases ty)
      case Base
      with lfa(5) arg have "wt \<Gamma> arg" by force
      with node.IH [of arg] set_zip_rightD [OF arg] Base show ?thesis by (simp add: lfa(1) reducible_Base)
    next
      case (Fun us)
      with lfa(5) arg have "fun_ref \<Gamma> ty arg" by force
      then obtain j t tm c where j: "arg = Param PARAM_EXEC j t tm c True" "lookup_ty \<Gamma> j = Some ty"
        by (cases arg) auto
      with reducible_bound(3) [OF assms(2) j(2)] Fun show ?thesis
        by (auto simp: inject_param split: option.splits)
    qed
    then have "\<forall>(ty, arg) \<in> set (zip tys args). \<exists>fuel y. scalar_inject_walk fuel ctx arg = Inr y \<and> reducible ty y"
      by auto
    from inject_args [OF lfa(3) [symmetric] this]
    obtain fuel bs where bs: "\<forall>g \<ge> fuel. rmapM (scalar_inject_walk g ctx) args = Inr bs" "list_all2 reducible tys bs"
      by blast
    obtain fuel' e' where e': "scalar_inject_walk fuel' \<lparr>binding = map Some bs, slotnames = slotnames ctx\<rparr> e = Inr e'" "flat e'"
      using good [OF bs(2)] by blast
    have "scalar_inject_walk (Suc (max fuel fuel')) ctx n = Inr e'"
      using bs(1) b k lfa(1,3) approx_Inr [OF inject_mono e'(1), of "max fuel fuel'"] by (simp add: inject_lfa)
    with e'(2) show ?thesis by blast
  qed
qed

lemma wt_lambda_reducible:
  assumes "wt_lambda ty le" shows "reducible ty le"
proof -
  from assms obtain tys k names t e r m s l l3 where
    le: "ty = Fun tys" "le = LambdaExpr k names t (Some e) r m s l l3" "length names = length tys" "wt tys e"
    by (cases "(ty, le)" rule: wt_lambda.cases) auto
  have "\<exists>fuel e'. scalar_inject_walk fuel \<lparr>binding = map Some bs, slotnames = sn\<rparr> e = Inr e' \<and> flat e'"
    if "list_all2 reducible tys bs" for bs sn
    using that by (intro flatten_wt [OF le(4)]) (simp add: reducible_ctx_def list_all2_map2)
  with le show ?thesis by (auto simp: reducible_Fun)
qed

subsection \<open>Which inputs the injector binds\<close>

lemma function_input_child:
  "c \<in> set (children n) \<Longrightarrow> \<not> is_LambdaExpr n \<Longrightarrow> function_input c i \<Longrightarrow> function_input n i"
proof (cases "traversed n")
  case True
  assume "c \<in> set (children n)" "function_input c i"
  with True show ?thesis by (auto simp: function_input_def prescan_traversed)
next
  case False
  assume "c \<in> set (children n)" "function_input c i" "\<not> is_LambdaExpr n"
  with False show ?thesis by (cases n) (auto simp: function_input_def prescan_lfa)
qed

lemma wt_not_LambdaExpr: "wt \<Gamma> n \<Longrightarrow> \<not> is_LambdaExpr n"
  by (cases n) (auto simp: wt_not_lambda)

lemma wt_function_input:
  "wt \<Gamma> e \<Longrightarrow> function_input e i \<Longrightarrow> \<exists>tys. lookup_ty \<Gamma> (int i) = Some (Fun tys)"
proof (induction e rule: node_induct)
  case (node n)
  from node.prems(1) show ?case
  proof (cases rule: wt_cases)
    case traversed
    with node.prems(2) have "\<exists>c \<in> set (children n). function_input c i"
      by (auto simp: function_input_def prescan_traversed)
    with node.IH traversed show ?thesis by blast
  next
    case (param j t tm c)
    with node.prems(2) show ?thesis by (simp add: function_input_def prescan_param)
  next
    case (lfa nm rt pid k args tys)
    with node.prems(2) consider "int i = k" | arg where "arg \<in> set args" "function_input arg i"
      by (auto simp: function_input_def prescan_lfa)
    then show ?thesis
    proof cases
      case 1
      with lfa(2) show ?thesis by blast
    next
      case 2
      then obtain ty where ty: "(ty, arg) \<in> set (zip tys args)"
        using lfa(3) by (metis in_set_impl_in_set_zip2)
      show ?thesis
      proof (cases ty)
        case Base
        with lfa(5) ty node.IH [of arg] 2 show ?thesis by (fastforce simp: lfa(1))
      next
        case (Fun us)
        with lfa(5) ty have "fun_ref \<Gamma> ty arg" by force
        with Fun 2(2) show ?thesis by (cases arg) (auto simp: function_input_def prescan_param)
      qed
    qed
  qed
qed

lemma wt_weaken:
  assumes "length \<Gamma>' = length \<Gamma>" "\<forall>i < length \<Gamma>. \<Gamma> ! i = Base \<longrightarrow> \<Gamma>' ! i = Base"
  shows "wt \<Gamma> e \<Longrightarrow> \<forall>i < length \<Gamma>. function_input e i \<longrightarrow> \<Gamma>' ! i = \<Gamma> ! i \<Longrightarrow> wt \<Gamma>' e"
proof (induction e rule: node_induct)
  case (node n)
  have kids: "\<forall>i < length \<Gamma>. function_input c i \<longrightarrow> \<Gamma>' ! i = \<Gamma> ! i" if "c \<in> set (children n)" for c
    using node.prems function_input_child [OF that wt_not_LambdaExpr] by blast
  from node.prems(1) show ?case
  proof (cases rule: wt_cases)
    case traversed
    with node.IH kids have "list_all (wt \<Gamma>') (children n)" by (simp add: list_all_iff)
    with traversed show ?thesis unfolding wt.simps [of \<Gamma>' n] by (cases n) simp_all
  next
    case (param i t tm c)
    with assms show ?thesis by (auto simp: wt_param lookup_ty_def split: if_splits)
  next
    case (lfa nm rt pid k args tys)
    have "lookup_ty \<Gamma>' k = Some (Fun tys)"
    proof -
      have "function_input n (nat k)" "0 \<le> k" "k < int (length \<Gamma>)" "\<Gamma> ! nat k = Fun tys"
        using lfa(1,2) by (auto simp: function_input_def prescan_lfa lookup_ty_def split: if_splits)
      with node.prems(2) assms(1) show ?thesis by (simp add: lookup_ty_def)
    qed
    moreover have "case ty of Base \<Rightarrow> wt \<Gamma>' arg | Fun _ \<Rightarrow> fun_ref \<Gamma>' ty arg"
      if arg: "(ty, arg) \<in> set (zip tys args)" for ty arg
    proof -
      have mem: "arg \<in> set (children n)" using set_zip_rightD [OF arg] lfa(1) by simp
      show ?thesis
      proof (cases ty)
        case Base
        with lfa(5) arg node.IH [OF mem] kids [OF mem] show ?thesis by fastforce
      next
        case (Fun us)
        with lfa(5) arg have ref: "fun_ref \<Gamma> ty arg" by force
        then obtain j t tm c where j: "arg = Param PARAM_EXEC j t tm c True" "t = LAMBDAOID" "lookup_ty \<Gamma> j = Some ty"
          by (cases arg) auto
        then have "function_input arg (nat j)" "nat j < length \<Gamma>"
          by (auto simp: function_input_def prescan_param lookup_ty_def split: if_splits)
        with kids [OF mem] j assms(1) Fun show ?thesis by (auto simp: lookup_ty_def split: if_splits)
      qed
    qed
    ultimately show ?thesis unfolding lfa(1) wt_lfa using lfa(3,4) by blast
  qed
qed

text \<open>The bindings of the scalar injector: the deserialized lambda of each function input.\<close>

definition scalar_bindings :: "'a Node \<Rightarrow> 'a Datum option list \<Rightarrow> 'a Node option list" where
  "scalar_bindings e vs = map (\<lambda>i.
     if function_input e i then (case vs ! i of Some (Serialized le) \<Rightarrow> Some le | _ \<Rightarrow> None) else None) [0..<length vs]"

definition used_types :: "'a Node \<Rightarrow> ty list \<Rightarrow> ty list" where
  "used_types e \<Gamma> = map (\<lambda>i. if function_input e i then \<Gamma> ! i else Base) [0..<length \<Gamma>]"

lemma wt_used_types: "wt \<Gamma> e \<Longrightarrow> wt (used_types e \<Gamma>) e"
  by (rule wt_weaken [of _ \<Gamma>]) (auto simp: used_types_def)

lemma wt_value_Fun: "wt_value (Fun tys) v \<Longrightarrow> \<exists>le. v = Some (Serialized le) \<and> wt_lambda (Fun tys) le"
  by (cases "(Fun tys, v)" rule: wt_value.cases) auto

lemma function_argument:
  assumes "wt \<Gamma> e" "list_all2 wt_value \<Gamma> vs" "i < length vs" "function_input e i"
  obtains le where "vs ! i = Some (Serialized le)" "wt_lambda (\<Gamma> ! i) le"
proof -
  obtain tys where "\<Gamma> ! i = Fun tys"
    using wt_function_input [OF assms(1,4)] by (auto simp: lookup_ty_def split: if_splits)
  with list_all2_nthD2 [OF assms(2,3)] wt_value_Fun that show thesis by metis
qed

lemma injector_scalar_bindings:
  assumes "wt \<Gamma> e" "list_all2 wt_value \<Gamma> vs" "le = LambdaExpr kd names t (Some e) r m s l l3"
  shows "lambda_injector_scalar fuel le vs =
    rbind (scalar_inject_walk fuel \<lparr>binding = scalar_bindings e vs, slotnames = []\<rparr> e) (\<lambda>e'.
      Inr (LambdaExpr kd names t (Some e') r m s l l3))"
proof -
  let ?f = "\<lambda>i. if \<not> fst (scalar_prescan le (length vs)) ! i then Inr None
      else (case vs ! i of None \<Rightarrow> Inl (elog_error (''scalar injector: function input '' @ show_nat i @ '' is NULL''))
            | Some d \<Rightarrow> rmap Some (deserialize_datum d))"
  have "rmapM ?f [0..<length vs] = Inr (scalar_bindings e vs)"
    unfolding scalar_bindings_def
  proof (rule rmapM_total)
    fix i assume "i \<in> set [0..<length vs]"
    then have i: "i < length vs" by simp
    have pre: "fst (scalar_prescan le (length vs)) ! i \<longleftrightarrow> function_input e i"
      using prescan_correct(1) [OF _ i, of le e] assms(3) by simp
    show "?f i = Inr (if function_input e i then (case vs ! i of Some (Serialized le) \<Rightarrow> Some le | _ \<Rightarrow> None) else None)"
    proof (cases "function_input e i")
      case True
      obtain le' where "vs ! i = Some (Serialized le')" using function_argument [OF assms(1,2) i True] .
      with True pre show ?thesis by simp
    qed (simp add: pre)
  qed
  then show ?thesis by (simp add: lambda_injector_scalar_def assms(3) Let_def)
qed

lemma reducible_scalar_bindings:
  assumes "wt \<Gamma> e" "list_all2 wt_value \<Gamma> vs"
  shows "reducible_ctx (used_types e \<Gamma>) \<lparr>binding = scalar_bindings e vs, slotnames = sn\<rparr>"
  unfolding reducible_ctx_def
proof (rule list_all2_all_nthI)
  show "length (used_types e \<Gamma>) = length (binding \<lparr>binding = scalar_bindings e vs, slotnames = sn\<rparr>)"
    using assms(2) by (simp add: used_types_def scalar_bindings_def list_all2_lengthD)
  fix i assume "i < length (used_types e \<Gamma>)"
  then have i: "i < length vs" using assms(2) by (simp add: used_types_def list_all2_lengthD)
  then have i': "i < length \<Gamma>" using assms(2) by (simp add: list_all2_lengthD)
  show "case binding \<lparr>binding = scalar_bindings e vs, slotnames = sn\<rparr> ! i of
      None \<Rightarrow> used_types e \<Gamma> ! i = Base | Some n \<Rightarrow> reducible (used_types e \<Gamma> ! i) n"
  proof (cases "function_input e i")
    case True
    obtain le where "vs ! i = Some (Serialized le)" "wt_lambda (\<Gamma> ! i) le" using function_argument [OF assms i True] .
    with True i i' wt_lambda_reducible show ?thesis by (auto simp: scalar_bindings_def used_types_def)
  qed (use i i' in \<open>simp add: scalar_bindings_def used_types_def\<close>)
qed

lemma flatten_lambda:
  assumes "wt_lambda (Fun \<Gamma>) le" "list_all2 wt_value \<Gamma> vs"
  obtains fuel e e' le' where "\<And>g. g \<ge> fuel \<Longrightarrow> lambda_injector_scalar g le vs = Inr le'" "le_expr le = Some e" "wt \<Gamma> e"
    "le_expr le' = Some e'" "flat e'" "le_argnames le' = le_argnames le"
    "\<And>g. g \<ge> fuel \<Longrightarrow> scalar_inject_walk g \<lparr>binding = scalar_bindings e vs, slotnames = []\<rparr> e = Inr e'"
proof -
  from assms(1) obtain kd names t e r m s l l3 where le: "le = LambdaExpr kd names t (Some e) r m s l l3" "wt \<Gamma> e"
    by (cases "(Fun \<Gamma>, le)" rule: wt_lambda.cases) auto
  obtain fuel e' where e': "scalar_inject_walk fuel \<lparr>binding = scalar_bindings e vs, slotnames = []\<rparr> e = Inr e'" "flat e'"
    using flatten_wt [OF wt_used_types [OF le(2)] reducible_scalar_bindings [OF le(2) assms(2)]] by blast
  then have walk: "scalar_inject_walk g \<lparr>binding = scalar_bindings e vs, slotnames = []\<rparr> e = Inr e'" if "g \<ge> fuel" for g
    using approx_Inr [OF inject_mono [OF that]] by blast
  show thesis
  proof (rule that)
    show "lambda_injector_scalar g le vs = Inr (LambdaExpr kd names t (Some e') r m s l l3)" if "g \<ge> fuel" for g
      using walk [OF that] by (simp add: injector_scalar_bindings [OF le(2) assms(2) le(1)])
  qed (use le e' walk in auto)
qed

end
