(* ===== verification/Flatten_Semantics.thy ===== *)
theory Flatten_Semantics
  imports Flattening
begin

text \<open>
  The meaning of an inlined body. \<open>preserves r r'\<close> says that the second computation gives every
  result the first one gives; inlining only drops errors, those of arguments that the callee does
  not use.
\<close>

section \<open>Preservation of results\<close>

definition preserves :: "'a result \<Rightarrow> 'a result \<Rightarrow> bool" where
  "preserves r r' \<longleftrightarrow> (\<forall>v. r = Inr v \<longrightarrow> r' = Inr v)"

lemma preserves_rbind: "preserves x x' \<Longrightarrow> (\<And>v. x = Inr v \<Longrightarrow> preserves (f v) (f' v)) \<Longrightarrow> preserves (rbind x f) (rbind x' f')"
  by (cases x) (auto simp: preserves_def)

lemma preserves_refl [simp]: "preserves r r"
  by (simp add: preserves_def)

lemma preserves_rmapM:
  "list_all2 (\<lambda>x y. preserves (f x) (g y)) xs ys \<Longrightarrow> preserves (rmapM f xs) (rmapM g ys)"
  by (induction xs ys rule: list_all2_induct) (auto intro!: preserves_rbind)

lemma preserves_junction:
  "list_all2 (\<lambda>x y. preserves (f x) (g y)) xs ys \<Longrightarrow> preserves (eval_junction P c f n xs) (eval_junction P c g n ys)"
  by (induction xs ys arbitrary: n rule: list_all2_induct) (auto intro!: preserves_rbind split: option.split)

lemma preserves_bool:
  "list_all2 (\<lambda>x y. preserves (f x) (g y)) xs ys \<Longrightarrow> preserves (eval_bool P f op xs) (eval_bool P g op ys)"
proof (cases op)
  case NOT_EXPR
  assume "list_all2 (\<lambda>x y. preserves (f x) (g y)) xs ys"
  then show ?thesis
    by (cases "(P, f, NOT_EXPR, xs)" rule: eval_bool.cases)
      (auto simp: NOT_EXPR rmap_def list_all2_Cons1 preserves_def result_simps)
qed (auto intro: preserves_junction)

lemma preserves_case:
  assumes "list_all2 (\<lambda>(w, r) (w', r'). preserves (f w) (g w') \<and> preserves (f r) (g r')) ws ws'" "preserves (f d) (g d')"
  shows "preserves (eval_case P f ws d) (eval_case P g ws' d')"
  using assms
proof (induction ws ws' rule: list_all2_induct)
  case (Cons wr ws wr' ws')
  then show ?case by (cases wr; cases wr') (auto intro!: preserves_rbind)
qed simp

lemma list_all2_pairs:
  assumes "list_all2 R (concat (map (\<lambda>(w, r). [w, r]) whens) @ [d]) cs"
  obtains whens' d' where "cs = concat (map (\<lambda>(w, r). [w, r]) whens') @ [d']" "R d d'"
    "list_all2 (\<lambda>(w, r) (w', r'). R w w' \<and> R r r') whens whens'"
  using assms
proof (induction whens arbitrary: cs thesis)
  case Nil
  then obtain d' where "cs = [d']" "R d d'" by (auto simp: list_all2_Cons1)
  with Nil(1) [of "[]" d'] show ?case by simp
next
  case (Cons wr whens)
  obtain w r where wr: "wr = (w, r)" by (cases wr)
  with Cons.prems(2) obtain w' r' cs' where cs: "cs = w' # r' # cs'" "R w w'" "R r r'"
    "list_all2 R (concat (map (\<lambda>(w, r). [w, r]) whens) @ [d]) cs'"
    by (auto simp: list_all2_Cons1)
  obtain whens' d' where "cs' = concat (map (\<lambda>(w, r). [w, r]) whens') @ [d']" "R d d'"
    "list_all2 (\<lambda>(w, r) (w', r'). R w w' \<and> R r r') whens whens'"
    using Cons.IH [OF _ cs(4)] .
  with cs wr show ?case by (intro Cons.prems(1) [of "(w', r') # whens'" d']) auto
qed

lemma preserves_node:
  assumes "traversed n" "\<not> is_CLE n" "n \<noteq> HolePlaceholder" "scan_row ec' = scan_row ec"
    and kids: "list_all2 (\<lambda>c c'. preserves (eval P h f ec c) (eval P h f' ec' c')) (children n) cs"
  shows "preserves (eval P h f ec n) (eval P h f' ec' (set_children n cs))"
proof (cases n)
  case (CaseExpr t whens def)
  with kids obtain whens' d' where "cs = concat (map (\<lambda>(w, r). [w, r]) whens') @ [d']"
    "preserves (eval P h f ec def) (eval P h f' ec' d')"
    "list_all2 (\<lambda>(w, r) (w', r'). preserves (eval P h f ec w) (eval P h f' ec' w') \<and>
        preserves (eval P h f ec r) (eval P h f' ec' r')) whens whens'"
    by (auto elim: list_all2_pairs)
  then show ?thesis by (simp add: CaseExpr eval_eqs preserves_case)
next
  case (FieldSelect arg k t)
  with kids obtain c where "cs = [c]" "preserves (eval P h f ec arg) (eval P h f' ec' c)"
    by (auto simp: list_all2_Cons1)
  then show ?thesis by (auto simp: FieldSelect eval_eqs intro: preserves_rbind)
qed (use assms in \<open>auto simp: eval_eqs intro!: preserves_rbind preserves_rmapM preserves_bool\<close>)

section \<open>Soundness of the inliner\<close>

text \<open>
  \<open>bind_rel\<close> relates the binding of an input to the value it stands for: an expression that
  evaluates to it, a lambda whose serialization it is, or an open parameter that holds it.
\<close>

definition bind_rel ::
  "'a prims \<Rightarrow> nat \<Rightarrow> 'a econtext \<Rightarrow> ty \<Rightarrow> nat \<Rightarrow> 'a Node option \<Rightarrow> 'a Datum option \<Rightarrow> bool" where
  "bind_rel P F ec ty i b v \<longleftrightarrow>
    (case ty of
       Base \<Rightarrow> (case b of None \<Rightarrow> param_exec ec (int i) = Inr v | Some n \<Rightarrow> no_lambda n \<longrightarrow> eval P False F ec n = Inr v)
     | Fun _ \<Rightarrow>
         (\<exists>le. b = Some le \<and> v = Some (Serialized le) \<and> wt_lambda ty le) \<or>
         (\<exists>slot t tm c l. b = Some (Param PARAM_EXEC slot t tm c l) \<and> param_exec ec slot = Inr v))"

text \<open>Only the inputs that the body mentions have to be related.\<close>

definition input_used :: "'a Node \<Rightarrow> nat \<Rightarrow> bool" where
  "input_used e i \<longleftrightarrow> function_input e i \<or> (\<exists>p \<in> set (lambda_params e). paramid p = int i)"

definition bind_ctx ::
  "'a prims \<Rightarrow> nat \<Rightarrow> 'a econtext \<Rightarrow> ty list \<Rightarrow> 'a ScalarBind \<Rightarrow> 'a Datum option list \<Rightarrow> 'a Node \<Rightarrow> bool" where
  "bind_ctx P F ec \<Gamma> ctx vs e \<longleftrightarrow> length vs = length \<Gamma> \<and> length (binding ctx) = length \<Gamma> \<and>
     (\<forall>i < length \<Gamma>. input_used e i \<longrightarrow> bind_rel P F ec (\<Gamma> ! i) i (binding ctx ! i) (vs ! i))"

lemma input_used_child:
  "c \<in> set (children n) \<Longrightarrow> \<not> is_LambdaExpr n \<Longrightarrow> input_used c i \<Longrightarrow> input_used n i"
proof (cases "traversed n")
  case True
  assume "c \<in> set (children n)" "\<not> is_LambdaExpr n" "input_used c i"
  with True function_input_child [of c n i] show ?thesis
    by (auto simp: input_used_def prescan_traversed)
next
  case False
  assume "c \<in> set (children n)" "\<not> is_LambdaExpr n" "input_used c i"
  with False function_input_child [of c n i] show ?thesis
    by (cases n) (auto simp: input_used_def prescan_lfa)
qed

lemma bind_ctx_child:
  "bind_ctx P F ec \<Gamma> ctx vs n \<Longrightarrow> c \<in> set (children n) \<Longrightarrow> \<not> is_LambdaExpr n \<Longrightarrow> bind_ctx P F ec \<Gamma> ctx vs c"
  using input_used_child by (auto simp: bind_ctx_def)

lemma input_used_simps:
  "0 \<le> i \<Longrightarrow> input_used (Param PARAM_EXEC i t tm c True) (nat i)"
  "0 \<le> i \<Longrightarrow> input_used (LambdaFuncAliasExpr nm rt pid i args) (nat i)"
  by (simp_all add: input_used_def function_input_def prescan_param prescan_lfa)

lemma bind_ctx_lookup:
  assumes "bind_ctx P F ec \<Gamma> ctx vs e" "lookup_ty \<Gamma> i = Some ty" "0 \<le> i \<Longrightarrow> input_used e (nat i)"
  obtains "0 \<le> i" "i < int (length (binding ctx))" "bind_rel P F ec ty (nat i) (bound ctx i) (vs ! nat i)"
    "param_exec (ec\<lparr>param_exec_vals := vs\<rparr>) i = Inr (vs ! nat i)"
proof -
  have len: "length (binding ctx) = length \<Gamma>" "length vs = length \<Gamma>" using assms(1) by (simp_all add: bind_ctx_def)
  obtain *: "0 \<le> i" "i < int (length (binding ctx))" "bound ctx i = binding ctx ! nat i" "\<Gamma> ! nat i = ty" "nat i < length \<Gamma>"
    using bound_ctx [OF assms(2) len(1)] .
  with assms(1,3) len that show thesis by (auto simp: bind_ctx_def param_exec_def)
qed

lemma wt_lambdaE:
  assumes "wt_lambda (Fun tys) le"
  obtains k names t e r m s l l3 where "le = LambdaExpr k names t (Some e) r m s l l3" "length names = length tys" "wt tys e"
  using assms by (cases "(Fun tys, le)" rule: wt_lambda.cases) auto

lemma cache_build_unhoisted: "lambda_cache_build P False f d vs ks = lambda_cache_build P False g d vs ks'"
  by (cases "deserialize_datum d") (auto simp: lambda_cache_build_def split: option.split)

lemma call_unhoisted:
  "ExecEvalCallLambdaExpr P False f lv vs None ks = ExecEvalCallLambdaExpr P False g lv vs None ks'"
  using cache_build_unhoisted [of P f _ vs ks g ks'] by (cases lv) (simp_all add: ExecEvalCallLambdaExpr_def)

lemma call_lambda_value:
  "length names \<le> length vs \<Longrightarrow>
   ExecEvalCallLambdaExpr P False f (Some (Serialized (LambdaExpr k names t (Some e) r m s l l3))) vs None ks = Inr (RunBody e)"
  by (simp add: ExecEvalCallLambdaExpr_def lambda_cache_build_def)

lemma run_call_mono: "f \<le> g \<Longrightarrow> approx (run_call P h f ec vs r) (run_call P h g ec vs r)"
  using eval_mono by (cases f; cases g) (auto simp: run_call_def split: outcome.split)

lemma run_call_frame: "run_call P h f (ec\<lparr>param_exec_vals := us\<rparr>) vs r = run_call P h f ec vs r"
  by (cases f) (simp_all add: run_call_def split: outcome.split)

lemma no_lambda_children: "no_lambda n \<Longrightarrow> c \<in> set (children n) \<Longrightarrow> no_lambda c"
  by (simp add: no_lambda.simps [of n] list_all_iff)

text \<open>The statement of soundness for one node, to state the induction.\<close>

definition inject_sound_at :: "'a prims \<Rightarrow> nat \<Rightarrow> 'a econtext \<Rightarrow> nat \<Rightarrow> 'a Node \<Rightarrow> bool" where
  "inject_sound_at P F ec g e \<longleftrightarrow>
    (\<forall>ctx \<Gamma> vs e' f w. scalar_inject_walk g ctx e = Inr e' \<longrightarrow> wt \<Gamma> e \<longrightarrow> bind_ctx P F ec \<Gamma> ctx vs e \<longrightarrow> no_lambda e' \<longrightarrow>
       f \<le> F \<longrightarrow> eval P False f (ec\<lparr>param_exec_vals := vs\<rparr>) e = Inr w \<longrightarrow> eval P False F ec e' = Inr w)"

lemma inject_sound_atD:
  "inject_sound_at P F ec g e \<Longrightarrow> scalar_inject_walk g ctx e = Inr e' \<Longrightarrow> wt \<Gamma> e \<Longrightarrow> bind_ctx P F ec \<Gamma> ctx vs e \<Longrightarrow>
     no_lambda e' \<Longrightarrow> f \<le> F \<Longrightarrow> eval P False f (ec\<lparr>param_exec_vals := vs\<rparr>) e = Inr w \<Longrightarrow> eval P False F ec e' = Inr w"
  unfolding inject_sound_at_def by blast

text \<open>The arguments of a call are related to their values in the callee's context.\<close>

lemma inject_args_rel:
  assumes ih: "\<And>arg. arg \<in> set args \<Longrightarrow> inject_sound_at P F ec g arg"
    and ctx: "\<And>arg. arg \<in> set args \<Longrightarrow> bind_ctx P F ec \<Gamma> ctx vs arg" and f: "f \<le> F"
    and len: "length args = length tys"
    and wt: "\<forall>(ty, arg) \<in> set (zip tys args). case ty of Base \<Rightarrow> wt \<Gamma> arg | Fun _ \<Rightarrow> fun_ref \<Gamma> ty arg"
    and inj: "rmapM (scalar_inject_walk g ctx) args = Inr bs"
    and ev: "rmapM (eval P False f (ec\<lparr>param_exec_vals := vs\<rparr>)) args = Inr avs"
    and j: "j < length args"
  shows "bind_rel P F ec (tys ! j) j (Some (bs ! j)) (avs ! j)"
proof -
  have inj': "scalar_inject_walk g ctx (args ! j) = Inr (bs ! j)"
    using inj j by (auto simp: rmapM_eq_Inr list_all2_conv_all_nth)
  have ev': "eval P False f (ec\<lparr>param_exec_vals := vs\<rparr>) (args ! j) = Inr (avs ! j)"
    using ev j by (auto simp: rmapM_eq_Inr list_all2_conv_all_nth)
  have arg: "(tys ! j, args ! j) \<in> set (zip tys args)" using j len by (auto simp: set_zip)
  show ?thesis
  proof (cases "tys ! j")
    case Base
    with wt arg have "wt \<Gamma> (args ! j)" by force
    with inject_sound_atD [OF ih inj' _ ctx _ f ev'] j Base show ?thesis by (simp add: bind_rel_def)
  next
    case (Fun us)
    with wt arg have "fun_ref \<Gamma> (Fun us) (args ! j)" by force
    then obtain i t tm c where i: "args ! j = Param PARAM_EXEC i t tm c True" "lookup_ty \<Gamma> i = Some (Fun us)"
      by (cases "args ! j") auto
    obtain rel: "bind_rel P F ec (Fun us) (nat i) (bound ctx i) (vs ! nat i)"
      "param_exec (ec\<lparr>param_exec_vals := vs\<rparr>) i = Inr (vs ! nat i)"
      using bind_ctx_lookup [OF ctx i(2)] input_used_simps(1) i(1) j by (metis nth_mem)
    then have "bound ctx i \<noteq> None" by (auto simp: bind_rel_def)
    with inj' i(1) have "bound ctx i = Some (bs ! j)" by (auto simp: inject_param split: option.splits)
    moreover have "vs ! nat i = avs ! j" using ev' i(1) rel(2) by (simp add: eval_param_exec)
    ultimately show ?thesis using rel(1) Fun by (simp add: bind_rel_def)
  qed
qed

lemma inject_sound_lfa:
  assumes ih: "\<And>arg. arg \<in> set args \<Longrightarrow> inject_sound_at P F ec g arg"
    and ih_body: "\<And>g' e'. g' < g \<Longrightarrow> inject_sound_at P F ec g' e'"
    and ctx: "bind_ctx P F ec \<Gamma> ctx vs (LambdaFuncAliasExpr nm rt pid k args)" and f: "f \<le> F"
    and k: "lookup_ty \<Gamma> k = Some (Fun tys)" and len: "length args = length tys" "length args \<le> LAMBDA_MAX_ARGS"
    and wt: "\<forall>(ty, arg) \<in> set (zip tys args). case ty of Base \<Rightarrow> wt \<Gamma> arg | Fun _ \<Rightarrow> fun_ref \<Gamma> ty arg"
    and inj: "scalar_inject_walk g ctx (LambdaFuncAliasExpr nm rt pid k args) = Inr e'" and nl: "no_lambda e'"
    and ev: "eval P False f (ec\<lparr>param_exec_vals := vs\<rparr>) (LambdaFuncAliasExpr nm rt pid k args) = Inr w"
  shows "eval P False F ec e' = Inr w"
proof -
  have ctx_args: "bind_ctx P F ec \<Gamma> ctx vs arg" if "arg \<in> set args" for arg
    by (rule bind_ctx_child [OF ctx]) (use that in simp_all)
  obtain k': "0 \<le> k" "k < int (length (binding ctx))" "bind_rel P F ec (Fun tys) (nat k) (bound ctx k) (vs ! nat k)"
    "param_exec (ec\<lparr>param_exec_vals := vs\<rparr>) k = Inr (vs ! nat k)"
    using bind_ctx_lookup [OF ctx k input_used_simps(2)] .
  from ev k'(4) len(2) obtain avs r where avs: "rmapM (eval P False f (ec\<lparr>param_exec_vals := vs\<rparr>)) args = Inr avs"
    and call: "ExecEvalCallLambdaExpr P False f (vs ! nat k) avs None (ExecInitCallLambdaCacheKey args) = Inr r"
    and run: "run_call P False f (ec\<lparr>param_exec_vals := vs\<rparr>) avs r = Inr w"
    by (auto simp: eval_lfa result_simps)
  have lavs: "length avs = length args" using avs by (simp add: rmapM_eq_Inr list_all2_lengthD)
  from k'(3) consider
    (lam) le where "bound ctx k = Some le" "vs ! nat k = Some (Serialized le)" "wt_lambda (Fun tys) le"
  | (held) slot t tm c l where "bound ctx k = Some (Param PARAM_EXEC slot t tm c l)" "param_exec ec slot = Inr (vs ! nat k)"
    by (auto simp: bind_rel_def)
  then show ?thesis
  proof cases
    case lam
    obtain kd names t body r' m s l l3 where
      le: "le = LambdaExpr kd names t (Some body) r' m s l l3" "length names = length tys" "wt tys body"
      using wt_lambdaE [OF lam(3)] .
    have "r = RunBody body" using call le len lam(2) lavs call_lambda_value [of names avs] by simp
    then obtain f' where f': "f = Suc f'" "eval P False f' (ec\<lparr>param_exec_vals := avs\<rparr>) body = Inr w"
      using run by (cases f) (auto simp: run_call_def)
    from inj k'(1,2) lam(1) le len obtain bs g' where bs: "rmapM (scalar_inject_walk g ctx) args = Inr bs" "g = Suc g'"
      "scalar_inject_walk g' \<lparr>binding = map Some bs, slotnames = slotnames ctx\<rparr> body = Inr e'"
      by (cases g) (auto simp: inject_lfa result_simps)
    have "length bs = length args" using bs(1) by (simp add: rmapM_eq_Inr list_all2_lengthD)
    then have inner: "bind_ctx P F ec tys \<lparr>binding = map Some bs, slotnames = slotnames ctx\<rparr> avs body"
      using inject_args_rel [OF ih ctx_args f len(1) wt bs(1) avs] lavs len(1) by (simp add: bind_ctx_def)
    have "inject_sound_at P F ec g' body" "f' \<le> F" using ih_body bs(2) f f'(1) by simp_all
    from inject_sound_atD [OF this(1) bs(3) le(3) inner nl this(2) f'(2)] show ?thesis .
  next
    case held
    from inj k'(1,2) held(1) obtain bs where bs: "rmapM (scalar_inject_walk g ctx) args = Inr bs"
      and e': "e' = LambdaFuncAliasExpr (slot_name ctx slot nm) rt pid slot bs"
      by (auto simp: inject_lfa result_simps)
    have lbs: "length bs = length args" using bs by (simp add: rmapM_eq_Inr list_all2_lengthD)
    have "eval P False F ec (bs ! j) = Inr (avs ! j)" if j: "j < length bs" for j
    proof -
      have "bind_rel P F ec (tys ! j) j (Some (bs ! j)) (avs ! j)"
        using inject_args_rel [OF ih ctx_args f len(1) wt bs avs] j lbs by simp
      moreover have "no_lambda (bs ! j)" using no_lambda_children [OF nl] j e' by simp
      ultimately show ?thesis
        by (auto simp: bind_rel_def eval_param_exec no_lambda.simps [of "bs ! j"] elim!: wt_lambdaE split: ty.splits)
    qed
    then have "rmapM (eval P False F ec) bs = Inr avs"
      using lavs lbs by (simp add: rmapM_eq_Inr list_all2_conv_all_nth)
    moreover have "run_call P False F ec avs r = Inr w"
      using approx_Inr [OF run_call_mono [OF f] run] by (simp add: run_call_frame)
    ultimately show ?thesis
      using held(2) call len(2) lbs
        call_unhoisted [of P F "vs ! nat k" avs "ExecInitCallLambdaCacheKey bs" f "ExecInitCallLambdaCacheKey args"]
      by (simp add: e' eval_lfa)
  qed
qed

lemma inject_sound_all: "inject_sound_at P F ec g e"
proof (induction g e rule: fuel_node_induct)
  case (node g n)
  show ?case
    unfolding inject_sound_at_def
  proof (intro allI impI)
    fix ctx \<Gamma> vs e' f w
    assume inj: "scalar_inject_walk g ctx n = Inr e'" and wt: "wt \<Gamma> n" and ctx: "bind_ctx P F ec \<Gamma> ctx vs n"
      and nl: "no_lambda e'" and f: "f \<le> F" and ev: "eval P False f (ec\<lparr>param_exec_vals := vs\<rparr>) n = Inr w"
    from wt show "eval P False F ec e' = Inr w"
    proof (cases rule: wt_cases)
      case traversed
      from inj traversed(1) obtain cs where cs: "rmapM (scalar_inject_walk g ctx) (children n) = Inr cs" "e' = set_children n cs"
        by (auto simp: inject_traversed expression_tree_mutator_def result_simps)
      have len: "length cs = length (children n)" using cs(1) by (simp add: rmapM_eq_Inr list_all2_lengthD)
      have "list_all2 (\<lambda>c c'. preserves (eval P False f (ec\<lparr>param_exec_vals := vs\<rparr>) c) (eval P False F ec c')) (children n) cs"
      proof (rule list_all2_all_nthI)
        fix j assume j: "j < length (children n)"
        have "scalar_inject_walk g ctx (children n ! j) = Inr (cs ! j)"
          using cs(1) j by (auto simp: rmapM_eq_Inr list_all2_conv_all_nth)
        moreover have "no_lambda (cs ! j)"
          using no_lambda_children [OF nl] cs(2) len j by simp
        moreover have "inject_sound_at P F ec g (children n ! j)" "wt \<Gamma> (children n ! j)"
          using node.IH(1) traversed(4) j by simp_all
        ultimately show "preserves (eval P False f (ec\<lparr>param_exec_vals := vs\<rparr>) (children n ! j)) (eval P False F ec (cs ! j))"
          using inject_sound_atD [OF _ _ _ bind_ctx_child [OF ctx] _ f] wt_not_LambdaExpr [OF wt] j
          by (simp add: preserves_def)
      qed (simp add: len)
      from preserves_node [OF traversed(1-3) _ this] ev cs(2) show ?thesis by (simp add: preserves_def)
    next
      case (param i t tm c)
      obtain rel: "bind_rel P F ec Base (nat i) (bound ctx i) (vs ! nat i)" "0 \<le> i"
        "param_exec (ec\<lparr>param_exec_vals := vs\<rparr>) i = Inr (vs ! nat i)"
        using bind_ctx_lookup [OF ctx [unfolded param(1)] param(3) input_used_simps(1)] .
      with inj nl ev param(1) show ?thesis
        by (auto simp: inject_param bind_rel_def eval_param_exec split: option.splits)
    next
      case (lfa nm rt pid k args tys)
      show ?thesis
        by (rule inject_sound_lfa [OF _ node.IH(2) ctx [unfolded lfa(1)] f lfa(2-5) inj [unfolded lfa(1)] nl ev [unfolded lfa(1)]])
          (use node.IH(1) lfa(1) in simp)
    qed
  qed
qed

lemmas inject_sound = inject_sound_atD [OF inject_sound_all]

section \<open>Evaluation of flat bodies\<close>

lemma eval_flat: "flat e \<Longrightarrow> eval P h f ec e = eval P h' f' ec e"
proof (induction e rule: node_induct)
  case (node n)
  then have kids: "eval P h f ec c = eval P h' f' ec c" if "c \<in> set (children n)" for c
    using that by (simp add: flat.simps [of n] list_all_iff)
  have args: "rmapM (eval P h f ec) xs = rmapM (eval P h' f' ec) xs" if "set xs \<subseteq> set (children n)" for xs
    using kids that by (intro rmapM_cong) auto
  from node.prems have kind: "\<not> is_LFA n" "\<not> is_LambdaExpr n" "\<not> is_CLE n" by (simp_all add: flat.simps [of n])
  show ?case
  proof (cases n)
    case (CaseExpr t whens def)
    have "eval_case P (eval P h f ec) whens def = eval_case P (eval P h' f' ec) whens def"
      using kids children_case [of _ _ whens] CaseExpr by (intro eval_case_eq) auto
    then show ?thesis by (simp add: CaseExpr eval_eqs)
  next
    case (BoolExpr op xs)
    then have "eval_bool P (eval P h f ec) op xs = eval_bool P (eval P h' f' ec) op xs"
      using kids by (intro eval_bool_cong) auto
    then show ?thesis by (simp add: BoolExpr eval_eqs)
  qed (use kids args kind in \<open>simp_all add: eval_eqs eval_param\<close>)
qed

lemma wt_no_lfa_flat: "wt \<Gamma> e \<Longrightarrow> \<not> has_lfa_walker e \<Longrightarrow> flat e"
proof (induction e rule: node_induct)
  case (node n)
  from node.prems(1) show ?case
  proof (cases rule: wt_cases)
    case traversed
    with node show ?thesis
      by (simp add: flat.simps [of n] has_lfa_walker.simps [of n] expression_tree_walker_def list_all_iff list_ex_iff
          traversed_kind)
  next
    case (param i t tm c)
    then show ?thesis by simp
  next
    case (lfa nm rt pid k args tys)
    then have "is_LFA n" by simp
    with node.prems(2) show ?thesis by (simp add: has_lfa_walker.simps [of n])
  qed
qed

section \<open>A call with and without hoisting\<close>

definition call_lambda ::
  "'a prims \<Rightarrow> bool \<Rightarrow> nat \<Rightarrow> 'a econtext \<Rightarrow> 'a Datum option \<Rightarrow> 'a Datum option list \<Rightarrow> nat list \<Rightarrow> 'a Datum option result" where
  "call_lambda P hoist fuel ec lambda_value argvalues cache_key_idx =
    rbind (ExecEvalCallLambdaExpr P hoist fuel lambda_value argvalues None cache_key_idx)
      (run_call P hoist fuel ec argvalues)"

lemma call_unhoisted_body:
  assumes "wt_lambda (Fun \<Gamma>) le" "length vs = length \<Gamma>" "le_expr le = Some e"
    "call_lambda P False f ec (Some (Serialized le)) vs ks = Inr w"
  obtains f' where "eval P False f' (ec\<lparr>param_exec_vals := vs\<rparr>) e = Inr w"
proof -
  obtain k names t e0 r m s l l3 where le: "le = LambdaExpr k names t (Some e0) r m s l l3" "length names = length \<Gamma>"
    using wt_lambdaE [OF assms(1)] .
  with assms(2-4) have "run_call P False f ec vs (RunBody e) = Inr w"
    by (simp add: call_lambda_def call_lambda_value)
  with that show thesis by (cases f) (auto simp: run_call_def)
qed

lemma bind_ctx_scalar_bindings:
  assumes "wt \<Gamma> e" "list_all2 wt_value \<Gamma> vs"
  shows "bind_ctx P F (ec\<lparr>param_exec_vals := vs\<rparr>) (used_types e \<Gamma>) \<lparr>binding = scalar_bindings e vs, slotnames = sn\<rparr> vs e"
  unfolding bind_ctx_def
proof (intro conjI allI impI)
  have len: "length vs = length \<Gamma>" using assms(2) by (simp add: list_all2_lengthD)
  then show "length vs = length (used_types e \<Gamma>)"
    "length (binding \<lparr>binding = scalar_bindings e vs, slotnames = sn\<rparr>) = length (used_types e \<Gamma>)"
    by (simp_all add: used_types_def scalar_bindings_def)
  fix i assume "i < length (used_types e \<Gamma>)"
  then have i: "i < length vs" "i < length \<Gamma>" using len by (simp_all add: used_types_def)
  show "bind_rel P F (ec\<lparr>param_exec_vals := vs\<rparr>) (used_types e \<Gamma> ! i) i
      (binding \<lparr>binding = scalar_bindings e vs, slotnames = sn\<rparr> ! i) (vs ! i)"
  proof (cases "function_input e i")
    case True
    obtain le where le: "vs ! i = Some (Serialized le)" "wt_lambda (\<Gamma> ! i) le" using function_argument [OF assms i(1) True] .
    then obtain tys where "\<Gamma> ! i = Fun tys" by (cases "\<Gamma> ! i") auto
    with True le i show ?thesis by (simp add: bind_rel_def used_types_def scalar_bindings_def)
  next
    case False
    with i show ?thesis by (simp add: bind_rel_def used_types_def scalar_bindings_def param_exec_def)
  qed
qed

text \<open>What a client may rely on: a folded expression gives every result of the original one. Folding itself may fail.\<close>

definition folds_results :: "'a prims \<Rightarrow> bool" where
  "folds_results P \<longleftrightarrow> (\<forall>n n' h f ec v. const_fold P n = Inr n' \<longrightarrow> eval P h f ec n = Inr v \<longrightarrow> eval P h f ec n' = Inr v)"

text \<open>The inlined body of a call has a constant subexpression that folding rejects with \<open>e\<close>.\<close>

definition fold_error :: "'a prims \<Rightarrow> 'a Node \<Rightarrow> 'a Datum option list \<Rightarrow> pg_error \<Rightarrow> bool" where
  "fold_error P le vs e \<longleftrightarrow> lambda_body_has_lfa le \<and>
     (\<exists>F le' body. (\<forall>g \<ge> F. lambda_injector_scalar g le vs = Inr le') \<and> le_expr le' = Some body \<and> const_fold P body = Inl e)"

lemma hoisted_build:
  assumes le: "wt_lambda (Fun \<Gamma>) le" and vs: "list_all2 wt_value \<Gamma> vs"
    and keys: "\<forall>i < length \<Gamma>. \<Gamma> ! i \<noteq> Base \<longrightarrow> i \<in> set ks" and has: "lambda_body_has_lfa le"
    and inj: "lambda_injector_scalar g le vs = Inr le'" "le_expr le' = Some e'"
  shows "ExecEvalCallLambdaExpr P True g (Some (Serialized le)) vs None ks = rmap RunBody (const_fold P e')"
proof -
  have len: "length vs = length \<Gamma>" using vs by (simp add: list_all2_lengthD)
  obtain k names t e r m s l l3 where node: "le = LambdaExpr k names t (Some e) r m s l l3" "length names = length \<Gamma>" "wt \<Gamma> e"
    using wt_lambdaE [OF le] .
  then have e: "le_expr le = Some e" by simp
  have "find (\<lambda>i. i \<notin> set ks) (lambda_scalar_func_inputs le (length vs)) = None"
    using keys wt_function_input [OF node(3)] prescan_correct(1) [OF e] e len
    by (fastforce simp: find_None_iff lambda_scalar_func_inputs_def lookup_ty_def split: if_splits)
  with has inj node len show ?thesis by (simp add: ExecEvalCallLambdaExpr_def lambda_cache_build_def)
qed

lemma plain_build:
  assumes "wt_lambda (Fun \<Gamma>) le" "length vs = length \<Gamma>" "le_expr le = Some e" "\<not> lambda_body_has_lfa le"
  shows "ExecEvalCallLambdaExpr P True g (Some (Serialized le)) vs None ks = Inr (RunBody e)"
proof -
  obtain k names t e0 r m s l l3 where "le = LambdaExpr k names t (Some e0) r m s l l3" "length names = length \<Gamma>"
    using wt_lambdaE [OF assms(1)] .
  with assms(2-4) show ?thesis by (simp add: ExecEvalCallLambdaExpr_def lambda_cache_build_def)
qed

lemma run_body: "0 < g \<Longrightarrow> \<forall>g. eval P h g (ec\<lparr>param_exec_vals := vs\<rparr>) e = r \<Longrightarrow> run_call P h g ec vs (RunBody e) = r"
  by (cases g) (simp_all add: run_call_def)

lemma call_hoisted:
  assumes le: "wt_lambda (Fun \<Gamma>) le" and vs: "list_all2 wt_value \<Gamma> vs"
    and keys: "\<forall>i < length \<Gamma>. \<Gamma> ! i \<noteq> Base \<longrightarrow> i \<in> set ks"
    and fold: "folds_results P"
    and off: "call_lambda P False f ec (Some (Serialized le)) vs ks = Inr w"
  shows "\<exists>F. (\<forall>g \<ge> F. call_lambda P True g ec (Some (Serialized le)) vs ks = Inr w) \<or>
    (\<exists>e. fold_error P le vs e \<and> (\<forall>g \<ge> F. call_lambda P True g ec (Some (Serialized le)) vs ks = Inl e))"
proof -
  obtain fuel e e' le' where flat: "\<And>g. g \<ge> fuel \<Longrightarrow> lambda_injector_scalar g le vs = Inr le'" "le_expr le = Some e" "wt \<Gamma> e"
    "le_expr le' = Some e'" "flat e'"
    "\<And>g. g \<ge> fuel \<Longrightarrow> scalar_inject_walk g \<lparr>binding = scalar_bindings e vs, slotnames = []\<rparr> e = Inr e'"
    using flatten_lambda [OF le vs] by metis
  have len: "length vs = length \<Gamma>" using vs by (simp add: list_all2_lengthD)
  obtain f' where src: "eval P False f' (ec\<lparr>param_exec_vals := vs\<rparr>) e = Inr w"
    using call_unhoisted_body [OF le len flat(2) off] .
  show ?thesis
  proof (cases "lambda_body_has_lfa le")
    case False
    then have "flat e" using wt_no_lfa_flat [OF flat(3)] flat(2) by (simp add: lambda_body_has_lfa_def)
    then have "\<forall>g. eval P True g (ec\<lparr>param_exec_vals := vs\<rparr>) e = Inr w"
      using src eval_flat [of e P True _ _ False f'] by simp
    then have "\<forall>g \<ge> Suc 0. call_lambda P True g ec (Some (Serialized le)) vs ks = Inr w"
      by (simp add: call_lambda_def plain_build [OF le len flat(2) False] run_body)
    then show ?thesis by blast
  next
    case True
    note build = hoisted_build [OF le vs keys True flat(1,4)]
    show ?thesis
    proof (cases "const_fold P e'")
      case (Inl er)
      then have "fold_error P le vs er" using True flat(1,4) by (auto simp: fold_error_def)
      moreover have "\<forall>g \<ge> fuel. call_lambda P True g ec (Some (Serialized le)) vs ks = Inl er" using build Inl by (simp add: call_lambda_def)
      ultimately show ?thesis by blast
    next
      case (Inr body)
      have "eval P False f' (ec\<lparr>param_exec_vals := vs\<rparr>) e' = Inr w"
        by (rule inject_sound [OF flat(6) [of fuel] wt_used_types [OF flat(3)] bind_ctx_scalar_bindings [OF flat(3) vs]
              flat_no_lambda [OF flat(5)], of f']) (use src in simp_all)
      then have "\<forall>g. eval P True g (ec\<lparr>param_exec_vals := vs\<rparr>) e' = Inr w" using eval_flat [OF flat(5), of P True _ _ False f'] by simp
      then have "\<forall>g. eval P True g (ec\<lparr>param_exec_vals := vs\<rparr>) body = Inr w" using fold Inr unfolding folds_results_def by blast
      then have "\<forall>g \<ge> Suc fuel. call_lambda P True g ec (Some (Serialized le)) vs ks = Inr w"
        using build Inr by (simp add: call_lambda_def run_body)
      then show ?thesis by blast
    qed
  qed
qed

end
