(* ===== verification/Lambda_Calls.thy ===== *)
theory Lambda_Calls
  imports Flatten_Semantics
begin

text \<open>
  Calls of well-typed lambdas: evaluation ends, flattening and hoisting are correct, and a partial
  application behaves as the full call. The properties of the injector and the evaluator are at
  the end, with small lambdas over integers to evaluate them on.
\<close>

section \<open>Evaluation ends\<close>

definition prims_total :: "'a prims \<Rightarrow> bool" where
  "prims_total P \<longleftrightarrow> (\<forall>tag f vs. call_op P tag f vs \<noteq> Inl Diverge) \<and> (\<forall>f vs. call_function P f vs \<noteq> Inl Diverge) \<and>
     (\<forall>n v. select_field P n v \<noteq> Inl Diverge) \<and> (\<forall>tag vs. other_op P tag vs \<noteq> Inl Diverge)"

lemma rmapM_no_diverge: "(\<And>x. x \<in> set xs \<Longrightarrow> f x \<noteq> Inl Diverge) \<Longrightarrow> rmapM f xs \<noteq> Inl Diverge"
  by (induction xs) (auto simp: result_simps)

lemma junction_no_diverge: "(\<And>x. x \<in> set xs \<Longrightarrow> f x \<noteq> Inl Diverge) \<Longrightarrow> eval_junction P c f n xs \<noteq> Inl Diverge"
  by (induction xs arbitrary: n) (auto simp: result_simps split: option.splits)

lemma bool_no_diverge: "(\<And>x. x \<in> set xs \<Longrightarrow> f x \<noteq> Inl Diverge) \<Longrightarrow> eval_bool P f op xs \<noteq> Inl Diverge"
  by (cases "(P, f, op, xs)" rule: eval_bool.cases) (auto simp: junction_no_diverge rmap_def result_simps)

lemma case_no_diverge:
  "(\<And>w r. (w, r) \<in> set ws \<Longrightarrow> f w \<noteq> Inl Diverge \<and> f r \<noteq> Inl Diverge) \<Longrightarrow> f d \<noteq> Inl Diverge \<Longrightarrow>
     eval_case P f ws d \<noteq> Inl Diverge"
proof (induction ws)
  case (Cons wr ws)
  obtain w r where wr: "wr = (w, r)" by (cases wr)
  have "eval_case P f ws d \<noteq> Inl Diverge" by (rule Cons.IH) (use Cons.prems wr in auto)
  with Cons.prems(1) [of w r] show ?case by (auto simp: wr result_simps)
qed simp

lemma node_no_diverge:
  assumes "prims_total P" "traversed n" "\<not> is_CLE n" "\<And>c. c \<in> set (children n) \<Longrightarrow> eval P h f ec c \<noteq> Inl Diverge"
  shows "eval P h f ec n \<noteq> Inl Diverge"
proof (cases n)
  case (CaseExpr t whens def)
  have "eval_case P (eval P h f ec) whens def \<noteq> Inl Diverge"
    using assms(4) children_case [of _ _ whens] CaseExpr by (intro case_no_diverge) auto
  then show ?thesis by (simp add: CaseExpr eval_eqs)
qed (use assms in \<open>auto simp: eval_eqs result_simps prims_total_def bool_no_diverge rmapM_no_diverge\<close>)

text \<open>\<open>terminating ty v\<close>: a function value is a lambda that ends on every terminating arguments.\<close>

function terminating :: "'a prims \<Rightarrow> 'a econtext \<Rightarrow> ty \<Rightarrow> 'a Datum option \<Rightarrow> bool" where
  "terminating P ec ty v =
    (case ty of
       Base \<Rightarrow> True
     | Fun tys \<Rightarrow>
         (\<exists>k names t e r m s l l3. v = Some (Serialized (LambdaExpr k names t (Some e) r m s l l3)) \<and>
           length names = length tys \<and>
           (\<forall>vs. length tys = length vs \<longrightarrow> (\<forall>(ty', v') \<in> set (zip tys vs). terminating P ec ty' v') \<longrightarrow>
             (\<exists>f. eval P False f (ec\<lparr>param_exec_vals := vs\<rparr>) e \<noteq> Inl Diverge))))"
  by pat_completeness auto
termination
  by (relation "measure (\<lambda>(P, ec, ty, v). size ty)") (auto dest!: set_zip_leftD simp: size_list_estimation' less_Suc_eq_le)

declare terminating.simps [simp del]

lemma terminating_Base: "terminating P ec Base v"
  by (subst terminating.simps) simp

lemma terminating_Fun: "terminating P ec (Fun tys) v \<longleftrightarrow>
    (\<exists>k names t e r m s l l3. v = Some (Serialized (LambdaExpr k names t (Some e) r m s l l3)) \<and> length names = length tys \<and>
      (\<forall>vs. list_all2 (terminating P ec) tys vs \<longrightarrow>
        (\<exists>f. eval P False f (ec\<lparr>param_exec_vals := vs\<rparr>) e \<noteq> Inl Diverge)))"
  by (subst terminating.simps) (simp add: list_all2_iff conj_commute imp_conjL)

lemma eval_no_diverge_mono: "eval P h f ec e \<noteq> Inl Diverge \<Longrightarrow> f \<le> g \<Longrightarrow> eval P h g ec e = eval P h f ec e"
  using eval_mono [of f g P h ec e] by (auto simp: approx_def)

lemma common_fuel:
  assumes "\<And>x. x \<in> set xs \<Longrightarrow> \<exists>f. eval P h f ec x \<noteq> Inl Diverge"
  shows "\<exists>f. \<forall>x \<in> set xs. eval P h f ec x \<noteq> Inl Diverge"
  using assms
proof (induction xs)
  case (Cons x xs)
  obtain g where g: "eval P h g ec x \<noteq> Inl Diverge" using Cons.prems [of x] by auto
  obtain f where f: "\<forall>x \<in> set xs. eval P h f ec x \<noteq> Inl Diverge" using Cons by auto
  from f g have "\<forall>y \<in> set (x # xs). eval P h (max f g) ec y \<noteq> Inl Diverge"
    using eval_no_diverge_mono [of P h _ ec _ "max f g"] by (metis max.cobounded1 max.cobounded2 set_ConsD)
  then show ?case by blast
qed simp

lemma eval_wt_terminates:
  assumes "prims_total P" "wt \<Gamma> e" "list_all2 (terminating P ec) \<Gamma> vs"
  shows "\<exists>f. eval P False f (ec\<lparr>param_exec_vals := vs\<rparr>) e \<noteq> Inl Diverge"
  using assms(2)
proof (induction e rule: node_induct)
  case (node n)
  let ?ec = "ec\<lparr>param_exec_vals := vs\<rparr>"
  have len: "length vs = length \<Gamma>" using assms(3) by (simp add: list_all2_lengthD)
  from node.prems show ?case
  proof (cases rule: wt_cases)
    case traversed
    then obtain f where "\<forall>c \<in> set (children n). eval P False f ?ec c \<noteq> Inl Diverge"
      using common_fuel [of "children n" P False ?ec] node.IH by blast
    with node_no_diverge [OF assms(1) traversed(1,2)] show ?thesis by blast
  next
    case (param i t tm c)
    then show ?thesis by (simp add: eval_param_exec param_exec_def)
  next
    case (lfa nm rt pid k args tys)
    have k: "0 \<le> k" "nat k < length \<Gamma>" "\<Gamma> ! nat k = Fun tys" using lfa(2) by (auto simp: lookup_ty_def split: if_splits)
    then have "terminating P ec (Fun tys) (vs ! nat k)" using list_all2_nthD [OF assms(3) k(2)] by simp
    then obtain kd names t e r m s l l3 where v: "vs ! nat k = Some (Serialized (LambdaExpr kd names t (Some e) r m s l l3))"
      "length names = length tys" and body: "\<And>vs. list_all2 (terminating P ec) tys vs \<Longrightarrow>
        \<exists>f. eval P False f (ec\<lparr>param_exec_vals := vs\<rparr>) e \<noteq> Inl Diverge"
      unfolding terminating_Fun by blast
    have arg: "\<exists>f. eval P False f ?ec x \<noteq> Inl Diverge" if x: "x \<in> set args" for x
    proof -
      obtain ty where ty: "(ty, x) \<in> set (zip tys args)" using x lfa(3) by (metis in_set_impl_in_set_zip2)
      show ?thesis
      proof (cases ty)
        case Base
        with lfa(5) ty node.IH [of x] x lfa(1) show ?thesis by fastforce
      next
        case (Fun us)
        with lfa(5) ty have "fun_ref \<Gamma> ty x" by force
        then show ?thesis by (cases x) (auto simp: eval_param_exec param_exec_def)
      qed
    qed
    then obtain f where f: "\<forall>x \<in> set args. eval P False f ?ec x \<noteq> Inl Diverge"
      using common_fuel [of args P False ?ec] by blast
    then have "rmapM (eval P False f ?ec) args \<noteq> Inl Diverge" by (intro rmapM_no_diverge) simp
    then consider (error) er where "rmapM (eval P False f ?ec) args = Inl er" "er \<noteq> Diverge"
      | (ok) avs where "rmapM (eval P False f ?ec) args = Inr avs"
      by (cases "rmapM (eval P False f ?ec) args") auto
    then show ?thesis
    proof cases
      case error
      with k len have "eval P False f ?ec n \<noteq> Inl Diverge"
        by (auto simp: lfa(1) eval_lfa param_exec_def too_many_args_def)
      then show ?thesis by blast
    next
      case ok
      then have avs: "list_all2 (\<lambda>x v. eval P False f ?ec x = Inr v) args avs" by (simp add: rmapM_eq_Inr)
      have "terminating P ec (tys ! j) (avs ! j)" if j: "j < length tys" for j
      proof (cases "tys ! j")
        case (Fun us)
        have "(tys ! j, args ! j) \<in> set (zip tys args)" using j lfa(3) by (auto simp: set_zip)
        with lfa(5) Fun have "fun_ref \<Gamma> (Fun us) (args ! j)" by force
        then obtain i t tm c where i: "args ! j = Param PARAM_EXEC i t tm c True" "lookup_ty \<Gamma> i = Some (Fun us)"
          by (cases "args ! j") auto
        moreover have "eval P False f ?ec (args ! j) = Inr (avs ! j)" using list_all2_nthD [OF avs] j lfa(3) by simp
        ultimately have "avs ! j = vs ! nat i" "nat i < length \<Gamma>" "\<Gamma> ! nat i = Fun us"
          using len by (auto simp: eval_param_exec param_exec_def lookup_ty_def split: if_splits)
        with list_all2_nthD [OF assms(3)] Fun show ?thesis by metis
      qed (simp add: terminating_Base)
      then have "list_all2 (terminating P ec) tys avs"
        using lfa(3) list_all2_lengthD [OF avs] by (simp add: list_all2_conv_all_nth)
      then obtain f' where f': "eval P False f' (ec\<lparr>param_exec_vals := avs\<rparr>) e \<noteq> Inl Diverge" using body by blast
      let ?F = "Suc (max f f')"
      have "approx (rmapM (eval P False f ?ec) args) (rmapM (eval P False ?F ?ec) args)"
        by (intro approx_rmapM eval_mono) simp
      from approx_Inr [OF this ok] have "rmapM (eval P False ?F ?ec) args = Inr avs" .
      moreover have "eval P False (max f f') (ec\<lparr>param_exec_vals := avs\<rparr>) e \<noteq> Inl Diverge"
        using f' eval_no_diverge_mono [OF f', of "max f f'"] by simp
      moreover have "length names \<le> length avs" using v(2) lfa(3) list_all2_lengthD [OF avs] by simp
      ultimately have "eval P False ?F ?ec n \<noteq> Inl Diverge"
        using k len lfa(4) v(1) by (simp add: lfa(1) eval_lfa param_exec_def call_lambda_value run_call_def)
      then show ?thesis by blast
    qed
  qed
qed

lemma wt_value_terminating:
  assumes "prims_total P"
  shows "wt_value ty v \<Longrightarrow> terminating P ec ty v"
proof (cases ty)
  case (Fun tys)
  assume "wt_value ty v"
  then obtain le where le: "v = Some (Serialized le)" "wt_lambda (Fun tys) le" using wt_value_Fun Fun by blast
  obtain k names t e r m s l l3 where e: "le = LambdaExpr k names t (Some e) r m s l l3" "length names = length tys" "wt tys e"
    using wt_lambdaE [OF le(2)] .
  with eval_wt_terminates [OF assms e(3)] le Fun show ?thesis unfolding Fun terminating_Fun by blast
qed (simp add: terminating_Base)

lemma call_terminates:
  assumes "prims_total P" "wt_lambda (Fun \<Gamma>) le" "list_all2 wt_value \<Gamma> vs"
  shows "\<exists>F. \<forall>g \<ge> F. call_lambda P False g ec (Some (Serialized le)) vs ks \<noteq> Inl Diverge"
proof -
  obtain k names t e r m s l l3 where e: "le = LambdaExpr k names t (Some e) r m s l l3" "length names = length \<Gamma>" "wt \<Gamma> e"
    using wt_lambdaE [OF assms(2)] .
  have "list_all2 (terminating P ec) \<Gamma> vs"
    using list_all2_mono [OF assms(3)] wt_value_terminating [OF assms(1)] by blast
  then obtain f where f: "eval P False f (ec\<lparr>param_exec_vals := vs\<rparr>) e \<noteq> Inl Diverge"
    using eval_wt_terminates [OF assms(1) e(3)] by blast
  have "call_lambda P False (Suc g) ec (Some (Serialized le)) vs ks \<noteq> Inl Diverge" if "f \<le> g" for g
    using f eval_no_diverge_mono [OF f that] e(1,2) list_all2_lengthD [OF assms(3)]
    by (simp add: call_lambda_def call_lambda_value run_call_def)
  then show ?thesis by (metis Suc_le_D Suc_le_mono)
qed

text \<open>With hoisting: an inlined body calls no lambda, so its evaluation needs no fuel. The folder has to return, and to add no
  lambda calls to a body without them.\<close>

definition folder_total :: "'a prims \<Rightarrow> bool" where
  "folder_total P \<longleftrightarrow> (\<forall>n. const_fold P n \<noteq> Inl Diverge) \<and> (\<forall>n n'. flat n \<longrightarrow> const_fold P n = Inr n' \<longrightarrow> flat n')"

lemma flat_no_diverge:
  assumes "prims_total P" shows "flat n \<Longrightarrow> eval P h f ec n \<noteq> Inl Diverge"
proof (induction n rule: node_induct)
  case (node n)
  then have kids: "eval P h f ec c \<noteq> Inl Diverge" if "c \<in> set (children n)" for c using that by (simp add: flat.simps [of n] list_all_iff)
  have kind: "\<not> is_LFA n" "\<not> is_LambdaExpr n" "\<not> is_CLE n" using node.prems by (simp_all add: flat.simps [of n])
  show ?case
  proof (cases "traversed n")
    case True
    then show ?thesis by (cases "n = HolePlaceholder") (use node_no_diverge [OF assms True kind(3)] kids in \<open>auto simp: eval_eqs\<close>)
  next
    case False
    with kind show ?thesis by (cases n) (auto simp: eval_eqs eval_param param_exec_def)
  qed
qed

lemma call_hoisted_terminates:
  assumes P: "prims_total P" "folder_total P" and le: "wt_lambda (Fun \<Gamma>) le" and vs: "list_all2 wt_value \<Gamma> vs"
    and keys: "\<forall>i < length \<Gamma>. \<Gamma> ! i \<noteq> Base \<longrightarrow> i \<in> set ks"
  shows "\<exists>F. \<forall>g \<ge> F. call_lambda P True g ec (Some (Serialized le)) vs ks \<noteq> Inl Diverge"
proof -
  obtain fuel e e' le' where flat: "\<And>g. g \<ge> fuel \<Longrightarrow> lambda_injector_scalar g le vs = Inr le'" "le_expr le = Some e" "wt \<Gamma> e"
    "le_expr le' = Some e'" "flat e'"
    using flatten_lambda [OF le vs] by metis
  have len: "length vs = length \<Gamma>" using vs by (simp add: list_all2_lengthD)
  have run: "run_call P True g ec vs (RunBody body) \<noteq> Inl Diverge" if "flat body" "Suc fuel \<le> g" for body g
    using flat_no_diverge [OF P(1) that(1)] that(2) by (cases g) (simp_all add: run_call_def)
  have "call_lambda P True g ec (Some (Serialized le)) vs ks \<noteq> Inl Diverge" if g: "Suc fuel \<le> g" for g
  proof (cases "lambda_body_has_lfa le")
    case False
    then have "flat e" using wt_no_lfa_flat [OF flat(3)] flat(2) by (simp add: lambda_body_has_lfa_def)
    then show ?thesis using run g by (simp add: call_lambda_def plain_build [OF le len flat(2) False])
  next
    case True
    have "ExecEvalCallLambdaExpr P True g (Some (Serialized le)) vs None ks = rmap RunBody (const_fold P e')"
      using hoisted_build [OF le vs keys True flat(1,4)] g by simp
    then show ?thesis using P(2) flat(5) run [OF _ g] by (cases "const_fold P e'") (auto simp: call_lambda_def folder_total_def)
  qed
  then show ?thesis by blast
qed

section \<open>Partial application\<close>

text \<open>The arguments of a full call split into those supplied and those held.\<close>

definition filled_args :: "nat list \<Rightarrow> 'v list \<Rightarrow> 'v list" where
  "filled_args held full = map ((!) full) (filter (\<lambda>p. p \<notin> set held) [0..<length full])"

definition held_args :: "nat list \<Rightarrow> 'v list \<Rightarrow> 'v list" where
  "held_args held full = map ((!) full) (filter (\<lambda>p. p \<in> set held) [0..<length full])"

definition spread_full :: "nat list \<Rightarrow> 'v option list \<Rightarrow> 'v option list" where
  "spread_full held full = map (\<lambda>p. if p \<in> set held then None else full ! p) [0..<length full]"

lemma spread_args_filled:
  "spread_args held ps (map ((!) full) (filter (\<lambda>p. p \<notin> set held) ps)) =
     Inr (map (\<lambda>p. if p \<in> set held then None else full ! p) ps)"
  by (induction ps) auto

lemma held_args_newidx:
  assumes "p \<in> set held" "p < length full"
  shows "newidx held p < length (held_args held full)" "held_args held full ! newidx held p = full ! p"
proof -
  have "[0..<length full] = [0..<p] @ p # [Suc p..<length full]"
    using assms(2) upt_add_eq_append [of 0 p "length full - p"] by (simp add: upt_conv_Cons)
  then have "filter (\<lambda>q. q \<in> set held) [0..<length full] =
      filter (\<lambda>q. q \<in> set held) [0..<p] @ p # filter (\<lambda>q. q \<in> set held) [Suc p..<length full]"
    using assms(1) by simp
  then show "newidx held p < length (held_args held full)" "held_args held full ! newidx held p = full ! p"
    by (simp_all add: held_args_def newidx_def nth_append)
qed

lemma lambda_params_shape:
  "q \<in> set (lambda_params e) \<Longrightarrow> \<exists>i t tm c. q = Param PARAM_EXEC i t tm c True"
proof (induction e rule: node_induct)
  case (node n)
  show ?case
  proof (cases "traversed n")
    case True
    with node show ?thesis by (auto simp: prescan_traversed simp del: children.simps)
  next
    case False
    with node show ?thesis by (cases n) (auto simp: prescan_lambda prescan_param prescan_lfa split: if_splits)
  qed
qed

lemma wt_lambda_params:
  "wt \<Gamma> e \<Longrightarrow> q \<in> set (lambda_params e) \<Longrightarrow> paramtype q = LAMBDAOID \<or> lookup_ty \<Gamma> (paramid q) = Some Base"
proof (induction e rule: node_induct)
  case (node n)
  from node.prems(1) show ?case
  proof (cases rule: wt_cases)
    case traversed
    with node show ?thesis by (auto simp: prescan_traversed simp del: children.simps)
  next
    case (param i t tm c)
    with node.prems(2) show ?thesis by (simp add: prescan_param)
  next
    case (lfa nm rt pid k args tys)
    with node.prems(2) obtain arg where arg: "arg \<in> set args" "q \<in> set (lambda_params arg)" by (auto simp: prescan_lfa)
    then obtain ty where ty: "(ty, arg) \<in> set (zip tys args)" using lfa(3) by (metis in_set_impl_in_set_zip2)
    show ?thesis
    proof (cases ty)
      case Base
      with lfa(5) ty have "wt \<Gamma> arg" by force
      with node.IH [of arg] arg lfa(1) show ?thesis by simp
    next
      case (Fun us)
      with lfa(5) ty have "fun_ref \<Gamma> ty arg" by force
      with arg(2) show ?thesis by (cases arg) (auto simp: prescan_param)
    qed
  qed
qed

lemma residual_param_shape:
  assumes "le_expr mother = Some e" "p < n"
  shows "\<exists>t tm c l. residual_param (snd (scalar_prescan mother n) ! p) slot = Param PARAM_EXEC (int slot) t tm c l"
proof (cases "find (\<lambda>q. paramid q = int p) (lambda_params e)")
  case (Some q)
  then have "q \<in> set (lambda_params e)" by (auto simp: find_Some_iff)
  with lambda_params_shape Some show ?thesis by (fastforce simp: prescan_correct(2) [OF assms] residual_param_def)
qed (auto simp: prescan_correct(2) [OF assms] residual_param_def)

lemma partial_binding_rel:
  assumes mother: "le_expr mother = Some e" "wt \<Gamma> e" and full: "list_all2 wt_value \<Gamma> full" and p: "p < length full"
    and b: "partial_binding held (scalar_prescan mother (length full)) (spread_full held full) nd p = Inr b"
    and used: "input_used e p"
  shows "bind_rel P F (ec\<lparr>param_exec_vals := held_args held full\<rparr>) (\<Gamma> ! p) p b (full ! p)"
proof -
  have len: "length full = length \<Gamma>" using full by (simp add: list_all2_lengthD)
  have spread: "spread_full held full ! p = (if p \<in> set held then None else full ! p)"
    using p by (simp add: spread_full_def)
  note scan = prescan_correct [OF mother(1) p]
  show ?thesis
  proof (cases "p \<in> set held")
    case True
    obtain t tm c l where "b = Some (Param PARAM_EXEC (int (newidx held p)) t tm c l)"
      using b True residual_param_shape [OF mother(1) p, of "newidx held p"] by (auto simp: partial_binding_def)
    with held_args_newidx [OF True p] show ?thesis
      by (auto simp: bind_rel_def eval_param_exec param_exec_def split: ty.split)
  next
    case filled: False
    show ?thesis
    proof (cases "function_input e p")
      case True
      obtain le where le: "full ! p = Some (Serialized le)" "wt_lambda (\<Gamma> ! p) le"
        using function_argument [OF mother(2) full p True] .
      then obtain tys where "\<Gamma> ! p = Fun tys" by (cases "\<Gamma> ! p") auto
      with True filled le b scan(1) spread show ?thesis by (simp add: partial_binding_def bind_rel_def)
    next
      case False
      with used obtain q where "q \<in> set (lambda_params e)" "paramid q = int p" by (auto simp: input_used_def)
      then have "find (\<lambda>q. paramid q = int p) (lambda_params e) \<noteq> None" by (auto simp: find_None_iff)
      then obtain q where q: "find (\<lambda>q. paramid q = int p) (lambda_params e) = Some q" by blast
      then have mem: "q \<in> set (lambda_params e)" "paramid q = int p" by (auto simp: find_Some_iff)
      obtain i t tm c where shape: "q = Param PARAM_EXEC i t tm c True" using lambda_params_shape [OF mem(1)] by blast
      have "\<Gamma> ! p = Base"
        using wt_lambda_params [OF mother(2) mem(1)] mem False p len
        by (auto simp: function_input_def lookup_ty_def split: if_splits)
      with b filled False q shape scan spread show ?thesis
        by (auto simp: partial_binding_def bind_rel_def eval_eqs split: option.splits)
    qed
  qed
qed

lemma partial_apply_sound:
  assumes mother: "wt_lambda (Fun \<Gamma>) mother" "le_expr mother = Some e" and full: "list_all2 wt_value \<Gamma> full"
    and part: "lambda_partial_apply fuel mother held (spread_full held full) nd = Inr r" "le_expr r = Some e'" "no_lambda e'"
    and ev: "eval P False f (ec\<lparr>param_exec_vals := full\<rparr>) e = Inr w"
  shows "eval P False f (ec\<lparr>param_exec_vals := held_args held full\<rparr>) e' = Inr w"
    and "length (le_argnames r) = length (held_args held full)"
proof -
  obtain k names t r' m s l l3 where le: "mother = LambdaExpr k names t (Some e) r' m s l l3" "wt \<Gamma> e" "length names = length \<Gamma>"
    using wt_lambdaE [OF mother(1)] mother(2) by (metis le_expr.simps(1) option.inject)
  have len: "length full = length \<Gamma>" "length (spread_full held full) = length full"
    using full by (simp_all add: list_all2_lengthD spread_full_def)
  from part(1,2) obtain bs sn where
    bs: "rmapM (partial_binding held (scalar_prescan mother (length full)) (spread_full held full) nd) [0..<length full] = Inr bs"
    and walk: "scalar_inject_walk fuel \<lparr>binding = bs, slotnames = sn\<rparr> e = Inr e'"
    and names: "le_argnames r = map ((!) names) (filter (\<lambda>p. p \<in> set held) [0..<length full])"
    using le(1) len(2) by (auto simp: lambda_partial_apply_def Let_def result_simps split: if_splits)
  have bs': "list_all2 (\<lambda>p b. partial_binding held (scalar_prescan mother (length full)) (spread_full held full) nd p = Inr b) [0..<length full] bs"
    using bs by (simp add: rmapM_eq_Inr)
  have "bind_ctx P f (ec\<lparr>param_exec_vals := held_args held full\<rparr>) \<Gamma> \<lparr>binding = bs, slotnames = sn\<rparr> full e"
    unfolding bind_ctx_def
  proof (intro conjI allI impI)
    fix p assume p: "p < length \<Gamma>" "input_used e p"
    have "partial_binding held (scalar_prescan mother (length full)) (spread_full held full) nd p = Inr (bs ! p)"
      using list_all2_nthD [OF bs', of p] p len by simp
    from partial_binding_rel [OF mother(2) le(2) full _ this p(2)] p len
    show "bind_rel P f (ec\<lparr>param_exec_vals := held_args held full\<rparr>) (\<Gamma> ! p) p (binding \<lparr>binding = bs, slotnames = sn\<rparr> ! p) (full ! p)"
      by simp
  qed (use len list_all2_lengthD [OF bs'] in simp_all)
  from inject_sound [OF walk le(2) this part(3), of f] ev
  show "eval P False f (ec\<lparr>param_exec_vals := held_args held full\<rparr>) e' = Inr w" by simp
  show "length (le_argnames r) = length (held_args held full)" by (simp add: names held_args_def)
qed

lemma partial_call:
  assumes mother: "wt_lambda (Fun \<Gamma>) mother" and full: "list_all2 wt_value \<Gamma> full" and fold: "folds_results P"
    and part: "lambda_partial_apply fuel mother held (spread_full held full) (null_datum P) = Inr r" "le_expr r = Some e'" "no_lambda e'"
    and ev: "call_lambda P False f ec (Some (Serialized mother)) full ks = Inr w"
  shows "(\<exists>res F. ExecEvalCallLambdaExpr P h fuel (Some (Serialized mother)) (filled_args held full) (Some held) ks0 =
        Inr (Value (Some (Serialized res))) \<and>
      (\<forall>g \<ge> F. call_lambda P False g ec (Some (Serialized res)) (held_args held full) ks' = Inr w)) \<or>
    (\<exists>er. const_fold P e' = Inl er \<and>
      ExecEvalCallLambdaExpr P h fuel (Some (Serialized mother)) (filled_args held full) (Some held) ks0 = Inl er)"
proof -
  have len: "length full = length \<Gamma>" using full by (simp add: list_all2_lengthD)
  obtain k names t e rt m s l l3 where le: "mother = LambdaExpr k names t (Some e) rt m s l l3" "length names = length \<Gamma>"
    using wt_lambdaE [OF mother] .
  then have e: "le_expr mother = Some e" by simp
  obtain f' where "eval P False f' (ec\<lparr>param_exec_vals := full\<rparr>) e = Inr w"
    using call_unhoisted_body [OF mother len e ev] .
  from partial_apply_sound [OF mother e full part this]
  have res: "eval P False f' (ec\<lparr>param_exec_vals := held_args held full\<rparr>) e' = Inr w"
    "length (le_argnames r) = length (held_args held full)" .
  obtain kd nm ty rt' m' s' l' l3' where r: "r = LambdaExpr kd nm ty (Some e') rt' m' s' l' l3'"
    using part(2) by (cases r) auto
  have call: "ExecEvalCallLambdaExpr P h fuel (Some (Serialized mother)) (filled_args held full) (Some held) ks0 =
      rmap (\<lambda>body. Value (Some (Serialized (set_le_expr r (Some body))))) (const_fold P e')"
    using part(1,2) le len spread_args_filled [of held "[0..<length full]" full]
    by (cases "const_fold P e'") (simp_all add: ExecEvalCallLambdaExpr_def filled_args_def spread_full_def)
  show ?thesis
  proof (cases "const_fold P e'")
    case (Inr body)
    let ?res = "set_le_expr r (Some body)"
    have "eval P False f' (ec\<lparr>param_exec_vals := held_args held full\<rparr>) body = Inr w"
      using fold Inr res(1) unfolding folds_results_def by blast
    then have "call_lambda P False (Suc g) ec (Some (Serialized ?res)) (held_args held full) ks' = Inr w" if "f' \<le> g" for g
      using eval_mono_Inr [OF _ that] res(2) r by (simp add: call_lambda_def call_lambda_value run_call_def)
    then have "\<forall>g \<ge> Suc f'. call_lambda P False g ec (Some (Serialized ?res)) (held_args held full) ks' = Inr w"
      by (metis Suc_le_D Suc_le_mono)
    with call Inr show ?thesis by auto
  qed (use call in simp)
qed

section \<open>Lambdas over integers\<close>

text \<open>\<^verbatim>\<open>int4pl\<close> is function 177, \<^verbatim>\<open>int4mul\<close> 141, \<^verbatim>\<open>int4div\<close> 154 and \<^verbatim>\<open>int4gt\<close> 147; \<open>ex_twice\<close> is \<open>y * 2\<close>, \<open>ex_apply\<close> is \<open>f(x) + 1\<close>,
  \<open>ex_relay\<close> is \<open>f(g, x)\<close> and \<open>ex_call\<close> is \<open>h(y)\<close>.\<close>

fun ex_arith :: "oid \<Rightarrow> int Datum option list \<Rightarrow> int Datum option result" where
  "ex_arith f [Some (Scalar a), Some (Scalar b)] =
    (if f = 177 then Inr (Some (Scalar (a + b)))
     else if f = 141 then Inr (Some (Scalar (a * b)))
     else if f = 154 then (if b = 0 then Inl (Ereport ERRCODE_DIVISION_BY_ZERO ''division by zero'') else Inr (Some (Scalar (a div b))))
     else if f = 147 then Inr (Some (Scalar (if a > b then 1 else 0)))
     else Inl (elog_error ''function not found''))"
| "ex_arith f _ = Inr None"

definition ex_prims :: "int prims" where
  "ex_prims = \<lparr>call_op = (\<lambda>tag. ex_arith), call_function = ex_arith, select_field = (\<lambda>n v. Inr v),
     other_op = (\<lambda>tag vs. Inr None), is_true = (\<lambda>d. d = Scalar 1), bool_datum = (\<lambda>b. Scalar (if b then 1 else 0)),
     null_datum = Scalar 0, const_fold = Inr\<rparr>"

definition ex_int :: "int \<Rightarrow> int Node" where "ex_int i = Const 23 (- 1) 0 (Scalar i) False"
definition ex_param :: "int \<Rightarrow> int Node" where "ex_param i = Param PARAM_EXEC i 23 (- 1) 0 True"
definition ex_fparam :: "int \<Rightarrow> int Node" where "ex_fparam i = Param PARAM_EXEC i LAMBDAOID (- 1) 0 True"
definition ex_lambda :: "string list \<Rightarrow> int Node \<Rightarrow> int Node" where
  "ex_lambda names e = LambdaExpr LAMBDA_SCALAR_CONTEXT names [] (Some e) 23 (- 1) False (- 1) False"

definition ex_twice :: "int Node" where
  "ex_twice = ex_lambda [''y''] (OpExpr T_OpExpr 141 23 [ex_param 0, ex_int 2])"
definition ex_apply :: "int Node" where
  "ex_apply = ex_lambda [''f'', ''x'']
     (OpExpr T_OpExpr 177 23 [LambdaFuncAliasExpr [''f''] 23 0 0 [ex_param 1], ex_int 1])"
definition ex_call :: "int Node" where
  "ex_call = ex_lambda [''h'', ''y''] (LambdaFuncAliasExpr [''h''] 23 0 0 [ex_param 1])"
definition ex_relay :: "int Node" where
  "ex_relay = ex_lambda [''f'', ''g'', ''x''] (LambdaFuncAliasExpr [''f''] 23 0 0 [ex_fparam 1, ex_param 2])"

definition ex_inputs :: "ty list" where "ex_inputs = [Fun [Base], Base]"
definition ex_args :: "int Datum option list" where "ex_args = [Some (Serialized ex_twice), Some (Scalar 5)]"
definition ex_ec :: "int econtext" where "ex_ec = \<lparr>param_exec_vals = [], scan_row = []\<rparr>"

lemma ex_typed: "wt_lambda (Fun ex_inputs) ex_apply" "list_all2 wt_value ex_inputs ex_args"
  by code_simp+

lemma ex_fold: "const_fold ex_prims n = Inr n"
  by (simp add: ex_prims_def)

lemma ex_folds: "folds_results ex_prims" "folder_total ex_prims"
  by (simp_all add: folds_results_def folder_total_def ex_fold)

lemma ex_keys: "\<forall>i < length ex_inputs. ex_inputs ! i \<noteq> Base \<longrightarrow> i \<in> set [0]"
  by (auto simp: ex_inputs_def less_Suc_eq)

lemma ex_call_result: "call_lambda ex_prims False 3 ex_ec (Some (Serialized ex_apply)) ex_args [0] = Inr (Some (Scalar 11))"
  by code_simp

lemma ex_prims_total: "prims_total ex_prims"
proof -
  have "ex_arith f vs \<noteq> Inl Diverge" for f vs by (cases "(f, vs)" rule: ex_arith.cases) auto
  then show ?thesis by (simp add: prims_total_def ex_prims_def)
qed

section \<open>Properties\<close>

text \<open>C6: flattening a well-typed higher-order lambda with well-typed function arguments ends: some fuel
  is enough, the result does not depend on it beyond that, no call to a function input is left in
  the body and the inputs keep their names.\<close>

theorem flatten_total:
  assumes "wt_lambda (Fun \<Gamma>) le" and "list_all2 wt_value \<Gamma> vs"
  shows "\<exists>fuel le'. (\<forall>g. g \<ge> fuel \<longrightarrow> lambda_injector_scalar g le vs = Inr le') \<and>
    \<not> lambda_body_has_lfa le' \<and> le_argnames le' = le_argnames le"
proof -
  obtain fuel e e' le' where "\<And>g. g \<ge> fuel \<Longrightarrow> lambda_injector_scalar g le vs = Inr le'" "le_expr le' = Some e'" "flat e'"
    "le_argnames le' = le_argnames le"
    using flatten_lambda [OF assms] by metis
  moreover from this have "\<not> lambda_body_has_lfa le'" by (simp add: lambda_body_has_lfa_def flat_no_lfa)
  ultimately show ?thesis by blast
qed

theorem flatten_total_witness:
  "\<exists>fuel le'. lambda_injector_scalar fuel ex_apply ex_args = Inr le' \<and> \<not> lambda_body_has_lfa le'"
  using flatten_total [OF ex_typed] by blast

text \<open>C4: hoisting is correct up to constant folding. If the call of a well-typed lambda gives a result when the call sites are
  evaluated one by one, then with hoisting on it gives the same result for all large enough fuel, or the error that
  folding the inlined body reports. Successful folding is assumed to keep results, and the call site to record its
  lambda-typed arguments.\<close>

theorem hoisting_preserves_results:
  assumes "wt_lambda (Fun \<Gamma>) le" and "list_all2 wt_value \<Gamma> vs"
    and "\<forall>i < length \<Gamma>. \<Gamma> ! i \<noteq> Base \<longrightarrow> i \<in> set ks"
    and "folds_results P"
    and "call_lambda P False f ec (Some (Serialized le)) vs ks = Inr w"
  shows "\<exists>F. (\<forall>g \<ge> F. call_lambda P True g ec (Some (Serialized le)) vs ks = Inr w) \<or>
    (\<exists>e. fold_error P le vs e \<and> (\<forall>g \<ge> F. call_lambda P True g ec (Some (Serialized le)) vs ks = Inl e))"
  using assms by (rule call_hoisted)

theorem hoisting_preserves_results_witness:
  "\<exists>F. \<forall>g \<ge> F. call_lambda ex_prims True g ex_ec (Some (Serialized ex_apply)) ex_args [0] = Inr (Some (Scalar 11))"
  using hoisting_preserves_results [OF ex_typed ex_keys ex_folds(1) ex_call_result] by (simp add: fold_error_def ex_fold)

text \<open>The second case does happen. In \<open>CASE WHEN x > 0 THEN f(1, 0) ELSE 0 END\<close> inlining the division for \<open>f\<close> leaves
  the constant \<open>1 / 0\<close>, which folding evaluates although the branch is not taken.\<close>

fun ex_folder :: "int Node \<Rightarrow> int Node result" where
  "ex_folder (OpExpr tag f t [Const _ _ _ a False, Const _ _ _ b False]) =
    rbind (ex_arith f [Some a, Some b]) (\<lambda>v. Inr (case v of Some d \<Rightarrow> Const t (- 1) 0 d False | None \<Rightarrow> Const t (- 1) 0 (Scalar 0) True))"
| "ex_folder (CaseExpr t [(w, r)] d) =
    rbind (ex_folder w) (\<lambda>w. rbind (ex_folder r) (\<lambda>r. rbind (ex_folder d) (\<lambda>d. Inr (CaseExpr t [(w, r)] d))))"
| "ex_folder n = Inr n"

definition ex_guarded :: "int Node" where
  "ex_guarded = ex_lambda [''f'', ''x''] (CaseExpr 23 [(OpExpr T_OpExpr 147 16 [ex_param 1, ex_int 0],
     LambdaFuncAliasExpr [''f''] 23 0 0 [ex_int 1, ex_int 0])] (ex_int 0))"

lemma hoisting_folds_untaken:
  "let P = ex_prims\<lparr>const_fold := ex_folder\<rparr>;
       dv = ex_lambda [''a'', ''b''] (OpExpr T_OpExpr 154 23 [ex_param 0, ex_param 1]);
       call = (\<lambda>hoist. call_lambda P hoist 5 ex_ec (Some (Serialized ex_guarded)) [Some (Serialized dv), Some (Scalar (- 1))] [0])
   in call False = Inr (Some (Scalar 0)) \<and> call True = Inl (Ereport ERRCODE_DIVISION_BY_ZERO ''division by zero'')"
  by code_simp

text \<open>C7: a call of a well-typed lambda always returns, with hoisting or without it: there is an amount of fuel from which on it gives
  a result or an error, never the end of fuel. Functions and constant folding are assumed to return themselves, and folding to
  add no lambda calls to a body without them.\<close>

theorem lambda_call_terminates:
  assumes "prims_total P" and "folder_total P" and "wt_lambda (Fun \<Gamma>) le" and "list_all2 wt_value \<Gamma> vs"
    and "\<forall>i < length \<Gamma>. \<Gamma> ! i \<noteq> Base \<longrightarrow> i \<in> set ks"
  shows "\<exists>F. \<forall>g \<ge> F. call_lambda P hoist g ec (Some (Serialized le)) vs ks \<noteq> Inl Diverge"
  using call_terminates [OF assms(1,3,4)] call_hoisted_terminates [OF assms] by (cases hoist) simp_all

theorem lambda_call_terminates_witness:
  "(\<exists>F. \<forall>g \<ge> F. call_lambda ex_prims True g ex_ec (Some (Serialized ex_apply)) ex_args [0] \<noteq> Inl Diverge) \<and>
   (\<exists>F. \<forall>g \<ge> F. call_lambda ex_prims False g ex_ec (Some (Serialized ex_apply)) ex_args [0] \<noteq> Inl Diverge)"
  using lambda_call_terminates [OF ex_prims_total ex_folds(2) ex_typed ex_keys] by blast

text \<open>C5: partial application is correct when hoisting is off and no lambda is left embedded in the residual body. If
  the full call gives a result, then evaluating the call with the held arguments left out gives a lambda value, and
  calling that value with the held arguments gives the same result; or folding the residual body fails, and its error is reported.\<close>

theorem partial_application_correct:
  assumes "wt_lambda (Fun \<Gamma>) mother" and "list_all2 wt_value \<Gamma> full" and "folds_results P"
    and "lambda_partial_apply fuel mother held (spread_full held full) (null_datum P) = Inr r"
    and "le_expr r = Some e'" and "no_lambda e'"
    and "call_lambda P False f ec (Some (Serialized mother)) full ks = Inr w"
  shows "(\<exists>res F. ExecEvalCallLambdaExpr P h fuel (Some (Serialized mother)) (filled_args held full) (Some held) ks0 =
        Inr (Value (Some (Serialized res))) \<and>
      (\<forall>g \<ge> F. call_lambda P False g ec (Some (Serialized res)) (held_args held full) ks' = Inr w)) \<or>
    (\<exists>er. const_fold P e' = Inl er \<and>
      ExecEvalCallLambdaExpr P h fuel (Some (Serialized mother)) (filled_args held full) (Some held) ks0 = Inl er)"
  using assms by (rule partial_call)

definition ex_residual :: "int Node" where
  "ex_residual = (case lambda_partial_apply 2 ex_apply [0] (spread_full [0] ex_args) (null_datum ex_prims) of
     Inr r \<Rightarrow> r | Inl _ \<Rightarrow> HolePlaceholder)"

theorem partial_application_correct_witness:
  "\<exists>res F. ExecEvalCallLambdaExpr ex_prims False 2 (Some (Serialized ex_apply)) [Some (Scalar 5)] (Some [0]) [] =
        Inr (Value (Some (Serialized res))) \<and>
      (\<forall>g \<ge> F. call_lambda ex_prims False g ex_ec (Some (Serialized res)) [Some (Serialized ex_twice)] [0] = Inr (Some (Scalar 11)))"
proof -
  have part: "lambda_partial_apply 2 ex_apply [0] (spread_full [0] ex_args) (null_datum ex_prims) = Inr ex_residual"
    by code_simp
  obtain e' where e': "le_expr ex_residual = Some e'" "no_lambda e'"
  proof -
    have "(case le_expr ex_residual of None \<Rightarrow> False | Some e' \<Rightarrow> no_lambda e')" by code_simp
    with that show thesis by (auto split: option.splits)
  qed
  have split: "filled_args [0] ex_args = [Some (Scalar 5)]" "held_args [0] ex_args = [Some (Serialized ex_twice)]"
    by (simp_all add: filled_args_def held_args_def ex_args_def)
  show ?thesis
    using partial_application_correct [OF ex_typed ex_folds(1) part e' ex_call_result, of False "[]" "[0]"]
    by (simp add: ex_fold split)
qed

text \<open>The condition on embedded lambdas is needed: a lambda argument that is passed on to a
  held function is embedded in the residual as a bare node. With hoisting off, calling the residual
  hands the callee the address of that node where it expects a serialized lambda, although the full
  call gives a result.\<close>

lemma embedded_lambda_example:
  "call_lambda ex_prims False 5 ex_ec (Some (Serialized ex_relay))
     [Some (Serialized ex_call), Some (Serialized ex_twice), Some (Scalar 5)] [0, 1] = Inr (Some (Scalar 10)) \<and>
   (\<exists>res. ExecEvalCallLambdaExpr ex_prims False 5 (Some (Serialized ex_relay))
       [Some (Serialized ex_twice), Some (Scalar 5)] (Some [0]) [] = Inr (Value (Some res)) \<and>
     call_lambda ex_prims False 5 ex_ec (Some res) [Some (Serialized ex_call)] [0] = Inl Crash)"
proof -
  have "(case ExecEvalCallLambdaExpr ex_prims False 5 (Some (Serialized ex_relay))
       [Some (Serialized ex_twice), Some (Scalar 5)] (Some [0]) [] of
      Inr (Value (Some res)) \<Rightarrow> call_lambda ex_prims False 5 ex_ec (Some res) [Some (Serialized ex_call)] [0] = Inl Crash
    | _ \<Rightarrow> False)"
    by code_simp
  moreover have "call_lambda ex_prims False 5 ex_ec (Some (Serialized ex_relay))
     [Some (Serialized ex_call), Some (Serialized ex_twice), Some (Scalar 5)] [0, 1] = Inr (Some (Scalar 10))"
    by code_simp
  ultimately show ?thesis by (auto split: sum.splits outcome.splits option.splits)
qed

end
