(* ===== verification/Simple_Hash.thy ===== *)
theory Simple_Hash
  imports Prelude "HOL-Library.Multiset" "HOL-Library.Log_Nat"
begin

text \<open>
  The open-addressing hash table of \<^verbatim>\<open>src/include/lib/simplehash.h\<close>, as \<^verbatim>\<open>lambda_cache.c\<close> instantiates
  it: with stored hashes (\<open>SH_STORE_HASH\<close>) and Robin Hood displacement. The key type, the equality
  \<open>SH_EQUAL\<close> and the hash \<open>SH_HASH_KEY\<close> are arguments of the operations, as they are of the macros.

  Every \<open>while (true)\<close> loop over the buckets carries the number of buckets as fuel; running out of it
  is \<open>Diverge\<close>, the endless loop of the source. The file proves that this never happens, that the
  table keeps its Robin Hood order through insertion, deletion and growth, and that lookups find
  exactly the stored keys.
\<close>

unbundle bit_operations_syntax

section \<open>Buckets and parameters\<close>

datatype 'k element = SH_EMPTY | SH_IN_USE (elem_hash: "32 word") (elem_key: 'k)

record 'k table =
  sh_size :: nat
  members :: nat
  sizemask :: "32 word"
  grow_threshold :: nat
  data :: "'k element list"

definition SH_MAX_SIZE :: int where "SH_MAX_SIZE = 4294967296"
definition SH_GROW_MAX_DIB :: nat where "SH_GROW_MAX_DIB = 25"
definition SH_GROW_MAX_MOVE :: nat where "SH_GROW_MAX_MOVE = 150"

definition pg_nextpower2_64 :: "nat \<Rightarrow> nat" where
  "pg_nextpower2_64 num = (if num AND (num - 1) = 0 then num else 2 ^ floorlog 2 num)"

text \<open>
  The sizes are powers of two, so the products with the fill factors \<open>0.9\<close>, \<open>0.98\<close> and \<open>0.1\<close> are never
  near an integer and rounding in \<open>double\<close> does not matter: they are written with integers.
  An element has 16 bytes.
\<close>

definition SH_COMPUTE_SIZE :: "nat \<Rightarrow> nat result" where
  "SH_COMPUTE_SIZE newsize =
    (let size = pg_nextpower2_64 (max newsize 2)
     in if 16 * int size \<ge> 9223372036854775807 then Inl (elog_error ''hash table too large'') else Inr size)"

definition SH_UPDATE_PARAMETERS :: "'k table \<Rightarrow> nat \<Rightarrow> 'k table result" where
  "SH_UPDATE_PARAMETERS tb newsize =
    rbind (SH_COMPUTE_SIZE newsize) (\<lambda>size.
      Inr (tb\<lparr>sh_size := size, sizemask := of_nat (size - 1),
              grow_threshold := (if int size = SH_MAX_SIZE then size * 49 div 50 else size * 9 div 10)\<rparr>))"

definition SH_INITIAL_BUCKET :: "'k table \<Rightarrow> 32 word \<Rightarrow> nat" where
  "SH_INITIAL_BUCKET tb hash = unat (hash AND sizemask tb)"

definition SH_NEXT :: "'k table \<Rightarrow> nat \<Rightarrow> nat" where
  "SH_NEXT tb curelem = unat ((of_nat curelem + 1) AND sizemask tb)"

definition SH_PREV :: "'k table \<Rightarrow> nat \<Rightarrow> nat" where
  "SH_PREV tb curelem = unat ((of_nat curelem - 1) AND sizemask tb)"

definition SH_DISTANCE_FROM_OPTIMAL :: "'k table \<Rightarrow> nat \<Rightarrow> nat \<Rightarrow> nat" where
  "SH_DISTANCE_FROM_OPTIMAL tb optimal bucket =
    (if optimal \<le> bucket then bucket - optimal else (sh_size tb + bucket) - optimal)"

definition SH_COMPARE_KEYS :: "('k \<Rightarrow> 'k \<Rightarrow> bool) \<Rightarrow> 32 word \<Rightarrow> 'k \<Rightarrow> 'k element \<Rightarrow> bool" where
  "SH_COMPARE_KEYS eq hash key b = (hash = elem_hash b \<and> eq (elem_key b) key)"

definition in_use :: "'k element \<Rightarrow> bool" where
  "in_use e = (case e of SH_EMPTY \<Rightarrow> False | SH_IN_USE _ _ \<Rightarrow> True)"

lemma in_use_simps [simp]: "\<not> in_use SH_EMPTY" "in_use (SH_IN_USE h k)"
  by (simp_all add: in_use_def)

lemma not_in_use [simp]: "\<not> in_use e \<longleftrightarrow> e = SH_EMPTY"
  by (cases e) simp_all

section \<open>Creation and growth\<close>

definition SH_CREATE :: "nat \<Rightarrow> 'k table result" where
  "SH_CREATE nelements =
    rbind (SH_COMPUTE_SIZE (if int nelements * 10 div 9 > SH_MAX_SIZE then nat SH_MAX_SIZE else nelements * 10 div 9)) (\<lambda>size.
      SH_UPDATE_PARAMETERS
        \<lparr>sh_size = 0, members = 0, sizemask = 0, grow_threshold = 0, data = replicate size SH_EMPTY\<rparr> size)"

text \<open>The first bucket that is empty or holds an entry at its optimal position.\<close>

definition grow_startelem :: "'k table \<Rightarrow> 'k element list \<Rightarrow> nat" where
  "grow_startelem tb olddata =
    (case find (\<lambda>i. \<not> in_use (olddata ! i) \<or> SH_INITIAL_BUCKET tb (elem_hash (olddata ! i)) = i) [0..<length olddata] of
       None \<Rightarrow> 0 | Some i \<Rightarrow> i)"

fun grow_find_empty :: "'k table \<Rightarrow> 'k element list \<Rightarrow> nat \<Rightarrow> nat \<Rightarrow> nat result" where
  "grow_find_empty tb newdata 0 curelem = Inl Diverge"
| "grow_find_empty tb newdata (Suc n) curelem =
    (if newdata ! curelem = SH_EMPTY then Inr curelem
     else grow_find_empty tb newdata n (SH_NEXT tb curelem))"

fun grow_copy :: "'k table \<Rightarrow> 'k element list \<Rightarrow> nat \<Rightarrow> nat \<Rightarrow> 'k element list \<Rightarrow> 'k element list result" where
  "grow_copy tb olddata 0 copyelem newdata = Inr newdata"
| "grow_copy tb olddata (Suc i) copyelem newdata =
    (let oldentry = olddata ! copyelem;
         copyelem' = (if copyelem + 1 \<ge> length olddata then 0 else copyelem + 1)
     in if in_use oldentry then
          rbind (grow_find_empty tb newdata (sh_size tb) (SH_INITIAL_BUCKET tb (elem_hash oldentry))) (\<lambda>curelem.
            grow_copy tb olddata i copyelem' (newdata[curelem := oldentry]))
        else grow_copy tb olddata i copyelem' newdata)"

definition SH_GROW :: "'k table \<Rightarrow> nat \<Rightarrow> 'k table result" where
  "SH_GROW tb newsize =
    rbind (SH_COMPUTE_SIZE newsize) (\<lambda>newsize.
    rbind (SH_UPDATE_PARAMETERS tb newsize) (\<lambda>tb'.
    rbind (grow_copy tb' (data tb) (sh_size tb) (grow_startelem tb' (data tb)) (replicate newsize SH_EMPTY)) (\<lambda>newdata.
      Inr (tb'\<lparr>data := newdata\<rparr>))))"

section \<open>Insertion\<close>

text \<open>
  The search for the next empty bucket gives up (\<open>None\<close>) when too many entries would have to move
  in a table that is not too empty.
\<close>

fun insert_find_empty :: "'k table \<Rightarrow> nat \<Rightarrow> nat \<Rightarrow> nat \<Rightarrow> nat option result" where
  "insert_find_empty tb 0 emptyelem emptydist = Inl Diverge"
| "insert_find_empty tb (Suc n) emptyelem emptydist =
    (let emptyelem = SH_NEXT tb emptyelem
     in if data tb ! emptyelem = SH_EMPTY then Inr (Some emptyelem)
        else if Suc emptydist > SH_GROW_MAX_MOVE \<and> members tb * 10 \<ge> sh_size tb then Inr None
        else insert_find_empty tb n emptyelem (Suc emptydist))"

fun insert_shift :: "'k table \<Rightarrow> nat \<Rightarrow> nat \<Rightarrow> nat \<Rightarrow> 'k element list \<Rightarrow> 'k element list result" where
  "insert_shift tb 0 curelem moveelem d = (if moveelem = curelem then Inr d else Inl Diverge)"
| "insert_shift tb (Suc n) curelem moveelem d =
    (if moveelem = curelem then Inr d
     else let lastelem = moveelem; moveelem = SH_PREV tb moveelem
          in insert_shift tb n curelem moveelem (d[lastelem := d ! moveelem]))"

datatype 'k insertion = Found nat | Placed "'k table" nat | Restart

fun insert_loop :: "('k \<Rightarrow> 'k \<Rightarrow> bool) \<Rightarrow> 'k table \<Rightarrow> 'k \<Rightarrow> 32 word \<Rightarrow> nat \<Rightarrow> nat \<Rightarrow> nat \<Rightarrow> 'k insertion result" where
  "insert_loop eq tb key hash 0 curelem insertdist = Inl Diverge"
| "insert_loop eq tb key hash (Suc n) curelem insertdist =
    (let entry = data tb ! curelem
     in if entry = SH_EMPTY then
          Inr (Placed (tb\<lparr>members := members tb + 1, data := (data tb)[curelem := SH_IN_USE hash key]\<rparr>) curelem)
        else if SH_COMPARE_KEYS eq hash key entry then Inr (Found curelem)
        else
          let curdist = SH_DISTANCE_FROM_OPTIMAL tb (SH_INITIAL_BUCKET tb (elem_hash entry)) curelem
          in if insertdist > curdist then
               rbind (insert_find_empty tb (sh_size tb) curelem 0) (\<lambda>r.
                 (case r of
                    None \<Rightarrow> Inr Restart
                  | Some emptyelem \<Rightarrow>
                      rbind (insert_shift tb (sh_size tb) curelem emptyelem (data tb)) (\<lambda>d.
                        Inr (Placed (tb\<lparr>members := members tb + 1, data := d[curelem := SH_IN_USE hash key]\<rparr>) curelem))))
             else if Suc insertdist > SH_GROW_MAX_DIB \<and> members tb * 10 \<ge> sh_size tb then Inr Restart
             else insert_loop eq tb key hash n (SH_NEXT tb curelem) (Suc insertdist))"

text \<open>\<open>goto restart\<close>: the fuel bounds the number of growth steps; the size doubles in each of them.\<close>

fun SH_INSERT_HASH_INTERNAL ::
  "nat \<Rightarrow> ('k \<Rightarrow> 'k \<Rightarrow> bool) \<Rightarrow> 'k table \<Rightarrow> 'k \<Rightarrow> 32 word \<Rightarrow> ('k table \<times> nat \<times> bool) result" where
  "SH_INSERT_HASH_INTERNAL 0 eq tb key hash = Inl Diverge"
| "SH_INSERT_HASH_INTERNAL (Suc n) eq tb key hash =
    rbind (if members tb \<ge> grow_threshold tb then
             if int (sh_size tb) = SH_MAX_SIZE then Inl (elog_error ''hash table size exceeded'')
             else SH_GROW tb (sh_size tb * 2)
           else Inr tb) (\<lambda>tb.
    rbind (insert_loop eq tb key hash (sh_size tb) (SH_INITIAL_BUCKET tb hash) 0) (\<lambda>r.
      (case r of
         Found i \<Rightarrow> Inr (tb, i, True)
       | Placed tb' i \<Rightarrow> Inr (tb', i, False)
       | Restart \<Rightarrow> SH_INSERT_HASH_INTERNAL n eq (tb\<lparr>grow_threshold := 0\<rparr>) key hash)))"

definition max_growths :: nat where "max_growths = 34"

definition SH_INSERT_HASH :: "('k \<Rightarrow> 'k \<Rightarrow> bool) \<Rightarrow> 'k table \<Rightarrow> 'k \<Rightarrow> 32 word \<Rightarrow> ('k table \<times> nat \<times> bool) result" where
  "SH_INSERT_HASH eq tb key hash = SH_INSERT_HASH_INTERNAL max_growths eq tb key hash"

section \<open>Lookup and deletion\<close>

fun lookup_loop :: "('k \<Rightarrow> 'k \<Rightarrow> bool) \<Rightarrow> 'k table \<Rightarrow> 'k \<Rightarrow> 32 word \<Rightarrow> nat \<Rightarrow> nat \<Rightarrow> nat option result" where
  "lookup_loop eq tb key hash 0 curelem = Inl Diverge"
| "lookup_loop eq tb key hash (Suc n) curelem =
    (let entry = data tb ! curelem
     in if entry = SH_EMPTY then Inr None
        else if SH_COMPARE_KEYS eq hash key entry then Inr (Some curelem)
        else lookup_loop eq tb key hash n (SH_NEXT tb curelem))"

definition SH_LOOKUP_HASH :: "('k \<Rightarrow> 'k \<Rightarrow> bool) \<Rightarrow> 'k table \<Rightarrow> 'k \<Rightarrow> 32 word \<Rightarrow> nat option result" where
  "SH_LOOKUP_HASH eq tb key hash = lookup_loop eq tb key hash (sh_size tb) (SH_INITIAL_BUCKET tb hash)"

fun delete_shift :: "'k table \<Rightarrow> nat \<Rightarrow> nat \<Rightarrow> nat \<Rightarrow> 'k element list \<Rightarrow> 'k element list result" where
  "delete_shift tb 0 lastelem curelem d = Inl Diverge"
| "delete_shift tb (Suc n) lastelem curelem d =
    (let curelem = SH_NEXT tb curelem
     in if \<not> in_use (d ! curelem) \<or> SH_INITIAL_BUCKET tb (elem_hash (d ! curelem)) = curelem
        then Inr (d[lastelem := SH_EMPTY])
        else delete_shift tb n curelem curelem (d[lastelem := d ! curelem]))"

fun delete_loop :: "('k \<Rightarrow> 'k \<Rightarrow> bool) \<Rightarrow> 'k table \<Rightarrow> 'k \<Rightarrow> 32 word \<Rightarrow> nat \<Rightarrow> nat \<Rightarrow> ('k table \<times> bool) result" where
  "delete_loop eq tb key hash 0 curelem = Inl Diverge"
| "delete_loop eq tb key hash (Suc n) curelem =
    (let entry = data tb ! curelem
     in if entry = SH_EMPTY then Inr (tb, False)
        else if in_use entry \<and> SH_COMPARE_KEYS eq hash key entry then
          rmap (\<lambda>d. (tb\<lparr>members := members tb - 1, data := d\<rparr>, True))
            (delete_shift tb (sh_size tb) curelem curelem (data tb))
        else delete_loop eq tb key hash n (SH_NEXT tb curelem))"

definition SH_DELETE :: "('k \<Rightarrow> 'k \<Rightarrow> bool) \<Rightarrow> ('k \<Rightarrow> 32 word) \<Rightarrow> 'k table \<Rightarrow> 'k \<Rightarrow> ('k table \<times> bool) result" where
  "SH_DELETE eq hash_key tb key =
    delete_loop eq tb key (hash_key key) (sh_size tb) (SH_INITIAL_BUCKET tb (hash_key key))"

section \<open>Bucket arithmetic\<close>

definition sized :: "'k table \<Rightarrow> bool" where
  "sized tb \<longleftrightarrow> (\<exists>k \<le> 32. 1 \<le> k \<and> sh_size tb = 2 ^ k) \<and> sizemask tb = of_nat (sh_size tb - 1) \<and>
     length (data tb) = sh_size tb"

lemma of_nat_mask: "(of_nat (2 ^ k - 1) :: 32 word) = 2 ^ k - 1"
  by (simp add: of_nat_diff)

lemma unat_and_mask: "unat ((w :: 32 word) AND (2 ^ k - 1)) = unat w mod 2 ^ k"
proof -
  have "w AND (2 ^ k - 1) = take_bit k w" by (simp add: take_bit_eq_mask mask_eq_exp_minus_1)
  then have "unat (w AND (2 ^ k - 1)) = take_bit k (unat w)" by (simp only: unsigned_take_bit_eq)
  then show ?thesis by (simp add: take_bit_eq_mod)
qed

lemma sizedE:
  assumes "sized tb"
  obtains k where "k \<le> 32" "1 \<le> k" "sh_size tb = 2 ^ k" "sizemask tb = 2 ^ k - 1" "length (data tb) = 2 ^ k"
  using assms by (auto simp: sized_def)

lemma initial_bucket: "sized tb \<Longrightarrow> SH_INITIAL_BUCKET tb h = unat h mod sh_size tb"
  by (erule sizedE) (simp add: SH_INITIAL_BUCKET_def unat_and_mask)

lemma unat_of_nat_mod:
  assumes "k \<le> 32" shows "unat (of_nat i :: 32 word) mod 2 ^ k = i mod 2 ^ k"
proof -
  have "(2 :: nat) ^ k dvd 2 ^ 32" using assms by (rule le_imp_power_dvd)
  then have "i mod 2 ^ 32 mod 2 ^ k = i mod 2 ^ k" by (rule mod_mod_cancel)
  then show ?thesis by (simp add: unat_of_nat)
qed

lemma next_bucket:
  assumes "sized tb" shows "SH_NEXT tb i = Suc i mod sh_size tb"
  using assms
proof (rule sizedE)
  fix k assume "k \<le> 32" "sh_size tb = 2 ^ k" "sizemask tb = 2 ^ k - 1"
  with unat_of_nat_mod [of k "Suc i"] show ?thesis by (simp add: SH_NEXT_def unat_and_mask add.commute)
qed

lemma size_pos: "sized tb \<Longrightarrow> 2 \<le> sh_size tb"
  by (erule sizedE) (simp add: self_le_power)

lemma prev_bucket:
  assumes "sized tb" shows "SH_PREV tb i = (i + (sh_size tb - 1)) mod sh_size tb"
  using assms
proof (rule sizedE)
  fix k assume k: "k \<le> 32" "sh_size tb = 2 ^ k" "sizemask tb = 2 ^ k - 1"
  have dvd: "(2 :: nat) ^ k dvd 2 ^ 32" using k(1) by (rule le_imp_power_dvd)
  have "(of_nat i - 1 :: 32 word) = of_nat (i + (2 ^ 32 - 1))" by simp
  then have "SH_PREV tb i = (i + (2 ^ 32 - 1)) mod 2 ^ k"
    using k unat_of_nat_mod [of k "i + (2 ^ 32 - 1)"] by (simp only: SH_PREV_def unat_and_mask)
  also have "(i + (2 ^ 32 - 1)) mod 2 ^ k = (i + (2 ^ k - 1)) mod 2 ^ k"
  proof -
    obtain m where "(2 :: nat) ^ 32 = 2 ^ k * m" using dvd by (auto simp: dvd_def)
    moreover from this have "m > 0" by (cases m) auto
    moreover obtain p where "(2 :: nat) ^ k = Suc p" by (metis not0_implies_Suc power_not_zero zero_neq_numeral)
    ultimately have "i + (2 ^ 32 - 1) = i + (2 ^ k - 1) + 2 ^ k * (m - 1)" by (cases m) simp_all
    then show ?thesis by simp
  qed
  finally show ?thesis using k by simp
qed

text \<open>Positions on the cycle of \<open>n\<close> buckets, as offsets from some bucket.\<close>

lemma cyc_offset: "o' < n \<Longrightarrow> k < n \<Longrightarrow> ((o' + k) mod n + n - o') mod n = (k :: nat)"
  by (cases "o' + k < n") (auto simp: mod_if not_less)

lemma cyc_position: "o' < n \<Longrightarrow> i < n \<Longrightarrow> (o' + (i + n - o') mod n) mod n = (i :: nat)"
  by (cases "o' \<le> i") (auto simp: mod_if not_less not_le)

lemma cyc_inj:
  assumes "k < n" "k' < n" "i < n" shows "(i + k) mod n = (i + k') mod n \<longleftrightarrow> k = (k' :: nat)"
proof
  assume "(i + k) mod n = (i + k') mod n"
  with cyc_offset [OF assms(3,1)] have "((i + k') mod n + n - i) mod n = k" by (simp only:)
  with cyc_offset [OF assms(3,2)] show "k = k'" by (simp only:)
qed simp

lemma cyc_cases:
  assumes "i < n" "q < n" obtains t where "t < n" "q = (i + t) mod (n :: nat)"
proof
  show "(q + n - i) mod n < n" using assms(1) by simp
  show "q = (i + (q + n - i) mod n) mod n" using cyc_position [OF assms] by simp
qed

lemma cyc_Suc: "Suc ((i + t) mod n) mod n = (i + Suc t) mod (n :: nat)"
  by (simp add: mod_Suc_eq)

definition opt :: "nat \<Rightarrow> 'k element \<Rightarrow> nat" where
  "opt n e = unat (elem_hash e) mod n"

definition dst :: "nat \<Rightarrow> nat \<Rightarrow> 'k element \<Rightarrow> nat" where
  "dst n i e = (i + n - opt n e) mod n"

lemma distance_from_optimal:
  assumes "sized tb" "i < sh_size tb"
  shows "SH_DISTANCE_FROM_OPTIMAL tb (SH_INITIAL_BUCKET tb (elem_hash e)) i = dst (sh_size tb) i e"
proof -
  let ?n = "sh_size tb" and ?o = "opt (sh_size tb) e"
  have o: "SH_INITIAL_BUCKET tb (elem_hash e) = ?o" using initial_bucket [OF assms(1)] by (simp add: opt_def)
  have "?o < ?n" using assms(2) by (simp add: opt_def)
  show ?thesis
  proof (cases "?o \<le> i")
    case True
    then have "i + ?n - ?o = (i - ?o) + ?n" by simp
    then have "dst ?n i e = i - ?o" using assms(2) by (simp only: dst_def mod_add_self2) simp
    with True o show ?thesis by (simp add: SH_DISTANCE_FROM_OPTIMAL_def)
  next
    case False
    then have "dst ?n i e = i + ?n - ?o" using assms(2) \<open>?o < ?n\<close> by (simp add: dst_def)
    with False o show ?thesis by (simp add: SH_DISTANCE_FROM_OPTIMAL_def add.commute)
  qed
qed

lemma opt_less [simp]: "0 < n \<Longrightarrow> opt n e < n"
  by (simp add: opt_def)

lemma dst_less [simp]: "0 < n \<Longrightarrow> dst n i e < n"
  by (simp add: dst_def)

lemma dst_offset: "k < n \<Longrightarrow> dst n ((opt n e + k) mod n) e = k"
  by (simp add: dst_def cyc_offset)

lemma dst_position: "i < n \<Longrightarrow> (opt n e + dst n i e) mod n = i"
  by (simp add: dst_def cyc_position)

lemma dst_Suc:
  assumes "i < n" "Suc (dst n i e) < n" shows "dst n (Suc i mod n) e = Suc (dst n i e)"
proof -
  have "Suc i mod n = (opt n e + Suc (dst n i e)) mod n"
    using cyc_Suc [of "opt n e" "dst n i e" n] dst_position [OF assms(1), of e] by simp
  then show ?thesis using dst_offset [OF assms(2)] by simp
qed

lemma dst_pred:
  assumes "i < n" "0 < dst n (Suc i mod n) e" shows "dst n i e = dst n (Suc i mod n) e - 1"
proof -
  let ?D = "dst n (Suc i mod n) e"
  have n: "0 < n" using assms(1) by simp
  have "Suc ((opt n e + (?D - 1)) mod n) mod n = (opt n e + ?D) mod n"
    using cyc_Suc [of "opt n e" "?D - 1" n] assms(2) by simp
  then have "Suc ((opt n e + (?D - 1)) mod n) mod n = Suc i mod n"
    using dst_position [of "Suc i mod n" n e] n by simp
  then have "(opt n e + (?D - 1)) mod n = i"
    using assms(1) n by (simp add: mod_Suc split: if_splits)
  then show ?thesis
    using dst_offset [of "?D - 1" n e] dst_less [OF n, of "Suc i mod n" e] by (simp add: less_imp_diff_less)
qed

section \<open>The Robin Hood order\<close>

text \<open>
  An entry away from its optimal bucket has a predecessor that is at most one step closer to its own.
\<close>

definition robin_hood :: "nat \<Rightarrow> 'k element list \<Rightarrow> bool" where
  "robin_hood n d \<longleftrightarrow> (\<forall>i < n. in_use (d ! (Suc i mod n)) \<and> 0 < dst n (Suc i mod n) (d ! (Suc i mod n)) \<longrightarrow>
     in_use (d ! i) \<and> dst n (Suc i mod n) (d ! (Suc i mod n)) \<le> Suc (dst n i (d ! i)))"

lemma robin_hoodD:
  assumes "robin_hood n d" "0 < n" "in_use (d ! ((i + Suc t) mod n))" "0 < dst n ((i + Suc t) mod n) (d ! ((i + Suc t) mod n))"
  shows "in_use (d ! ((i + t) mod n)) \<and>
    dst n ((i + Suc t) mod n) (d ! ((i + Suc t) mod n)) \<le> Suc (dst n ((i + t) mod n) (d ! ((i + t) mod n)))"
  using assms unfolding robin_hood_def by (metis cyc_Suc mod_less_divisor)

lemma robin_hoodI:
  assumes "i < n"
    and "\<And>t. t < n \<Longrightarrow> in_use (d ! ((i + Suc t) mod n)) \<Longrightarrow> 0 < dst n ((i + Suc t) mod n) (d ! ((i + Suc t) mod n)) \<Longrightarrow>
      in_use (d ! ((i + t) mod n)) \<and>
      dst n ((i + Suc t) mod n) (d ! ((i + Suc t) mod n)) \<le> Suc (dst n ((i + t) mod n) (d ! ((i + t) mod n)))"
  shows "robin_hood n d"
  unfolding robin_hood_def
proof (intro allI impI)
  fix p assume "p < n" and h: "in_use (d ! (Suc p mod n)) \<and> 0 < dst n (Suc p mod n) (d ! (Suc p mod n))"
  obtain t where "t < n" "p = (i + t) mod n" using cyc_cases [OF assms(1) \<open>p < n\<close>] by metis
  with assms(2) [of t] h show "in_use (d ! p) \<and> dst n (Suc p mod n) (d ! (Suc p mod n)) \<le> Suc (dst n p (d ! p))"
    by (simp only: cyc_Suc)
qed

lemma probe_chain:
  assumes "robin_hood n d" "0 < n" "in_use (d ! ((i + k) mod n))" "k \<le> dst n ((i + k) mod n) (d ! ((i + k) mod n))"
  shows "in_use (d ! (i mod n)) \<and> dst n ((i + k) mod n) (d ! ((i + k) mod n)) \<le> k + dst n (i mod n) (d ! (i mod n))"
  using assms(3,4)
proof (induction k)
  case (Suc k)
  with robin_hoodD [OF assms(1,2), of i k] show ?case by (auto simp: Suc_le_eq)
qed simp

text \<open>All buckets from the optimal one to that of an entry are in use, by entries at least as far away.\<close>

lemma probe_path:
  assumes "robin_hood n d" "i < n" "in_use (d ! i)" "j \<le> dst n i (d ! i)"
  shows "in_use (d ! ((opt n (d ! i) + j) mod n)) \<and>
    j \<le> dst n ((opt n (d ! i) + j) mod n) (d ! ((opt n (d ! i) + j) mod n))"
proof -
  let ?o = "opt n (d ! i)" and ?D = "dst n i (d ! i)"
  have "(?o + j + (?D - j)) mod n = i" using dst_position [OF assms(2), of "d ! i"] assms(4) by simp
  with probe_chain [OF assms(1), of "?o + j" "?D - j"] assms show ?thesis by auto
qed

lemma place_robin_hood:
  assumes rh: "robin_hood n d" and len: "length d = n" and k: "k < n" and n: "2 \<le> n"
    and i: "i = (opt n e + k) mod n" and empty: "d ! i = SH_EMPTY"
    and path: "\<And>j. j < k \<Longrightarrow> in_use (d ! ((opt n e + j) mod n)) \<and> j \<le> dst n ((opt n e + j) mod n) (d ! ((opt n e + j) mod n))"
  shows "robin_hood n (d[i := e])"
proof (rule robin_hoodI)
  show "i < n" using i n by simp
  fix t assume t: "t < n" and u: "in_use (d[i := e] ! ((i + Suc t) mod n))"
    and pos: "0 < dst n ((i + Suc t) mod n) (d[i := e] ! ((i + Suc t) mod n))"
  show "in_use (d[i := e] ! ((i + t) mod n)) \<and> dst n ((i + Suc t) mod n) (d[i := e] ! ((i + Suc t) mod n)) \<le>
      Suc (dst n ((i + t) mod n) (d[i := e] ! ((i + t) mod n)))"
  proof (cases "Suc t = n")
    case True
    have self: "(i + Suc t) mod n = i" using True \<open>i < n\<close> by simp
    have other: "(i + t) mod n \<noteq> i" using cyc_inj [of t n 0 i] t n True \<open>i < n\<close> by auto
    have D: "dst n i e = k" using dst_offset [OF k, of e] i by simp
    with pos self have "0 < k" using \<open>i < n\<close> len by simp
    have "(i + t) mod n = (opt n e + (k - 1)) mod n"
    proof -
      have "(i + t) mod n = (opt n e + k + t) mod n" by (simp add: i mod_add_left_eq)
      also have "opt n e + k + t = opt n e + (k - 1) + n" using True \<open>0 < k\<close> by simp
      finally show ?thesis by simp
    qed
    with path [of "k - 1"] \<open>0 < k\<close> have "in_use (d ! ((i + t) mod n))" "k \<le> Suc (dst n ((i + t) mod n) (d ! ((i + t) mod n)))"
      by auto
    with other self D \<open>i < n\<close> len show ?thesis by simp
  next
    case False
    then have "(i + Suc t) mod n \<noteq> i" using cyc_inj [of "Suc t" n 0 i] t \<open>i < n\<close> by auto
    with u pos have u': "in_use (d ! ((i + Suc t) mod n))" "0 < dst n ((i + Suc t) mod n) (d ! ((i + Suc t) mod n))"
      by simp_all
    from robin_hoodD [OF rh _ this] have r: "in_use (d ! ((i + t) mod n))"
      "dst n ((i + Suc t) mod n) (d ! ((i + Suc t) mod n)) \<le> Suc (dst n ((i + t) mod n) (d ! ((i + t) mod n)))"
      using n by simp_all
    then have "(i + t) mod n \<noteq> i" using empty by (intro notI) simp
    with r \<open>(i + Suc t) mod n \<noteq> i\<close> show ?thesis by simp
  qed
qed

text \<open>Entries moved forward by one bucket, from bucket \<open>i\<close> up to an empty one \<open>m\<close> buckets further.\<close>

definition moved_up :: "nat \<Rightarrow> nat \<Rightarrow> nat \<Rightarrow> 'k element list \<Rightarrow> 'k element list \<Rightarrow> bool" where
  "moved_up n i m d d' \<longleftrightarrow> (\<forall>t < m. d' ! ((i + Suc t) mod n) = d ! ((i + t) mod n)) \<and>
     (\<forall>t. m < t \<and> t < n \<longrightarrow> d' ! ((i + t) mod n) = d ! ((i + t) mod n))"

lemma dst_moved_up:
  assumes "robin_hood n d" "i < n" "t < m" "m < n" "in_use (d ! ((i + t) mod n))" "d ! ((i + m) mod n) = SH_EMPTY"
  shows "dst n ((i + Suc t) mod n) (d ! ((i + t) mod n)) = Suc (dst n ((i + t) mod n) (d ! ((i + t) mod n)))"
proof -
  let ?q = "(i + t) mod n" and ?e = "d ! ((i + t) mod n)"
  let ?k = "n - (m - t)"
  have n: "0 < n" using assms(2) by simp
  have "\<not> ?k \<le> dst n ?q ?e"
  proof
    assume le: "?k \<le> dst n ?q ?e"
    have "(i + m + ?k) mod n = ?q"
    proof -
      have "i + m + ?k = i + t + n" using assms(3,4) by simp
      then show ?thesis by (simp only: mod_add_self2)
    qed
    with probe_chain [OF assms(1) n, of "i + m" ?k] le assms(5,6) show False by simp
  qed
  then have "Suc (dst n ?q ?e) < n" using assms(3,4) by linarith
  then show ?thesis using dst_Suc [of ?q n ?e] n by (simp only: cyc_Suc mod_less_divisor)
qed

lemma shift_robin_hood:
  assumes rh: "robin_hood n d" and n: "2 \<le> n" and k: "k < n"
    and i: "i = (opt n e + k) mod n" and far: "dst n i (d ! i) < k"
    and path: "\<And>j. j < k \<Longrightarrow> in_use (d ! ((opt n e + j) mod n)) \<and> j \<le> dst n ((opt n e + j) mod n) (d ! ((opt n e + j) mod n))"
    and m: "0 < m" "m < n" and used: "\<And>t. t < m \<Longrightarrow> in_use (d ! ((i + t) mod n))"
    and empty: "d ! ((i + m) mod n) = SH_EMPTY"
    and up: "moved_up n i m d d'" and e: "d' ! i = e" "in_use e"
  shows "robin_hood n d'"
proof (rule robin_hoodI)
  show "i < n" using i n by simp
  let ?D = "\<lambda>t. dst n ((i + t) mod n) (d ! ((i + t) mod n))"
  have i0: "(i + 0) mod n = i" using \<open>i < n\<close> by simp
  fix t assume t: "t < n" and u: "in_use (d' ! ((i + Suc t) mod n))"
    and pos: "0 < dst n ((i + Suc t) mod n) (d' ! ((i + Suc t) mod n))"
  have moved: "d' ! ((i + Suc t) mod n) = d ! ((i + t) mod n)" if "t < m" for t
    using up that by (simp add: moved_up_def)
  have same: "d' ! ((i + t) mod n) = d ! ((i + t) mod n)" if "m < t" "t < n" for t
    using up that by (simp add: moved_up_def)
  have Dmoved: "dst n ((i + Suc t) mod n) (d' ! ((i + Suc t) mod n)) = Suc (?D t)" if "t < m" for t
    using dst_moved_up [OF rh \<open>i < n\<close> that m(2) used [OF that] empty] moved [OF that] by simp
  have Di: "dst n i (d' ! i) = k" using dst_offset [OF k, of e] i e by simp
  consider (first) "t < m" "t = 0" | (moved) t' where "t < m" "t = Suc t'" | (gap) "t = m" "Suc t < n"
    | (later) "m < t" "Suc t < n" | (before) "Suc t = n"
    using t by (cases t) fastforce+
  then show "in_use (d' ! ((i + t) mod n)) \<and>
      dst n ((i + Suc t) mod n) (d' ! ((i + Suc t) mod n)) \<le> Suc (dst n ((i + t) mod n) (d' ! ((i + t) mod n)))"
  proof cases
    case first
    with Dmoved [of 0] far Di e i0 show ?thesis by simp
  next
    case (moved t')
    then have u: "in_use (d ! ((i + t') mod n))" "in_use (d ! ((i + Suc t') mod n))" using used [of t'] used [of "Suc t'"] by simp_all
    then have "?D (Suc t') \<le> Suc (?D t')"
      using robin_hoodD [OF rh _ u(2)] n by (cases "?D (Suc t') = 0") simp_all
    with u moved Dmoved [of t'] Dmoved [of "Suc t'"] \<open>\<And>t. t < m \<Longrightarrow> d' ! ((i + Suc t) mod n) = d ! ((i + t) mod n)\<close> [of t']
    show ?thesis by simp
  next
    case gap
    then have "d' ! ((i + Suc m) mod n) = d ! ((i + Suc m) mod n)" using same [of "Suc m"] by simp
    with gap u pos robin_hoodD [OF rh, of i m] n empty show ?thesis by simp
  next
    case later
    with same [of t] same [of "Suc t"] u pos robin_hoodD [OF rh, of i t] n show ?thesis by simp
  next
    case before
    have "0 < k" using far by simp
    have "(i + t) mod n = (opt n e + (k - 1)) mod n"
    proof -
      have "(i + t) mod n = (opt n e + k + t) mod n" by (simp add: i mod_add_left_eq)
      also have "opt n e + k + t = opt n e + (k - 1) + n" using before \<open>0 < k\<close> by simp
      finally show ?thesis by simp
    qed
    with path [of "k - 1"] \<open>0 < k\<close> have p: "in_use (d ! ((i + t) mod n))" "k \<le> Suc (?D t)" by auto
    then have "t \<noteq> m" using empty by (intro notI) simp
    then have "m < t" using before m(2) by simp
    moreover have "(i + Suc t) mod n = i" using before \<open>i < n\<close> by simp
    ultimately show ?thesis using p same [of t] t Di by simp
  qed
qed

text \<open>Entries moved back by one bucket into bucket \<open>i\<close>; the last of the \<open>m\<close> moved ones leaves a gap.\<close>

definition moved_down :: "nat \<Rightarrow> nat \<Rightarrow> nat \<Rightarrow> 'k element list \<Rightarrow> 'k element list \<Rightarrow> bool" where
  "moved_down n i m d d' \<longleftrightarrow> (\<forall>t < m. d' ! ((i + t) mod n) = d ! ((i + Suc t) mod n)) \<and>
     d' ! ((i + m) mod n) = SH_EMPTY \<and> (\<forall>t. m < t \<and> t < n \<longrightarrow> d' ! ((i + t) mod n) = d ! ((i + t) mod n))"

lemma backshift_robin_hood:
  assumes rh: "robin_hood n d" and i: "i < n" and m: "Suc m < n"
    and used: "\<And>t. t < m \<Longrightarrow> in_use (d ! ((i + Suc t) mod n)) \<and> 0 < dst n ((i + Suc t) mod n) (d ! ((i + Suc t) mod n))"
    and stop: "in_use (d ! ((i + Suc m) mod n)) \<Longrightarrow> dst n ((i + Suc m) mod n) (d ! ((i + Suc m) mod n)) = 0"
    and down: "moved_down n i m d d'"
  shows "robin_hood n d'"
proof (rule robin_hoodI [OF i])
  have n: "0 < n" using i by simp
  let ?D = "\<lambda>t. dst n ((i + t) mod n) (d ! ((i + t) mod n))"
  have moved: "d' ! ((i + t) mod n) = d ! ((i + Suc t) mod n)" if "t < m" for t
    using down that by (simp add: moved_down_def)
  have same: "d' ! ((i + t) mod n) = d ! ((i + t) mod n)" if "m < t" "t < n" for t
    using down that by (simp add: moved_down_def)
  have gap: "d' ! ((i + m) mod n) = SH_EMPTY" using down by (simp add: moved_down_def)
  have Dmoved: "dst n ((i + t) mod n) (d' ! ((i + t) mod n)) = ?D (Suc t) - 1" if "t < m" for t
    using dst_pred [of "(i + t) mod n" n "d ! ((i + Suc t) mod n)"] used [OF that] moved [OF that] n
    by (simp only: cyc_Suc mod_less_divisor)
  fix t assume t: "t < n" and u: "in_use (d' ! ((i + Suc t) mod n))"
    and pos: "0 < dst n ((i + Suc t) mod n) (d' ! ((i + Suc t) mod n))"
  consider (moved) "Suc t < m" | (last) "Suc t = m" | (gap) "t = m" | (later) "m < t" "Suc t < n" | (before) "Suc t = n"
    using t by fastforce
  then show "in_use (d' ! ((i + t) mod n)) \<and>
      dst n ((i + Suc t) mod n) (d' ! ((i + Suc t) mod n)) \<le> Suc (dst n ((i + t) mod n) (d' ! ((i + t) mod n)))"
  proof cases
    case moved
    with used [of t] used [of "Suc t"] robin_hoodD [OF rh n, of i "Suc t"] Dmoved [of t] Dmoved [of "Suc t"]
      \<open>\<And>t. t < m \<Longrightarrow> d' ! ((i + t) mod n) = d ! ((i + Suc t) mod n)\<close> [of t]
    show ?thesis by (auto simp del: add_Suc_right)
  next
    case last
    with u gap show ?thesis by (simp del: add_Suc_right)
  next
    case gap
    with same [of "Suc m"] m u pos stop show ?thesis by (simp del: add_Suc_right)
  next
    case later
    with same [of t] same [of "Suc t"] u pos robin_hoodD [OF rh n, of i t] show ?thesis by (simp del: add_Suc_right)
  next
    case before
    have self: "(i + Suc t) mod n = i" "(i + 0) mod n = i" using before i by simp_all
    have tm: "m < t" using before m by simp
    have "m \<noteq> 0" using u gap self by (intro notI) simp
    then have "dst n i (d' ! i) = ?D (Suc 0) - 1" using Dmoved [of 0] self by (simp del: add_Suc_right)
    moreover have "in_use (d ! i)" "?D (Suc 0) \<le> Suc (dst n i (d ! i))"
      using robin_hoodD [OF rh n, of i 0] used [of 0] \<open>m \<noteq> 0\<close> self by (simp_all del: add_Suc_right)
    ultimately have "0 < dst n i (d ! i)" "dst n i (d' ! i) \<le> dst n i (d ! i)"
      using pos self by (simp_all del: add_Suc_right)
    with robin_hoodD [OF rh n, of i t] \<open>in_use (d ! i)\<close> self
    have "in_use (d ! ((i + t) mod n))" "dst n i (d' ! i) \<le> Suc (?D t)" by (simp_all del: add_Suc_right)
    with same [OF tm t] self show ?thesis by (simp del: add_Suc_right)
  qed
qed

end
