(* ===== verification/Hash_Table.thy ===== *)
theory Hash_Table
  imports Simple_Hash
begin

text \<open>
  Correctness of the operations of \<open>Simple_Hash\<close>: every loop over the buckets ends, lookups find
  exactly the stored keys, and insertion, growth and deletion keep the table's invariant and change
  the multiset of stored keys as they should. The interface the clients use is the locale
  \<open>key_store\<close> of \<open>Hash_Map\<close>.
\<close>

section \<open>The loops\<close>

lemma hole_mset:
  assumes "a \<noteq> b" "a < length d" "b < length d"
  shows "mset (d[a := d ! b, b := x]) = mset (d[a := x])"
  using mset_swap [of b "d[a := x]" a] assms by simp

lemma insert_shift_spec:
  assumes tb: "sized tb" and n: "n = sh_size tb" and "i < n" "m < n" "m \<le> fuel" "length d = n"
  shows "\<exists>d'. insert_shift tb fuel i ((i + m) mod n) d = Inr d' \<and> moved_up n i m d d' \<and> length d' = n \<and>
    (\<forall>x. mset (d'[i := x]) = mset (d[(i + m) mod n := x]))"
  using assms(4-)
proof (induction m arbitrary: fuel d)
  case 0
  with \<open>i < n\<close> show ?case by (cases fuel) (auto simp: moved_up_def)
next
  case (Suc m)
  then obtain f where f: "fuel = Suc f" "m \<le> f" by (cases fuel) auto
  let ?p = "(i + Suc m) mod n" and ?q = "(i + m) mod n"
  let ?d = "d[?p := d ! ?q]"
  have pq: "?p \<noteq> i" "?p \<noteq> ?q" "?p < n" "?q < n"
    using cyc_inj [of "Suc m" n 0 i] cyc_inj [of "Suc m" n m i] Suc.prems \<open>i < n\<close> by auto
  have "SH_PREV tb ?p = ?q"
  proof -
    have "(?p + (n - 1)) mod n = (i + Suc m + (n - 1)) mod n" by (simp add: mod_add_left_eq)
    also have "i + Suc m + (n - 1) = i + m + n" using \<open>i < n\<close> by simp
    finally show ?thesis using prev_bucket [OF tb, of ?p] n by simp
  qed
  then have step: "insert_shift tb fuel i ?p d = insert_shift tb f i ?q ?d"
    using pq f by (simp add: Let_def)
  obtain d' where d': "insert_shift tb f i ?q ?d = Inr d'" "moved_up n i m ?d d'" "length d' = n"
    "\<And>x. mset (d'[i := x]) = mset (?d[?q := x])"
    using Suc.IH [of f ?d] Suc.prems f by auto
  have "moved_up n i (Suc m) d d'"
    unfolding moved_up_def
  proof (intro conjI allI impI)
    fix t assume "t < Suc m"
    then consider "t < m" | "t = m" by linarith
    then show "d' ! ((i + Suc t) mod n) = d ! ((i + t) mod n)"
    proof cases
      case 1
      then have "?p \<noteq> (i + t) mod n" using cyc_inj [of "Suc m" n t i] Suc.prems \<open>i < n\<close> by auto
      with 1 d'(2) show ?thesis by (simp add: moved_up_def)
    next
      case 2
      have "d' ! ?p = ?d ! ?p" using d'(2) Suc.prems by (simp add: moved_up_def del: add_Suc_right)
      with 2 pq Suc.prems show ?thesis by simp
    qed
  next
    fix t assume "Suc m < t \<and> t < n"
    then have "?p \<noteq> (i + t) mod n" using cyc_inj [of "Suc m" n t i] Suc.prems \<open>i < n\<close> by auto
    with d'(2) \<open>Suc m < t \<and> t < n\<close> show "d' ! ((i + t) mod n) = d ! ((i + t) mod n)"
      by (simp add: moved_up_def)
  qed
  moreover have "mset (?d[?q := x]) = mset (d[?p := x])" for x
    using pq Suc.prems by (intro hole_mset) auto
  ultimately show ?case using step d' by auto
qed

lemma insert_find_empty_spec:
  assumes tb: "sized tb" and n: "n = sh_size tb" and "i < n"
    and "data tb ! ((i + m) mod n) = SH_EMPTY" "\<And>t. a < t \<Longrightarrow> t < m \<Longrightarrow> in_use (data tb ! ((i + t) mod n))"
    and "a < m" "m - a \<le> fuel"
  shows "insert_find_empty tb fuel ((i + a) mod n) gap = Inr (Some ((i + m) mod n)) \<or>
    insert_find_empty tb fuel ((i + a) mod n) gap = Inr None \<and> sh_size tb \<le> members tb * 10"
  using assms(5-)
proof (induction fuel arbitrary: a gap)
  case (Suc f)
  have nxt: "SH_NEXT tb ((i + a) mod n) = (i + Suc a) mod n" using next_bucket [OF tb] n by (simp only: cyc_Suc)
  show ?case
  proof (cases "Suc a = m")
    case True
    with assms(4) nxt show ?thesis by (simp add: Let_def del: add_Suc_right)
  next
    case False
    with Suc.prems(2) have "Suc a < m" by simp
    then have "data tb ! ((i + Suc a) mod n) \<noteq> SH_EMPTY" using Suc.prems(1) [of "Suc a"] by auto
    with Suc.IH [of "Suc a" "Suc gap"] \<open>Suc a < m\<close> Suc.prems nxt show ?thesis
      by (auto simp add: Let_def simp del: add_Suc_right)
  qed
qed simp

lemma at_optimal:
  assumes "sized tb" "i < sh_size tb"
  shows "SH_INITIAL_BUCKET tb (elem_hash e) = i \<longleftrightarrow> dst (sh_size tb) i e = 0"
proof -
  have "SH_INITIAL_BUCKET tb (elem_hash e) = opt (sh_size tb) e"
    using initial_bucket [OF assms(1)] by (simp add: opt_def)
  then show ?thesis
    using dst_position [OF assms(2), of e] dst_offset [of 0 "sh_size tb" e] assms(2) by auto
qed

lemma moved_down_same: "moved_down n i m d d' \<Longrightarrow> m < t \<Longrightarrow> t < n \<Longrightarrow> d' ! ((i + t) mod n) = d ! ((i + t) mod n)"
  by (simp add: moved_down_def)

lemma delete_shift_spec:
  assumes tb: "sized tb" and n: "n = sh_size tb" and "i < n" "Suc m < n" "m < fuel" "length d = n"
    and "\<And>t. t < m \<Longrightarrow> in_use (d ! ((i + Suc t) mod n)) \<and> 0 < dst n ((i + Suc t) mod n) (d ! ((i + Suc t) mod n))"
    and "in_use (d ! ((i + Suc m) mod n)) \<Longrightarrow> dst n ((i + Suc m) mod n) (d ! ((i + Suc m) mod n)) = 0"
  shows "\<exists>d'. delete_shift tb fuel i i d = Inr d' \<and> moved_down n i m d d' \<and> length d' = n \<and>
    mset d' = mset (d[i := SH_EMPTY])"
  using assms(3-)
proof (induction m arbitrary: i fuel d)
  case 0
  then obtain f where f: "fuel = Suc f" by (cases fuel) auto
  let ?c = "(i + Suc 0) mod n"
  have c: "SH_NEXT tb i = ?c" "?c < n" using next_bucket [OF tb] n 0 by simp_all
  then have "\<not> in_use (d ! ?c) \<or> SH_INITIAL_BUCKET tb (elem_hash (d ! ?c)) = ?c"
    using 0 at_optimal [OF tb, of ?c "d ! ?c"] c n by (cases "in_use (d ! ?c)") simp_all
  then have "delete_shift tb fuel i i d = Inr (d[i := SH_EMPTY])" using c f by (auto simp: Let_def)
  moreover have "moved_down n i 0 d (d[i := SH_EMPTY])"
    unfolding moved_down_def
  proof (intro conjI allI impI)
    fix t assume "0 < t \<and> t < n"
    then have "(i + t) mod n \<noteq> i" using cyc_inj [of t n 0 i] 0 by simp
    then show "d[i := SH_EMPTY] ! ((i + t) mod n) = d ! ((i + t) mod n)" by simp
  qed (use 0 in simp_all)
  ultimately show ?case using 0 by auto
next
  case (Suc m)
  then obtain f where f: "fuel = Suc f" "m < f" by (cases fuel) auto
  let ?c = "(i + Suc 0) mod n"
  let ?d = "d[i := d ! ?c]"
  have c: "SH_NEXT tb i = ?c" "?c < n" using next_bucket [OF tb] n Suc.prems by simp_all
  have off: "(?c + t) mod n = (i + Suc t) mod n" for t by (simp add: mod_add_left_eq)
  have away: "(i + Suc t) mod n \<noteq> i" if "Suc t < n" for t
    using cyc_inj [of "Suc t" n 0 i] that Suc.prems by auto
  have dc: "in_use (d ! ?c)" "0 < dst n ?c (d ! ?c)" using Suc.prems(5) [of 0] by simp_all
  then have go: "\<not> (\<not> in_use (d ! ?c) \<or> SH_INITIAL_BUCKET tb (elem_hash (d ! ?c)) = ?c)"
    using at_optimal [OF tb, of ?c "d ! ?c"] c n by simp
  have step: "delete_shift tb fuel i i d = delete_shift tb f ?c ?c ?d"
    unfolding f(1) delete_shift.simps Let_def c(1) using go by (simp only: if_False)
  have same: "?d ! ((?c + Suc t) mod n) = d ! ((i + Suc (Suc t)) mod n)" if "t \<le> m" for t
    using away [of "Suc t"] that Suc.prems(2) off [of "Suc t"] by simp
  obtain d' where d': "delete_shift tb f ?c ?c ?d = Inr d'" "moved_down n ?c m ?d d'" "length d' = n"
    "mset d' = mset (?d[?c := SH_EMPTY])"
  proof -
    have "\<exists>d'. delete_shift tb f ?c ?c ?d = Inr d' \<and> moved_down n ?c m ?d d' \<and> length d' = n \<and>
      mset d' = mset (?d[?c := SH_EMPTY])"
    proof (rule Suc.IH)
      show "in_use (?d ! ((?c + Suc t) mod n)) \<and> 0 < dst n ((?c + Suc t) mod n) (?d ! ((?c + Suc t) mod n))" if "t < m" for t
        using Suc.prems(5) [of "Suc t"] same [of t] off [of "Suc t"] that by simp
      show "dst n ((?c + Suc m) mod n) (?d ! ((?c + Suc m) mod n)) = 0" if "in_use (?d ! ((?c + Suc m) mod n))"
        using Suc.prems(6) same [of m] off [of "Suc m"] that by simp
    qed (use c f Suc.prems in simp_all)
    with that show ?thesis by blast
  qed
  have "moved_down n i (Suc m) d d'"
    unfolding moved_down_def
  proof (intro conjI allI impI)
    fix t assume "t < Suc m"
    show "d' ! ((i + t) mod n) = d ! ((i + Suc t) mod n)"
    proof (cases t)
      case 0
      have "(?c + (n - 1)) mod n = i" using off [of "n - 1"] Suc.prems(1) by simp
      moreover have "d' ! ((?c + (n - 1)) mod n) = ?d ! ((?c + (n - 1)) mod n)"
        using Suc.prems(1,2) by (intro moved_down_same [OF d'(2)]) simp_all
      ultimately show ?thesis using 0 Suc.prems by simp
    next
      case (Suc t')
      then have "d' ! ((?c + t') mod n) = ?d ! ((?c + Suc t') mod n)"
        using d'(2) \<open>t < Suc m\<close> by (simp add: moved_down_def)
      with Suc same [of t'] \<open>t < Suc m\<close> off [of t'] show ?thesis by simp
    qed
  next
    show "d' ! ((i + Suc m) mod n) = SH_EMPTY" using d'(2) off [of m] by (simp add: moved_down_def)
  next
    fix t assume t: "Suc m < t \<and> t < n"
    then obtain t' where t': "t = Suc t'" "m < t'" by (cases t) auto
    then have "d' ! ((?c + t') mod n) = ?d ! ((?c + t') mod n)" using d'(2) t by (simp add: moved_down_def)
    with off [of t'] away [of t'] t t' show "d' ! ((i + t) mod n) = d ! ((i + t) mod n)" by simp
  qed
  moreover have "mset (?d[?c := SH_EMPTY]) = mset (d[i := SH_EMPTY])"
    using away [of 0] Suc.prems c by (intro hole_mset) auto
  ultimately show ?case using step d' by auto
qed

lemma first_empty:
  assumes "SH_EMPTY \<in> set d" "length d = n" "s < n"
  obtains z where "z < n" "d ! ((s + z) mod n) = SH_EMPTY" "\<And>t. t < z \<Longrightarrow> in_use (d ! ((s + t) mod n))"
proof -
  obtain q where "q < n" "d ! q = SH_EMPTY" using assms by (auto simp: in_set_conv_nth)
  then obtain t where "t < n" "d ! ((s + t) mod n) = SH_EMPTY" using cyc_cases [OF assms(3)] by metis
  then have ex: "\<exists>t. d ! ((s + t) mod n) = SH_EMPTY" by blast
  define z where "z = (LEAST t. d ! ((s + t) mod n) = SH_EMPTY)"
  show thesis
  proof
    show "z < n" using Least_le [of "\<lambda>t. d ! ((s + t) mod n) = SH_EMPTY" t] \<open>t < n\<close> \<open>d ! ((s + t) mod n) = SH_EMPTY\<close>
      by (simp add: z_def)
    show "d ! ((s + z) mod n) = SH_EMPTY" unfolding z_def using ex by (rule LeastI_ex)
    show "in_use (d ! ((s + t) mod n))" if "t < z" for t
      using not_less_Least [of t "\<lambda>t. d ! ((s + t) mod n) = SH_EMPTY"] that not_in_use unfolding z_def by blast
  qed
qed

text \<open>
  \<open>scanned\<close>: the buckets a search from bucket \<open>s\<close> visits; the first empty one is \<open>z\<close> buckets further.
\<close>

definition scanned :: "'k table \<Rightarrow> nat \<Rightarrow> nat \<Rightarrow> bool" where
  "scanned tb s z \<longleftrightarrow> sized tb \<and> s < sh_size tb \<and> z < sh_size tb \<and> data tb ! ((s + z) mod sh_size tb) = SH_EMPTY \<and>
     (\<forall>t < z. in_use (data tb ! ((s + t) mod sh_size tb)))"

definition bucket :: "'k table \<Rightarrow> nat \<Rightarrow> nat \<Rightarrow> 'k element" where
  "bucket tb s t = data tb ! ((s + t) mod sh_size tb)"

lemma scannedD:
  assumes "scanned tb s z"
  shows "sized tb" "z < sh_size tb" "bucket tb s z = SH_EMPTY" "t < z \<Longrightarrow> in_use (bucket tb s t)" "t < z \<Longrightarrow> bucket tb s t \<noteq> SH_EMPTY"
    "SH_NEXT tb ((s + t) mod sh_size tb) = (s + Suc t) mod sh_size tb"
  using assms next_bucket [of tb] by (auto simp: scanned_def bucket_def cyc_Suc simp del: add_Suc_right)

lemma scanned_exists:
  assumes "sized tb" "SH_EMPTY \<in> set (data tb)" "s < sh_size tb" obtains z where "scanned tb s z"
  using first_empty [OF assms(2) _ assms(3)] assms that by (auto simp: scanned_def sized_def)

lemma lookup_loop_find:
  assumes sc: "scanned tb s z" and "j \<le> z" "z - j < fuel"
  shows "lookup_loop eq tb key hash fuel ((s + j) mod sh_size tb) =
    Inr (map_option (\<lambda>t. (s + t) mod sh_size tb) (find (\<lambda>t. SH_COMPARE_KEYS eq hash key (bucket tb s t)) [j..<z]))"
  using assms(2,3)
proof (induction fuel arbitrary: j)
  case (Suc f)
  show ?case
  proof (cases "j = z")
    case True
    with scannedD(3) [OF sc] show ?thesis by (simp add: bucket_def)
  next
    case False
    with Suc.prems have j: "j < z" by simp
    with scannedD(5) [OF sc j] scannedD(6) [OF sc] Suc.IH [of "Suc j"] Suc.prems show ?thesis
      by (simp add: bucket_def upt_rec [of j z] Let_def del: add_Suc_right)
  qed
qed simp

lemma delete_loop_find:
  assumes sc: "scanned tb s z" and "j \<le> z" "z - j < fuel"
  shows "delete_loop eq tb key hash fuel ((s + j) mod sh_size tb) =
    (case find (\<lambda>t. SH_COMPARE_KEYS eq hash key (bucket tb s t)) [j..<z] of
       None \<Rightarrow> Inr (tb, False)
     | Some t \<Rightarrow> rmap (\<lambda>d. (tb\<lparr>members := members tb - 1, data := d\<rparr>, True))
         (delete_shift tb (sh_size tb) ((s + t) mod sh_size tb) ((s + t) mod sh_size tb) (data tb)))"
  using assms(2,3)
proof (induction fuel arbitrary: j)
  case (Suc f)
  show ?case
  proof (cases "j = z")
    case True
    with scannedD(3) [OF sc] show ?thesis by (simp add: bucket_def)
  next
    case False
    with Suc.prems have j: "j < z" by simp
    with scannedD(4,5) [OF sc j] scannedD(6) [OF sc] Suc.IH [of "Suc j"] Suc.prems show ?thesis
      by (simp add: bucket_def upt_rec [of j z] Let_def del: add_Suc_right)
  qed
qed simp

lemma insert_loop_cases:
  assumes sc: "scanned tb s z" and rh: "robin_hood (sh_size tb) (data tb)"
    and s: "s = SH_INITIAL_BUCKET tb hash" and "j \<le> z" "z - j < fuel"
    and "\<And>t. t < j \<Longrightarrow> \<not> SH_COMPARE_KEYS eq hash key (bucket tb s t) \<and>
      t \<le> dst (sh_size tb) ((s + t) mod sh_size tb) (bucket tb s t)"
  obtains
    (found) t where "t < z" "SH_COMPARE_KEYS eq hash key (bucket tb s t)"
      "insert_loop eq tb key hash fuel ((s + j) mod sh_size tb) j = Inr (Found ((s + t) mod sh_size tb))"
  | (placed) t d' where "t \<le> z" "\<And>t'. t' \<le> t \<Longrightarrow> t' < z \<Longrightarrow> \<not> SH_COMPARE_KEYS eq hash key (bucket tb s t')"
      "t < z \<Longrightarrow> dst (sh_size tb) ((s + t) mod sh_size tb) (bucket tb s t) < t"
      "insert_loop eq tb key hash fuel ((s + j) mod sh_size tb) j =
         Inr (Placed (tb\<lparr>members := members tb + 1, data := d'\<rparr>) ((s + t) mod sh_size tb))"
      "length d' = sh_size tb" "robin_hood (sh_size tb) d'" "d' ! ((s + t) mod sh_size tb) = SH_IN_USE hash key"
      "mset d' = add_mset (SH_IN_USE hash key) (mset (data tb) - {#SH_EMPTY#})"
  | (restart) "insert_loop eq tb key hash fuel ((s + j) mod sh_size tb) j = Inr Restart" "sh_size tb \<le> members tb * 10"
  using assms(4-)
proof (induction fuel arbitrary: j thesis)
  case (Suc f)
  let ?n = "sh_size tb" and ?e = "SH_IN_USE hash key"
  let ?i = "(s + j) mod ?n"
  have tb: "sized tb" and z: "z < ?n" using scannedD [OF sc] by auto
  have n: "2 \<le> ?n" "length (data tb) = ?n" using size_pos [OF tb] tb by (auto simp: sized_def)
  have opt: "opt ?n ?e = s" using initial_bucket [OF tb] s by (simp add: opt_def)
  have jn: "j < ?n" using Suc.prems(4) z by simp
  have i: "?i = (opt ?n ?e + j) mod ?n" "?i < ?n" using opt n by simp_all
  have path: "in_use (data tb ! ((opt ?n ?e + t) mod ?n)) \<and>
      t \<le> dst ?n ((opt ?n ?e + t) mod ?n) (data tb ! ((opt ?n ?e + t) mod ?n))" if "t < j" for t
    using scannedD(4) [OF sc, of t] Suc.prems(4,6) that by (auto simp: opt bucket_def)
  show ?case
  proof (cases "j = z")
    case True
    then have empty: "data tb ! ?i = SH_EMPTY" using scannedD(3) [OF sc] by (simp add: bucket_def)
    show ?thesis
    proof (rule Suc.prems(2) [of j "(data tb)[?i := ?e]"])
      show "robin_hood ?n ((data tb)[?i := ?e])"
        by (rule place_robin_hood [OF rh n(2) jn n(1) i(1) empty path])
      show "mset ((data tb)[?i := ?e]) = add_mset ?e (mset (data tb) - {#SH_EMPTY#})"
        using i(2) n empty by (simp add: mset_update)
    qed (use True Suc.prems(6) empty n i(2) in \<open>auto simp: Let_def\<close>)
  next
    case False
    with Suc.prems(4) have j: "j < z" by simp
    note used = scannedD(4,5) [OF sc j]
    have D: "SH_DISTANCE_FROM_OPTIMAL tb (SH_INITIAL_BUCKET tb (elem_hash (bucket tb s j))) ?i = dst ?n ?i (bucket tb s j)"
      using distance_from_optimal [OF tb i(2)] .
    consider (eq) "SH_COMPARE_KEYS eq hash key (bucket tb s j)"
      | (shift) "\<not> SH_COMPARE_KEYS eq hash key (bucket tb s j)" "dst ?n ?i (bucket tb s j) < j"
      | (go) "\<not> SH_COMPARE_KEYS eq hash key (bucket tb s j)" "j \<le> dst ?n ?i (bucket tb s j)"
      by linarith
    then show ?thesis
    proof cases
      case eq
      with Suc.prems(1) [OF j eq] used show ?thesis by (simp add: bucket_def Let_def)
    next
      case shift
      let ?m = "z - j"
      have m: "0 < ?m" "?m < ?n" using j z by simp_all
      have off: "(?i + t) mod ?n = (s + (j + t)) mod ?n" for t by (simp add: mod_add_left_eq add.assoc)
      have "(?i + ?m) mod ?n = (s + z) mod ?n" unfolding off using j by simp
      then have empty: "data tb ! ((?i + ?m) mod ?n) = SH_EMPTY"
        using scannedD(3) [OF sc] by (simp only: bucket_def)
      have inuse: "in_use (data tb ! ((?i + t) mod ?n))" if "t < ?m" for t
        using scannedD(4) [OF sc, of "j + t"] that by (simp add: off bucket_def)
      have i0: "(?i + 0) mod ?n = ?i" by simp
      have loop: "insert_loop eq tb key hash (Suc f) ?i j =
          rbind (insert_find_empty tb ?n ?i 0) (\<lambda>r. case r of None \<Rightarrow> Inr Restart
            | Some emptyelem \<Rightarrow> rbind (insert_shift tb ?n ?i emptyelem (data tb)) (\<lambda>d.
                Inr (Placed (tb\<lparr>members := members tb + 1, data := d[?i := ?e]\<rparr>) ?i)))"
        using shift used D unfolding bucket_def by (simp only: insert_loop.simps Let_def if_False if_True simp_thms)
      have "insert_find_empty tb ?n ((?i + 0) mod ?n) 0 = Inr (Some ((?i + ?m) mod ?n)) \<or>
          insert_find_empty tb ?n ((?i + 0) mod ?n) 0 = Inr None \<and> ?n \<le> members tb * 10"
        using inuse m by (intro insert_find_empty_spec [OF tb refl i(2) empty]) auto
      then consider "insert_find_empty tb ?n ?i 0 = Inr (Some ((?i + ?m) mod ?n))"
        | "insert_find_empty tb ?n ?i 0 = Inr None" "?n \<le> members tb * 10"
        unfolding i0 by blast
      then show ?thesis
      proof cases
        case 1
        obtain d' where d': "insert_shift tb ?n ?i ((?i + ?m) mod ?n) (data tb) = Inr d'" "moved_up ?n ?i ?m (data tb) d'"
          "length d' = ?n" "\<And>x. mset (d'[?i := x]) = mset ((data tb)[(?i + ?m) mod ?n := x])"
          using insert_shift_spec [OF tb refl i(2) m(2) less_imp_le [OF m(2)] n(2)] by blast
        have up: "moved_up ?n ?i ?m (data tb) (d'[?i := ?e])"
          unfolding moved_up_def
        proof (intro conjI allI impI)
          fix t assume "t < ?m"
          then have "(?i + Suc t) mod ?n \<noteq> ?i" using cyc_inj [of "Suc t" ?n 0 ?i] m i(2) by simp
          with d'(2) \<open>t < ?m\<close> show "d'[?i := ?e] ! ((?i + Suc t) mod ?n) = data tb ! ((?i + t) mod ?n)"
            by (simp add: moved_up_def)
        next
          fix t assume "?m < t \<and> t < ?n"
          then have "(?i + t) mod ?n \<noteq> ?i" using cyc_inj [of t ?n 0 ?i] i(2) by simp
          with d'(2) \<open>?m < t \<and> t < ?n\<close> show "d'[?i := ?e] ! ((?i + t) mod ?n) = data tb ! ((?i + t) mod ?n)"
            by (simp add: moved_up_def)
        qed
        show ?thesis
        proof (rule Suc.prems(2) [of j "d'[?i := ?e]"])
          show "robin_hood ?n (d'[?i := ?e])"
            using shift(2) by (intro shift_robin_hood [OF rh n(1) jn i(1) _ path m inuse empty up])
              (use d'(3) i(2) in \<open>auto simp: bucket_def\<close>)
          show "mset (d'[?i := ?e]) = add_mset ?e (mset (data tb) - {#SH_EMPTY#})"
            using d'(4) empty n by (simp add: mset_update)
          show "insert_loop eq tb key hash (Suc f) ?i j =
              Inr (Placed (tb\<lparr>members := members tb + 1, data := d'[?i := ?e]\<rparr>) ?i)"
            unfolding loop using 1 d'(1) by simp
          show "\<not> SH_COMPARE_KEYS eq hash key (bucket tb s t')" if "t' \<le> j" "t' < z" for t'
            using shift(1) Suc.prems(6) [of t'] that by (cases "t' = j") auto
        qed (use shift j d'(3) i(2) in auto)
      next
        case 2
        then have "insert_loop eq tb key hash (Suc f) ?i j = Inr Restart" unfolding loop by simp
        then show ?thesis using Suc.prems(3) 2(2) by blast
      qed
    next
      case go
      show ?thesis
      proof (cases "Suc j > SH_GROW_MAX_DIB \<and> members tb * 10 \<ge> ?n")
        case True
        then have "insert_loop eq tb key hash (Suc f) ?i j = Inr Restart"
          using go used D by (simp add: bucket_def Let_def)
        then show ?thesis using Suc.prems(3) True by blast
      next
        case False
        then have loop: "insert_loop eq tb key hash (Suc f) ?i j = insert_loop eq tb key hash f ((s + Suc j) mod ?n) (Suc j)"
          using go used D scannedD(6) [OF sc, of j] by (auto simp add: bucket_def Let_def simp del: add_Suc_right)
        show ?thesis
        proof (rule Suc.IH [of "Suc j"])
          show "\<not> SH_COMPARE_KEYS eq hash key (bucket tb s t) \<and> t \<le> dst ?n ((s + t) mod ?n) (bucket tb s t)" if "t < Suc j" for t
            using Suc.prems(6) [of t] go that by (cases "t = j") auto
        qed (use Suc.prems j loop in \<open>auto simp del: insert_loop.simps\<close>)
      qed
    qed
  qed
qed simp

end
