(* ===== verification/Hash_Growth.thy ===== *)
theory Hash_Growth
  imports Hash_Table
begin

text \<open>
  Growing a table (\<open>SH_GROW\<close>) copies the entries into a table of twice the size without displacing
  any: this is only right because the copy starts at a bucket that is empty or holds an entry at its
  optimal position. The new table falls into two windows of the old size, each of which is filled
  from its start, and no entry gets farther from its optimal bucket than it was.
\<close>

section \<open>The old table, seen from the start bucket\<close>

definition ent :: "nat \<Rightarrow> 'k element list \<Rightarrow> nat \<Rightarrow> nat \<Rightarrow> 'k element" where
  "ent n d s u = d ! ((s + u) mod n)"

definition home :: "nat \<Rightarrow> 'k element list \<Rightarrow> nat \<Rightarrow> nat \<Rightarrow> nat" where
  "home n d s u = u - dst n ((s + u) mod n) (ent n d s u)"

definition start_bucket :: "nat \<Rightarrow> 'k element list \<Rightarrow> nat \<Rightarrow> bool" where
  "start_bucket n d s \<longleftrightarrow> s < n \<and> (in_use (d ! s) \<longrightarrow> dst n s (d ! s) = 0)"

lemma dst_le_offset:
  assumes rh: "robin_hood n d" and s: "start_bucket n d s" and u: "in_use (ent n d s u)"
  shows "dst n ((s + u) mod n) (ent n d s u) \<le> u"
proof (rule ccontr)
  assume far: "\<not> dst n ((s + u) mod n) (ent n d s u) \<le> u"
  have n: "0 < n" "s mod n = s" using s by (auto simp: start_bucket_def)
  have "in_use (d ! s)" "dst n ((s + u) mod n) (ent n d s u) \<le> u + dst n s (d ! s)"
    using probe_chain [OF rh n(1), of s u] far u n(2) by (auto simp: ent_def)
  with s far show False by (simp add: start_bucket_def)
qed

lemma home_mono:
  assumes rh: "robin_hood n d" and s: "start_bucket n d s"
    and u: "in_use (ent n d s u)" and u': "in_use (ent n d s u')" and "u \<le> u'"
  shows "home n d s u \<le> home n d s u'"
proof (cases "u' - u \<le> dst n ((s + u') mod n) (ent n d s u')")
  case True
  have "0 < n" using s by (auto simp: start_bucket_def)
  with probe_chain [OF rh this, of "s + u" "u' - u"] True u' \<open>u \<le> u'\<close>
  have "dst n ((s + u') mod n) (ent n d s u') \<le> (u' - u) + dst n ((s + u) mod n) (ent n d s u)"
    by (simp add: ent_def)
  with dst_le_offset [OF rh s u] dst_le_offset [OF rh s u'] \<open>u \<le> u'\<close> show ?thesis by (simp add: home_def)
next
  case False
  then show ?thesis by (simp add: home_def)
qed

lemma opt_home:
  assumes rh: "robin_hood n d" and s: "start_bucket n d s" and u: "in_use (ent n d s u)"
  shows "opt n (ent n d s u) = (s + home n d s u) mod n"
proof -
  let ?e = "ent n d s u"
  define D where "D = dst n ((s + u) mod n) ?e"
  have n: "0 < n" using s by (auto simp: start_bucket_def)
  have "D \<le> u" unfolding D_def by (rule dst_le_offset [OF assms])
  have "(D + opt n ?e) mod n = (s + u) mod n"
    using dst_position [of "(s + u) mod n" n ?e] n by (simp add: D_def add.commute)
  also have "s + u = D + (s + home n d s u)" using \<open>D \<le> u\<close> by (simp add: home_def flip: D_def)
  also have "\<dots> mod n = (D + (s + home n d s u) mod n) mod n" by (simp only: mod_add_right_eq)
  finally show ?thesis using cyc_inj [of "opt n ?e" n "(s + home n d s u) mod n" D] n by (simp add: D_def)
qed

text \<open>In the table of twice the size the optimal bucket is at the same place in one of the windows.\<close>

lemma double_mod:
  assumes "N < 2 * n" "N mod n = x mod n" obtains b where "b \<le> 1" "N = (x + b * n) mod (2 * (n :: nat))"
proof -
  let ?y = "x mod (2 * n)"
  have y: "?y < 2 * n" "?y mod n = N mod n" using assms by (simp_all add: mod_mod_cancel)
  have split: "k = k mod n \<or> k = k mod n + n" if "k < 2 * n" for k
    using that by (cases "k < n") (simp_all add: mod_if [of k n])
  consider "N = ?y" | "N = ?y + n" | "?y = N + n" using split [OF assms(1)] split [OF y(1)] y(2) by linarith
  then show thesis
  proof cases
    case 1
    then show thesis using that [of 0] by simp
  next
    case 2
    then have "N = (?y + n) mod (2 * n)" using assms(1) by simp
    then show thesis using that [of 1] by (simp add: mod_add_left_eq)
  next
    case 3
    then have "?y + n = N + 2 * n" by simp
    then have "(?y + n) mod (2 * n) = N" using assms(1) by (simp only: mod_add_self2 mod_less)
    then show thesis using that [of 1] by (simp add: mod_add_left_eq)
  qed
qed

lemma opt_double: "opt (2 * n) e mod n = opt n e"
  by (simp add: opt_def mod_mod_cancel)

lemma opt_window:
  assumes "robin_hood n d" "start_bucket n d s" "in_use (ent n d s u)"
  obtains b where "b \<le> 1" "opt (2 * n) (ent n d s u) = (s + home n d s u + b * n) mod (2 * n)"
proof -
  have "0 < n" using assms(2) by (auto simp: start_bucket_def)
  then have "opt (2 * n) (ent n d s u) < 2 * n" by simp
  moreover have "opt (2 * n) (ent n d s u) mod n = (s + home n d s u) mod n"
    using opt_home [OF assms] by (simp add: opt_double)
  ultimately show thesis using double_mod that by metis
qed

section \<open>The copy\<close>

definition slot :: "nat \<Rightarrow> nat \<Rightarrow> nat \<Rightarrow> nat \<Rightarrow> nat" where
  "slot n s b q = (s + q + b * n) mod (2 * n)"

lemma slot_inj:
  assumes "s < n" "q < n" "q' < n" "b \<le> 1" "b' \<le> 1" "slot n s b q = slot n s b' q'" shows "b = b' \<and> q = q'"
proof -
  have lt: "q + b * n < 2 * n" "q' + b' * n < 2 * n"
    using assms by (cases b; cases b'; simp)+
  then have "q + b * n = q' + b' * n"
    using cyc_inj [of "q + b * n" "2 * n" "q' + b' * n" s] assms by (simp add: slot_def add.assoc)
  then have "(q + b * n) div n = (q' + b' * n) div n" by simp
  with assms have "b = b'" by simp
  with \<open>q + b * n = q' + b' * n\<close> show ?thesis by simp
qed

lemma slot_add:
  assumes "w \<le> q" shows "slot n s b q = (slot n s b w + (q - w)) mod (2 * n)"
proof -
  have "s + q + b * n = s + w + b * n + (q - w)" using assms by simp
  then show ?thesis by (simp only: slot_def mod_add_left_eq)
qed

lemma slot_cover:
  assumes "s < n" "i < 2 * n" obtains b q where "b \<le> 1" "q < n" "i = slot n s b q"
proof -
  obtain t where t: "t < 2 * n" "i = (s + t) mod (2 * n)" using cyc_cases [of s "2 * n" i] assms by (metis less_trans mult_2 trans_less_add1)
  show thesis
  proof (cases "t < n")
    case True
    with t show thesis by (intro that [of 0 t]) (simp_all add: slot_def)
  next
    case False
    with t show thesis by (intro that [of 1 "t - n"]) (simp_all add: slot_def)
  qed
qed

definition copied :: "nat \<Rightarrow> 'k element list \<Rightarrow> nat \<Rightarrow> nat \<Rightarrow> 'k element list \<Rightarrow> bool" where
  "copied n d s u T \<longleftrightarrow> length T = 2 * n \<and> robin_hood (2 * n) T \<and>
     (\<forall>b q. b \<le> 1 \<longrightarrow> q < n \<longrightarrow> in_use (T ! slot n s b q) \<longrightarrow> q < u \<and>
        (\<exists>w \<le> q. opt (2 * n) (T ! slot n s b q) = slot n s b w \<and>
           (\<forall>u'. u \<le> u' \<longrightarrow> u' < n \<longrightarrow> in_use (ent n d s u') \<longrightarrow> w \<le> home n d s u')))"

lemma copied_skip: "copied n d s u T \<Longrightarrow> copied n d s (Suc u) T"
  unfolding copied_def by (metis Suc_leD less_SucI)

lemma copied_init:
  assumes "0 < n" shows "copied n d s 0 (replicate (2 * n) SH_EMPTY)"
  using assms by (auto simp: copied_def robin_hood_def slot_def)

lemma copied_dst:
  assumes T: "copied n d s u T" and bq: "b \<le> 1" "q < n" and use: "in_use (T ! slot n s b q)"
    and e: "in_use (ent n d s u)" "u < n"
  shows "q - home n d s u \<le> dst (2 * n) (slot n s b q) (T ! slot n s b q)"
proof -
  obtain w where w: "w \<le> q" "opt (2 * n) (T ! slot n s b q) = slot n s b w" "w \<le> home n d s u"
    using T bq use e unfolding copied_def by (metis order_refl)
  have "slot n s b q = (opt (2 * n) (T ! slot n s b q) + (q - w)) mod (2 * n)"
    unfolding w(2) using w(1) by (rule slot_add)
  then have "dst (2 * n) (slot n s b q) (T ! slot n s b q) = q - w"
    using dst_offset [of "q - w" "2 * n" "T ! slot n s b q"] bq(2) by (metis less_imp_diff_less mult_2 trans_less_add1)
  with w(3) show ?thesis by simp
qed

lemma grow_find_empty_spec:
  assumes "sized tb" "newdata ! ((i + k) mod sh_size tb) = SH_EMPTY" "j \<le> k" "k - j < fuel"
    and "\<And>t. t < k \<Longrightarrow> newdata ! ((i + t) mod sh_size tb) \<noteq> SH_EMPTY"
  shows "grow_find_empty tb newdata fuel ((i + j) mod sh_size tb) = Inr ((i + k) mod sh_size tb)"
  using assms(3,4)
proof (induction fuel arbitrary: j)
  case (Suc f)
  have nxt: "SH_NEXT tb ((i + j) mod sh_size tb) = (i + Suc j) mod sh_size tb"
    using next_bucket [OF assms(1)] by (simp only: cyc_Suc)
  show ?case
  proof (cases "j = k")
    case False
    with Suc.prems assms(5) [of j] Suc.IH [of "Suc j"] nxt show ?thesis by (simp del: add_Suc_right)
  qed (use assms(2) in simp)
qed simp

lemma copy_entry:
  assumes rh: "robin_hood n d" and s: "start_bucket n d s" and tb: "sized tb" "sh_size tb = 2 * n"
    and T: "copied n d s u T" and e: "in_use (ent n d s u)" and "u < n"
  obtains i where "i < 2 * n" "T ! i = SH_EMPTY" "copied n d s (Suc u) (T[i := ent n d s u])"
    "grow_find_empty tb T (sh_size tb) (SH_INITIAL_BUCKET tb (elem_hash (ent n d s u))) = Inr i"
proof -
  let ?e = "ent n d s u" and ?h = "home n d s u"
  have sn: "s < n" "2 \<le> 2 * n" "length T = 2 * n" "robin_hood (2 * n) T"
    using s T by (auto simp: start_bucket_def copied_def)
  obtain b where b: "b \<le> 1" "opt (2 * n) ?e = slot n s b ?h"
    using opt_window [OF rh s e] by (auto simp: slot_def)
  have hu: "?h \<le> u" by (simp add: home_def)
  have at: "(opt (2 * n) ?e + k) mod (2 * n) = slot n s b (?h + k)" for k
    unfolding b(2) using slot_add [of ?h "?h + k" n s b] by simp
  have "\<not> in_use (T ! slot n s b (?h + (u - ?h)))"
    using T b(1) hu \<open>u < n\<close> unfolding copied_def by (metis le_add_diff_inverse less_irrefl)
  then have ex: "T ! slot n s b (?h + (u - ?h)) = SH_EMPTY" by simp
  define k where "k = (LEAST k. T ! slot n s b (?h + k) = SH_EMPTY)"
  have k: "T ! slot n s b (?h + k) = SH_EMPTY" "k \<le> u - ?h"
    unfolding k_def using ex by (fact LeastI, fact Least_le)
  have before: "T ! slot n s b (?h + t) \<noteq> SH_EMPTY" if "t < k" for t
    using that not_less_Least unfolding k_def by blast
  then have used: "in_use (T ! slot n s b (?h + t))" if "t < k" for t using that not_in_use by blast
  let ?i = "slot n s b (?h + k)"
  have "?h + k < n" using k(2) hu \<open>u < n\<close> by simp
  have i: "?i < 2 * n" "?i = (opt (2 * n) ?e + k) mod (2 * n)" using sn at [of k] by (simp_all add: slot_def)
  show thesis
  proof
    show "?i < 2 * n" "T ! ?i = SH_EMPTY" by (fact i(1), fact k(1))
    have "SH_INITIAL_BUCKET tb (elem_hash ?e) = (opt (2 * n) ?e + 0) mod sh_size tb"
      using initial_bucket [OF tb(1)] tb(2) sn by (simp add: opt_def)
    moreover have "grow_find_empty tb T (sh_size tb) ((opt (2 * n) ?e + 0) mod sh_size tb) =
        Inr ((opt (2 * n) ?e + k) mod sh_size tb)"
      by (rule grow_find_empty_spec [OF tb(1)]) (use k before \<open>?h + k < n\<close> in \<open>auto simp: tb(2) at\<close>)
    ultimately show "grow_find_empty tb T (sh_size tb) (SH_INITIAL_BUCKET tb (elem_hash ?e)) = Inr ?i"
      by (simp only: i(2) tb(2))
    have place: "robin_hood (2 * n) (T[?i := ?e])"
    proof (rule place_robin_hood [OF sn(4,3) _ sn(2) i(2) k(1)])
      show "k < 2 * n" using \<open>?h + k < n\<close> by simp
      fix t assume "t < k"
      then show "in_use (T ! ((opt (2 * n) ?e + t) mod (2 * n))) \<and>
          t \<le> dst (2 * n) ((opt (2 * n) ?e + t) mod (2 * n)) (T ! ((opt (2 * n) ?e + t) mod (2 * n)))"
        using copied_dst [OF T b(1) _ used e \<open>u < n\<close>, of t] used [of t] \<open>?h + k < n\<close> by (simp add: at)
    qed
    show "copied n d s (Suc u) (T[?i := ?e])"
      unfolding copied_def
    proof (intro conjI allI impI)
      show "length (T[?i := ?e]) = 2 * n" "robin_hood (2 * n) (T[?i := ?e])" using sn place by simp_all
      fix b' q assume bq: "b' \<le> 1" "q < n" and use: "in_use (T[?i := ?e] ! slot n s b' q)"
      have "q < Suc u \<and> (\<exists>w \<le> q. opt (2 * n) (T[?i := ?e] ! slot n s b' q) = slot n s b' w \<and>
           (\<forall>u'. Suc u \<le> u' \<longrightarrow> u' < n \<longrightarrow> in_use (ent n d s u') \<longrightarrow> w \<le> home n d s u'))"
      proof (cases "slot n s b' q = ?i")
        case True
        then have "b' = b" "q = ?h + k" using slot_inj [OF sn(1) bq(2) \<open>?h + k < n\<close> bq(1) b(1)] by auto
        with True i(1) sn(3) b(2) k(2) hu home_mono [OF rh s e] show ?thesis by (auto intro!: exI [of _ ?h])
      next
        case False
        then have "T[?i := ?e] ! slot n s b' q = T ! slot n s b' q" by simp
        with copied_skip [OF T] bq use show ?thesis unfolding copied_def by metis
      qed
      then show "q < Suc u" "\<exists>w \<le> q. opt (2 * n) (T[?i := ?e] ! slot n s b' q) = slot n s b' w \<and>
           (\<forall>u'. Suc u \<le> u' \<longrightarrow> u' < n \<longrightarrow> in_use (ent n d s u') \<longrightarrow> w \<le> home n d s u')" by blast+
    qed
  qed
qed

section \<open>The grown table\<close>

definition stored :: "'k element list \<Rightarrow> 'k element multiset" where
  "stored d = filter_mset in_use (mset d)"

lemma stored_place: "i < length d \<Longrightarrow> d ! i = SH_EMPTY \<Longrightarrow> in_use e \<Longrightarrow> stored (d[i := e]) = add_mset e (stored d)"
  by (simp add: stored_def mset_update filter_diff_mset)

lemma grow_copy_spec:
  assumes rh: "robin_hood n d" and s: "start_bucket n d s" and tb: "sized tb" "sh_size tb = 2 * n" and len: "length d = n"
    and "copied n d s u T" "i + u = n" "stored T = mset (filter in_use (map (ent n d s) [0..<u]))"
  shows "\<exists>T'. grow_copy tb d i ((s + u) mod n) T = Inr T' \<and> copied n d s n T' \<and>
    stored T' = mset (filter in_use (map (ent n d s) [0..<n]))"
  using assms(6-)
proof (induction i arbitrary: u T)
  case (Suc i)
  have n: "0 < n" "u < n" using s Suc.prems(2) by (auto simp: start_bucket_def)
  have nxt: "(if (s + u) mod n + 1 \<ge> length d then 0 else (s + u) mod n + 1) = (s + Suc u) mod n"
  proof -
    have "(s + u) mod n < n" using n by simp
    then show ?thesis using cyc_Suc [of s u n] len by (auto simp: mod_if [of "Suc _"] simp del: add_Suc_right)
  qed
  show ?case
  proof (cases "in_use (ent n d s u)")
    case True
    obtain j where j: "j < 2 * n" "T ! j = SH_EMPTY" "copied n d s (Suc u) (T[j := ent n d s u])"
      "grow_find_empty tb T (sh_size tb) (SH_INITIAL_BUCKET tb (elem_hash (ent n d s u))) = Inr j"
      using copy_entry [OF rh s tb Suc.prems(1) True n(2)] by blast
    have "length T = 2 * n" using Suc.prems(1) by (simp add: copied_def)
    then have st: "stored (T[j := ent n d s u]) = mset (filter in_use (map (ent n d s) [0..<Suc u]))"
      using stored_place [of j T] j True Suc.prems(3) by simp
    have step: "grow_copy tb d (Suc i) ((s + u) mod n) T = grow_copy tb d i ((s + Suc u) mod n) (T[j := ent n d s u])"
      unfolding grow_copy.simps Let_def nxt using True j(4) by (simp add: ent_def del: add_Suc_right)
    show ?thesis unfolding step by (rule Suc.IH [OF j(3) _ st]) (use Suc.prems(2) in simp)
  next
    case False
    then have st: "stored T = mset (filter in_use (map (ent n d s) [0..<Suc u]))" using Suc.prems(3) by simp
    have step: "grow_copy tb d (Suc i) ((s + u) mod n) T = grow_copy tb d i ((s + Suc u) mod n) T"
      unfolding grow_copy.simps Let_def nxt using False by (simp add: ent_def del: add_Suc_right not_in_use)
    show ?thesis unfolding step by (rule Suc.IH [OF copied_skip [OF Suc.prems(1)] _ st]) (use Suc.prems(2) in simp)
  qed
qed auto

lemma ent_rotate: "length d = n \<Longrightarrow> 0 < n \<Longrightarrow> map (ent n d s) [0..<n] = rotate s d"
  by (rule nth_equalityI) (simp_all add: ent_def nth_rotate)

lemma mset_rotated: "mset (rotate s d) = mset d"
proof -
  have "mset (drop k d @ take k d) = mset (take k d @ drop k d)" for k by (simp only: mset_append add.commute)
  then show ?thesis by (simp add: rotate_drop_take flip: mset_append)
qed

lemma nextpower2_exp: "pg_nextpower2_64 (2 ^ k) = 2 ^ k"
proof -
  have "(2 :: nat) ^ k AND (2 ^ k - 1) = take_bit k (2 ^ k)" by (simp only: take_bit_eq_mask mask_eq_exp_minus_1)
  then show ?thesis by (simp add: pg_nextpower2_64_def take_bit_of_exp)
qed

lemma compute_size_exp:
  assumes "1 \<le> k" "k \<le> 32" shows "SH_COMPUTE_SIZE (2 ^ k) = Inr (2 ^ k)"
proof -
  have "max (2 ^ k) 2 = (2 :: nat) ^ k" using self_le_power [of "2 :: nat" k] assms(1) by simp
  moreover have "int (2 ^ k) \<le> 2 ^ 32" using power_increasing [OF assms(2), of "2 :: int"] by simp
  ultimately show ?thesis by (simp add: SH_COMPUTE_SIZE_def nextpower2_exp)
qed

definition threshold :: "nat \<Rightarrow> nat" where
  "threshold n = (if int n = SH_MAX_SIZE then n * 49 div 50 else n * 9 div 10)"

lemma update_parameters_exp:
  "1 \<le> k \<Longrightarrow> k \<le> 32 \<Longrightarrow> SH_UPDATE_PARAMETERS tb (2 ^ k) =
    Inr (tb\<lparr>sh_size := 2 ^ k, sizemask := of_nat (2 ^ k - 1), grow_threshold := threshold (2 ^ k)\<rparr>)"
  by (simp add: SH_UPDATE_PARAMETERS_def compute_size_exp threshold_def)

lemma grow_startelem_bucket:
  assumes tb: "sized tb" "sh_size tb = 2 * n" and len: "length d = n" and "SH_EMPTY \<in> set d"
  shows "start_bucket n d (grow_startelem tb d)"
proof -
  let ?P = "\<lambda>i. \<not> in_use (d ! i) \<or> SH_INITIAL_BUCKET tb (elem_hash (d ! i)) = i"
  obtain q where "q < n" "?P q" using assms(3,4) by (auto simp: in_set_conv_nth)
  then have "find ?P [0..<n] \<noteq> None" by (auto simp: find_None_iff)
  then obtain i where i: "find ?P [0..<n] = Some i" by blast
  then have P: "?P i" "i < n" by (auto simp: find_Some_iff)
  have "dst n i (d ! i) = 0" if "in_use (d ! i)"
  proof -
    have "opt (2 * n) (d ! i) = i" using P(1) that initial_bucket [OF tb(1)] tb(2) by (simp add: opt_def)
    then have "opt n (d ! i) = i" using opt_double [of n "d ! i"] P(2) by simp
    then show ?thesis using dst_offset [of 0 n "d ! i"] P(2) by simp
  qed
  with i P len show ?thesis by (simp add: grow_startelem_def start_bucket_def)
qed

lemma SH_GROW_spec:
  assumes tb: "sized tb" and max: "int (sh_size tb) \<noteq> SH_MAX_SIZE"
    and rh: "robin_hood (sh_size tb) (data tb)" and empty: "SH_EMPTY \<in> set (data tb)"
  obtains tb' where "SH_GROW tb (sh_size tb * 2) = Inr tb'" "sized tb'" "sh_size tb' = 2 * sh_size tb"
    "robin_hood (sh_size tb') (data tb')" "stored (data tb') = stored (data tb)" "members tb' = members tb"
    "grow_threshold tb' = threshold (sh_size tb')"
proof -
  let ?n = "sh_size tb"
  obtain k where k: "k \<le> 32" "1 \<le> k" "?n = 2 ^ k" and len: "length (data tb) = ?n" using sizedE [OF tb] by metis
  have "k \<noteq> 32" using max k(3) by (intro notI) (simp add: SH_MAX_SIZE_def)
  with k have k1: "Suc k \<le> 32" "1 \<le> Suc k" by simp_all
  define tb0 where "tb0 = tb\<lparr>sh_size := 2 ^ Suc k, sizemask := of_nat (2 ^ Suc k - 1), grow_threshold := threshold (2 ^ Suc k)\<rparr>"
  have n2: "?n * 2 = 2 ^ Suc k" "2 ^ Suc k = 2 * ?n" using k(3) by simp_all
  define tb1 where "tb1 = tb0\<lparr>data := replicate (2 * ?n) SH_EMPTY\<rparr>"
  have tb1: "sized tb1" "sh_size tb1 = 2 * ?n" using k1 n2 by (auto simp: sized_def tb1_def tb0_def intro!: exI [of _ "Suc k"])
  have same: "SH_INITIAL_BUCKET tb0 = SH_INITIAL_BUCKET tb1" "SH_NEXT tb0 = SH_NEXT tb1" "sh_size tb0 = sh_size tb1"
    by (auto simp: SH_INITIAL_BUCKET_def SH_NEXT_def tb1_def)
  have "grow_find_empty tb0 T f i = grow_find_empty tb1 T f i" for T f i
    by (induction f arbitrary: i) (simp_all add: same)
  then have copy: "grow_copy tb0 d i c T = grow_copy tb1 d i c T" for d i c T
    by (induction i arbitrary: c T) (auto simp: same Let_def intro: rbind_cong)
  have start: "grow_startelem tb0 d = grow_startelem tb1 d" for d by (simp add: grow_startelem_def same)
  let ?s = "grow_startelem tb1 (data tb)"
  have s: "start_bucket ?n (data tb) ?s" by (rule grow_startelem_bucket [OF tb1 len empty])
  have n0: "0 < ?n" "(?s + 0) mod ?n = ?s" using s by (simp_all add: start_bucket_def)
  have "\<exists>T'. grow_copy tb1 (data tb) ?n ((?s + 0) mod ?n) (replicate (2 * ?n) SH_EMPTY) = Inr T' \<and>
      copied ?n (data tb) ?s ?n T' \<and> stored T' = mset (filter in_use (map (ent ?n (data tb) ?s) [0..<?n]))"
    by (rule grow_copy_spec [OF rh s tb1 len copied_init [OF n0(1)]]) (simp_all add: stored_def)
  then obtain T where T: "grow_copy tb1 (data tb) ?n ?s (replicate (2 * ?n) SH_EMPTY) = Inr T"
    "copied ?n (data tb) ?s ?n T" "stored T = mset (filter in_use (rotate ?s (data tb)))"
    using ent_rotate [OF len n0(1)] n0(2) by auto
  show thesis
  proof
    show "SH_GROW tb (?n * 2) = Inr (tb0\<lparr>data := T\<rparr>)"
    proof -
      have "SH_GROW tb (?n * 2) = rbind (grow_copy tb0 (data tb) ?n (grow_startelem tb0 (data tb)) (replicate (2 ^ Suc k) SH_EMPTY))
          (\<lambda>newdata. Inr (tb0\<lparr>data := newdata\<rparr>))"
        by (simp only: SH_GROW_def n2(1) compute_size_exp [OF k1(2,1)] rbind_simps update_parameters_exp [OF k1(2,1)]
          tb0_def [symmetric])
      also have "\<dots> = Inr (tb0\<lparr>data := T\<rparr>)" by (simp only: copy start n2(2) T(1) rbind_simps)
      finally show ?thesis .
    qed
    show "sized (tb0\<lparr>data := T\<rparr>)" using T(2) k1 n2 by (auto simp: sized_def tb0_def copied_def intro!: exI [of _ "Suc k"])
    show "sh_size (tb0\<lparr>data := T\<rparr>) = 2 * ?n" "grow_threshold (tb0\<lparr>data := T\<rparr>) = threshold (sh_size (tb0\<lparr>data := T\<rparr>))"
      "members (tb0\<lparr>data := T\<rparr>) = members tb" using n2 by (simp_all add: tb0_def)
    show "robin_hood (sh_size (tb0\<lparr>data := T\<rparr>)) (data (tb0\<lparr>data := T\<rparr>))" using T(2) n2 by (simp add: copied_def tb0_def)
    show "stored (data (tb0\<lparr>data := T\<rparr>)) = stored (data tb)" using T(3) by (simp add: stored_def mset_filter mset_rotated)
  qed
qed

end
