(* ===== verification/Hash_Map.thy ===== *)
theory Hash_Map
  imports Hash_Growth
begin

text \<open>
  The hash table as a store of keys: \<open>table_inv\<close> is the invariant of a table at rest, and the locale
  \<open>key_laws\<close> collects what the table relies on, that key equality is an equivalence the hash respects.
  Under these laws lookup, insertion and deletion implement the interface \<open>key_store\<close>.
\<close>

section \<open>The invariant\<close>

definition keys :: "'k table \<Rightarrow> 'k multiset" where
  "keys tb = image_mset elem_key (stored (data tb))"

definition distinct_keys :: "('k \<Rightarrow> 'k \<Rightarrow> bool) \<Rightarrow> 'k multiset \<Rightarrow> bool" where
  "distinct_keys eq M \<longleftrightarrow> (\<forall>k \<in># M. size {#k' \<in># M. eq k' k#} = 1)"

definition table_core :: "('k \<Rightarrow> bool) \<Rightarrow> ('k \<Rightarrow> 'k \<Rightarrow> bool) \<Rightarrow> ('k \<Rightarrow> 32 word) \<Rightarrow> 'k table \<Rightarrow> bool" where
  "table_core valid eq hk tb \<longleftrightarrow> sized tb \<and> robin_hood (sh_size tb) (data tb) \<and> members tb = size (keys tb) \<and>
     members tb < sh_size tb \<and> (\<forall>e \<in># stored (data tb). valid (elem_key e) \<and> elem_hash e = hk (elem_key e)) \<and>
     distinct_keys eq (keys tb)"

definition table_inv :: "('k \<Rightarrow> bool) \<Rightarrow> ('k \<Rightarrow> 'k \<Rightarrow> bool) \<Rightarrow> ('k \<Rightarrow> 32 word) \<Rightarrow> 'k table \<Rightarrow> bool" where
  "table_inv valid eq hk tb \<longleftrightarrow> table_core valid eq hk tb \<and> grow_threshold tb = threshold (sh_size tb) \<and>
     members tb \<le> grow_threshold tb"

lemma threshold_less: "2 \<le> n \<Longrightarrow> threshold n < n"
  by (auto simp: threshold_def)

lemma threshold_double: "2 \<le> n \<Longrightarrow> n \<le> threshold (2 * n)"
  by (auto simp: threshold_def)

lemma threshold_tenth: "2 \<le> n \<Longrightarrow> n \<le> threshold n * 10"
  by (auto simp: threshold_def)

lemma in_stored: "e \<in># stored d \<longleftrightarrow> e \<in> set d \<and> in_use e"
  by (auto simp: stored_def)

lemma size_stored: "size (stored d) \<le> length d"
  using size_filter_mset_lesseq [of in_use "mset d"] by (simp add: stored_def)

lemma empty_bucket:
  assumes "size (stored d) < length d" shows "SH_EMPTY \<in> set d"
proof (rule ccontr)
  assume "SH_EMPTY \<notin> set d"
  then have "\<forall>e \<in># mset d. in_use e" using not_in_use by fastforce
  then have "stored d = mset d" by (simp add: stored_def filter_mset_eq_conv)
  with assms show False by simp
qed

lemma core_facts:
  assumes "table_core valid eq hk tb"
  shows "sized tb" "robin_hood (sh_size tb) (data tb)" "SH_EMPTY \<in> set (data tb)" "2 \<le> sh_size tb"
    "length (data tb) = sh_size tb" "SH_INITIAL_BUCKET tb h < sh_size tb"
  using assms empty_bucket [of "data tb"] size_pos [of tb] initial_bucket [of tb h]
  by (auto simp: table_core_def keys_def sized_def)

lemma create_16:
  "SH_CREATE 16 = Inr \<lparr>sh_size = 32, members = 0, sizemask = 31, grow_threshold = 28, data = replicate 32 SH_EMPTY\<rparr>"
proof -
  have "pg_nextpower2_64 17 = 32" "pg_nextpower2_64 32 = 32" by code_simp+
  then show ?thesis
    by (simp add: SH_CREATE_def SH_UPDATE_PARAMETERS_def SH_COMPUTE_SIZE_def SH_MAX_SIZE_def)
qed

lemma create_inv:
  assumes "SH_CREATE 16 = Inr tb" shows "table_inv valid eq hk tb" "keys tb = {#}"
proof -
  have tb: "tb = \<lparr>sh_size = 32, members = 0, sizemask = 31, grow_threshold = 28, data = replicate 32 SH_EMPTY\<rparr>"
    using assms [unfolded create_16] by (simp only: sum.inject)
  have "(32 :: nat) = 2 ^ 5" by simp
  then have "sized tb" unfolding sized_def tb by (intro conjI exI [of _ 5]) simp_all
  moreover have "stored (data tb) = {#}" by (simp add: tb stored_def)
  moreover have "robin_hood 32 (data tb)" by (simp add: tb robin_hood_def)
  ultimately show "table_inv valid eq hk tb" "keys tb = {#}"
    by (simp_all add: table_inv_def table_core_def keys_def distinct_keys_def tb threshold_def SH_MAX_SIZE_def)
qed

section \<open>Key equality\<close>

locale key_laws =
  fixes valid :: "'k \<Rightarrow> bool" and eq :: "'k \<Rightarrow> 'k \<Rightarrow> bool" and hk :: "'k \<Rightarrow> 32 word"
  assumes eq_refl: "valid a \<Longrightarrow> eq a a"
    and eq_sym: "valid a \<Longrightarrow> valid b \<Longrightarrow> eq a b \<Longrightarrow> eq b a"
    and eq_trans: "valid a \<Longrightarrow> valid b \<Longrightarrow> valid c \<Longrightarrow> eq a b \<Longrightarrow> eq b c \<Longrightarrow> eq a c"
    and eq_hash: "valid a \<Longrightarrow> valid b \<Longrightarrow> eq a b \<Longrightarrow> hk a = hk b"
begin

lemma distinct_add:
  assumes "distinct_keys eq M" "\<And>k. k \<in># M \<Longrightarrow> valid k \<and> \<not> eq k key" "valid key"
  shows "distinct_keys eq (add_mset key M)"
  unfolding distinct_keys_def
proof
  fix k assume k: "k \<in># add_mset key M"
  show "size {#k' \<in># add_mset key M. eq k' k#} = 1"
  proof (cases "k \<in># M")
    case True
    then have "\<not> eq key k" using assms eq_sym by blast
    with True assms(1) show ?thesis by (simp add: distinct_keys_def)
  next
    case False
    with k have "k = key" by simp
    moreover have "{#k' \<in># M. eq k' key#} = {#}" using assms(2) by (auto simp: filter_mset_eq_conv)
    ultimately show ?thesis using eq_refl [OF assms(3)] by simp
  qed
qed

lemma distinct_diff:
  assumes "distinct_keys eq M" "\<And>k. k \<in># M \<Longrightarrow> valid k" shows "distinct_keys eq (M - N)"
  unfolding distinct_keys_def
proof
  fix k assume k: "k \<in># M - N"
  then have "k \<in># M" by (rule in_diffD)
  have "{#k' \<in># M - N. eq k' k#} \<subseteq># {#k' \<in># M. eq k' k#}" by (intro multiset_filter_mono diff_subset_eq_self)
  then have "size {#k' \<in># M - N. eq k' k#} \<le> 1"
    using assms(1) \<open>k \<in># M\<close> by (metis distinct_keys_def size_mset_mono)
  moreover have "k \<in># {#k' \<in># M - N. eq k' k#}" using k eq_refl assms(2) \<open>k \<in># M\<close> by (simp del: filter_diff_mset)
  then have "0 < size {#k' \<in># M - N. eq k' k#}" by (metis nonempty_has_size empty_iff set_mset_empty)
  ultimately show "size {#k' \<in># M - N. eq k' k#} = 1" by simp
qed

lemma distinct_unique:
  assumes "distinct_keys eq M" "\<And>k. k \<in># M \<Longrightarrow> valid k" "a \<in># M" "b \<in># M - {#a#}" shows "\<not> eq b a"
proof
  assume "eq b a"
  then have "b \<in># {#k' \<in># M - {#a#}. eq k' a#}" using assms(4) by (simp del: filter_diff_mset)
  moreover have "{#k' \<in># M. eq k' a#} = add_mset a {#k' \<in># M - {#a#}. eq k' a#}"
    using eq_refl [OF assms(2) [OF assms(3)]] assms(3) by (metis (mono_tags) filter_mset_add_mset insert_DiffM)
  moreover have "size {#k' \<in># M. eq k' a#} = 1" using assms(1,3) by (auto simp: distinct_keys_def)
  ultimately show False by (metis One_nat_def empty_iff nat.inject set_mset_empty size_add_mset size_eq_0_iff_empty)
qed

lemma stored_bucket:
  assumes core: "table_core valid eq hk tb" and sc: "scanned tb s z" and s: "s = SH_INITIAL_BUCKET tb (hk key)"
    and "valid key" and e: "e \<in># stored (data tb)" "eq (elem_key e) key"
  obtains t where "t < z" "bucket tb s t = e" "SH_COMPARE_KEYS eq (hk key) key e"
    "\<And>j. j \<le> t \<Longrightarrow> j \<le> dst (sh_size tb) ((s + j) mod sh_size tb) (bucket tb s j)"
proof -
  let ?n = "sh_size tb"
  note tb = core_facts [OF core]
  obtain i where i: "i < ?n" "data tb ! i = e" "in_use e" using e(1) tb(5) by (auto simp: in_stored in_set_conv_nth)
  have e': "valid (elem_key e)" "elem_hash e = hk (elem_key e)" using core e(1) by (auto simp: table_core_def)
  then have h: "elem_hash e = hk key" using eq_hash [OF _ \<open>valid key\<close> e(2)] by simp
  then have opt: "opt ?n e = s" using s initial_bucket [OF tb(1)] by (simp add: opt_def)
  let ?t = "dst ?n i e"
  have pos: "(s + ?t) mod ?n = i" using dst_position [OF i(1), of e] opt by simp
  have path: "in_use (bucket tb s j) \<and> j \<le> dst ?n ((s + j) mod ?n) (bucket tb s j)" if "j \<le> ?t" for j
    using probe_path [OF tb(2) i(1), of j] i that opt by (simp add: bucket_def)
  have "?t < z" using path [of z] scannedD(3) [OF sc] by (cases "?t < z") simp_all
  moreover have "bucket tb s ?t = e" using pos i by (simp add: bucket_def)
  moreover have "SH_COMPARE_KEYS eq (hk key) key e" using h e(2) by (simp add: SH_COMPARE_KEYS_def)
  ultimately show thesis using that path by blast
qed

lemma bucket_stored:
  assumes core: "table_core valid eq hk tb" and sc: "scanned tb s z" and t: "t < z" "SH_COMPARE_KEYS eq h key (bucket tb s t)"
  shows "bucket tb s t \<in># stored (data tb)" "eq (elem_key (bucket tb s t)) key"
proof -
  have "(s + t) mod sh_size tb < length (data tb)" using core_facts [OF core] by simp
  then show "bucket tb s t \<in># stored (data tb)" using scannedD(4) [OF sc t(1)] by (simp add: in_stored bucket_def)
  show "eq (elem_key (bucket tb s t)) key" using t(2) by (simp add: SH_COMPARE_KEYS_def)
qed

lemma lookup_spec:
  assumes core: "table_core valid eq hk tb" and key: "valid key"
  obtains (some) i where "SH_LOOKUP_HASH eq tb key (hk key) = Inr (Some i)" "data tb ! i \<in># stored (data tb)"
      "eq (elem_key (data tb ! i)) key"
  | (none) "SH_LOOKUP_HASH eq tb key (hk key) = Inr None" "\<And>k. k \<in># keys tb \<Longrightarrow> \<not> eq k key"
proof -
  let ?s = "SH_INITIAL_BUCKET tb (hk key)" and ?n = "sh_size tb"
  note tb = core_facts [OF core]
  obtain z where sc: "scanned tb ?s z" using scanned_exists [OF tb(1,3,6)] by blast
  let ?P = "\<lambda>t. SH_COMPARE_KEYS eq (hk key) key (bucket tb ?s t)"
  have look: "SH_LOOKUP_HASH eq tb key (hk key) = Inr (map_option (\<lambda>t. (?s + t) mod ?n) (find ?P [0..<z]))"
    using lookup_loop_find [OF sc le0, of ?n eq key "hk key"] scannedD(2) [OF sc] tb(6) [of "hk key"] by (simp add: SH_LOOKUP_HASH_def)
  show thesis
  proof (cases "find ?P [0..<z]")
    case None
    then have no: "\<not> ?P t" if "t < z" for t using that by (auto simp: find_None_iff)
    have "\<not> eq k key" if k: "k \<in># keys tb" for k
    proof
      assume "eq k key"
      with k obtain e where "e \<in># stored (data tb)" "eq (elem_key e) key" by (auto simp: keys_def)
      with stored_bucket [OF core sc refl key] no show False by metis
    qed
    with None look show thesis by (intro none) simp_all
  next
    case (Some t)
    then have "?P t" "t < z" by (auto simp: find_Some_iff)
    with bucket_stored [OF core sc] Some look show thesis by (intro some [of "(?s + t) mod ?n"]) (simp_all add: bucket_def)
  qed
qed

lemma delete_core:
  assumes core: "table_core valid eq hk tb" and e: "e \<in># stored (data tb)"
    and d': "robin_hood (sh_size tb) d'" "length d' = sh_size tb" "stored d' = stored (data tb) - {#e#}"
  shows "table_core valid eq hk (tb\<lparr>members := members tb - 1, data := d'\<rparr>)"
    "keys (tb\<lparr>members := members tb - 1, data := d'\<rparr>) = keys tb - {#elem_key e#}"
proof -
  let ?tb = "tb\<lparr>members := members tb - 1, data := d'\<rparr>"
  show k: "keys ?tb = keys tb - {#elem_key e#}" using d'(3) e by (simp add: keys_def image_mset_Diff)
  have m: "members tb = size (keys tb)" "elem_key e \<in># keys tb" using core e by (auto simp: table_core_def keys_def)
  then have "members tb - 1 = size (keys ?tb)" unfolding k by (simp add: size_Diff_singleton)
  moreover have "\<And>k. k \<in># keys tb \<Longrightarrow> valid k" using core by (auto simp: table_core_def keys_def)
  then have "distinct_keys eq (keys ?tb)" unfolding k using distinct_diff core by (simp add: table_core_def)
  moreover have "valid (elem_key x) \<and> elem_hash x = hk (elem_key x)" if "x \<in># stored d'" for x
    using core that d'(3) by (auto simp: table_core_def dest: in_diffD)
  ultimately show "table_core valid eq hk ?tb"
    using core d' by (auto simp: table_core_def sized_def)
qed

lemma delete_spec:
  assumes inv: "table_inv valid eq hk tb" and key: "valid key"
  obtains (some) tb' k where "SH_DELETE eq hk tb key = Inr (tb', True)" "k \<in># keys tb" "eq k key"
      "keys tb' = keys tb - {#k#}" "table_inv valid eq hk tb'"
  | (none) "SH_DELETE eq hk tb key = Inr (tb, False)" "\<And>k. k \<in># keys tb \<Longrightarrow> \<not> eq k key"
proof -
  let ?s = "SH_INITIAL_BUCKET tb (hk key)" and ?n = "sh_size tb"
  have core: "table_core valid eq hk tb" using inv by (simp add: table_inv_def)
  note tb = core_facts [OF core]
  obtain z where sc: "scanned tb ?s z" using scanned_exists [OF tb(1,3,6)] by blast
  let ?P = "\<lambda>t. SH_COMPARE_KEYS eq (hk key) key (bucket tb ?s t)"
  note del = delete_loop_find [OF sc le0, of ?n eq key "hk key"]
  show thesis
  proof (cases "find ?P [0..<z]")
    case None
    then have no: "\<not> ?P t" if "t < z" for t using that by (auto simp: find_None_iff)
    have "\<not> eq k key" if k: "k \<in># keys tb" for k
    proof
      assume "eq k key"
      with k obtain e where "e \<in># stored (data tb)" "eq (elem_key e) key" by (auto simp: keys_def)
      with stored_bucket [OF core sc refl key] no show False by metis
    qed
    moreover have "SH_DELETE eq hk tb key = Inr (tb, False)"
      using del None scannedD(2) [OF sc] tb(6) [of "hk key"] by (simp add: SH_DELETE_def)
    ultimately show thesis by (intro none)
  next
    case (Some t)
    then have t: "?P t" "t < z" by (auto simp: find_Some_iff)
    let ?i = "(?s + t) mod ?n"
    let ?e = "data tb ! ?i"
    have e: "?e \<in># stored (data tb)" "eq (elem_key ?e) key" using bucket_stored [OF core sc t(2,1)] by (simp_all add: bucket_def)
    have "?i < ?n" using tb by simp
    obtain y where y: "y < ?n" "data tb ! ((?i + y) mod ?n) = SH_EMPTY" using first_empty [OF tb(3,5) \<open>?i < ?n\<close>] by metis
    then have "y \<noteq> 0" using e(1) \<open>?i < ?n\<close> by (intro notI) (simp add: in_stored)
    let ?Q = "\<lambda>m. in_use (data tb ! ((?i + Suc m) mod ?n)) \<longrightarrow> dst ?n ((?i + Suc m) mod ?n) (data tb ! ((?i + Suc m) mod ?n)) = 0"
    have Qy: "?Q (y - 1)" using y(2) \<open>y \<noteq> 0\<close> by simp
    define m where "m = (LEAST m. ?Q m)"
    have m: "?Q m" "m \<le> y - 1" unfolding m_def using Qy by (fact LeastI, fact Least_le)
    then have "Suc m < ?n" "m < ?n" using y(1) \<open>y \<noteq> 0\<close> by simp_all
    have before: "in_use (data tb ! ((?i + Suc j) mod ?n)) \<and> 0 < dst ?n ((?i + Suc j) mod ?n) (data tb ! ((?i + Suc j) mod ?n))" if "j < m" for j
    proof -
      have "\<not> ?Q j" using not_less_Least [of j ?Q] that unfolding m_def by blast
      then show ?thesis by (simp del: add_Suc_right)
    qed
    have stop: "dst ?n ((?i + Suc m) mod ?n) (data tb ! ((?i + Suc m) mod ?n)) = 0" if "in_use (data tb ! ((?i + Suc m) mod ?n))"
      using m(1) that by blast
    obtain d' where d': "delete_shift tb ?n ?i ?i (data tb) = Inr d'" "moved_down ?n ?i m (data tb) d'" "length d' = ?n"
      "mset d' = mset ((data tb)[?i := SH_EMPTY])"
      using delete_shift_spec [OF tb(1) refl \<open>?i < ?n\<close> \<open>Suc m < ?n\<close> \<open>m < ?n\<close> tb(5) before stop] by blast
    have rh: "robin_hood ?n d'" by (rule backshift_robin_hood [OF tb(2) \<open>?i < ?n\<close> \<open>Suc m < ?n\<close> before stop d'(2)])
    have st: "stored d' = stored (data tb) - {#?e#}"
      using d'(4) e(1) \<open>?i < ?n\<close> tb(5) by (simp add: stored_def mset_update in_stored)
    let ?tb = "tb\<lparr>members := members tb - 1, data := d'\<rparr>"
    show thesis
    proof (rule some)
      show "SH_DELETE eq hk tb key = Inr (?tb, True)"
        using del Some scannedD(2) [OF sc] tb(6) [of "hk key"] d'(1) by (simp add: SH_DELETE_def)
      show "elem_key ?e \<in># keys tb" "eq (elem_key ?e) key" using e by (auto simp: keys_def)
      show "keys ?tb = keys tb - {#elem_key ?e#}" by (rule delete_core(2) [OF core e(1) rh d'(3) st])
      show "table_inv valid eq hk ?tb"
        using delete_core(1) [OF core e(1) rh d'(3) st] inv by (auto simp: table_inv_def)
    qed
  qed
qed

lemma place_core:
  assumes core: "table_core valid eq hk tb" and key: "valid key" "\<And>k. k \<in># keys tb \<Longrightarrow> \<not> eq k key"
    and room: "Suc (members tb) < sh_size tb" and d': "robin_hood (sh_size tb) d'" "length d' = sh_size tb"
      "mset d' = add_mset (SH_IN_USE (hk key) key) (mset (data tb) - {#SH_EMPTY#})"
  shows "table_core valid eq hk (tb\<lparr>members := members tb + 1, data := d'\<rparr>)"
    "keys (tb\<lparr>members := members tb + 1, data := d'\<rparr>) = add_mset key (keys tb)"
proof -
  let ?tb = "tb\<lparr>members := members tb + 1, data := d'\<rparr>"
  have st: "stored d' = add_mset (SH_IN_USE (hk key) key) (stored (data tb))"
    using d'(3) by (simp add: stored_def filter_diff_mset)
  then show k: "keys ?tb = add_mset key (keys tb)" by (simp add: keys_def)
  have "distinct_keys eq (keys ?tb)"
    unfolding k using core key by (intro distinct_add) (auto simp: table_core_def keys_def)
  with core room d' st k key(1) show "table_core valid eq hk ?tb" by (auto simp: table_core_def sized_def)
qed

lemma insert_loop_spec:
  assumes core: "table_core valid eq hk tb" and key: "valid key" and room: "Suc (members tb) < sh_size tb"
  obtains
    (found) i where "insert_loop eq tb key (hk key) (sh_size tb) (SH_INITIAL_BUCKET tb (hk key)) 0 = Inr (Found i)"
      "data tb ! i \<in># stored (data tb)" "eq (elem_key (data tb ! i)) key"
  | (placed) d' i where "insert_loop eq tb key (hk key) (sh_size tb) (SH_INITIAL_BUCKET tb (hk key)) 0 =
        Inr (Placed (tb\<lparr>members := members tb + 1, data := d'\<rparr>) i)" "\<And>k. k \<in># keys tb \<Longrightarrow> \<not> eq k key"
      "table_core valid eq hk (tb\<lparr>members := members tb + 1, data := d'\<rparr>)"
      "keys (tb\<lparr>members := members tb + 1, data := d'\<rparr>) = add_mset key (keys tb)" "d' ! i = SH_IN_USE (hk key) key"
  | (restart) "insert_loop eq tb key (hk key) (sh_size tb) (SH_INITIAL_BUCKET tb (hk key)) 0 = Inr Restart"
      "sh_size tb \<le> members tb * 10"
proof -
  let ?s = "SH_INITIAL_BUCKET tb (hk key)" and ?n = "sh_size tb"
  note tb = core_facts [OF core]
  obtain z where sc: "scanned tb ?s z" using scanned_exists [OF tb(1,3,6)] by blast
  have s0: "(?s + 0) mod ?n = ?s" using tb(6) [of "hk key"] by simp
  have z: "z - 0 < ?n" using scannedD(2) [OF sc] by simp
  show thesis
  proof (rule insert_loop_cases [OF sc tb(2) refl le0 z, where key = key and eq = eq], goal_cases)
    case 1
    then show ?case by simp
  next
    case (2 t)
    with bucket_stored [OF core sc] show ?case
      unfolding s0 by (intro found [of "(?s + t) mod ?n"]) (simp_all add: bucket_def)
  next
    case (3 t d')
    have fresh: "\<not> eq k key" if k: "k \<in># keys tb" for k
    proof
      assume "eq k key"
      with k obtain e where "e \<in># stored (data tb)" "eq (elem_key e) key" by (auto simp: keys_def)
      then obtain t0 where t0: "t0 < z" "SH_COMPARE_KEYS eq (hk key) key (bucket tb ?s t0)"
        "\<And>j. j \<le> t0 \<Longrightarrow> j \<le> dst ?n ((?s + j) mod ?n) (bucket tb ?s j)"
        using stored_bucket [OF core sc refl key] by metis
      then have "t < t0" using 3(2) [of t0] by (cases "t0 \<le> t") auto
      with t0(3) [of t] 3(3) t0(1) show False by simp
    qed
    note placed' = place_core [OF core key fresh room 3(6,5,8)]
    show ?case using 3 fresh placed' unfolding s0 by (intro placed [of d' "(?s + t) mod ?n"]) simp_all
  next
    case 4
    then show ?case unfolding s0 by (rule restart)
  qed
qed

lemma grow_core:
  assumes core: "table_core valid eq hk tb" and "int (sh_size tb) \<noteq> SH_MAX_SIZE"
  obtains tb' where "SH_GROW tb (sh_size tb * 2) = Inr tb'" "table_core valid eq hk tb'" "keys tb' = keys tb"
    "members tb' = members tb" "sh_size tb' = 2 * sh_size tb" "grow_threshold tb' = threshold (sh_size tb')"
    "Suc (members tb') < sh_size tb'" "Suc (members tb') \<le> grow_threshold tb'"
proof -
  note tb = core_facts [OF core]
  obtain tb' where tb': "SH_GROW tb (sh_size tb * 2) = Inr tb'" "sized tb'" "sh_size tb' = 2 * sh_size tb"
    "robin_hood (sh_size tb') (data tb')" "stored (data tb') = stored (data tb)" "members tb' = members tb"
    "grow_threshold tb' = threshold (sh_size tb')"
    using SH_GROW_spec [OF tb(1) assms(2) tb(2,3)] by blast
  have k: "keys tb' = keys tb" using tb'(5) by (simp add: keys_def)
  have m: "members tb < sh_size tb" using core by (simp add: table_core_def)
  have "table_core valid eq hk tb'" using core tb' k by (auto simp: table_core_def)
  moreover have "Suc (members tb') \<le> threshold (2 * sh_size tb)" using m tb'(6) threshold_double [OF tb(4)] by linarith
  ultimately show thesis using that tb' k m by auto
qed

lemma insert_internal_spec:
  assumes "table_core valid eq hk tb" and key: "valid key" and "sh_size tb = 2 ^ k"
    and "grow_threshold tb = threshold (sh_size tb) \<or> grow_threshold tb = 0 \<and> sh_size tb \<le> members tb * 10"
    and "(if members tb \<ge> grow_threshold tb then 33 else 34) \<le> fuel + k"
  obtains
    (found) tb' i where "SH_INSERT_HASH_INTERNAL fuel eq tb key (hk key) = Inr (tb', i, True)"
      "table_inv valid eq hk tb'" "keys tb' = keys tb" "\<exists>k. k \<in># keys tb \<and> eq k key"
  | (placed) tb' i where "SH_INSERT_HASH_INTERNAL fuel eq tb key (hk key) = Inr (tb', i, False)"
      "table_inv valid eq hk tb'" "keys tb' = add_mset key (keys tb)" "data tb' ! i = SH_IN_USE (hk key) key"
      "\<And>k. k \<in># keys tb \<Longrightarrow> \<not> eq k key"
  | (full) "SH_INSERT_HASH_INTERNAL fuel eq tb key (hk key) = Inl (elog_error ''hash table size exceeded'')"
      "SH_MAX_SIZE \<le> int (members tb) * 10"
  using assms
proof (induction fuel arbitrary: tb k thesis)
  case 0
  obtain k' where "k' \<le> 32" "sh_size tb = 2 ^ k'" using core_facts(1) [OF "0.prems"(4)] by (auto elim: sizedE)
  with "0.prems"(6,8) have "k \<le> 32" by simp
  with "0.prems"(8) show ?case by (simp split: if_splits)
next
  case (Suc f)
  have k32: "k \<le> 32"
  proof -
    obtain k' where "k' \<le> 32" "sh_size tb = 2 ^ k'" using core_facts(1) [OF Suc.prems(4)] by (auto elim: sizedE)
    with Suc.prems(6) show ?thesis by simp
  qed
  txt \<open>The rest of an iteration, on the table after the growth check.\<close>
  have iterate: thesis
    if tb1: "table_core valid eq hk tb1" "keys tb1 = keys tb" "members tb1 = members tb" "sh_size tb1 = 2 ^ k1"
      "grow_threshold tb1 = threshold (sh_size tb1)" "Suc (members tb1) < sh_size tb1" "Suc (members tb1) \<le> grow_threshold tb1"
      "33 \<le> f + k1"
      and step: "SH_INSERT_HASH_INTERNAL (Suc f) eq tb key (hk key) =
        rbind (insert_loop eq tb1 key (hk key) (sh_size tb1) (SH_INITIAL_BUCKET tb1 (hk key)) 0) (\<lambda>r.
          case r of Found i \<Rightarrow> Inr (tb1, i, True) | Placed tb' i \<Rightarrow> Inr (tb', i, False)
          | Restart \<Rightarrow> SH_INSERT_HASH_INTERNAL f eq (tb1\<lparr>grow_threshold := 0\<rparr>) key (hk key))" for tb1 k1
  proof (rule insert_loop_spec [OF tb1(1) key tb1(6)], goal_cases)
    case (1 i)
    have "elem_key (data tb1 ! i) \<in># keys tb1" using 1(2) by (auto simp: keys_def)
    then have "\<exists>k. k \<in># keys tb \<and> eq k key" using 1(3) tb1(2) by auto
    moreover have "table_inv valid eq hk tb1" using tb1 by (simp add: table_inv_def)
    ultimately show thesis using 1(1) step tb1(2) by (intro Suc.prems(1) [of tb1 i]) simp_all
  next
    case (2 d' i)
    let ?tb = "tb1\<lparr>members := members tb1 + 1, data := d'\<rparr>"
    have "table_inv valid eq hk ?tb" using tb1 2(3) by (simp add: table_inv_def)
    then show thesis using 2 step tb1(2) by (intro Suc.prems(2) [of ?tb i]) simp_all
  next
    case 3
    let ?tb = "tb1\<lparr>grow_threshold := 0\<rparr>"
    have core: "table_core valid eq hk ?tb" and k: "keys ?tb = keys tb1"
      using tb1(1) by (simp_all add: table_core_def sized_def keys_def)
    have rec: "SH_INSERT_HASH_INTERNAL (Suc f) eq tb key (hk key) = SH_INSERT_HASH_INTERNAL f eq ?tb key (hk key)"
      unfolding step 3(1) by simp
    show thesis
    proof (rule Suc.IH [where tb = ?tb and k = k1], goal_cases)
      case (1 tb' i)
      then show thesis using rec k tb1(2) by (intro Suc.prems(1) [of tb' i]) simp_all
    next
      case (2 tb' i)
      then show thesis using rec k tb1(2) by (intro Suc.prems(2) [of tb' i]) simp_all
    next
      case 3
      then show thesis using rec tb1(3) by (intro Suc.prems(3)) simp_all
    qed (use core key tb1 3(2) in simp_all)
  qed
  show ?case
  proof (cases "members tb \<ge> grow_threshold tb")
    case True
    show ?thesis
    proof (cases "int (sh_size tb) = SH_MAX_SIZE")
      case max: True
      have "sh_size tb \<le> members tb * 10"
        using Suc.prems(7) True threshold_tenth [OF core_facts(4) [OF Suc.prems(4)]] by auto
      then have "int (sh_size tb) \<le> int (members tb) * 10" by linarith
      moreover have "SH_INSERT_HASH_INTERNAL (Suc f) eq tb key (hk key) = Inl (elog_error ''hash table size exceeded'')"
        using True max by simp
      ultimately show ?thesis using max by (intro Suc.prems(3)) simp_all
    next
      case False
      obtain tb1 where tb1: "SH_GROW tb (sh_size tb * 2) = Inr tb1" "table_core valid eq hk tb1" "keys tb1 = keys tb"
        "members tb1 = members tb" "sh_size tb1 = 2 * sh_size tb" "grow_threshold tb1 = threshold (sh_size tb1)"
        "Suc (members tb1) < sh_size tb1" "Suc (members tb1) \<le> grow_threshold tb1"
        using grow_core [OF Suc.prems(4) False] by blast
      show ?thesis
        by (rule iterate [of tb1 "Suc k"]) (use tb1 Suc.prems(6,8) True False in simp_all)
    qed
  next
    case False
    then have th: "grow_threshold tb = threshold (sh_size tb)" using Suc.prems(7) by auto
    have "threshold (sh_size tb) < sh_size tb" by (rule threshold_less [OF core_facts(4) [OF Suc.prems(4)]])
    show ?thesis
      by (rule iterate [of tb k]) (use False th \<open>threshold (sh_size tb) < sh_size tb\<close> Suc.prems(4,6,8) in simp_all)
  qed
qed

end

section \<open>The interface\<close>

text \<open>The operations as the clients use them: with the hash of the key, and giving the stored key.\<close>

definition lookup_key :: "('k \<Rightarrow> 'k \<Rightarrow> bool) \<Rightarrow> ('k \<Rightarrow> 32 word) \<Rightarrow> 'k table \<Rightarrow> 'k \<Rightarrow> 'k option result" where
  "lookup_key eq hk tb key = rmap (map_option (\<lambda>i. elem_key (data tb ! i))) (SH_LOOKUP_HASH eq tb key (hk key))"

definition insert_key :: "('k \<Rightarrow> 'k \<Rightarrow> bool) \<Rightarrow> ('k \<Rightarrow> 32 word) \<Rightarrow> 'k table \<Rightarrow> 'k \<Rightarrow> 'k table result" where
  "insert_key eq hk tb key = rmap fst (SH_INSERT_HASH eq tb key (hk key))"

definition delete_key :: "('k \<Rightarrow> 'k \<Rightarrow> bool) \<Rightarrow> ('k \<Rightarrow> 32 word) \<Rightarrow> 'k table \<Rightarrow> 'k \<Rightarrow> 'k table result" where
  "delete_key eq hk tb key = rmap fst (SH_DELETE eq hk tb key)"

definition too_many_keys :: "nat \<Rightarrow> bool" where
  "too_many_keys n \<longleftrightarrow> SH_MAX_SIZE \<le> int n * 10"

locale key_store =
  fixes valid :: "'k \<Rightarrow> bool" and eq :: "'k \<Rightarrow> 'k \<Rightarrow> bool" and inv :: "'t \<Rightarrow> bool" and held :: "'t \<Rightarrow> 'k multiset"
    and lookup :: "'t \<Rightarrow> 'k \<Rightarrow> 'k option result" and insert :: "'t \<Rightarrow> 'k \<Rightarrow> 't result" and delete :: "'t \<Rightarrow> 'k \<Rightarrow> 't result"
  assumes held_valid: "inv t \<Longrightarrow> k \<in># held t \<Longrightarrow> valid k"
    and held_unique: "inv t \<Longrightarrow> k \<in># held t \<Longrightarrow> valid key \<Longrightarrow> eq k key \<Longrightarrow> {#k' \<in># held t. eq k' key#} = {#k#}"
    and lookup_cases: "inv t \<Longrightarrow> valid key \<Longrightarrow>
      (\<exists>k. lookup t key = Inr (Some k) \<and> k \<in># held t \<and> eq k key) \<or>
      (lookup t key = Inr None \<and> {#k' \<in># held t. eq k' key#} = {#})"
    and insert_held: "inv t \<Longrightarrow> k \<in># held t \<Longrightarrow> valid key \<Longrightarrow> eq k key \<Longrightarrow> \<not> too_many_keys (size (held t)) \<Longrightarrow>
      \<exists>t'. insert t key = Inr t' \<and> inv t' \<and> held t' = held t"
    and insert_fresh: "inv t \<Longrightarrow> valid key \<Longrightarrow> {#k' \<in># held t. eq k' key#} = {#} \<Longrightarrow> \<not> too_many_keys (size (held t)) \<Longrightarrow>
      \<exists>t'. insert t key = Inr t' \<and> inv t' \<and> held t' = add_mset key (held t)"
    and delete_filter: "inv t \<Longrightarrow> valid key \<Longrightarrow>
      \<exists>t'. delete t key = Inr t' \<and> inv t' \<and> held t' = {#k' \<in># held t. \<not> eq k' key#}"
begin

lemma lookup_held: "inv t \<Longrightarrow> k \<in># held t \<Longrightarrow> valid key \<Longrightarrow> eq k key \<Longrightarrow> lookup t key = Inr (Some k)"
  using lookup_cases [of t key] held_unique [of t k key] held_unique [of t _ key]
  by (metis (no_types, lifting) empty_not_add_mset single_eq_single)

lemma lookup_none: "inv t \<Longrightarrow> valid key \<Longrightarrow> {#k' \<in># held t. eq k' key#} = {#} \<Longrightarrow> lookup t key = Inr None"
  using lookup_cases [of t key] held_unique [of t _ key] by (metis (no_types, lifting) empty_not_add_mset)

text \<open>A store holding the keys of a list looks keys up like a search through the list.\<close>

lemma lookup_find:
  assumes "inv t" "valid key" "held t = mset ks" shows "lookup t key = Inr (find (\<lambda>k. eq k key) ks)"
proof (cases "find (\<lambda>k. eq k key) ks")
  case None
  then have "{#k' \<in># held t. eq k' key#} = {#}" using assms(3) by (auto simp: find_None_iff filter_mset_eq_conv)
  with lookup_none [OF assms(1,2)] None show ?thesis by simp
next
  case (Some k)
  then have "k \<in># held t" "eq k key" using assms(3) by (auto simp: find_Some_iff)
  with lookup_held [OF assms(1) _ assms(2)] Some show ?thesis by simp
qed

end

context key_laws
begin

lemma keys_valid: "table_inv valid eq hk tb \<Longrightarrow> k \<in># keys tb \<Longrightarrow> valid k"
  by (auto simp: table_inv_def table_core_def keys_def)

lemma keys_unique:
  assumes "table_inv valid eq hk tb" "k \<in># keys tb" "valid key" "eq k key"
  shows "{#k' \<in># keys tb. eq k' key#} = {#k#}"
proof -
  have v: "valid k'" if "k' \<in># keys tb" for k' using keys_valid [OF assms(1) that] .
  have "eq k' key \<longleftrightarrow> eq k' k" if "k' \<in># keys tb" for k'
    using eq_trans [OF v [OF that] assms(3) v [OF assms(2)] _ eq_sym [OF v [OF assms(2)] assms(3,4)]]
      eq_trans [OF v [OF that] v [OF assms(2)] assms(3) _ assms(4)] by blast
  then have "{#k' \<in># keys tb. eq k' key#} = {#k' \<in># keys tb. eq k' k#}" by (intro filter_mset_cong) simp_all
  moreover have "size {#k' \<in># keys tb. eq k' k#} = 1"
    using assms(1,2) by (auto simp: table_inv_def table_core_def distinct_keys_def)
  moreover have "k \<in># {#k' \<in># keys tb. eq k' k#}" using assms(2) eq_refl [OF v [OF assms(2)]] by simp
  ultimately show ?thesis by (metis size_1_singleton_mset set_mset_single singletonD One_nat_def)
qed

lemma no_match: "{#k' \<in># M. eq k' key#} = {#} \<longleftrightarrow> (\<forall>k \<in># M. \<not> eq k key)"
  by (auto simp: filter_mset_eq_conv)

lemma insert_inv:
  assumes inv: "table_inv valid eq hk tb" and key: "valid key" and room: "\<not> too_many_keys (size (keys tb))"
  obtains (held) tb' where "insert_key eq hk tb key = Inr tb'" "table_inv valid eq hk tb'" "keys tb' = keys tb"
      "\<exists>k. k \<in># keys tb \<and> eq k key"
  | (fresh) tb' where "insert_key eq hk tb key = Inr tb'" "table_inv valid eq hk tb'" "keys tb' = add_mset key (keys tb)"
      "\<And>k. k \<in># keys tb \<Longrightarrow> \<not> eq k key"
proof -
  have core: "table_core valid eq hk tb" "members tb = size (keys tb)" using inv by (auto simp: table_inv_def table_core_def)
  obtain k where k: "sh_size tb = 2 ^ k" using core_facts(1) [OF core(1)] by (auto elim: sizedE)
  have th: "grow_threshold tb = threshold (sh_size tb) \<or> grow_threshold tb = 0 \<and> sh_size tb \<le> members tb * 10"
    using inv by (simp add: table_inv_def)
  have fuel: "(if members tb \<ge> grow_threshold tb then 33 else 34) \<le> max_growths + k" by (simp add: max_growths_def)
  show thesis
  proof (rule insert_internal_spec [OF core(1) key k th fuel], goal_cases)
    case (1 tb' i)
    then show ?case by (intro held [of tb']) (simp_all add: insert_key_def SH_INSERT_HASH_def)
  next
    case (2 tb' i)
    then show ?case by (intro fresh [of tb']) (simp_all add: insert_key_def SH_INSERT_HASH_def)
  next
    case 3
    with room core(2) show ?case by (simp add: too_many_keys_def)
  qed
qed

end

sublocale key_laws \<subseteq> store: key_store valid eq "table_inv valid eq hk" keys "lookup_key eq hk" "insert_key eq hk" "delete_key eq hk"
proof (unfold_locales, goal_cases)
  case (1 t k)
  then show ?case by (rule keys_valid)
next
  case (2 t k key)
  then show ?case by (rule keys_unique)
next
  case (3 t key)
  have core: "table_core valid eq hk t" using 3(1) by (simp add: table_inv_def)
  show ?case
  proof (rule lookup_spec [OF core 3(2)], goal_cases)
    case (1 i)
    then show ?case by (intro disjI1 exI [of _ "elem_key (data t ! i)"]) (auto simp: lookup_key_def keys_def)
  next
    case 2
    then show ?case by (intro disjI2) (auto simp: lookup_key_def no_match)
  qed
next
  case (4 t k key)
  from 4(2,4) show ?case by (rule_tac insert_inv [OF 4(1,3,5)]) blast+
next
  case (5 t key)
  from 5(3) show ?case unfolding no_match by (rule_tac insert_inv [OF 5(1,2,4)]) blast+
next
  case (6 t key)
  show ?case
  proof (rule delete_spec [OF 6], goal_cases)
    case (1 tb' k)
    have "{#k' \<in># keys t. eq k' key#} = {#k#}" by (rule keys_unique [OF 6(1) 1(2) 6(2) 1(3)])
    moreover have "keys t = {#k' \<in># keys t. eq k' key#} + {#k' \<in># keys t. \<not> eq k' key#}" by (rule multiset_partition)
    ultimately have "keys t - {#k#} = {#k' \<in># keys t. \<not> eq k' key#}" by (metis add_diff_cancel_left')
    with 1 show ?case by (auto simp: delete_key_def)
  next
    case 2
    then have "{#k' \<in># keys t. \<not> eq k' key#} = keys t" by (simp add: filter_mset_eq_conv)
    with 2 6 show ?case by (simp add: delete_key_def)
  qed
qed

section \<open>A table against a list of keys\<close>

datatype 'k table_op = Insert 'k | Delete 'k

fun run_op :: "('k \<Rightarrow> 'k \<Rightarrow> bool) \<Rightarrow> ('k \<Rightarrow> 32 word) \<Rightarrow> 'k table_op \<Rightarrow> 'k table \<Rightarrow> 'k table result" where
  "run_op eq hk (Insert k) tb = insert_key eq hk tb k"
| "run_op eq hk (Delete k) tb = delete_key eq hk tb k"

fun run_ops :: "('k \<Rightarrow> 'k \<Rightarrow> bool) \<Rightarrow> ('k \<Rightarrow> 32 word) \<Rightarrow> 'k table_op list \<Rightarrow> 'k table \<Rightarrow> 'k table result" where
  "run_ops eq hk [] tb = Inr tb"
| "run_ops eq hk (p # ps) tb = rbind (run_op eq hk p tb) (run_ops eq hk ps)"

fun list_op :: "('k \<Rightarrow> 'k \<Rightarrow> bool) \<Rightarrow> 'k table_op \<Rightarrow> 'k list \<Rightarrow> 'k list" where
  "list_op eq (Insert k) ks = (if list_ex (\<lambda>k'. eq k' k) ks then ks else k # ks)"
| "list_op eq (Delete k) ks = filter (\<lambda>k'. \<not> eq k' k) ks"

lemma length_list_op: "length (list_op eq p ks) \<le> Suc (length ks)"
  by (cases p) (simp_all add: le_SucI)

context key_laws
begin

lemma run_op_spec:
  assumes "table_inv valid eq hk tb" "keys tb = mset ks" "\<not> too_many_keys (length ks)"
    and "case p of Insert k \<Rightarrow> valid k | Delete k \<Rightarrow> valid k"
  shows "\<exists>tb'. run_op eq hk p tb = Inr tb' \<and> table_inv valid eq hk tb' \<and> keys tb' = mset (list_op eq p ks)"
proof (cases p)
  case (Insert k)
  have room: "\<not> too_many_keys (size (keys tb))" using assms(2,3) by simp
  show ?thesis
  proof (cases "list_ex (\<lambda>k'. eq k' k) ks")
    case True
    then obtain k' where "k' \<in># keys tb" "eq k' k" using assms(2) by (auto simp: list_ex_iff)
    with store.insert_held [OF assms(1) _ _ _ room] assms(2,4) Insert True show ?thesis by simp
  next
    case False
    then have "{#k' \<in># keys tb. eq k' k#} = {#}" using assms(2) by (auto simp: no_match list_ex_iff)
    with store.insert_fresh [OF assms(1) _ _ room] assms(2,4) Insert False show ?thesis by simp
  qed
next
  case (Delete k)
  with store.delete_filter [OF assms(1)] assms(2,4) show ?thesis by simp
qed

lemma run_ops_spec:
  assumes "table_inv valid eq hk tb" "keys tb = mset ks" "\<not> too_many_keys (length ks + length ps)"
    and "\<And>p. p \<in> set ps \<Longrightarrow> case p of Insert k \<Rightarrow> valid k | Delete k \<Rightarrow> valid k"
  shows "\<exists>tb'. run_ops eq hk ps tb = Inr tb' \<and> table_inv valid eq hk tb' \<and> keys tb' = mset (fold (list_op eq) ps ks)"
  using assms
proof (induction ps arbitrary: tb ks)
  case (Cons p ps)
  have "\<not> too_many_keys (length ks)" using Cons.prems(3) by (simp add: too_many_keys_def)
  with run_op_spec [OF Cons.prems(1,2)] Cons.prems(4) obtain tb' where
    tb': "run_op eq hk p tb = Inr tb'" "table_inv valid eq hk tb'" "keys tb' = mset (list_op eq p ks)" by force
  have "\<not> too_many_keys (length (list_op eq p ks) + length ps)"
    using Cons.prems(3) length_list_op [of eq p ks] by (simp add: too_many_keys_def)
  with Cons.IH [OF tb'(2,3)] Cons.prems(4) tb'(1) show ?case by simp
qed simp

lemma create_run_ops:
  assumes "\<not> too_many_keys (length ps)" and "\<And>p. p \<in> set ps \<Longrightarrow> case p of Insert k \<Rightarrow> valid k | Delete k \<Rightarrow> valid k"
  shows "\<exists>tb. rbind (SH_CREATE 16) (run_ops eq hk ps) = Inr tb \<and>
    (\<forall>key. valid key \<longrightarrow> lookup_key eq hk tb key = Inr (find (\<lambda>k. eq k key) (fold (list_op eq) ps [])))"
proof -
  obtain tb0 where tb0: "SH_CREATE 16 = Inr (tb0 :: 'k table)" using create_16 by blast
  obtain tb where "run_ops eq hk ps tb0 = Inr tb" "table_inv valid eq hk tb" "keys tb = mset (fold (list_op eq) ps [])"
    using run_ops_spec [of tb0 "[]" ps] create_inv [OF tb0] assms by auto
  with tb0 store.lookup_find show ?thesis by auto
qed

end

text \<open>C11: the hash table is a finite map. After any sequence of insertions and deletions, starting with an
  empty table, every lookup gives what a search through a list of the live keys gives: no key is
  lost when entries are displaced, shifted back or copied into a larger table, and no operation runs
  forever or fails, up to more than four hundred million operations.\<close>

theorem simplehash_refines_list:
  assumes "\<And>a. eq a a" "\<And>a b. eq a b \<Longrightarrow> eq b a" "\<And>a b c. eq a b \<Longrightarrow> eq b c \<Longrightarrow> eq a c" "\<And>a b. eq a b \<Longrightarrow> hk a = hk b"
    and "int (length ps) * 10 < SH_MAX_SIZE"
  shows "\<exists>tb. rbind (SH_CREATE 16) (run_ops eq hk ps) = Inr tb \<and>
    (\<forall>key. lookup_key eq hk tb key = Inr (find (\<lambda>k. eq k key) (fold (list_op eq) ps [])))"
proof -
  have laws: "key_laws (\<lambda>_. True) eq hk" using assms(1-4) by unfold_locales blast+
  have "\<not> too_many_keys (length ps)" using assms(5) by (simp add: too_many_keys_def)
  from key_laws.create_run_ops [OF laws this] show ?thesis by (auto split: table_op.splits)
qed

text \<open>Keys that collide: \<open>eq\<close> is equality modulo 7 and the hash has three values.\<close>

definition ex_key_eq :: "nat \<Rightarrow> nat \<Rightarrow> bool" where "ex_key_eq a b \<longleftrightarrow> a mod 7 = b mod 7"
definition ex_key_hash :: "nat \<Rightarrow> 32 word" where "ex_key_hash a = of_nat (a mod 7 mod 3)"
definition ex_ops :: "nat table_op list" where "ex_ops = [Insert 3, Insert 6, Insert 10, Insert 0, Delete 13, Insert 9]"

theorem simplehash_refines_list_witness:
  "\<exists>tb. rbind (SH_CREATE 16) (run_ops ex_key_eq ex_key_hash ex_ops) = Inr tb \<and>
    lookup_key ex_key_eq ex_key_hash tb 17 = Inr (Some 3) \<and> lookup_key ex_key_eq ex_key_hash tb 6 = Inr None"
proof -
  have "\<exists>tb. rbind (SH_CREATE 16) (run_ops ex_key_eq ex_key_hash ex_ops) = Inr tb \<and>
      (\<forall>key. lookup_key ex_key_eq ex_key_hash tb key = Inr (find (\<lambda>k. ex_key_eq k key) (fold (list_op ex_key_eq) ex_ops [])))"
    by (rule simplehash_refines_list) (simp_all add: ex_key_eq_def ex_key_hash_def ex_ops_def SH_MAX_SIZE_def)
  then show ?thesis by (auto simp: ex_ops_def ex_key_eq_def)
qed

end
