(* ===== verification/Hash_Bytes.thy ===== *)
theory Hash_Bytes
  imports Prelude
begin

text \<open>
  Bob Jenkins' hash as PostgreSQL uses it (\<open>hash_bytes\<close> in \<^verbatim>\<open>src/common/hashfn.c\<close>, \<open>hash_combine\<close> in
  \<^verbatim>\<open>src/include/common/hashfn.h\<close>), with the four code paths of the source: aligned or unaligned input,
  little or big endian. A key is the list of its bytes; \<open>load32\<close> is the load of a word-aligned
  \<open>uint32\<close>. The lambda cache hashes keys in tuples (any alignment) and compares them with hashes of
  aligned copies, so it depends on the paths agreeing.
\<close>

unbundle bit_operations_syntax

type_synonym bytes = "8 word list"

definition rot :: "32 word \<Rightarrow> nat \<Rightarrow> 32 word" where
  "rot x k = push_bit k x OR drop_bit (32 - k) x"

definition mix :: "32 word \<times> 32 word \<times> 32 word \<Rightarrow> 32 word \<times> 32 word \<times> 32 word" where
  "mix = (\<lambda>(a, b, c).
    let a = a - c; a = a XOR rot c 4; c = c + b;
        b = b - a; b = b XOR rot a 6; a = a + c;
        c = c - b; c = c XOR rot b 8; b = b + a;
        a = a - c; a = a XOR rot c 16; c = c + b;
        b = b - a; b = b XOR rot a 19; a = a + c;
        c = c - b; c = c XOR rot b 4; b = b + a
    in (a, b, c))"

definition final :: "32 word \<times> 32 word \<times> 32 word \<Rightarrow> 32 word" where
  "final = (\<lambda>(a, b, c).
    let c = c XOR b; c = c - rot b 14;
        a = a XOR c; a = a - rot c 11;
        b = b XOR a; b = b - rot a 25;
        c = c XOR b; c = c - rot b 16;
        a = a XOR c; a = a - rot c 4;
        b = b XOR a; b = b - rot a 14;
        c = c XOR b; c = c - rot b 24
    in c)"

text \<open>Byte \<open>i\<close> of the key as a \<open>uint32\<close>, and shifted into place.\<close>

definition byte :: "bytes \<Rightarrow> nat \<Rightarrow> 32 word" where "byte k i = ucast (k ! i)"
definition shifted :: "bytes \<Rightarrow> nat \<Rightarrow> nat \<Rightarrow> 32 word" where "shifted k i s = push_bit s (byte k i)"

text \<open>The load of the aligned word \<open>ka[j]\<close>: its four bytes, in the order of the machine.\<close>

definition load32 :: "bool \<Rightarrow> bytes \<Rightarrow> nat \<Rightarrow> 32 word" where
  "load32 bigendian k j =
    (let bs = take 4 (drop (4 * j) k) in word_rcat (if bigendian then bs else rev bs))"

section \<open>Aligned input\<close>

definition tail_aligned :: "bool \<Rightarrow> bytes \<Rightarrow> 32 word \<times> 32 word \<times> 32 word \<Rightarrow> 32 word \<times> 32 word \<times> 32 word" where
  "tail_aligned bigendian k = (\<lambda>(a, b, c).
    let len = length k;
        sh = (\<lambda>i le be. shifted k i (if bigendian then be else le));
        c = (if len \<ge> 11 then c + sh 10 24 8 else c);
        c = (if len \<ge> 10 then c + sh 9 16 16 else c);
        c = (if len \<ge> 9 then c + sh 8 8 24 else c)
    in if len \<ge> 8 then (a + load32 bigendian k 0, b + load32 bigendian k 1, c)
       else
         let b = (if len \<ge> 7 then b + sh 6 16 8 else b);
             b = (if len \<ge> 6 then b + sh 5 8 16 else b);
             b = (if len \<ge> 5 then b + sh 4 0 24 else b)
         in if len \<ge> 4 then (a + load32 bigendian k 0, b, c)
            else
              let a = (if len \<ge> 3 then a + sh 2 16 8 else a);
                  a = (if len \<ge> 2 then a + sh 1 8 16 else a);
                  a = (if len \<ge> 1 then a + sh 0 0 24 else a)
              in (a, b, c))"

fun loop_aligned :: "bool \<Rightarrow> bytes \<Rightarrow> 32 word \<times> 32 word \<times> 32 word \<Rightarrow> 32 word \<times> 32 word \<times> 32 word" where
  "loop_aligned bigendian k (a, b, c) =
    (if length k \<ge> 12 then
       loop_aligned bigendian (drop 12 k)
         (mix (a + load32 bigendian k 0, b + load32 bigendian k 1, c + load32 bigendian k 2))
     else tail_aligned bigendian k (a, b, c))"

section \<open>Unaligned input\<close>

definition word_of :: "bool \<Rightarrow> bytes \<Rightarrow> nat \<Rightarrow> 32 word" where
  "word_of bigendian k j =
    (if bigendian
     then byte k (4 * j + 3) + shifted k (4 * j + 2) 8 + shifted k (4 * j + 1) 16 + shifted k (4 * j) 24
     else byte k (4 * j) + shifted k (4 * j + 1) 8 + shifted k (4 * j + 2) 16 + shifted k (4 * j + 3) 24)"

definition tail_unaligned :: "bool \<Rightarrow> bytes \<Rightarrow> 32 word \<times> 32 word \<times> 32 word \<Rightarrow> 32 word \<times> 32 word \<times> 32 word" where
  "tail_unaligned bigendian k = (\<lambda>(a, b, c).
    let len = length k;
        sh = (\<lambda>i le be. shifted k i (if bigendian then be else le));
        c = (if len \<ge> 11 then c + sh 10 24 8 else c);
        c = (if len \<ge> 10 then c + sh 9 16 16 else c);
        c = (if len \<ge> 9 then c + sh 8 8 24 else c);
        b = (if len \<ge> 8 then b + sh 7 24 0 else b);
        b = (if len \<ge> 7 then b + sh 6 16 8 else b);
        b = (if len \<ge> 6 then b + sh 5 8 16 else b);
        b = (if len \<ge> 5 then b + sh 4 0 24 else b);
        a = (if len \<ge> 4 then a + sh 3 24 0 else a);
        a = (if len \<ge> 3 then a + sh 2 16 8 else a);
        a = (if len \<ge> 2 then a + sh 1 8 16 else a);
        a = (if len \<ge> 1 then a + sh 0 0 24 else a)
    in (a, b, c))"

fun loop_unaligned :: "bool \<Rightarrow> bytes \<Rightarrow> 32 word \<times> 32 word \<times> 32 word \<Rightarrow> 32 word \<times> 32 word \<times> 32 word" where
  "loop_unaligned bigendian k (a, b, c) =
    (if length k \<ge> 12 then
       loop_unaligned bigendian (drop 12 k)
         (mix (a + word_of bigendian k 0, b + word_of bigendian k 1, c + word_of bigendian k 2))
     else tail_unaligned bigendian k (a, b, c))"

declare loop_aligned.simps [simp del] loop_unaligned.simps [simp del]

definition hash_bytes :: "bool \<Rightarrow> bool \<Rightarrow> bytes \<Rightarrow> 32 word" where
  "hash_bytes bigendian aligned k =
    (let s = 0x9e3779b9 + of_nat (length k) + 3923095
     in final (if aligned then loop_aligned bigendian k (s, s, s) else loop_unaligned bigendian k (s, s, s)))"

definition hash_combine :: "32 word \<Rightarrow> 32 word \<Rightarrow> 32 word" where
  "hash_combine a b = a XOR (b + 0x9e3779b9 + push_bit 6 a + drop_bit 2 a)"

section \<open>The paths agree\<close>

lemma take4:
  assumes "j + 4 \<le> length k" shows "take 4 (drop j k) = [k ! j, k ! (j + 1), k ! (j + 2), k ! (j + 3)]"
  by (rule nth_equalityI) (use assms in \<open>auto simp: less_Suc_eq numeral_eq_Suc\<close>)

lemma load32_word_of:
  assumes "4 * j + 4 \<le> length k" shows "load32 bigendian k j = word_of bigendian k j"
proof -
  have "word_rcat [x3, x2, x1, x0 :: 8 word] =
      (ucast x0 + push_bit 8 (ucast x1) + push_bit 16 (ucast x2) + push_bit 24 (ucast x3) :: 32 word)" for x0 x1 x2 x3
    by (simp add: word_rcat_def push_bit_eq_mult algebra_simps unsigned_ucast_eq flip: word_of_int_uint)
  then show ?thesis
    using take4 [OF assms] by (simp add: load32_def word_of_def shifted_def byte_def Let_def add.commute)
qed

lemma tail_paths:
  assumes "length k < 12" shows "tail_aligned bigendian k s = tail_unaligned bigendian k s"
proof -
  obtain a b c where s: "s = (a, b, c)" by (cases s)
  consider "length k \<ge> 8" | "4 \<le> length k" "length k < 8" | "length k < 4" by linarith
  then show ?thesis
  proof cases
    case 1
    then have "load32 bigendian k 0 = word_of bigendian k 0" "load32 bigendian k 1 = word_of bigendian k 1"
      by (simp_all add: load32_word_of)
    with 1 show ?thesis
      by (simp add: s tail_aligned_def tail_unaligned_def Let_def word_of_def shifted_def ac_simps numeral_2_eq_2)
  next
    case 2
    then have "load32 bigendian k 0 = word_of bigendian k 0" by (simp add: load32_word_of)
    with 2 show ?thesis
      by (simp add: s tail_aligned_def tail_unaligned_def Let_def word_of_def shifted_def ac_simps numeral_2_eq_2)
  next
    case 3
    then show ?thesis by (simp add: s tail_aligned_def tail_unaligned_def Let_def)
  qed
qed

lemma loop_paths: "loop_aligned bigendian k s = loop_unaligned bigendian k s"
proof (induction bigendian k s rule: loop_aligned.induct)
  case (1 bigendian k a b c)
  show ?case
  proof (cases "length k \<ge> 12")
    case True
    with 1 [OF True] show ?thesis
      by (simp add: loop_aligned.simps [of _ k] loop_unaligned.simps [of _ k] load32_word_of)
  next
    case False
    then show ?thesis by (simp add: loop_aligned.simps [of _ k] loop_unaligned.simps [of _ k] tail_paths)
  qed
qed

section \<open>Mixing is reversible\<close>

definition mix_step :: "nat \<Rightarrow> 32 word \<times> 32 word \<times> 32 word \<Rightarrow> 32 word \<times> 32 word \<times> 32 word" where
  "mix_step r = (\<lambda>(a, b, c). (b, c + b, (a - c) XOR rot c r))"

lemma mix_steps: "mix = mix_step 4 \<circ> mix_step 19 \<circ> mix_step 16 \<circ> mix_step 8 \<circ> mix_step 6 \<circ> mix_step 4"
  by (simp add: fun_eq_iff mix_def mix_step_def Let_def)

lemma inj_mix_step: "inj (mix_step r)"
proof (rule injI)
  fix x y :: "32 word \<times> 32 word \<times> 32 word"
  assume "mix_step r x = mix_step r y"
  moreover obtain a b c where "x = (a, b, c)" by (cases x)
  moreover obtain a' b' c' where "y = (a', b', c')" by (cases y)
  ultimately have "b = b'" "c = c'" and x: "(a - c) XOR rot c r = (a' - c) XOR rot c r" by (auto simp: mix_step_def)
  from x have "((a - c) XOR rot c r) XOR rot c r = ((a' - c) XOR rot c r) XOR rot c r" by simp
  then have "a = a'" by (simp add: xor.assoc)
  with \<open>b = b'\<close> \<open>c = c'\<close> \<open>x = _\<close> \<open>y = _\<close> show "x = y" by simp
qed

text \<open>C13: a key hashes to the same value whatever its alignment in memory, on machines of either byte order,
  and the mixing of a block loses no information, as its comment says: distinct states stay distinct.\<close>

theorem hash_bytes_alignment:
  "hash_bytes bigendian True k = hash_bytes bigendian False k \<and> inj mix"
  unfolding mix_steps by (simp add: hash_bytes_def Let_def loop_paths inj_mix_step inj_compose)

end
