(* ===== verification/Lambda_Cache.thy ===== *)
theory Lambda_Cache
  imports Evaluator Hash_Map Hash_Bytes
begin

text \<open>
  The runtime cache of built lambda bodies, \<^verbatim>\<open>src/backend/utils/adt/lambda_cache.c\<close>. A call site keeps a
  hash table of entries, keyed by the raw bytes of the called lambda and of its lambda-typed
  arguments, and a list of the entries in the order of their use.

  The hash table and the list hold pointers to entries. The model keeps the entries in a store
  \<open>c_entries\<close> from addresses to entries, because comparing keys reads them and evicting an entry
  frees it: a dangling pointer would be an address without an entry. Building a body is
  \<open>lambda_cache_build\<close> of the evaluator; how a stored value is detoasted is an argument.
\<close>

section \<open>Values and keys\<close>

text \<open>
  A value as the executor holds it: passed by value, or the raw bytes of a varlena datum at an
  address that is word-aligned or not.
\<close>

datatype 'a sql_value = ByValue "'a Datum" | Varlena bool bytes

fun fetch :: "(bytes \<Rightarrow> 'a Datum) \<Rightarrow> 'a sql_value \<Rightarrow> 'a Datum" where
  "fetch detoast (ByValue d) = d"
| "fetch detoast (Varlena aligned bs) = detoast bs"

type_synonym key_part = "(bool \<times> bytes) option"

fun raw_part :: "'a sql_value option \<Rightarrow> key_part result" where
  "raw_part None = Inr None"
| "raw_part (Some (Varlena aligned bs)) = Inr (Some (aligned, bs))"
| "raw_part (Some (ByValue d)) = Inl Crash"

definition raw_key :: "key_part list \<Rightarrow> bytes option list" where
  "raw_key = map (map_option snd)"

fun part_equal :: "key_part \<Rightarrow> key_part \<Rightarrow> bool" where
  "part_equal None None = True"
| "part_equal (Some (_, va)) (Some (_, vb)) = (length va = length vb \<and> va = vb)"
| "part_equal _ _ = False"

definition lambda_cache_key_equal :: "key_part list \<Rightarrow> key_part list \<Rightarrow> bool" where
  "lambda_cache_key_equal a b = list_all (\<lambda>i. part_equal (a ! i) (b ! i)) [0..<length a]"

fun hash_part :: "bool \<Rightarrow> key_part \<Rightarrow> 32 word" where
  "hash_part bigendian None = 0"
| "hash_part bigendian (Some (aligned, bs)) = hash_bytes bigendian aligned bs"

definition lambda_cache_hash_key :: "bool \<Rightarrow> key_part list \<Rightarrow> 32 word" where
  "lambda_cache_hash_key bigendian parts = foldl (\<lambda>hash p. hash_combine hash (hash_part bigendian p)) 0 parts"

section \<open>The cache of a call site\<close>

datatype 'a ExprState = ExprState (es_tree: "'a Node") (es_compiled: bool)

record 'a LambdaCacheEntry =
  e_key :: "key_part list"
  e_hash :: "32 word"
  e_tree :: "'a Node"
  e_body :: "'a ExprState"
  e_jit_done :: bool
  e_uses :: "64 word"

datatype ptr = Probe | Entry nat

record 'a LambdaCache =
  c_table :: "ptr table"
  c_lru :: "nat list"
  c_nentries :: nat
  c_evictions :: "64 word"
  c_last :: "nat option"
  c_probe :: "key_part list \<times> 32 word"
  c_entries :: "nat \<Rightarrow> 'a LambdaCacheEntry option"
  c_next :: nat

record 'a CallLambdaExprState =
  cl_value :: "'a sql_value"
  cl_args :: "'a sql_value option list"
  cl_key_idx :: "nat list"

text \<open>
  The settings, and what the call site knows of its query: the byte order of the machine, and
  whether the query is JIT-compiled (\<open>None\<close> without a parent plan).
\<close>

record settings =
  s_hoisting :: bool
  s_cache_size :: int
  s_jit_after_uses :: int
  s_jit_perform :: "bool option"
  s_bigendian :: bool

definition deref_key :: "'a LambdaCache \<Rightarrow> ptr \<Rightarrow> key_part list" where
  "deref_key c p = (case p of Probe \<Rightarrow> fst (c_probe c) | Entry i \<Rightarrow> (case c_entries c i of None \<Rightarrow> [] | Some e \<Rightarrow> e_key e))"

definition deref_hash :: "'a LambdaCache \<Rightarrow> ptr \<Rightarrow> 32 word" where
  "deref_hash c p = (case p of Probe \<Rightarrow> snd (c_probe c) | Entry i \<Rightarrow> (case c_entries c i of None \<Rightarrow> 0 | Some e \<Rightarrow> e_hash e))"

definition ptr_equal :: "'a LambdaCache \<Rightarrow> ptr \<Rightarrow> ptr \<Rightarrow> bool" where
  "ptr_equal c a b = lambda_cache_key_equal (deref_key c a) (deref_key c b)"

definition lambda_cache_create :: "'a LambdaCache result" where
  "lambda_cache_create =
    rbind (SH_CREATE 16) (\<lambda>tb.
      Inr \<lparr>c_table = tb, c_lru = [], c_nentries = 0, c_evictions = 0, c_last = None, c_probe = ([], 0),
           c_entries = (\<lambda>_. None), c_next = 0\<rparr>)"

definition build_tree ::
  "'a prims \<Rightarrow> settings \<Rightarrow> nat \<Rightarrow> (bytes \<Rightarrow> 'a Datum) \<Rightarrow> 'a CallLambdaExprState \<Rightarrow> 'a Node result" where
  "build_tree P S fuel detoast cl =
    lambda_cache_build P (s_hoisting S) fuel (fetch detoast (cl_value cl)) (map (map_option (fetch detoast)) (cl_args cl))
      (cl_key_idx cl)"

definition lambda_cache_build_entry ::
  "'a prims \<Rightarrow> settings \<Rightarrow> nat \<Rightarrow> (bytes \<Rightarrow> 'a Datum) \<Rightarrow> 'a CallLambdaExprState \<Rightarrow> 'a LambdaCache \<Rightarrow> 'a LambdaCacheEntry result" where
  "lambda_cache_build_entry P S fuel detoast cl c =
    rbind (build_tree P S fuel detoast cl) (\<lambda>tree.
      let lazy = (s_jit_perform S \<noteq> None \<and> s_jit_after_uses S \<noteq> 0) in
      Inr \<lparr>e_key = map (map_option (\<lambda>(aligned, bs). (True, bs))) (fst (c_probe c)), e_hash = snd (c_probe c), e_tree = tree,
           e_body = ExprState tree (if lazy then False else s_jit_perform S = Some True), e_jit_done = (\<not> lazy), e_uses = 0\<rparr>)"

definition drop_entry :: "nat \<Rightarrow> ptr table \<Rightarrow> 'a LambdaCache \<Rightarrow> 'a LambdaCache" where
  "drop_entry victim tb c =
    c\<lparr>c_lru := remove1 victim (c_lru c), c_table := tb, c_last := (if c_last c = Some victim then None else c_last c),
      c_nentries := c_nentries c - 1, c_evictions := c_evictions c + 1, c_entries := (c_entries c)(victim := None)\<rparr>"

text \<open>Eviction: the fuel is the number of entries, which goes down in every round.\<close>

fun evict :: "settings \<Rightarrow> nat \<Rightarrow> 'a LambdaCache \<Rightarrow> 'a LambdaCache result" where
  "evict S fuel c =
    (if c_nentries c > 0 \<and> int (c_nentries c) \<ge> s_cache_size S then
       (case fuel of
          0 \<Rightarrow> Inl Diverge
        | Suc n \<Rightarrow>
            if c_lru c = [] then Inl Crash
            else
              let victim = last (c_lru c) in
              rbind (delete_key (ptr_equal c) (deref_hash c) (c_table c) (Entry victim)) (\<lambda>tb.
                evict S n (drop_entry victim tb c)))
     else Inr c)"

declare evict.simps [simp del]

definition lambda_cache_insert ::
  "'a prims \<Rightarrow> settings \<Rightarrow> nat \<Rightarrow> (bytes \<Rightarrow> 'a Datum) \<Rightarrow> 'a CallLambdaExprState \<Rightarrow> 'a LambdaCache \<Rightarrow> (nat \<times> 'a LambdaCache) result" where
  "lambda_cache_insert P S fuel detoast cl c =
    rbind (evict S (c_nentries c) c) (\<lambda>c.
    rbind (lambda_cache_build_entry P S fuel detoast cl c) (\<lambda>entry.
      let i = c_next c; c = c\<lparr>c_entries := (c_entries c)(i := Some entry), c_next := Suc i\<rparr> in
      rbind (insert_key (ptr_equal c) (deref_hash c) (c_table c) (Entry i)) (\<lambda>tb.
        Inr (i, c\<lparr>c_table := tb, c_lru := i # c_lru c, c_nentries := c_nentries c + 1\<rparr>))))"

definition lambda_cache_jit :: "settings \<Rightarrow> 'a LambdaCache \<Rightarrow> 'a LambdaCacheEntry \<Rightarrow> 'a LambdaCacheEntry" where
  "lambda_cache_jit S c entry =
    (let entry = entry\<lparr>e_jit_done := True\<rparr> in
     if s_jit_perform S \<noteq> Some True \<or> c_evictions c > of_int (s_cache_size S) then entry
     else entry\<lparr>e_body := ExprState (e_tree entry) True\<rparr>)"

definition probe_parts :: "'a CallLambdaExprState \<Rightarrow> key_part list result" where
  "probe_parts cl = rmapM raw_part (Some (cl_value cl) # map (\<lambda>i. cl_args cl ! i) (cl_key_idx cl))"

text \<open>The entry for the current row, found or built.\<close>

definition cache_entry ::
  "'a prims \<Rightarrow> settings \<Rightarrow> nat \<Rightarrow> (bytes \<Rightarrow> 'a Datum) \<Rightarrow> 'a CallLambdaExprState \<Rightarrow> 'a LambdaCache \<Rightarrow> (nat \<times> 'a LambdaCache) result" where
  "cache_entry P S fuel detoast cl c =
    (if (case c_last c of None \<Rightarrow> False | Some i \<Rightarrow> ptr_equal c (Entry i) Probe) then Inr (the (c_last c), c)
     else
       let c = c\<lparr>c_probe := (fst (c_probe c), lambda_cache_hash_key (s_bigendian S) (fst (c_probe c)))\<rparr> in
       rbind (lookup_key (ptr_equal c) (deref_hash c) (c_table c) Probe) (\<lambda>slot.
       rbind (case slot of
                Some (Entry i) \<Rightarrow> Inr (i, c\<lparr>c_lru := i # remove1 i (c_lru c)\<rparr>)
              | _ \<Rightarrow> lambda_cache_insert P S fuel detoast cl c) (\<lambda>(i, c).
       Inr (i, c\<lparr>c_last := Some i\<rparr>))))"

definition lambda_cache_body ::
  "'a prims \<Rightarrow> settings \<Rightarrow> nat \<Rightarrow> (bytes \<Rightarrow> 'a Datum) \<Rightarrow> 'a CallLambdaExprState \<Rightarrow> 'a LambdaCache option \<Rightarrow>
     ('a ExprState \<times> 'a LambdaCache) result" where
  "lambda_cache_body P S fuel detoast cl cache =
    rbind (case cache of None \<Rightarrow> lambda_cache_create | Some c \<Rightarrow> Inr c) (\<lambda>c.
    rbind (probe_parts cl) (\<lambda>parts.
    rbind (cache_entry P S fuel detoast cl (c\<lparr>c_probe := (parts, snd (c_probe c))\<rparr>)) (\<lambda>(i, c).
      (case c_entries c i of
         None \<Rightarrow> Inl Crash
       | Some entry \<Rightarrow>
           let entry = entry\<lparr>e_uses := e_uses entry + 1\<rparr>;
               entry = (if \<not> e_jit_done entry \<and> s_jit_after_uses S > 0 \<and> e_uses entry \<ge> of_int (s_jit_after_uses S)
                        then lambda_cache_jit S c entry else entry)
           in Inr (e_body entry, c\<lparr>c_entries := (c_entries c)(i := Some entry)\<rparr>)))))"

text \<open>The rows of a query, one after the other.\<close>

fun run_rows ::
  "'a prims \<Rightarrow> settings \<Rightarrow> nat \<Rightarrow> (bytes \<Rightarrow> 'a Datum) \<Rightarrow> 'a CallLambdaExprState list \<Rightarrow> 'a LambdaCache option \<Rightarrow>
     ('a ExprState list \<times> 'a LambdaCache option) result" where
  "run_rows P S fuel detoast [] cache = Inr ([], cache)"
| "run_rows P S fuel detoast (cl # rows) cache =
    rbind (lambda_cache_body P S fuel detoast cl cache) (\<lambda>(b, c).
    rbind (run_rows P S fuel detoast rows (Some c)) (\<lambda>(bs, cache). Inr (b # bs, cache)))"

section \<open>Keys by their raw bytes\<close>

lemma part_equal_raw: "part_equal a b \<longleftrightarrow> map_option snd a = map_option snd b"
  by (cases "(a, b)" rule: part_equal.cases) auto

lemma key_equal_raw: "length a = length b \<Longrightarrow> lambda_cache_key_equal a b \<longleftrightarrow> raw_key a = raw_key b"
  using list_eq_iff_nth_eq [of "map (map_option snd) a" "map (map_option snd) b"]
  by (auto simp: lambda_cache_key_equal_def raw_key_def part_equal_raw list_all_iff)

lemma hash_part_raw: "map_option snd p = map_option snd q \<Longrightarrow> hash_part bigendian p = hash_part bigendian q"
  by (cases p; cases q) (auto simp: hash_bytes_def loop_paths Let_def)

lemma hash_key_raw:
  assumes "raw_key a = raw_key b" shows "lambda_cache_hash_key be a = lambda_cache_hash_key be b"
proof -
  have "list_all2 (\<lambda>p q. map_option snd p = map_option snd q) a b"
    using assms by (simp add: raw_key_def list_all2_map1 list_all2_map2 flip: list.rel_eq)
  then have "foldl (\<lambda>hash p. hash_combine hash (hash_part be p)) h a = foldl (\<lambda>hash p. hash_combine hash (hash_part be p)) h b" for h
  proof (induction arbitrary: h rule: list_all2_induct)
    case (Cons x xs y ys)
    then show ?case using hash_part_raw [of x y be] by simp
  qed simp
  then show ?thesis by (simp add: lambda_cache_hash_key_def)
qed

definition ptr_valid :: "bool \<Rightarrow> nat \<Rightarrow> 'a LambdaCache \<Rightarrow> ptr \<Rightarrow> bool" where
  "ptr_valid be n c p \<longleftrightarrow> length (deref_key c p) = n \<and> deref_hash c p = lambda_cache_hash_key be (deref_key c p)"

interpretation cache_keys: key_laws "ptr_valid be n c" "ptr_equal c" "deref_hash c" for be n c
proof (unfold_locales, goal_cases)
  case (1 a)
  then show ?case by (simp add: ptr_equal_def key_equal_raw)
next
  case (2 a b)
  then show ?case by (simp add: ptr_valid_def ptr_equal_def key_equal_raw)
next
  case (3 a b d)
  then show ?case by (simp add: ptr_valid_def ptr_equal_def key_equal_raw)
next
  case (4 a b)
  then show ?case using hash_key_raw [of "deref_key c a" "deref_key c b" be]
    by (simp add: ptr_valid_def ptr_equal_def key_equal_raw)
qed

lemma table_inv_cong:
  assumes "table_inv valid eq hk tb" and "\<And>k. k \<in># keys tb \<Longrightarrow> valid' k \<and> hk' k = hk k"
    and "\<And>k k'. k \<in># keys tb \<Longrightarrow> k' \<in># keys tb \<Longrightarrow> eq' k k' = eq k k'"
  shows "table_inv valid' eq' hk' tb"
proof -
  have "size {#k' \<in># keys tb. eq' k' k#} = size {#k' \<in># keys tb. eq k' k#}" if "k \<in># keys tb" for k
  proof -
    have "{#k' \<in># keys tb. eq' k' k#} = {#k' \<in># keys tb. eq k' k#}" using assms(3) that by (intro filter_mset_cong) auto
    then show ?thesis by simp
  qed
  moreover have "elem_key e \<in># keys tb" if "e \<in># stored (data tb)" for e using that by (simp add: keys_def)
  ultimately show ?thesis using assms(1,2) by (auto simp: table_inv_def table_core_def distinct_keys_def)
qed

section \<open>A body depends only on the key\<close>

lemma build_cong:
  assumes "length vs = length vs'" "\<And>i. i \<in> set ks \<Longrightarrow> i < length vs \<Longrightarrow> vs ! i = vs' ! i"
  shows "lambda_cache_build P h f d vs ks = lambda_cache_build P h f d vs' ks"
proof (cases "deserialize_datum d")
  case (Inr le)
  have "lambda_injector_scalar f le vs = lambda_injector_scalar f le vs'"
    if none: "find (\<lambda>i. i \<notin> set ks) (lambda_scalar_func_inputs le (length vs)) = None"
  proof (cases le)
    case (LambdaExpr kind names types expr rt rtm strict ltm l3)
    let ?g = "\<lambda>vs i. if \<not> fst (scalar_prescan le (length vs)) ! i then Inr None
      else (case vs ! i of None \<Rightarrow> Inl (elog_error (''scalar injector: function input '' @ show_nat i @ '' is NULL''))
        | Some d \<Rightarrow> rmap Some (deserialize_datum d))"
    have func: "i \<in> set ks" if "i < length vs" "fst (scalar_prescan le (length vs)) ! i" for i
      using none that by (cases "le_expr le") (auto simp: find_None_iff lambda_scalar_func_inputs_def scalar_prescan_def)
    have "rmapM (?g vs) [0..<length vs] = rmapM (?g vs') [0..<length vs]"
      by (rule rmapM_cong [OF refl]) (use func assms in auto)
    with LambdaExpr assms(1) show ?thesis by (simp add: lambda_injector_scalar_def Let_def)
  qed (simp_all add: lambda_injector_scalar_def)
  with Inr assms(1) show ?thesis
    by (auto simp: lambda_cache_build_def split: option.splits)
qed (simp add: lambda_cache_build_def)

text \<open>
  \<open>row_ok\<close>: a row of a call site with \<open>N\<close> arguments whose lambda-typed positions are \<open>idx\<close>; the called
  lambda and the arguments there are varlena data, the latter possibly NULL.
\<close>

fun raw_of :: "'a sql_value option \<Rightarrow> bytes option" where
  "raw_of (Some (Varlena _ bs)) = Some bs"
| "raw_of _ = None"

definition row_ok :: "nat \<Rightarrow> nat list \<Rightarrow> 'a CallLambdaExprState \<Rightarrow> bool" where
  "row_ok N idx cl \<longleftrightarrow> cl_key_idx cl = idx \<and> length (cl_args cl) = N \<and> raw_of (Some (cl_value cl)) \<noteq> None \<and>
     (\<forall>i \<in> set idx. i < N \<and> (cl_args cl ! i \<noteq> None \<longrightarrow> raw_of (cl_args cl ! i) \<noteq> None))"

definition row_key :: "'a CallLambdaExprState \<Rightarrow> bytes option list" where
  "row_key cl = map raw_of (Some (cl_value cl) # map (\<lambda>i. cl_args cl ! i) (cl_key_idx cl))"

lemma raw_part_raw:
  assumes "v \<noteq> None \<longrightarrow> raw_of v \<noteq> None" obtains p where "raw_part v = Inr p" "map_option snd p = raw_of v"
  using assms by (cases v rule: raw_part.cases) auto

lemma probe_parts_ok:
  assumes "row_ok N idx cl"
  obtains parts where "probe_parts cl = Inr parts" "raw_key parts = row_key cl" "length parts = Suc (length idx)"
proof -
  let ?vs = "Some (cl_value cl) # map (\<lambda>i. cl_args cl ! i) (cl_key_idx cl)"
  have "\<exists>parts. rmapM raw_part vs = Inr parts \<and> raw_key parts = map raw_of vs" if "\<And>v. v \<in> set vs \<Longrightarrow> v \<noteq> None \<longrightarrow> raw_of v \<noteq> None"
    for vs :: "'a sql_value option list"
    using that
  proof (induction vs)
    case (Cons v vs)
    then obtain parts where "rmapM raw_part vs = Inr parts" "raw_key parts = map raw_of vs" by auto
    moreover obtain p where "raw_part v = Inr p" "map_option snd p = raw_of v" using raw_part_raw Cons.prems list.set_intros(1) by metis
    ultimately show ?case by (intro exI [of _ "p # parts"]) (simp add: raw_key_def)
  qed (simp add: raw_key_def)
  moreover have "v \<noteq> None \<longrightarrow> raw_of v \<noteq> None" if "v \<in> set ?vs" for v using that assms by (auto simp: row_ok_def)
  ultimately obtain parts where parts: "rmapM raw_part ?vs = Inr parts" "raw_key parts = map raw_of ?vs" by blast
  have "length (raw_key parts) = Suc (length idx)" using assms by (simp add: parts(2) row_ok_def)
  then show thesis using that [of parts] parts by (simp add: probe_parts_def row_key_def raw_key_def)
qed

lemma fetch_raw: "raw_of v = raw_of v' \<Longrightarrow> raw_of v \<noteq> None \<Longrightarrow> map_option (fetch detoast) v = map_option (fetch detoast) v'"
  by (cases v rule: raw_of.cases; cases v' rule: raw_of.cases) auto

lemma build_tree_key:
  assumes cl: "row_ok N idx cl" and cl': "row_ok N idx cl'" and key: "row_key cl = row_key cl'"
  shows "build_tree P S fuel detoast cl = build_tree P S fuel detoast cl'"
proof -
  have "raw_of (Some (cl_value cl)) = raw_of (Some (cl_value cl'))" using key by (simp add: row_key_def)
  then have v: "fetch detoast (cl_value cl) = fetch detoast (cl_value cl')" using fetch_raw [of "Some (cl_value cl)" "Some (cl_value cl')"] cl by (simp add: row_ok_def)
  have "map_option (fetch detoast) (cl_args cl ! i) = map_option (fetch detoast) (cl_args cl' ! i)" if i: "i \<in> set idx" for i
  proof -
    have r: "raw_of (cl_args cl ! i) = raw_of (cl_args cl' ! i)" using key i cl cl' by (auto simp: row_key_def row_ok_def)
    show ?thesis
    proof (cases "raw_of (cl_args cl ! i) = None")
      case True
      with r have "cl_args cl ! i = None" "cl_args cl' ! i = None" using cl cl' i by (auto simp: row_ok_def)
      then show ?thesis by simp
    qed (use r in \<open>rule fetch_raw\<close>)
  qed
  then show ?thesis using cl cl' v unfolding build_tree_def by (simp add: row_ok_def) (intro build_cong, auto)
qed

section \<open>The invariant\<close>

definition cache_ok ::
  "'a prims \<Rightarrow> settings \<Rightarrow> nat \<Rightarrow> (bytes \<Rightarrow> 'a Datum) \<Rightarrow> nat \<Rightarrow> nat list \<Rightarrow> 'a LambdaCache \<Rightarrow> bool" where
  "cache_ok P S fuel detoast N idx c \<longleftrightarrow>
     table_inv (ptr_valid (s_bigendian S) (Suc (length idx)) c) (ptr_equal c) (deref_hash c) (c_table c) \<and>
     keys (c_table c) = image_mset Entry (mset (c_lru c)) \<and> distinct (c_lru c) \<and> c_nentries c = length (c_lru c) \<and>
     (\<forall>i. i \<in> set (c_lru c) \<longleftrightarrow> c_entries c i \<noteq> None) \<and> (\<forall>i \<ge> c_next c. c_entries c i = None) \<and>
     (\<forall>i. c_last c = Some i \<longrightarrow> c_lru c \<noteq> [] \<and> hd (c_lru c) = i) \<and>
     (\<forall>i e. c_entries c i = Some e \<longrightarrow> es_tree (e_body e) = e_tree e \<and>
        (\<forall>cl. row_ok N idx cl \<longrightarrow> row_key cl = raw_key (e_key e) \<longrightarrow> build_tree P S fuel detoast cl = Inr (e_tree e)))"

text \<open>The cached keys, most recently used first.\<close>

definition content :: "'a LambdaCache \<Rightarrow> bytes option list list" where
  "content c = map (\<lambda>i. raw_key (deref_key c (Entry i))) (c_lru c)"

lemma cache_okD:
  assumes "cache_ok P S fuel detoast N idx c"
  shows "table_inv (ptr_valid (s_bigendian S) (Suc (length idx)) c) (ptr_equal c) (deref_hash c) (c_table c)"
    "keys (c_table c) = image_mset Entry (mset (c_lru c))" "distinct (c_lru c)" "c_nentries c = length (c_lru c)"
    "i \<in> set (c_lru c) \<longleftrightarrow> c_entries c i \<noteq> None" "c_next c \<le> i \<Longrightarrow> c_entries c i = None"
    "c_last c = Some i \<Longrightarrow> c_lru c \<noteq> [] \<and> hd (c_lru c) = i"
    "c_entries c i = Some e \<Longrightarrow> es_tree (e_body e) = e_tree e"
    "c_entries c i = Some e \<Longrightarrow> row_ok N idx cl \<Longrightarrow> row_key cl = raw_key (e_key e) \<Longrightarrow> build_tree P S fuel detoast cl = Inr (e_tree e)"
  using assms unfolding cache_ok_def by blast+

lemma cache_okI:
  assumes "table_inv (ptr_valid (s_bigendian S) (Suc (length idx)) c) (ptr_equal c) (deref_hash c) (c_table c)"
    "keys (c_table c) = image_mset Entry (mset (c_lru c))" "distinct (c_lru c)" "c_nentries c = length (c_lru c)"
    "\<And>i. i \<in> set (c_lru c) \<longleftrightarrow> c_entries c i \<noteq> None" "\<And>i. c_next c \<le> i \<Longrightarrow> c_entries c i = None"
    "\<And>i. c_last c = Some i \<Longrightarrow> c_lru c \<noteq> [] \<and> hd (c_lru c) = i"
    "\<And>i e. c_entries c i = Some e \<Longrightarrow> es_tree (e_body e) = e_tree e"
    "\<And>i e cl. c_entries c i = Some e \<Longrightarrow> row_ok N idx cl \<Longrightarrow> row_key cl = raw_key (e_key e) \<Longrightarrow>
      build_tree P S fuel detoast cl = Inr (e_tree e)"
  shows "cache_ok P S fuel detoast N idx c"
  using assms unfolding cache_ok_def by blast

lemma lru_valid:
  "cache_ok P S fuel detoast N idx c \<Longrightarrow> i \<in> set (c_lru c) \<Longrightarrow> ptr_valid (s_bigendian S) (Suc (length idx)) c (Entry i)"
  using cache_keys.keys_valid [OF cache_okD(1)] by (fastforce simp: cache_okD(2))

lemma lru_key_inj:
  assumes ok: "cache_ok P S fuel detoast N idx c" and ij: "i \<in> set (c_lru c)" "j \<in> set (c_lru c)"
    and eq: "raw_key (deref_key c (Entry i)) = raw_key (deref_key c (Entry j))"
  shows "i = j"
proof -
  note v = lru_valid [OF ok ij(1)] lru_valid [OF ok ij(2)]
  have e: "ptr_equal c (Entry i) (Entry j)" "ptr_equal c (Entry j) (Entry j)"
    using v eq by (auto simp: ptr_equal_def ptr_valid_def key_equal_raw)
  have "Entry i \<in># keys (c_table c)" "Entry j \<in># keys (c_table c)" using ij by (simp_all add: cache_okD(2) [OF ok])
  with cache_keys.keys_unique [OF cache_okD(1) [OF ok] _ v(2)] e have "{#Entry i#} = {#Entry j#}" by metis
  then show ?thesis by simp
qed

text \<open>Changes to the cache that leave the keys of the listed entries alone keep the hash table sound.\<close>

lemma table_frame:
  assumes inv: "table_inv (ptr_valid be n c) (ptr_equal c) (deref_hash c) tb" and keys: "keys tb = image_mset Entry (mset is)"
    and same: "\<And>i. i \<in> set is \<Longrightarrow> deref_key c' (Entry i) = deref_key c (Entry i) \<and> deref_hash c' (Entry i) = deref_hash c (Entry i)"
  shows "table_inv (ptr_valid be n c') (ptr_equal c') (deref_hash c') tb"
proof (rule table_inv_cong [OF inv])
  fix k assume k: "k \<in># keys tb"
  then obtain i where "k = Entry i" "i \<in> set is" by (auto simp: keys)
  then show "ptr_valid be n c' k \<and> deref_hash c' k = deref_hash c k"
    using cache_keys.keys_valid [OF inv k] same by (simp add: ptr_valid_def)
next
  fix k k' assume "k \<in># keys tb" "k' \<in># keys tb"
  then obtain i j where "k = Entry i" "i \<in> set is" "k' = Entry j" "j \<in> set is" by (auto simp: keys)
  then show "ptr_equal c' k k' = ptr_equal c k k'" using same by (simp add: ptr_equal_def)
qed

lemma deref_simps [simp]:
  "deref_key (c\<lparr>c_probe := p\<rparr>) (Entry i) = deref_key c (Entry i)"
  "deref_hash (c\<lparr>c_probe := p\<rparr>) (Entry i) = deref_hash c (Entry i)"
  "deref_key (c\<lparr>c_probe := p\<rparr>) Probe = fst p"
  "deref_hash (c\<lparr>c_probe := p\<rparr>) Probe = snd p"
  by (simp_all add: deref_key_def deref_hash_def)

lemma deref_store:
  "deref_key c (Entry i) = (case c_entries c i of None \<Rightarrow> [] | Some e \<Rightarrow> e_key e)"
  "deref_hash c (Entry i) = (case c_entries c i of None \<Rightarrow> 0 | Some e \<Rightarrow> e_hash e)"
  by (simp_all add: deref_key_def deref_hash_def)

lemma set_probe:
  assumes ok: "cache_ok P S fuel detoast N idx c"
  shows "cache_ok P S fuel detoast N idx (c\<lparr>c_probe := p\<rparr>)" "content (c\<lparr>c_probe := p\<rparr>) = content c"
proof -
  show "content (c\<lparr>c_probe := p\<rparr>) = content c" by (simp add: content_def)
  have "table_inv (ptr_valid (s_bigendian S) (Suc (length idx)) (c\<lparr>c_probe := p\<rparr>)) (ptr_equal (c\<lparr>c_probe := p\<rparr>))
      (deref_hash (c\<lparr>c_probe := p\<rparr>)) (c_table c)"
    by (rule table_frame [OF cache_okD(1,2) [OF ok]]) simp
  then show "cache_ok P S fuel detoast N idx (c\<lparr>c_probe := p\<rparr>)" using ok by (simp add: cache_ok_def)
qed

section \<open>Eviction\<close>

lemma evict_one:
  assumes ok: "cache_ok P S fuel detoast N idx c" and ne: "c_lru c \<noteq> []"
  defines "victim \<equiv> last (c_lru c)"
  obtains tb where "delete_key (ptr_equal c) (deref_hash c) (c_table c) (Entry victim) = Inr tb"
    "cache_ok P S fuel detoast N idx (drop_entry victim tb c)" "content (drop_entry victim tb c) = butlast (content c)"
proof -
  let ?l = "c_lru c" and ?n = "Suc (length idx)" and ?be = "s_bigendian S"
  note okD = cache_okD [OF ok]
  have v: "victim \<in> set ?l" using ne by (simp add: victim_def)
  obtain tb where tb: "delete_key (ptr_equal c) (deref_hash c) (c_table c) (Entry victim) = Inr tb"
    "table_inv (ptr_valid ?be ?n c) (ptr_equal c) (deref_hash c) tb"
    "keys tb = {#k \<in># keys (c_table c). \<not> ptr_equal c k (Entry victim)#}"
    using cache_keys.store.delete_filter [OF okD(1) lru_valid [OF ok v]] by blast
  have eq: "ptr_equal c (Entry i) (Entry victim) \<longleftrightarrow> i = victim" if "i \<in> set ?l" for i
    using lru_key_inj [OF ok that v] lru_valid [OF ok that] lru_valid [OF ok v]
    by (auto simp: ptr_equal_def ptr_valid_def key_equal_raw)
  have rem: "remove1 victim ?l = butlast ?l"
    using okD(3) ne by (cases ?l rule: rev_cases) (auto simp: victim_def remove1_append)
  have but: "set (butlast ?l) = set ?l - {victim}" "victim \<notin> set (butlast ?l)" "distinct (butlast ?l)"
    using okD(3) ne by (cases ?l rule: rev_cases; force simp: victim_def)+
  have "filter_mset (\<lambda>i. \<not> ptr_equal c (Entry i) (Entry victim)) (mset ?l) = mset (butlast ?l)"
  proof -
    have "filter (\<lambda>i. \<not> ptr_equal c (Entry i) (Entry victim)) ?l = filter (\<lambda>i. i \<noteq> victim) ?l"
      using eq by (intro filter_cong) auto
    also have "\<dots> = butlast ?l"
      using okD(3) ne by (cases ?l rule: rev_cases) (auto simp: victim_def filter_id_conv)
    finally show ?thesis by (metis mset_filter)
  qed
  then have keys: "keys tb = image_mset Entry (mset (butlast ?l))"
    by (simp add: tb(3) okD(2) filter_mset_image_mset)
  have same: "deref_key (drop_entry victim tb c) (Entry i) = deref_key c (Entry i) \<and> deref_hash (drop_entry victim tb c) (Entry i) = deref_hash c (Entry i)"
    if "i \<in> set (butlast ?l)" for i using that but(2) by (auto simp: deref_store drop_entry_def)
  have "table_inv (ptr_valid ?be ?n (drop_entry victim tb c)) (ptr_equal (drop_entry victim tb c)) (deref_hash (drop_entry victim tb c)) tb"
    by (rule table_frame [OF tb(2) keys same])
  moreover have "butlast ?l \<noteq> [] \<and> hd (butlast ?l) = i" if "c_last c = Some i" "i \<noteq> victim" for i
    using okD(7) [OF that(1)] that(2) by (cases ?l) (auto simp: victim_def)
  ultimately have "cache_ok P S fuel detoast N idx (drop_entry victim tb c)"
    unfolding cache_ok_def using keys but okD(4-6,8,9) by (auto simp: drop_entry_def rem)
  moreover have "content (drop_entry victim tb c) = butlast (content c)"
    using same by (simp add: content_def drop_entry_def rem map_butlast cong: map_cong)
  ultimately show thesis using that [OF tb(1)] by simp
qed

lemma evict_spec:
  assumes "cache_ok P S fuel detoast N idx c" "c_nentries c \<le> n"
  obtains c' where "evict S n c = Inr c'" "cache_ok P S fuel detoast N idx c'"
    "content c' = take (nat (s_cache_size S - 1)) (content c)" "c_probe c' = c_probe c"
  using assms
proof (induction n arbitrary: c thesis)
  case 0
  then show ?case using cache_okD(4) [OF "0.prems"(2)] by (subst (asm) evict.simps) (simp add: content_def)
next
  case (Suc n)
  have len: "length (content c) = c_nentries c" using cache_okD(4) [OF Suc.prems(2)] by (simp add: content_def)
  show ?case
  proof (cases "c_nentries c > 0 \<and> int (c_nentries c) \<ge> s_cache_size S")
    case True
    then have ne: "c_lru c \<noteq> []" using cache_okD(4) [OF Suc.prems(2)] by auto
    define v where "v = last (c_lru c)"
    obtain tb where tb: "delete_key (ptr_equal c) (deref_hash c) (c_table c) (Entry v) = Inr tb"
      "cache_ok P S fuel detoast N idx (drop_entry v tb c)" "content (drop_entry v tb c) = butlast (content c)"
      using evict_one [OF Suc.prems(2) ne] unfolding v_def by blast
    have "c_probe (drop_entry v tb c) = c_probe c" "c_nentries (drop_entry v tb c) \<le> n"
      using Suc.prems(3) by (simp_all add: drop_entry_def)
    then obtain c' where c': "evict S n (drop_entry v tb c) = Inr c'" "cache_ok P S fuel detoast N idx c'"
      "content c' = take (nat (s_cache_size S - 1)) (content (drop_entry v tb c))" "c_probe c' = c_probe c"
      using Suc.IH [OF _ tb(2)] by metis
    have "evict S (Suc n) c = Inr c'" using True ne tb(1) c'(1) by (subst evict.simps) (simp add: v_def Let_def)
    moreover have "content c' = take (nat (s_cache_size S - 1)) (content c)"
    proof -
      have "nat (s_cache_size S - 1) < length (content c)" using True len by linarith
      then show ?thesis using c'(3) by (simp add: tb(3) take_butlast)
    qed
    ultimately show ?thesis using Suc.prems(1) c' by simp
  next
    case False
    then have "evict S (Suc n) c = Inr c" by (subst evict.simps) (simp only: if_False)
    moreover have "content c = take (nat (s_cache_size S - 1)) (content c)" using False len by auto
    ultimately show ?thesis using Suc.prems(1,2) by simp
  qed
qed

section \<open>A row\<close>

text \<open>The reference: a list of keys in the order of their use, cut off at the size of the cache.\<close>

definition lru_step :: "nat \<Rightarrow> 'k \<Rightarrow> 'k list \<Rightarrow> 'k list" where
  "lru_step n k ks = take n (k # filter (\<lambda>k'. k' \<noteq> k) ks)"

lemma lru_step_length: "length (lru_step n k ks) \<le> n"
  by (simp add: lru_step_def)

lemma fold_lru_length: "length ks \<le> n \<Longrightarrow> length (fold (lru_step n) xs ks) \<le> n"
  by (induction xs arbitrary: ks) (simp_all add: lru_step_length)

lemma lru_step_hit: "k \<in> set ks \<Longrightarrow> length ks \<le> n \<Longrightarrow> lru_step n k ks = k # filter (\<lambda>k'. k' \<noteq> k) ks"
  using length_filter_less [of k ks "\<lambda>k'. k' \<noteq> k"] by (simp add: lru_step_def)

lemma lru_step_miss: "k \<notin> set ks \<Longrightarrow> 0 < n \<Longrightarrow> lru_step n k ks = k # take (n - 1) ks"
  using filter_id_conv [of "\<lambda>k'. k' \<noteq> k" ks] by (cases n) (auto simp: lru_step_def)

lemma lru_step_same: "distinct (k # ks) \<Longrightarrow> length (k # ks) \<le> n \<Longrightarrow> lru_step n k (k # ks) = k # ks"
  using lru_step_hit [of k "k # ks" n] filter_id_conv [of "\<lambda>k'. k' \<noteq> k" ks] by auto

lemma content_distinct: "cache_ok P S fuel detoast N idx c \<Longrightarrow> distinct (content c)"
  using cache_okD(3) lru_key_inj by (fastforce simp: content_def distinct_map inj_on_def)

lemma in_content:
  assumes ok: "cache_ok P S fuel detoast N idx c" and len: "length (fst (c_probe c)) = Suc (length idx)"
  shows "i \<in> set (c_lru c) \<Longrightarrow> ptr_equal c (Entry i) Probe \<longleftrightarrow> raw_key (deref_key c (Entry i)) = raw_key (fst (c_probe c))"
  using lru_valid [OF ok] len by (auto simp: ptr_equal_def ptr_valid_def key_equal_raw deref_key_def)

text \<open>Moving an entry to the front, the first case of a lookup.\<close>

lemma move_front:
  assumes ok: "cache_ok P S fuel detoast N idx c" and i: "i \<in> set (c_lru c)"
  defines "c' \<equiv> c\<lparr>c_lru := i # remove1 i (c_lru c), c_last := Some i\<rparr>" and "k \<equiv> raw_key (deref_key c (Entry i))"
  shows "cache_ok P S fuel detoast N idx c'" "content c' = k # filter (\<lambda>k'. k' \<noteq> k) (content c)"
proof -
  let ?l = "c_lru c"
  note okD = cache_okD [OF ok]
  have m: "mset (i # remove1 i ?l) = mset ?l" and s: "set (remove1 i ?l) = set ?l - {i}" and d: "distinct (remove1 i ?l)"
    using i okD(3) by (simp_all add: set_remove1_eq)
  have keys: "keys (c_table c) = image_mset Entry (mset (i # remove1 i ?l))" unfolding m by (rule okD(2))
  have same: "deref_key c' (Entry j) = deref_key c (Entry j)" "deref_hash c' (Entry j) = deref_hash c (Entry j)" for j
    by (simp_all add: c'_def deref_store)
  have "table_inv (ptr_valid (s_bigendian S) (Suc (length idx)) c') (ptr_equal c') (deref_hash c') (c_table c)"
    by (rule table_frame [OF okD(1) keys]) (simp add: same)
  moreover have "length (i # remove1 i ?l) = length ?l" using m by (rule mset_eq_length)
  ultimately show "cache_ok P S fuel detoast N idx c'"
    using i s d keys okD(4,5) by (intro cache_okI) (auto simp: c'_def intro: okD(6,8,9))
  have "map (\<lambda>j. raw_key (deref_key c (Entry j))) (remove1 i ?l) = filter (\<lambda>k'. k' \<noteq> k) (content c)"
  proof -
    have "filter (\<lambda>k'. k' \<noteq> k) (content c) =
        map (\<lambda>j. raw_key (deref_key c (Entry j))) (filter (\<lambda>j. raw_key (deref_key c (Entry j)) \<noteq> k) ?l)"
      by (simp add: content_def filter_map comp_def)
    also have "filter (\<lambda>j. raw_key (deref_key c (Entry j)) \<noteq> k) ?l = filter (\<lambda>j. j \<noteq> i) ?l"
      using lru_key_inj [OF ok _ i] by (intro filter_cong) (auto simp: k_def)
    also have "\<dots> = remove1 i ?l" using okD(3)
      by (auto simp: distinct_remove1_removeAll removeAll_filter_not_eq intro!: filter_cong)
    finally show ?thesis by simp
  qed
  then show "content c' = k # filter (\<lambda>k'. k' \<noteq> k) (content c)" by (simp add: content_def same) (simp add: c'_def k_def)
qed

lemma raw_key_copy: "raw_key (map (map_option (\<lambda>(aligned, bs). (True, bs))) ps) = raw_key ps"
  by (auto simp: raw_key_def option.map_comp comp_def split_def)

text \<open>Building an entry for a key that is not cached.\<close>

lemma insert_spec:
  assumes ok: "cache_ok P S fuel detoast N idx c" and cl: "row_ok N idx cl" and key: "row_key cl = raw_key (fst (c_probe c))"
    and probe: "ptr_valid (s_bigendian S) (Suc (length idx)) c Probe" and miss: "row_key cl \<notin> set (content c)"
    and size: "s_cache_size S * 10 \<le> SH_MAX_SIZE"
  obtains (error) e where "build_tree P S fuel detoast cl = Inl e" "lambda_cache_insert P S fuel detoast cl c = Inl e"
  | (built) tree i c' where "build_tree P S fuel detoast cl = Inr tree" "lambda_cache_insert P S fuel detoast cl c = Inr (i, c')"
      "cache_ok P S fuel detoast N idx (c'\<lparr>c_last := Some i\<rparr>)"
      "content (c'\<lparr>c_last := Some i\<rparr>) = row_key cl # take (nat (s_cache_size S - 1)) (content c)"
      "\<exists>entry. c_entries c' i = Some entry \<and> e_tree entry = tree"
proof -
  obtain c1 where c1: "evict S (c_nentries c) c = Inr c1" "cache_ok P S fuel detoast N idx c1"
    "content c1 = take (nat (s_cache_size S - 1)) (content c)" "c_probe c1 = c_probe c"
    using evict_spec [OF ok le_refl] by blast
  show thesis
  proof (cases "build_tree P S fuel detoast cl")
    case (Inl e)
    with c1(1) error show thesis by (simp add: lambda_cache_insert_def lambda_cache_build_entry_def)
  next
    case (Inr tree)
    obtain entry where entry: "lambda_cache_build_entry P S fuel detoast cl c1 = Inr entry" "e_tree entry = tree"
        "es_tree (e_body entry) = tree" "raw_key (e_key entry) = row_key cl" "e_hash entry = snd (c_probe c)"
        "length (e_key entry) = Suc (length idx)"
      using Inr c1(4) key probe
      by (auto simp: lambda_cache_build_entry_def Let_def raw_key_copy ptr_valid_def deref_key_def)
    let ?i = "c_next c1"
    let ?c2 = "c1\<lparr>c_entries := (c_entries c1)(?i := Some entry), c_next := Suc ?i\<rparr>"
    let ?n = "Suc (length idx)" and ?be = "s_bigendian S"
    note okD = cache_okD [OF c1(2)]
    have fresh: "?i \<notin> set (c_lru c1)" using okD(5,6) [of ?i] by simp
    have same: "deref_key ?c2 (Entry j) = deref_key c1 (Entry j)" "deref_hash ?c2 (Entry j) = deref_hash c1 (Entry j)"
      if "j \<in> set (c_lru c1)" for j using that fresh by (auto simp: deref_store)
    have inv: "table_inv (ptr_valid ?be ?n ?c2) (ptr_equal ?c2) (deref_hash ?c2) (c_table c1)"
      by (rule table_frame [OF okD(1,2)]) (simp add: same)
    have valid: "ptr_valid ?be ?n ?c2 (Entry ?i)"
      using entry(4-6) probe key hash_key_raw [of "e_key entry" "fst (c_probe c)" ?be]
      by (simp add: ptr_valid_def deref_store) (simp add: deref_key_def deref_hash_def)
    have nomatch: "{#k \<in># keys (c_table c1). ptr_equal ?c2 k (Entry ?i)#} = {#}"
    proof -
      have "\<not> ptr_equal ?c2 (Entry j) (Entry ?i)" if j: "j \<in> set (c_lru c1)" for j
      proof -
        have "raw_key (deref_key c1 (Entry j)) \<in> set (content c1)" using j by (simp add: content_def)
        then have "raw_key (deref_key c1 (Entry j)) \<noteq> row_key cl" using miss c1(3) by (metis in_set_takeD)
        then show ?thesis using lru_valid [OF c1(2) j] entry(4,6) j
          by (simp add: ptr_equal_def ptr_valid_def same key_equal_raw deref_store(1) [of ?c2 ?i])
      qed
      then show ?thesis by (auto simp: okD(2))
    qed
    have room: "\<not> too_many_keys (size (keys (c_table c1)))"
    proof -
      have "length (c_lru c1) = length (content c1)" by (simp add: content_def)
      then have "length (c_lru c1) \<le> nat (s_cache_size S - 1)" by (simp add: c1(3))
      then show ?thesis using size by (simp add: okD(2) too_many_keys_def SH_MAX_SIZE_def)
    qed
    obtain tb where tb: "insert_key (ptr_equal ?c2) (deref_hash ?c2) (c_table c1) (Entry ?i) = Inr tb"
      "table_inv (ptr_valid ?be ?n ?c2) (ptr_equal ?c2) (deref_hash ?c2) tb" "keys tb = add_mset (Entry ?i) (keys (c_table c1))"
      using cache_keys.store.insert_fresh [OF inv valid nomatch room] by blast
    let ?c3 = "?c2\<lparr>c_table := tb, c_lru := ?i # c_lru c1, c_nentries := c_nentries c1 + 1\<rparr>"
    let ?c4 = "?c3\<lparr>c_last := Some ?i\<rparr>"
    have keys: "keys tb = image_mset Entry (mset (?i # c_lru c1))" by (simp add: tb(3) okD(2))
    have same': "deref_key ?c4 (Entry j) = deref_key ?c2 (Entry j) \<and> deref_hash ?c4 (Entry j) = deref_hash ?c2 (Entry j)" for j
      by (simp add: deref_store)
    have "table_inv (ptr_valid ?be ?n ?c4) (ptr_equal ?c4) (deref_hash ?c4) tb"
      by (rule table_frame [OF tb(2) keys]) (rule same')
    moreover have "build_tree P S fuel detoast cl' = Inr tree" if "row_ok N idx cl'" "row_key cl' = row_key cl" for cl'
      using build_tree_key [OF that(1) cl that(2)] Inr by simp
    ultimately have "cache_ok P S fuel detoast N idx ?c4"
      using keys fresh entry okD(3,4)
      by (intro cache_okI) (auto simp: okD(5) intro: okD(6,8,9) split: if_splits)
    moreover have "content ?c4 = row_key cl # content c1"
      using entry(4) same same' by (simp add: content_def) (simp add: deref_store)
    moreover have "lambda_cache_insert P S fuel detoast cl c = Inr (?i, ?c3)"
      using c1(1) entry(1) tb(1) by (simp add: lambda_cache_insert_def Let_def)
    ultimately show thesis using built [OF Inr, of ?i ?c3] entry(2) c1(3) by simp
  qed
qed

text \<open>The entry for a row, on each of the three paths: the last entry, another entry, a new entry.\<close>

lemma entry_spec:
  assumes ok: "cache_ok P S fuel detoast N idx c" and cl: "row_ok N idx cl" and key: "row_key cl = raw_key (fst (c_probe c))"
    and len: "length (fst (c_probe c)) = Suc (length idx)" and size: "0 < s_cache_size S" "s_cache_size S * 10 \<le> SH_MAX_SIZE"
    and bound: "length (content c) \<le> nat (s_cache_size S)"
  obtains (error) e where "build_tree P S fuel detoast cl = Inl e" "cache_entry P S fuel detoast cl c = Inl e"
  | (entry) tree i c' entry where "build_tree P S fuel detoast cl = Inr tree" "cache_entry P S fuel detoast cl c = Inr (i, c')"
      "cache_ok P S fuel detoast N idx c'" "content c' = lru_step (nat (s_cache_size S)) (row_key cl) (content c)"
      "c_entries c' i = Some entry" "e_tree entry = tree"
proof -
  have hit: "\<exists>tree entry. build_tree P S fuel detoast cl = Inr tree \<and> c_entries c' i = Some entry \<and> e_tree entry = tree \<and>
        row_key cl \<in> set (content c')"
    if c': "cache_ok P S fuel detoast N idx c'" "i \<in> set (c_lru c')" "raw_key (deref_key c' (Entry i)) = row_key cl" for i c'
  proof -
    obtain e where e: "c_entries c' i = Some e" using cache_okD(5) [OF c'(1)] c'(2) by auto
    moreover have "row_key cl \<in> set (content c')" using c'(2,3) by (force simp: content_def)
    ultimately show ?thesis using cache_okD(9) [OF c'(1) e cl] c'(3) by (simp add: deref_store)
  qed
  show thesis
  proof (cases "case c_last c of None \<Rightarrow> False | Some i \<Rightarrow> ptr_equal c (Entry i) Probe")
    case True
    then obtain i where i: "c_last c = Some i" "ptr_equal c (Entry i) Probe" by (auto split: option.splits)
    then have l: "i \<in> set (c_lru c)" "c_lru c = i # tl (c_lru c)" using cache_okD(7) [OF ok i(1)] by (auto simp: neq_Nil_conv)
    have k: "raw_key (deref_key c (Entry i)) = row_key cl" using in_content [OF ok len l(1)] i(2) key by simp
    obtain tree e where te: "build_tree P S fuel detoast cl = Inr tree" "c_entries c i = Some e" "e_tree e = tree"
      "row_key cl \<in> set (content c)" using hit [OF ok l(1) k] by blast
    obtain ks where "content c = row_key cl # ks" using k l(2) by (cases "c_lru c") (auto simp: content_def)
    then have "content c = lru_step (nat (s_cache_size S)) (row_key cl) (content c)"
      using content_distinct [OF ok] bound lru_step_same [of "row_key cl" ks] by simp
    moreover have "cache_entry P S fuel detoast cl c = Inr (i, c)" using True i(1) by (simp add: cache_entry_def)
    ultimately show thesis using entry [OF te(1) _ ok _ te(2,3)] by simp
  next
    case False
    let ?h = "lambda_cache_hash_key (s_bigendian S) (fst (c_probe c))"
    let ?c = "c\<lparr>c_probe := (fst (c_probe c), ?h)\<rparr>"
    note ok' = set_probe [OF ok, of "(fst (c_probe c), ?h)"]
    have probe: "ptr_valid (s_bigendian S) (Suc (length idx)) ?c Probe" using len by (simp add: ptr_valid_def)
    have len': "length (fst (c_probe ?c)) = Suc (length idx)" and key': "row_key cl = raw_key (fst (c_probe ?c))"
      using len key by simp_all
    consider (some) k where "lookup_key (ptr_equal ?c) (deref_hash ?c) (c_table c) Probe = Inr (Some k)"
        "k \<in># keys (c_table ?c)" "ptr_equal ?c k Probe"
      | (none) "lookup_key (ptr_equal ?c) (deref_hash ?c) (c_table c) Probe = Inr None"
        "{#k \<in># keys (c_table ?c). ptr_equal ?c k Probe#} = {#}"
      using cache_keys.store.lookup_cases [OF cache_okD(1) [OF ok'(1)] probe] by auto
    then show thesis
    proof cases
      case some
      then obtain i where i: "k = Entry i" "i \<in> set (c_lru ?c)" by (auto simp: cache_okD(2) [OF ok])
      have k: "raw_key (deref_key ?c (Entry i)) = row_key cl" using in_content [OF ok'(1) len' i(2)] some(3) i(1) key' by simp
      obtain tree e where te: "build_tree P S fuel detoast cl = Inr tree" "c_entries ?c i = Some e" "e_tree e = tree"
        "row_key cl \<in> set (content ?c)" using hit [OF ok'(1) i(2) k] by blast
      let ?c' = "?c\<lparr>c_lru := i # remove1 i (c_lru ?c), c_last := Some i\<rparr>"
      have "cache_entry P S fuel detoast cl c = Inr (i, ?c')" using False some(1) i(1) by (simp add: cache_entry_def Let_def)
      moreover have "content ?c' = lru_step (nat (s_cache_size S)) (row_key cl) (content c)"
        using move_front(2) [OF ok'(1) i(2)] k lru_step_hit [OF te(4)] bound ok'(2) by simp
      ultimately show thesis using entry [OF te(1) _ move_front(1) [OF ok'(1) i(2)] _ _ te(3)] te(2) by simp
    next
      case none
      have miss: "row_key cl \<notin> set (content ?c)"
        using none(2) in_content [OF ok'(1) len'] key' by (fastforce simp: content_def cache_okD(2) [OF ok])
      show thesis
      proof (rule insert_spec [OF ok'(1) cl key' probe miss size(2)], goal_cases)
        case (1 e)
        then show thesis using error [OF 1(1)] False none(1) by (simp add: cache_entry_def Let_def)
      next
        case (2 tree i c')
        then have "cache_entry P S fuel detoast cl c = Inr (i, c'\<lparr>c_last := Some i\<rparr>)"
          using False none(1) by (simp add: cache_entry_def Let_def)
        moreover have "content (c'\<lparr>c_last := Some i\<rparr>) = lru_step (nat (s_cache_size S)) (row_key cl) (content c)"
          using 2(4) lru_step_miss [OF miss, of "nat (s_cache_size S)"] size(1) ok'(2) by (simp add: nat_diff_distrib)
        ultimately show thesis using entry [OF 2(1) _ 2(3)] 2(5) by auto
      qed
    qed
  qed
qed

text \<open>Counting a use and compiling an entry keep its key and its tree.\<close>

lemma update_entry:
  assumes ok: "cache_ok P S fuel detoast N idx c" and e: "c_entries c i = Some e"
    and e': "e_key e' = e_key e" "e_hash e' = e_hash e" "e_tree e' = e_tree e" "es_tree (e_body e') = e_tree e"
  shows "cache_ok P S fuel detoast N idx (c\<lparr>c_entries := (c_entries c)(i := Some e')\<rparr>)" (is "cache_ok P S fuel detoast N idx ?c")
    "content (c\<lparr>c_entries := (c_entries c)(i := Some e')\<rparr>) = content c"
proof -
  note okD = cache_okD [OF ok]
  have same: "deref_key ?c (Entry j) = deref_key c (Entry j) \<and> deref_hash ?c (Entry j) = deref_hash c (Entry j)" for j
    using e e' by (auto simp: deref_store)
  have "table_inv (ptr_valid (s_bigendian S) (Suc (length idx)) ?c) (ptr_equal ?c) (deref_hash ?c) (c_table c)"
    by (rule table_frame [OF okD(1,2)]) (rule same)
  then show "cache_ok P S fuel detoast N idx ?c"
    using okD(2-4,7) e e' by (intro cache_okI) (auto simp: okD(5) dest: okD(6,8) intro: okD(9) split: if_splits)
  show "content ?c = content c" using same by (simp add: content_def)
qed

lemma body_spec:
  assumes ok: "cache_ok P S fuel detoast N idx c" and cl: "row_ok N idx cl"
    and size: "0 < s_cache_size S" "s_cache_size S * 10 \<le> SH_MAX_SIZE" and bound: "length (content c) \<le> nat (s_cache_size S)"
  obtains (error) e where "build_tree P S fuel detoast cl = Inl e" "lambda_cache_body P S fuel detoast cl (Some c) = Inl e"
  | (body) b c' where "build_tree P S fuel detoast cl = Inr (es_tree b)" "lambda_cache_body P S fuel detoast cl (Some c) = Inr (b, c')"
      "cache_ok P S fuel detoast N idx c'" "content c' = lru_step (nat (s_cache_size S)) (row_key cl) (content c)"
proof -
  obtain parts where parts: "probe_parts cl = Inr parts" "raw_key parts = row_key cl" "length parts = Suc (length idx)"
    using probe_parts_ok [OF cl] by blast
  let ?c = "c\<lparr>c_probe := (parts, snd (c_probe c))\<rparr>"
  note ok' = set_probe [OF ok, of "(parts, snd (c_probe c))"]
  have key: "row_key cl = raw_key (fst (c_probe ?c))" "length (fst (c_probe ?c)) = Suc (length idx)" using parts by simp_all
  have bound': "length (content ?c) \<le> nat (s_cache_size S)" using bound ok'(2) by simp
  show thesis
  proof (rule entry_spec [OF ok'(1) cl key size bound'], goal_cases)
    case (1 e)
    then show thesis using error [OF 1(1)] parts(1) by (simp add: lambda_cache_body_def)
  next
    case (2 tree i c' entry)
    define e1 where "e1 = entry\<lparr>e_uses := e_uses entry + 1\<rparr>"
    define e2 where "e2 = (if \<not> e_jit_done e1 \<and> s_jit_after_uses S > 0 \<and> e_uses e1 \<ge> of_int (s_jit_after_uses S)
      then lambda_cache_jit S c' e1 else e1)"
    have e2: "e_key e2 = e_key entry" "e_hash e2 = e_hash entry" "e_tree e2 = e_tree entry" "es_tree (e_body e2) = e_tree entry"
      using cache_okD(8) [OF 2(3,5)] by (auto simp: e2_def e1_def lambda_cache_jit_def Let_def)
    have "lambda_cache_body P S fuel detoast cl (Some c) = Inr (e_body e2, c'\<lparr>c_entries := (c_entries c')(i := Some e2)\<rparr>)"
      using parts(1) 2(2,5) by (simp add: lambda_cache_body_def Let_def e1_def e2_def)
    then show thesis using body [of "e_body e2"] update_entry [OF 2(3,5) e2] 2(1,4,6) e2(4) ok'(2) by simp
  qed
qed

lemma create_cache:
  obtains c where "lambda_cache_create = Inr c" "cache_ok P S fuel detoast N idx c" "content c = []"
proof -
  obtain tb :: "ptr table" where tb: "SH_CREATE 16 = Inr tb"
    "\<And>valid eq hk. table_inv valid eq hk tb" "keys tb = {#}"
    using create_inv [OF create_16] create_16 by blast
  let ?c = "\<lparr>c_table = tb, c_lru = [], c_nentries = 0, c_evictions = 0, c_last = None, c_probe = ([], 0),
           c_entries = (\<lambda>_. None), c_next = 0\<rparr>"
  have "cache_ok P S fuel detoast N idx ?c" by (rule cache_okI) (simp_all add: tb)
  then show thesis using that [of ?c] tb(1) by (simp add: lambda_cache_create_def content_def)
qed

lemma run_rows_spec:
  assumes "cache_ok P S fuel detoast N idx c" "list_all (row_ok N idx) rows"
    and size: "0 < s_cache_size S" "s_cache_size S * 10 \<le> SH_MAX_SIZE" and "length (content c) \<le> nat (s_cache_size S)"
  obtains (error) e where "rmapM (build_tree P S fuel detoast) rows = Inl e" "run_rows P S fuel detoast rows (Some c) = Inl e"
  | (bodies) bs c' where "rmapM (build_tree P S fuel detoast) rows = Inr (map es_tree bs)"
      "run_rows P S fuel detoast rows (Some c) = Inr (bs, Some c')" "cache_ok P S fuel detoast N idx c'"
      "content c' = fold (lru_step (nat (s_cache_size S))) (map row_key rows) (content c)"
  using assms(1,2,5)
proof (induction rows arbitrary: c thesis)
  case Nil
  then show ?case by simp
next
  case (Cons cl rows)
  have cl: "row_ok N idx cl" "list_all (row_ok N idx) rows" using Cons.prems(4) by simp_all
  show ?case
  proof (rule body_spec [OF Cons.prems(3) cl(1) size Cons.prems(5)], goal_cases)
    case (1 e)
    then show ?case using Cons.prems(1) [of e] by simp
  next
    case (2 b c')
    have bound: "length (content c') \<le> nat (s_cache_size S)" by (simp add: 2(4) lru_step_length)
    show ?case
    proof (rule Cons.IH [OF _ _ 2(3) cl(2) bound], goal_cases)
      case (1 e)
      then show ?case using 2(1,2) Cons.prems(1) [of e] by simp
    next
      case (2 bs c'')
      then show ?case using \<open>build_tree P S fuel detoast cl = _\<close> \<open>lambda_cache_body P S fuel detoast cl (Some c) = _\<close>
        \<open>content c' = _\<close> Cons.prems(2) [of "b # bs" c''] by simp
    qed
  qed
qed

lemma body_create:
  assumes "lambda_cache_create = Inr c"
  shows "lambda_cache_body P S fuel detoast cl None = lambda_cache_body P S fuel detoast cl (Some c)"
  using assms by (simp add: lambda_cache_body_def)

lemma run_create:
  assumes "list_all (row_ok N idx) rows" "0 < s_cache_size S" "s_cache_size S * 10 \<le> SH_MAX_SIZE" "rows \<noteq> []"
  obtains (error) e where "rmapM (build_tree P S fuel detoast) rows = Inl e" "run_rows P S fuel detoast rows None = Inl e"
  | (bodies) bs c where "rmapM (build_tree P S fuel detoast) rows = Inr (map es_tree bs)"
      "run_rows P S fuel detoast rows None = Inr (bs, Some c)" "cache_ok P S fuel detoast N idx c"
      "content c = fold (lru_step (nat (s_cache_size S))) (map row_key rows) []"
proof -
  obtain c where c: "lambda_cache_create = Inr c" "cache_ok P S fuel detoast N idx c" "content c = []" by (rule create_cache)
  have b: "length (content c) \<le> nat (s_cache_size S)" using c(3) by simp
  have run: "run_rows P S fuel detoast rows None = run_rows P S fuel detoast rows (Some c)"
    using assms(4) by (cases rows) (simp_all add: body_create [OF c(1)])
  show thesis using that unfolding run by (rule run_rows_spec [OF c(2) assms(1-3) b]) (simp_all add: c(3))
qed

section \<open>Properties\<close>

text \<open>C9: the cache is invisible: for the rows of a query, the bodies that \<open>lambda_cache_body\<close> returns have the
  trees that \<open>lambda_cache_build\<close> would build for each row anew, and the first row whose body cannot be built
  raises the same error. Neither hash collisions, nor eviction, nor the entry of the last row, nor
  recompilation show.\<close>

theorem lambda_cache_transparent:
  assumes "list_all (row_ok N idx) rows" "0 < s_cache_size S" "s_cache_size S * 10 \<le> SH_MAX_SIZE"
  shows "rmap (\<lambda>(bs, _). map es_tree bs) (run_rows P S fuel detoast rows None) = rmapM (build_tree P S fuel detoast) rows"
proof (cases "rows = []")
  case False
  show ?thesis by (rule run_create [OF assms False, of P fuel detoast]) simp_all
qed simp

text \<open>C10: the cache keeps the combinations used last: after the rows of a query it holds the keys that a list in
  the order of use, cut off at \<open>custom_lambda_cache_size\<close>, holds, most recent first, and \<open>nentries\<close> counts them.\<close>

theorem lambda_cache_lru:
  assumes "list_all (row_ok N idx) rows" "0 < s_cache_size S" "s_cache_size S * 10 \<le> SH_MAX_SIZE"
    and "run_rows P S fuel detoast rows None = Inr (bs, Some c)"
  shows "content c = fold (lru_step (nat (s_cache_size S))) (map row_key rows) [] \<and>
    c_nentries c = length (content c) \<and> int (c_nentries c) \<le> s_cache_size S"
proof -
  have ne: "rows \<noteq> []" using assms(4) by auto
  show ?thesis
  proof (cases rule: run_create [OF assms(1-3) ne, of P fuel detoast, case_names error bodies])
    case (bodies bs' c')
    with assms(4) have c: "cache_ok P S fuel detoast N idx c" "content c = fold (lru_step (nat (s_cache_size S))) (map row_key rows) []"
      by simp_all
    have "length (content c) \<le> nat (s_cache_size S)" unfolding c(2) by (rule fold_lru_length) simp
    moreover have n: "c_nentries c = length (content c)" using cache_okD(4) [OF c(1)] by (simp add: content_def)
    ultimately have "int (c_nentries c) \<le> s_cache_size S" using assms(2) by linarith
    then show ?thesis using c(2) n by blast
  qed (use assms(4) in simp)
qed

text \<open>Three rows that use two lambdas in turn, with room for one.\<close>

definition ex_detoast :: "bytes \<Rightarrow> int Datum" where
  "ex_detoast bs = Serialized (LambdaExpr LAMBDA_SCALAR_CONTEXT [] [] (Some (Const 23 (- 1) 0 (Scalar (int (length bs))) False))
     23 (- 1) False (- 1) False)"
definition ex_row :: "bytes \<Rightarrow> int CallLambdaExprState" where
  "ex_row bs = \<lparr>cl_value = Varlena (length bs = 1) bs, cl_args = [Some (ByValue (Scalar 7))], cl_key_idx = []\<rparr>"
definition ex_rows :: "int CallLambdaExprState list" where "ex_rows = [ex_row [1], ex_row [2, 3], ex_row [1]]"
definition ex_settings :: settings where
  "ex_settings = \<lparr>s_hoisting = True, s_cache_size = 1, s_jit_after_uses = 64, s_jit_perform = Some True, s_bigendian = False\<rparr>"
definition ex_no_prims :: "int prims" where
  "ex_no_prims = \<lparr>call_op = (\<lambda>_ _ _. Inr None), call_function = (\<lambda>_ _. Inr None), select_field = (\<lambda>_ _. Inr None),
     other_op = (\<lambda>_ _. Inr None), is_true = (\<lambda>_. False), bool_datum = (\<lambda>_. Scalar 0), null_datum = Scalar 0, const_fold = Inr\<rparr>"
definition ex_tree :: "int \<Rightarrow> int Node" where "ex_tree i = Const 23 (- 1) 0 (Scalar i) False"

lemma ex_rows_ok: "list_all (row_ok 1 []) ex_rows" "0 < s_cache_size ex_settings" "s_cache_size ex_settings * 10 \<le> SH_MAX_SIZE"
  by (simp_all add: ex_rows_def ex_row_def row_ok_def ex_settings_def SH_MAX_SIZE_def)

lemma ex_trees: "rmapM (build_tree ex_no_prims ex_settings 0 ex_detoast) ex_rows = Inr [ex_tree 1, ex_tree 2, ex_tree 1]"
  by code_simp

theorem lambda_cache_transparent_witness:
  "rmap (\<lambda>(bs, _). map es_tree bs) (run_rows ex_no_prims ex_settings 0 ex_detoast ex_rows None) =
     Inr [ex_tree 1, ex_tree 2, ex_tree 1]"
  unfolding lambda_cache_transparent [OF ex_rows_ok] by (rule ex_trees)

theorem lambda_cache_lru_witness:
  "\<exists>bs c. run_rows ex_no_prims ex_settings 0 ex_detoast ex_rows None = Inr (bs, Some c) \<and> content c = [[Some [1]]] \<and> c_nentries c = 1"
proof -
  obtain bs c where run: "run_rows ex_no_prims ex_settings 0 ex_detoast ex_rows None = Inr (bs, Some c)"
    by (rule run_create [OF ex_rows_ok, where P = ex_no_prims and fuel = 0 and detoast = ex_detoast])
      (simp_all add: ex_trees, simp add: ex_rows_def)
  have "fold (lru_step (nat (s_cache_size ex_settings))) (map row_key ex_rows) [] = [[Some [1]]]" by code_simp
  with run lambda_cache_lru [OF ex_rows_ok run] show ?thesis by auto
qed

end
