(* ===== verification/Cached_Calls.thy ===== *)
theory Cached_Calls
  imports Lambda_Calls Lambda_Cache
begin

text \<open>
  A call site over the rows of a query: \<open>ExecEvalCallLambdaExpr\<close> of \<^verbatim>\<open>execExprInterp.c\<close> takes the body of each row
  from the cache of the call site and runs it on the row's arguments. The properties put the cache,
  the injector and the evaluator together.
\<close>

section \<open>Rows through the cache\<close>

text \<open>A row is \<open>None\<close> when the called lambda is NULL; the cache is not touched then.\<close>

definition row_args :: "(bytes \<Rightarrow> 'a Datum) \<Rightarrow> 'a CallLambdaExprState \<Rightarrow> 'a Datum option list" where
  "row_args detoast cl = map (map_option (fetch detoast)) (cl_args cl)"

definition cached_call ::
  "'a prims \<Rightarrow> settings \<Rightarrow> nat \<Rightarrow> (bytes \<Rightarrow> 'a Datum) \<Rightarrow> 'a econtext \<Rightarrow> 'a CallLambdaExprState option \<Rightarrow> 'a LambdaCache option \<Rightarrow>
     ('a Datum option \<times> 'a LambdaCache option) result" where
  "cached_call P S fuel detoast ec row cache =
    (case row of
       None \<Rightarrow> Inr (None, cache)
     | Some cl \<Rightarrow>
         rbind (lambda_cache_body P S fuel detoast cl cache) (\<lambda>(body_state, cache).
         rbind (run_call P (s_hoisting S) fuel ec (row_args detoast cl) (RunBody (es_tree body_state))) (\<lambda>result.
           Inr (result, Some cache))))"

fun run_calls ::
  "'a prims \<Rightarrow> settings \<Rightarrow> nat \<Rightarrow> (bytes \<Rightarrow> 'a Datum) \<Rightarrow> 'a econtext \<Rightarrow> 'a CallLambdaExprState option list \<Rightarrow> 'a LambdaCache option \<Rightarrow>
     ('a Datum option list \<times> 'a LambdaCache option) result" where
  "run_calls P S fuel detoast ec [] cache = Inr ([], cache)"
| "run_calls P S fuel detoast ec (row # rows) cache =
    rbind (cached_call P S fuel detoast ec row cache) (\<lambda>(v, cache).
    rbind (run_calls P S fuel detoast ec rows cache) (\<lambda>(vs, cache). Inr (v # vs, cache)))"

text \<open>The reference: the call of a row with a body of its own.\<close>

definition plain_call ::
  "'a prims \<Rightarrow> bool \<Rightarrow> nat \<Rightarrow> (bytes \<Rightarrow> 'a Datum) \<Rightarrow> 'a econtext \<Rightarrow> 'a CallLambdaExprState option \<Rightarrow> 'a Datum option result" where
  "plain_call P hoist fuel detoast ec row =
    (case row of
       None \<Rightarrow> call_lambda P hoist fuel ec None [] []
     | Some cl \<Rightarrow> call_lambda P hoist fuel ec (Some (fetch detoast (cl_value cl))) (row_args detoast cl) (cl_key_idx cl))"

lemma plain_call_build:
  "plain_call P (s_hoisting S) fuel detoast ec (Some cl) =
    rbind (build_tree P S fuel detoast cl) (\<lambda>tree. run_call P (s_hoisting S) fuel ec (row_args detoast cl) (RunBody tree))"
  by (cases "build_tree P S fuel detoast cl")
    (simp_all add: plain_call_def call_lambda_def ExecEvalCallLambdaExpr_def build_tree_def row_args_def rmap_def)

definition cache_opt_ok ::
  "'a prims \<Rightarrow> settings \<Rightarrow> nat \<Rightarrow> (bytes \<Rightarrow> 'a Datum) \<Rightarrow> nat \<Rightarrow> nat list \<Rightarrow> 'a LambdaCache option \<Rightarrow> bool" where
  "cache_opt_ok P S fuel detoast N idx cache \<longleftrightarrow>
     (case cache of None \<Rightarrow> True | Some c \<Rightarrow> cache_ok P S fuel detoast N idx c \<and> length (content c) \<le> nat (s_cache_size S))"

lemma cached_call_spec:
  assumes ok: "cache_opt_ok P S fuel detoast N idx cache" and row: "pred_option (row_ok N idx) row"
    and size: "0 < s_cache_size S" "s_cache_size S * 10 \<le> SH_MAX_SIZE"
  obtains (error) e where "plain_call P (s_hoisting S) fuel detoast ec row = Inl e" "cached_call P S fuel detoast ec row cache = Inl e"
  | (result) v cache' where "plain_call P (s_hoisting S) fuel detoast ec row = Inr v"
      "cached_call P S fuel detoast ec row cache = Inr (v, cache')" "cache_opt_ok P S fuel detoast N idx cache'"
proof (cases row)
  case None
  have "plain_call P (s_hoisting S) fuel detoast ec None = Inr None"
    by (simp add: plain_call_def call_lambda_def ExecEvalCallLambdaExpr_def run_call_def)
  then show thesis using result [of None cache] None ok by (simp add: cached_call_def)
next
  case (Some cl)
  obtain c where c: "cache_ok P S fuel detoast N idx c" "length (content c) \<le> nat (s_cache_size S)"
    "lambda_cache_body P S fuel detoast cl cache = lambda_cache_body P S fuel detoast cl (Some c)"
  proof (cases cache)
    case None
    obtain c where "lambda_cache_create = Inr c" "cache_ok P S fuel detoast N idx c" "content c = []" by (rule create_cache)
    then show thesis using that [of c] None body_create [of c P S fuel detoast cl] by simp
  qed (use ok that in \<open>auto simp: cache_opt_ok_def\<close>)
  have cl: "row_ok N idx cl" using row Some by simp
  show thesis
  proof (rule body_spec [OF c(1) cl size c(2)], goal_cases)
    case (1 e)
    then show thesis using error [of e] Some c(3) by (simp add: plain_call_build cached_call_def)
  next
    case (2 b c')
    have ok': "cache_opt_ok P S fuel detoast N idx (Some c')" by (simp add: cache_opt_ok_def 2(3,4) lru_step_length)
    show thesis
    proof (cases "run_call P (s_hoisting S) fuel ec (row_args detoast cl) (RunBody (es_tree b))")
      case (Inl e)
      then show thesis using 2(1,2) c(3) Some error [of e] by (simp add: plain_call_build cached_call_def)
    next
      case (Inr v)
      then show thesis using 2(1,2) c(3) Some result [OF _ _ ok', of v] by (simp add: plain_call_build cached_call_def)
    qed
  qed
qed

lemma run_calls_plain:
  assumes "cache_opt_ok P S fuel detoast N idx cache" "list_all (pred_option (row_ok N idx)) rows"
    and size: "0 < s_cache_size S" "s_cache_size S * 10 \<le> SH_MAX_SIZE"
  shows "rmap fst (run_calls P S fuel detoast ec rows cache) = rmapM (plain_call P (s_hoisting S) fuel detoast ec) rows"
  using assms(1,2)
proof (induction rows arbitrary: cache)
  case (Cons row rows)
  have row: "pred_option (row_ok N idx) row" "list_all (pred_option (row_ok N idx)) rows" using Cons.prems(2) by simp_all
  show ?case
  proof (rule cached_call_spec [OF Cons.prems(1) row(1) size, of ec], goal_cases)
    case (1 e)
    then show ?case by simp
  next
    case (2 v cache')
    with Cons.IH [OF 2(3) row(2), symmetric] show ?case by (cases "run_calls P S fuel detoast ec rows cache'") (auto simp: rmap_def)
  qed
qed simp

section \<open>Rows of well-typed lambdas\<close>

definition typed_row :: "(bytes \<Rightarrow> 'a Datum) \<Rightarrow> ty list \<Rightarrow> 'a CallLambdaExprState \<Rightarrow> bool" where
  "typed_row detoast \<Gamma> cl \<longleftrightarrow> list_all2 wt_value \<Gamma> (row_args detoast cl) \<and>
     (case fetch detoast (cl_value cl) of Serialized le \<Rightarrow> wt_lambda (Fun \<Gamma>) le | _ \<Rightarrow> False)"

text \<open>Folding the body inlined for the row fails.\<close>

definition row_fold_error :: "'a prims \<Rightarrow> (bytes \<Rightarrow> 'a Datum) \<Rightarrow> 'a CallLambdaExprState option \<Rightarrow> pg_error \<Rightarrow> bool" where
  "row_fold_error P detoast row e \<longleftrightarrow>
     (\<exists>cl le. row = Some cl \<and> fetch detoast (cl_value cl) = Serialized le \<and> fold_error P le (row_args detoast cl) e)"

lemma row_hoisted:
  assumes row: "pred_option (\<lambda>cl. typed_row detoast \<Gamma> cl \<and> cl_key_idx cl = idx) row"
    and idx: "\<forall>i < length \<Gamma>. \<Gamma> ! i \<noteq> Base \<longrightarrow> i \<in> set idx"
    and fold: "folds_results P"
    and result: "plain_call P False f detoast ec row = Inr w"
  shows "\<exists>F. (\<forall>g \<ge> F. plain_call P True g detoast ec row = Inr w) \<or>
    (\<exists>e. row_fold_error P detoast row e \<and> (\<forall>g \<ge> F. plain_call P True g detoast ec row = Inl e))"
proof (cases row)
  case None
  then show ?thesis using result by (auto simp: plain_call_def call_lambda_def ExecEvalCallLambdaExpr_def run_call_def)
next
  case (Some cl)
  then obtain le where "fetch detoast (cl_value cl) = Serialized le" "wt_lambda (Fun \<Gamma>) le" "list_all2 wt_value \<Gamma> (row_args detoast cl)"
    "cl_key_idx cl = idx"
    using row by (auto simp: typed_row_def split: Datum.splits)
  then show ?thesis using call_hoisted [of \<Gamma> le "row_args detoast cl" idx P f ec w] idx fold result Some
    by (simp add: plain_call_def row_fold_error_def)
qed

lemma rows_hoisted:
  assumes "list_all (pred_option (\<lambda>cl. typed_row detoast \<Gamma> cl \<and> cl_key_idx cl = idx)) rows"
    and "\<forall>i < length \<Gamma>. \<Gamma> ! i \<noteq> Base \<longrightarrow> i \<in> set idx"
    and "folds_results P"
    and "rmapM (plain_call P False f detoast ec) rows = Inr ws"
  shows "\<exists>F. (\<forall>g \<ge> F. rmapM (plain_call P True g detoast ec) rows = Inr ws) \<or>
    (\<exists>row \<in> set rows. \<exists>e. row_fold_error P detoast row e \<and> (\<forall>g \<ge> F. rmapM (plain_call P True g detoast ec) rows = Inl e))"
  using assms(1,4)
proof (induction rows arbitrary: ws)
  case (Cons row rows)
  from Cons.prems(2) obtain w ws' where w: "plain_call P False f detoast ec row = Inr w"
    "rmapM (plain_call P False f detoast ec) rows = Inr ws'" "ws = w # ws'" by (auto simp: result_simps)
  obtain F where F: "(\<forall>g \<ge> F. plain_call P True g detoast ec row = Inr w) \<or>
      (\<exists>e. row_fold_error P detoast row e \<and> (\<forall>g \<ge> F. plain_call P True g detoast ec row = Inl e))"
    using row_hoisted [OF _ assms(2,3) w(1)] Cons.prems(1) by auto
  obtain F' where F': "(\<forall>g \<ge> F'. rmapM (plain_call P True g detoast ec) rows = Inr ws') \<or>
      (\<exists>row \<in> set rows. \<exists>e. row_fold_error P detoast row e \<and> (\<forall>g \<ge> F'. rmapM (plain_call P True g detoast ec) rows = Inl e))"
    using Cons.IH [OF _ w(2)] Cons.prems(1) by auto
  from F show ?case
  proof (elim disjE exE conjE)
    assume here: "\<forall>g \<ge> F. plain_call P True g detoast ec row = Inr w"
    from F' show ?case
    proof (elim disjE bexE exE conjE)
      assume "\<forall>g \<ge> F'. rmapM (plain_call P True g detoast ec) rows = Inr ws'"
      with here w(3) show ?thesis by (intro exI [of _ "max F F'"] disjI1) simp
    next
      fix row' e
      assume "row' \<in> set rows" "row_fold_error P detoast row' e" "\<forall>g \<ge> F'. rmapM (plain_call P True g detoast ec) rows = Inl e"
      with here show ?thesis by (intro exI [of _ "max F F'"] disjI2 bexI [of _ row'] exI [of _ e]) simp_all
    qed
  next
    fix e
    assume "row_fold_error P detoast row e" "\<forall>g \<ge> F. plain_call P True g detoast ec row = Inl e"
    then show ?case by (intro exI [of _ F] disjI2 bexI [of _ row] exI [of _ e]) simp_all
  qed
qed simp

section \<open>Properties\<close>

text \<open>C12: a query that calls a lambda on many rows through one cache gives the results, or the error, of calling
  it on each row with a body built for that row.\<close>

theorem cached_query_results:
  assumes "list_all (pred_option (row_ok N idx)) rows" "0 < s_cache_size S" "s_cache_size S * 10 \<le> SH_MAX_SIZE"
  shows "rmap fst (run_calls P S fuel detoast ec rows None) = rmapM (plain_call P (s_hoisting S) fuel detoast ec) rows"
  by (rule run_calls_plain [OF _ assms]) (simp add: cache_opt_ok_def)

text \<open>C8: caching and hoisting together do not change the results of a query, up to constant folding. If the calls of
  well-typed lambdas on all rows give results when every call site is evaluated on its own, then the same
  query with the cache and with hoisting gives the same results for all large enough fuel, or the error that folding
  the body inlined for one of the rows reports. Successful folding is assumed to keep results.\<close>

theorem cached_hoisted_query:
  assumes "list_all (pred_option (row_ok N idx)) rows" "0 < s_cache_size S" "s_cache_size S * 10 \<le> SH_MAX_SIZE"
    and "list_all (pred_option (\<lambda>cl. typed_row detoast \<Gamma> cl \<and> cl_key_idx cl = idx)) rows"
    and "\<forall>i < length \<Gamma>. \<Gamma> ! i \<noteq> Base \<longrightarrow> i \<in> set idx"
    and "folds_results P"
    and "s_hoisting S" and "rmapM (plain_call P False f detoast ec) rows = Inr ws"
  shows "\<exists>F. (\<forall>g \<ge> F. rmap fst (run_calls P S g detoast ec rows None) = Inr ws) \<or>
    (\<exists>row \<in> set rows. \<exists>e. row_fold_error P detoast row e \<and>
      (\<forall>g \<ge> F. rmap fst (run_calls P S g detoast ec rows None) = Inl e))"
  using rows_hoisted [OF assms(4-6,8)] run_calls_plain [OF _ assms(1-3), of P _ detoast None ec] assms(7)
  by (simp add: cache_opt_ok_def)

text \<open>Three rows that call \<open>f(x) + 1\<close>, the second with a NULL lambda.\<close>

definition ex_stored :: "bytes \<Rightarrow> int Datum" where "ex_stored bs = Serialized (if bs = [1] then ex_apply else ex_twice)"
definition ex_call_row :: "int \<Rightarrow> int CallLambdaExprState" where
  "ex_call_row x = \<lparr>cl_value = Varlena True [1], cl_args = [Some (Varlena False [2]), Some (ByValue (Scalar x))], cl_key_idx = [0]\<rparr>"
definition ex_call_rows :: "int CallLambdaExprState option list" where
  "ex_call_rows = [Some (ex_call_row 5), None, Some (ex_call_row 7)]"

lemma ex_call_rows_ok: "list_all (pred_option (row_ok 2 [0])) ex_call_rows"
  by (simp add: ex_call_rows_def ex_call_row_def row_ok_def)

lemma ex_call_rows_typed: "list_all (pred_option (\<lambda>cl. typed_row ex_stored ex_inputs cl \<and> cl_key_idx cl = [0])) ex_call_rows"
proof -
  have "typed_row ex_stored ex_inputs (ex_call_row 5)" "typed_row ex_stored ex_inputs (ex_call_row 7)" by code_simp+
  then show ?thesis by (simp add: ex_call_rows_def) (simp add: ex_call_row_def)
qed

lemma ex_call_rows_results:
  "rmapM (plain_call ex_prims False 3 ex_stored ex_ec) ex_call_rows = Inr [Some (Scalar 11), None, Some (Scalar 15)]"
  "rmapM (plain_call ex_prims True 3 ex_stored ex_ec) ex_call_rows = Inr [Some (Scalar 11), None, Some (Scalar 15)]"
  by code_simp+

theorem cached_query_results_witness:
  "rmap fst (run_calls ex_prims ex_settings 3 ex_stored ex_ec ex_call_rows None) = Inr [Some (Scalar 11), None, Some (Scalar 15)]"
  using cached_query_results [OF ex_call_rows_ok ex_rows_ok(2,3)] ex_call_rows_results(2)
  by (simp add: ex_settings_def)

theorem cached_hoisted_query_witness:
  "\<exists>F. \<forall>g \<ge> F. rmap fst (run_calls ex_prims ex_settings g ex_stored ex_ec ex_call_rows None) =
     Inr [Some (Scalar 11), None, Some (Scalar 15)]"
  using cached_hoisted_query [OF ex_call_rows_ok ex_rows_ok(2,3) ex_call_rows_typed ex_keys ex_folds(1) _ ex_call_rows_results(1)]
  by (simp add: ex_settings_def row_fold_error_def fold_error_def ex_fold)

end
