(* ===== verification/Node_Text.thy ===== *)
theory Node_Text
  imports Lambda_Nodes Hash_Bytes
begin

text \<open>
  The text form of node trees, in which lambdas are stored: the tokenizer and reader of \<^verbatim>\<open>src/backend/nodes/read.c\<close>, the
  writers of \<^verbatim>\<open>src/backend/nodes/outfuncs.c\<close> and the readers of \<^verbatim>\<open>src/backend/nodes/readfuncs.c\<close>.

  A \<open>char\<close> pointer is the list of the characters from there to the end of the memory object; reading past the last of
  them is \<open>Crash\<close>. The writers and readers of most node types are generated when the server is built: they write and
  read the fields of a struct one after the other with the macros modelled here. Which fields a struct has is the argument
  \<open>schema\<close>. The hand-written functions for lambdas, constants and boolean expressions are definitions of their own.
\<close>

abbreviation NULC :: char where "NULC \<equiv> CHR 0x00"
abbreviation BACKSLASH :: char where "BACKSLASH \<equiv> CHR 0x5C"
abbreviation QUOTE :: char where "QUOTE \<equiv> CHR 0x22"

section \<open>Nodes\<close>

text \<open>
  The fields of generated structs, by the macro that writes them. Floating point fields and C arrays occur in plans only
  and are left out. \<open>long\<close> has 64 bits.
\<close>

datatype 'n field =
    IntField int | UintField "32 word" | Uint64Field "64 word" | LongField int | OidField oid | EnumField int | BoolField bool | CharField char
  | StringField "string option" | LocationField int | NodeField 'n | BitmapsetField "nat list"

datatype field_kind = KInt | KUint | KUint64 | KLong | KOid | KEnum | KBool | KChar | KString | KLocation | KNode | KBitmapset

text \<open>
  Node pointers. Empty lists and bitmapsets are null pointers. A \<open>Const\<close> carries the bytes of its datum (the eight bytes of the \<open>Datum\<close>
  when it is passed by value). The runtime fields of a \<open>LambdaExpr\<close> and its location are not written.
\<close>

datatype pgnode =
    NullPtr
  | List "pgnode list"
  | IntList "int list"
  | OidList "oid list"
  | XidList "32 word list"
  | Bitmapset "nat list"
  | Integer int
  | Float string
  | Boolean bool
  | String string
  | BitString string
  | ConstN oid int oid int bool bool int bytes
  | BoolExprN BoolExprType pgnode int
  | LambdaExprN int pgnode pgnode pgnode oid int int bool bool
  | LambdaInputParamN pgnode oid bool pgnode int int
  | Struct string "(string \<times> pgnode field) list"

section \<open>Writing\<close>

definition blank :: "char \<Rightarrow> bool" where
  "blank c \<longleftrightarrow> c = CHR '' '' \<or> c = CHR 0x0A \<or> c = CHR 0x09"

definition special :: "char \<Rightarrow> bool" where
  "special c \<longleftrightarrow> c = CHR ''('' \<or> c = CHR '')'' \<or> c = CHR ''{'' \<or> c = CHR ''}''"

definition escape :: "string \<Rightarrow> string" where
  "escape s = concat (map (\<lambda>c. if blank c \<or> special c \<or> c = BACKSLASH then [BACKSLASH, c] else [c]) s)"

definition quote_start :: "string \<Rightarrow> bool" where
  "quote_start s \<longleftrightarrow> hd s = CHR ''<'' \<or> hd s = QUOTE \<or> is_digit (hd s) \<or>
    ((hd s = CHR ''+'' \<or> hd s = CHR ''-'') \<and> (case tl s of [] \<Rightarrow> False | d # _ \<Rightarrow> is_digit d \<or> d = CHR ''.''))"

fun outToken :: "string option \<Rightarrow> string" where
  "outToken None = ''<>''"
| "outToken (Some s) =
    (if s = [] then [QUOTE, QUOTE] else (if quote_start s then [BACKSLASH] else []) @ escape s)"

definition outChar :: "char \<Rightarrow> string" where
  "outChar c = (if c = NULC then ''<>'' else outToken (Some [c]))"

definition booltostr :: "bool \<Rightarrow> string" where
  "booltostr b = (if b then ''true'' else ''false'')"

definition show_oid :: "32 word \<Rightarrow> string" where "show_oid w = show_nat (unat w)"

definition outBitmapset :: "nat list \<Rightarrow> string" where
  "outBitmapset bms = ''(b'' @ concat (map (\<lambda>x. CHR '' '' # show_nat x) bms) @ '')''"

text \<open>\<open>outDatum\<close>; a null pointer is the empty list.\<close>

definition outDatum :: "bytes \<Rightarrow> int \<Rightarrow> bool \<Rightarrow> string" where
  "outDatum value typlen typbyval =
    show_nat (if typbyval then nat typlen else length value) @ '' [ '' @ concat (map (\<lambda>b. show_int (sint b) @ '' '') value) @ '']''"

definition write_field :: "string \<Rightarrow> string \<Rightarrow> string" where
  "write_field fldname v = '' :'' @ fldname @ '' '' @ v"

fun out_field :: "('n \<Rightarrow> string) \<Rightarrow> 'n field \<Rightarrow> string" where
  "out_field out (IntField i) = show_int i"
| "out_field out (UintField w) = show_oid w"
| "out_field out (Uint64Field w) = show_nat (unat w)"
| "out_field out (LongField i) = show_int i"
| "out_field out (OidField w) = show_oid w"
| "out_field out (EnumField i) = show_int i"
| "out_field out (BoolField b) = booltostr b"
| "out_field out (CharField c) = outChar c"
| "out_field out (StringField s) = outToken s"
| "out_field out (LocationField _) = show_int (- 1)"
| "out_field out (NodeField n) = out n"
| "out_field out (BitmapsetField bms) = outBitmapset bms"

lemma out_field_cong [fundef_cong]:
  "f = g \<Longrightarrow> (\<And>n. n \<in> set_field g \<Longrightarrow> out n = out' n) \<Longrightarrow> out_field out f = out_field out' g"
  by (cases g) auto

lemma size_field_node [termination_simp]:
  "(a, f) \<in> set fs \<Longrightarrow> n \<in> set_field f \<Longrightarrow> size n < Suc (size_list (\<lambda>x. Suc (size_field size (snd x))) fs)"
proof (induction fs)
  case (Cons x fs)
  have "size n \<le> size_field size f" if "n \<in> set_field f" for f using that by (cases f) auto
  with Cons show ?case by (fastforce simp: less_Suc_eq_le)
qed simp

fun boolop_text :: "BoolExprType \<Rightarrow> string" where
  "boolop_text AND_EXPR = ''and''"
| "boolop_text OR_EXPR = ''or''"
| "boolop_text NOT_EXPR = ''not''"

fun spaced :: "string list \<Rightarrow> string" where
  "spaced [] = []"
| "spaced [t] = t"
| "spaced (t # ts) = t @ '' '' @ spaced ts"

text \<open>The writers of the hand-written structs, on the texts of their node fields.\<close>

definition outConst :: "oid \<Rightarrow> int \<Rightarrow> oid \<Rightarrow> int \<Rightarrow> bool \<Rightarrow> bool \<Rightarrow> bytes \<Rightarrow> string" where [simp]:
  "outConst consttype' consttypmod' constcollid' constlen constbyval constisnull' constvalue' =
    ''CONST'' @ write_field ''consttype'' (show_oid consttype') @ write_field ''consttypmod'' (show_int consttypmod') @
    write_field ''constcollid'' (show_oid constcollid') @ write_field ''constlen'' (show_int constlen) @
    write_field ''constbyval'' (booltostr constbyval) @ write_field ''constisnull'' (booltostr constisnull') @
    write_field ''location'' (show_int (- 1)) @
    write_field ''constvalue'' (if constisnull' then ''<>'' else outDatum constvalue' constlen constbyval)"

definition outBoolExpr :: "BoolExprType \<Rightarrow> string \<Rightarrow> string" where [simp]:
  "outBoolExpr boolop args = ''BOOLEXPR'' @ write_field ''boolop'' (outToken (Some (boolop_text boolop))) @
    write_field ''args'' args @ write_field ''location'' (show_int (- 1))"

definition outLambdaExpr :: "int \<Rightarrow> string \<Rightarrow> string \<Rightarrow> string \<Rightarrow> oid \<Rightarrow> int \<Rightarrow> int \<Rightarrow> bool \<Rightarrow> bool \<Rightarrow> string" where [simp]:
  "outLambdaExpr lambdakind argnames argtypes expr rettype rettypmod lambdatypmod is_strict l3_safe =
    ''LAMBDAEXPR'' @ write_field ''argnames'' argnames @ write_field ''argtypes'' argtypes @
    write_field ''is_strict'' (booltostr is_strict) @ write_field ''l3_safe'' (booltostr l3_safe) @
    write_field ''lambdakind'' (show_int lambdakind) @ write_field ''rettype'' (show_oid rettype) @
    write_field ''rettypmod'' (show_int rettypmod) @ write_field ''lambdatypmod'' (show_int lambdatypmod) @
    write_field ''expr'' expr"

definition outLambdaInputParam :: "string \<Rightarrow> oid \<Rightarrow> bool \<Rightarrow> string \<Rightarrow> int \<Rightarrow> string" where [simp]:
  "outLambdaInputParam name type atomic inputs idx =
    ''LAMBDAINPUTPARAM'' @ write_field ''name'' name @ write_field ''type'' (show_oid type) @
    write_field ''isAtomic'' (booltostr atomic) @ write_field ''input_types'' inputs @
    write_field ''idx'' (show_int idx) @ write_field ''location'' (show_int (- 1))"

text \<open>Lists: those of nodes without a space in front, those of numbers with a letter and spaces.\<close>

definition outList :: "string list \<Rightarrow> string" where [simp]:
  "outList items = ''('' @ spaced items @ '')''"

definition outNumbers :: "char \<Rightarrow> string list \<Rightarrow> string" where [simp]:
  "outNumbers c items = CHR ''('' # c # concat (map (\<lambda>t. CHR '' '' # t) items) @ '')''"

definition outString :: "string \<Rightarrow> string" where [simp]:
  "outString s = [QUOTE] @ (if s = [] then [] else outToken (Some s)) @ [QUOTE]"

fun outNode :: "pgnode \<Rightarrow> string" where
  "outNode NullPtr = ''<>''"
| "outNode (List l) = outList (map outNode l)"
| "outNode (IntList l) = outNumbers (CHR ''i'') (map show_int l)"
| "outNode (OidList l) = outNumbers (CHR ''o'') (map show_oid l)"
| "outNode (XidList l) = outNumbers (CHR ''x'') (map show_oid l)"
| "outNode (Bitmapset l) = outBitmapset l"
| "outNode (Integer i) = show_int i"
| "outNode (Float f) = f"
| "outNode (Boolean b) = booltostr b"
| "outNode (String s) = outString s"
| "outNode (BitString s) = outToken (Some s)"
| "outNode (ConstN ctype ctypmod collid clen byval isnull location value) =
    ''{'' @ outConst ctype ctypmod collid clen byval isnull value @ ''}''"
| "outNode (BoolExprN boolop args location) = ''{'' @ outBoolExpr boolop (outNode args) @ ''}''"
| "outNode (LambdaExprN lambdakind argnames argtypes expr rettype rettypmod lambdatypmod is_strict l3_safe) =
    ''{'' @ outLambdaExpr lambdakind (outNode argnames) (outNode argtypes) (outNode expr) rettype rettypmod lambdatypmod is_strict l3_safe @ ''}''"
| "outNode (LambdaInputParamN name type atomic inputs idx location) =
    ''{'' @ outLambdaInputParam (outNode name) type atomic (outNode inputs) idx @ ''}''"
| "outNode (Struct nodelabel fields) =
    ''{'' @ nodelabel @ concat (map (\<lambda>(fldname, f). write_field fldname (out_field outNode f)) fields) @ ''}''"

definition nodeToString :: "pgnode \<Rightarrow> string" where "nodeToString = outNode"

section \<open>Tokens\<close>

fun skip_blanks :: "string \<Rightarrow> string result" where
  "skip_blanks [] = Inl Crash"
| "skip_blanks (c # s) = (if blank c then skip_blanks s else Inr (c # s))"

text \<open>The loop over the characters of a normal token gives the pointer behind it.\<close>

fun token_end :: "string \<Rightarrow> string result" where
  "token_end [] = Inl Crash"
| "token_end [c] = (if c = NULC \<or> blank c \<or> special c then Inr [c] else Inl Crash)"
| "token_end (c # d # s) =
    (if c = NULC \<or> blank c \<or> special c then Inr (c # d # s)
     else if c = BACKSLASH \<and> d \<noteq> NULC then token_end s
     else token_end (d # s))"

text \<open>
  A token is the pointer to its start and its length; \<open>None\<close> is the null pointer at the end of the input. The second
  component is the new \<open>pg_strtok_ptr\<close>.
\<close>

type_synonym token = "string \<times> nat"

definition pg_strtok :: "string \<Rightarrow> (token option \<times> string) result" where
  "pg_strtok s = rbind (skip_blanks s) (\<lambda>ret.
    if hd ret = NULC then Inr (None, ret)
    else if special (hd ret) then Inr (Some (ret, 1), tl ret)
    else rbind (token_end ret) (\<lambda>rest.
      let len = length ret - length rest in
      Inr (Some (ret, if len = 2 \<and> take 2 ret = ''<>'' then 0 else len), rest)))"

fun debackslash :: "string \<Rightarrow> nat \<Rightarrow> string" where
  "debackslash (c # t) (Suc n) =
    (if c = BACKSLASH \<and> 0 < n then (case t of [] \<Rightarrow> [] | d # u \<Rightarrow> d # debackslash u (n - 1))
     else c # debackslash t n)"
| "debackslash _ _ = []"

definition nullable_string :: "token \<Rightarrow> string option" where
  "nullable_string = (\<lambda>(tok, len).
    if len = 0 then None else if len = 2 \<and> take 2 tok = [QUOTE, QUOTE] then Some [] else Some (debackslash tok len))"

section \<open>Numbers\<close>

text \<open>
  \<open>strtol\<close> and \<open>strtoul\<close> with base 10 on a machine with 64-bit \<open>long\<close>: white space, a sign, digits. They give the value and the end
  pointer, which is the start when there are no digits.
\<close>

definition isspace :: "char \<Rightarrow> bool" where
  "isspace c \<longleftrightarrow> c = CHR '' '' \<or> (9 \<le> (of_char c :: nat) \<and> (of_char c :: nat) \<le> 13)"

fun skip_spaces :: "string \<Rightarrow> string result" where
  "skip_spaces [] = Inl Crash"
| "skip_spaces (c # s) = (if isspace c then skip_spaces s else Inr (c # s))"

fun scan_digits :: "nat \<Rightarrow> string \<Rightarrow> (nat \<times> string) result" where
  "scan_digits v [] = Inl Crash"
| "scan_digits v (c # s) = (if is_digit c then scan_digits (10 * v + digit_value c) s else Inr (v, c # s))"

definition is_sign :: "char \<Rightarrow> bool" where "is_sign c \<longleftrightarrow> c = CHR ''+'' \<or> c = CHR ''-''"

definition scan_number :: "string \<Rightarrow> ((bool \<times> nat) \<times> string) result" where
  "scan_number s = rbind (skip_spaces s) (\<lambda>r.
    let ds = (if is_sign (hd r) then tl r else r) in
    rbind (scan_digits 0 ds) (\<lambda>(v, e). Inr ((hd r = CHR ''-'', v), if e = ds then s else e)))"

definition strtol :: "string \<Rightarrow> (int \<times> string) result" where
  "strtol s = rmap (\<lambda>((neg, v), e).
    (if neg then max (- (2 ^ 63)) (- int v) else min (2 ^ 63 - 1) (int v), e)) (scan_number s)"

definition strtoul_ptr :: "string \<Rightarrow> (64 word \<times> string) result" where
  "strtoul_ptr s = rmap (\<lambda>((neg, v), e).
    (if v \<ge> 2 ^ 64 then - 1 else if neg then - of_nat v else of_nat v, e)) (scan_number s)"

definition to_int32 :: "int \<Rightarrow> int" where "to_int32 i = sint (word_of_int i :: 32 word)"

definition atoi :: "string \<Rightarrow> int result" where "atoi s = rmap (\<lambda>(v, _). to_int32 v) (strtol s)"
definition atoui :: "string \<Rightarrow> 32 word result" where "atoui s = rmap (\<lambda>(v, _). ucast v) (strtoul_ptr s)"
definition atooid :: "string \<Rightarrow> oid result" where "atooid s = rmap (\<lambda>(v, _). ucast v) (strtoul_ptr s)"

section \<open>Reading fields\<close>

type_synonym 'v reader = "string \<Rightarrow> ('v \<times> string) result"

definition field_token :: "token reader" where
  "field_token s = rbind (pg_strtok s) (\<lambda>(_, s). rbind (pg_strtok s) (\<lambda>(t, s).
    case t of None \<Rightarrow> Inl Crash | Some tok \<Rightarrow> Inr (tok, s)))"

definition READ_FIELD :: "(token \<Rightarrow> 'v result) \<Rightarrow> 'v reader" where
  "READ_FIELD conv s = rbind (field_token s) (\<lambda>(tok, s). rmap (\<lambda>v. (v, s)) (conv tok))"

definition READ_INT_FIELD :: "int reader" where "READ_INT_FIELD = READ_FIELD (\<lambda>(tok, _). atoi tok)"
definition READ_UINT_FIELD :: "32 word reader" where "READ_UINT_FIELD = READ_FIELD (\<lambda>(tok, _). atoui tok)"
definition READ_UINT64_FIELD :: "64 word reader" where "READ_UINT64_FIELD = READ_FIELD (\<lambda>(tok, _). rmap fst (strtoul_ptr tok))"
definition READ_LONG_FIELD :: "int reader" where "READ_LONG_FIELD = READ_FIELD (\<lambda>(tok, _). rmap fst (strtol tok))"
definition READ_OID_FIELD :: "oid reader" where "READ_OID_FIELD = READ_FIELD (\<lambda>(tok, _). atooid tok)"
definition READ_ENUM_FIELD :: "int reader" where "READ_ENUM_FIELD = READ_FIELD (\<lambda>(tok, _). atoi tok)"
definition READ_BOOL_FIELD :: "bool reader" where "READ_BOOL_FIELD = READ_FIELD (\<lambda>(tok, _). Inr (hd tok = CHR ''t''))"

definition READ_CHAR_FIELD :: "char reader" where
  "READ_CHAR_FIELD = READ_FIELD (\<lambda>(tok, len). Inr (if len = 0 then NULC else if hd tok = BACKSLASH then tok ! 1 else hd tok))"

definition READ_STRING_FIELD :: "string option reader" where
  "READ_STRING_FIELD = READ_FIELD (\<lambda>tok. Inr (nullable_string tok))"

definition READ_LOCATION_FIELD :: "int reader" where
  "READ_LOCATION_FIELD s = rbind (pg_strtok s) (\<lambda>(_, s). rbind (pg_strtok s) (\<lambda>(_, s). Inr (- 1, s)))"

definition READ_NODE_FIELD :: "'n reader \<Rightarrow> 'n reader" where
  "READ_NODE_FIELD rd s = rbind (pg_strtok s) (\<lambda>(_, s). rd s)"

text \<open>\<open>bms_add_member\<close> on the sorted list of the members.\<close>

definition bms_add_member :: "nat list \<Rightarrow> nat \<Rightarrow> nat list" where
  "bms_add_member bms x = (if x \<in> set bms then bms else insort x bms)"

text \<open>
  The loops that read numbers up to a closing parenthesis; \<open>whole\<close> is the comparison of the end pointer of \<open>strtol\<close> with the end of the
  token. Every turn consumes a token, so the length of the input is enough fuel.
\<close>

definition whole :: "token \<Rightarrow> string \<Rightarrow> bool" where
  "whole = (\<lambda>(tok, len) e. length e + len = length tok)"

definition int_token :: "token \<Rightarrow> int result" where
  "int_token t = rbind (strtol (fst t)) (\<lambda>(v, e).
    if whole t e then Inr (to_int32 v) else Inl (elog_error (''unrecognized integer: '' @ take (snd t) (fst t))))"

definition oid_token :: "string \<Rightarrow> token \<Rightarrow> 32 word result" where
  "oid_token what t = rbind (strtoul_ptr (fst t)) (\<lambda>(v, e).
    if whole t e then Inr (ucast v) else Inl (elog_error (''unrecognized '' @ what @ '': '' @ take (snd t) (fst t))))"

definition member_token :: "token \<Rightarrow> nat result" where
  "member_token t = rbind (int_token t) (\<lambda>x.
    if x < 0 then Inl (elog_error ''negative bitmapset member not allowed'') else Inr (nat x))"

fun read_items :: "string \<Rightarrow> (token \<Rightarrow> bool) \<Rightarrow> (token \<Rightarrow> 'v result) \<Rightarrow> nat \<Rightarrow> 'v list reader" where
  "read_items what closes conv 0 s = Inl Diverge"
| "read_items what closes conv (Suc fuel) s = rbind (pg_strtok s) (\<lambda>(t, s).
    case t of
      None \<Rightarrow> Inl (elog_error (''unterminated '' @ what @ '' structure''))
    | Some tok \<Rightarrow>
        if closes tok then Inr ([], s)
        else rbind (conv tok) (\<lambda>v. rbind (read_items what closes conv fuel s) (\<lambda>(vs, s). Inr (v # vs, s))))"

definition is_close :: "token \<Rightarrow> bool" where "is_close = (\<lambda>(tok, _). hd tok = CHR '')'')"

definition read_bitmapset :: "nat \<Rightarrow> nat list reader" where
  "read_bitmapset fuel s = rmap (\<lambda>(ms, s). (foldl bms_add_member [] ms, s))
    (read_items ''Bitmapset'' (\<lambda>t. snd t = 1 \<and> is_close t) member_token fuel s)"

definition expect_token :: "char \<Rightarrow> unit reader" where
  "expect_token c s = rbind (pg_strtok s) (\<lambda>(t, s).
    case t of
      None \<Rightarrow> Inl (elog_error ''incomplete Bitmapset structure'')
    | Some (tok, len) \<Rightarrow>
        if len \<noteq> 1 \<or> hd tok \<noteq> c then Inl (elog_error (''unrecognized token: '' @ take len tok)) else Inr ((), s))"

definition readBitmapset :: "nat list reader" where
  "readBitmapset s = rbind (expect_token (CHR ''('') s) (\<lambda>(_, s). rbind (expect_token (CHR ''b'') s) (\<lambda>(_, s).
    read_bitmapset (Suc (length s)) s))"

text \<open>The bytes of a datum; \<open>n\<close> of them are read.\<close>

fun read_bytes :: "nat \<Rightarrow> bytes reader" where
  "read_bytes 0 s = Inr ([], s)"
| "read_bytes (Suc n) s = rbind (pg_strtok s) (\<lambda>(t, s).
    case t of
      None \<Rightarrow> Inl Crash
    | Some (tok, _) \<Rightarrow> rbind (atoi tok) (\<lambda>b. rbind (read_bytes n s) (\<lambda>(bs, s). Inr (word_of_int b # bs, s))))"

definition expect_bracket :: "char \<Rightarrow> string \<Rightarrow> unit reader" where
  "expect_bracket c msg s = rbind (pg_strtok s) (\<lambda>(t, s).
    if (case t of None \<Rightarrow> True | Some (tok, _) \<Rightarrow> hd tok \<noteq> c) then Inl (elog_error msg) else Inr ((), s))"

definition readDatum :: "bool \<Rightarrow> bytes reader" where
  "readDatum typbyval s = rbind (pg_strtok s) (\<lambda>(t, s).
    case t of
      None \<Rightarrow> Inl Crash
    | Some (tok, _) \<Rightarrow> rbind (atoui tok) (\<lambda>len.
        rbind (expect_bracket (CHR ''['') ''expected [ to start datum'' s) (\<lambda>(_, s).
        rbind (if typbyval then (if unat len > 8 then Inl (elog_error ''byval datum but length'') else read_bytes 8 s)
               else read_bytes (unat len) s) (\<lambda>(bs, s).
        rbind (expect_bracket (CHR '']'') ''expected ] to end datum'' s) (\<lambda>(_, s). Inr (bs, s))))))"

section \<open>Reading nodes\<close>

fun read_field :: "'n reader \<Rightarrow> field_kind \<Rightarrow> 'n field reader" where
  "read_field rd KInt s = rmap (\<lambda>(v, s). (IntField v, s)) (READ_INT_FIELD s)"
| "read_field rd KUint s = rmap (\<lambda>(v, s). (UintField v, s)) (READ_UINT_FIELD s)"
| "read_field rd KUint64 s = rmap (\<lambda>(v, s). (Uint64Field v, s)) (READ_UINT64_FIELD s)"
| "read_field rd KLong s = rmap (\<lambda>(v, s). (LongField v, s)) (READ_LONG_FIELD s)"
| "read_field rd KOid s = rmap (\<lambda>(v, s). (OidField v, s)) (READ_OID_FIELD s)"
| "read_field rd KEnum s = rmap (\<lambda>(v, s). (EnumField v, s)) (READ_ENUM_FIELD s)"
| "read_field rd KBool s = rmap (\<lambda>(v, s). (BoolField v, s)) (READ_BOOL_FIELD s)"
| "read_field rd KChar s = rmap (\<lambda>(v, s). (CharField v, s)) (READ_CHAR_FIELD s)"
| "read_field rd KString s = rmap (\<lambda>(v, s). (StringField v, s)) (READ_STRING_FIELD s)"
| "read_field rd KLocation s = rmap (\<lambda>(v, s). (LocationField v, s)) (READ_LOCATION_FIELD s)"
| "read_field rd KNode s = rmap (\<lambda>(v, s). (NodeField v, s)) (READ_NODE_FIELD rd s)"
| "read_field rd KBitmapset s = rbind (pg_strtok s) (\<lambda>(_, s). rmap (\<lambda>(v, s). (BitmapsetField v, s)) (readBitmapset s))"

fun read_fields :: "'n reader \<Rightarrow> (string \<times> field_kind) list \<Rightarrow> (string \<times> 'n field) list reader" where
  "read_fields rd [] s = Inr ([], s)"
| "read_fields rd ((fldname, k) # ks) s = rbind (read_field rd k s) (\<lambda>(f, s).
    rbind (read_fields rd ks s) (\<lambda>(fs, s). Inr ((fldname, f) # fs, s)))"

definition readConst :: "pgnode reader" where
  "readConst s =
    rbind (READ_OID_FIELD s) (\<lambda>(ctype, s). rbind (READ_INT_FIELD s) (\<lambda>(ctypmod, s).
    rbind (READ_OID_FIELD s) (\<lambda>(collid, s). rbind (READ_INT_FIELD s) (\<lambda>(clen, s).
    rbind (READ_BOOL_FIELD s) (\<lambda>(byval, s). rbind (READ_BOOL_FIELD s) (\<lambda>(isnull, s).
    rbind (READ_LOCATION_FIELD s) (\<lambda>(location, s).
    rbind (pg_strtok s) (\<lambda>(_, s).
    rbind (if isnull then rmap (\<lambda>(_, s). ([], s)) (pg_strtok s) else readDatum byval s) (\<lambda>(value, s).
    Inr (ConstN ctype ctypmod collid clen byval isnull location value, s))))))))))"

definition boolop_of :: "token \<Rightarrow> BoolExprType result" where
  "boolop_of = (\<lambda>(tok, len).
    if len = 3 \<and> take 3 tok = ''and'' then Inr AND_EXPR
    else if len = 2 \<and> take 2 tok = ''or'' then Inr OR_EXPR
    else if len = 3 \<and> take 3 tok = ''not'' then Inr NOT_EXPR
    else Inl (elog_error (''unrecognized boolop '' @ take len tok)))"

definition readBoolExpr :: "pgnode reader \<Rightarrow> pgnode reader" where
  "readBoolExpr rd s = rbind (pg_strtok s) (\<lambda>(_, s). rbind (pg_strtok s) (\<lambda>(t, s).
    rbind (boolop_of (case t of None \<Rightarrow> ([], 0) | Some t \<Rightarrow> t)) (\<lambda>boolop.
    rbind (READ_NODE_FIELD rd s) (\<lambda>(args, s). rbind (READ_LOCATION_FIELD s) (\<lambda>(location, s).
    Inr (BoolExprN boolop args location, s))))))"

definition readLambdaExpr :: "pgnode reader \<Rightarrow> pgnode reader" where
  "readLambdaExpr rd s =
    rbind (READ_NODE_FIELD rd s) (\<lambda>(argnames, s). rbind (READ_NODE_FIELD rd s) (\<lambda>(argtypes, s).
    rbind (READ_BOOL_FIELD s) (\<lambda>(is_strict, s). rbind (READ_BOOL_FIELD s) (\<lambda>(l3_safe, s).
    rbind (READ_ENUM_FIELD s) (\<lambda>(lambdakind, s). rbind (READ_OID_FIELD s) (\<lambda>(rettype, s).
    rbind (READ_INT_FIELD s) (\<lambda>(rettypmod, s). rbind (READ_INT_FIELD s) (\<lambda>(lambdatypmod, s).
    rbind (READ_NODE_FIELD rd s) (\<lambda>(expr, s).
    Inr (LambdaExprN lambdakind argnames argtypes expr rettype rettypmod lambdatypmod is_strict l3_safe, s))))))))))"

definition readLambdaInputParam :: "pgnode reader \<Rightarrow> pgnode reader" where
  "readLambdaInputParam rd s =
    rbind (READ_NODE_FIELD rd s) (\<lambda>(name, s). rbind (READ_OID_FIELD s) (\<lambda>(type, s).
    rbind (READ_BOOL_FIELD s) (\<lambda>(atomic, s). rbind (READ_NODE_FIELD rd s) (\<lambda>(inputs, s).
    rbind (READ_INT_FIELD s) (\<lambda>(idx, s). rbind (READ_LOCATION_FIELD s) (\<lambda>(location, s).
    Inr (LambdaInputParamN name type atomic inputs idx location, s)))))))"

type_synonym schema = "string \<Rightarrow> (string \<times> field_kind) list option"

definition parseNodeString :: "schema \<Rightarrow> pgnode reader \<Rightarrow> pgnode reader" where
  "parseNodeString schema rd s = rbind (pg_strtok s) (\<lambda>(t, s).
    case t of
      None \<Rightarrow> Inl (elog_error ''badly formatted node string'')
    | Some (tok, len) \<Rightarrow>
        let label = take len tok in
        if label = ''CONST'' then readConst s
        else if label = ''BOOLEXPR'' then readBoolExpr rd s
        else if label = ''LAMBDAEXPR'' then readLambdaExpr rd s
        else if label = ''LAMBDAINPUTPARAM'' then readLambdaInputParam rd s
        else case schema label of
          None \<Rightarrow> Inl (elog_error ''badly formatted node string'')
        | Some kinds \<Rightarrow> rmap (\<lambda>(fields, s). (Struct label fields, s)) (read_fields rd kinds s))"

datatype token_type = LEFT_PAREN | RIGHT_PAREN | LEFT_BRACE | OTHER_TOKEN | T_Integer | T_Float | T_Boolean | T_String | T_BitString

definition nodeTokenType :: "token \<Rightarrow> token_type result" where
  "nodeTokenType = (\<lambda>(tok, len).
    let signed = is_sign (hd tok);
        numptr = (if signed then tl tok else tok);
        numlen = (if signed then len - 1 else len) in
    if (0 < numlen \<and> is_digit (hd numptr)) \<or> (1 < numlen \<and> hd numptr = CHR ''.'' \<and> is_digit (numptr ! 1)) then
      rbind (strtol numptr) (\<lambda>(v, endptr). Inr (if \<not> whole (tok, len) endptr \<or> v \<noteq> to_int32 v then T_Float else T_Integer))
    else Inr
     (if hd tok = CHR ''('' then LEFT_PAREN
      else if hd tok = CHR '')'' then RIGHT_PAREN
      else if hd tok = CHR ''{'' then LEFT_BRACE
      else if (len = 4 \<and> take 4 tok = ''true'') \<or> (len = 5 \<and> take 5 tok = ''false'') then T_Boolean
      else if hd tok = QUOTE \<and> 1 < len \<and> tok ! (len - 1) = QUOTE then T_String
      else if hd tok = CHR ''b'' \<or> hd tok = CHR ''x'' then T_BitString
      else OTHER_TOKEN))"

text \<open>
  \<open>nodeRead\<close>, whose first argument is the token if the caller has read it already, and its loop over the elements of a list. Fuel
  bounds the depth of the recursion; \<open>stringToNode\<close> gives it the length of the input, of which every call consumes a token.
\<close>

definition one_char :: "char \<Rightarrow> token \<Rightarrow> bool" where "one_char c = (\<lambda>(tok, len). len = 1 \<and> hd tok = c)"

fun nodeRead :: "schema \<Rightarrow> nat \<Rightarrow> token option \<Rightarrow> pgnode reader"
  and read_list :: "schema \<Rightarrow> nat \<Rightarrow> token \<Rightarrow> pgnode list reader" where
  "nodeRead schema 0 t s = Inl Diverge"
| "nodeRead schema (Suc fuel) None s = rbind (pg_strtok s) (\<lambda>(t, s).
    case t of None \<Rightarrow> Inr (NullPtr, s) | Some tok \<Rightarrow> nodeRead schema fuel (Some tok) s)"
| "nodeRead schema (Suc fuel) (Some (tok, len)) s = rbind (nodeTokenType (tok, len)) (\<lambda>type.
    case type of
      LEFT_BRACE \<Rightarrow> rbind (parseNodeString schema (nodeRead schema fuel None) s) (\<lambda>(n, s).
        rbind (expect_bracket (CHR ''}'') ''did not find } at end of input node'' s) (\<lambda>(_, s). Inr (n, s)))
    | LEFT_PAREN \<Rightarrow> rbind (pg_strtok s) (\<lambda>(t, s).
        case t of
          None \<Rightarrow> Inl (elog_error ''unterminated List structure'')
        | Some t \<Rightarrow>
            if one_char (CHR ''i'') t then rmap (\<lambda>(l, s). (if l = [] then NullPtr else IntList l, s)) (read_items ''List'' is_close int_token (Suc (length s)) s)
            else if one_char (CHR ''o'') t then rmap (\<lambda>(l, s). (if l = [] then NullPtr else OidList l, s)) (read_items ''List'' is_close (oid_token ''OID'') (Suc (length s)) s)
            else if one_char (CHR ''x'') t then rmap (\<lambda>(l, s). (if l = [] then NullPtr else XidList l, s)) (read_items ''List'' is_close (oid_token ''Xid'') (Suc (length s)) s)
            else if one_char (CHR ''b'') t then rmap (\<lambda>(l, s). (if l = [] then NullPtr else Bitmapset l, s)) (read_bitmapset (Suc (length s)) s)
            else rmap (\<lambda>(l, s). (if l = [] then NullPtr else List l, s)) (read_list schema fuel t s))
    | RIGHT_PAREN \<Rightarrow> Inl (elog_error ''unexpected right parenthesis'')
    | OTHER_TOKEN \<Rightarrow> if len = 0 then Inr (NullPtr, s) else Inl (elog_error (''unrecognized token: '' @ take len tok))
    | T_Integer \<Rightarrow> rmap (\<lambda>i. (Integer i, s)) (atoi tok)
    | T_Float \<Rightarrow> Inr (Float (take len tok), s)
    | T_Boolean \<Rightarrow> Inr (Boolean (hd tok = CHR ''t''), s)
    | T_String \<Rightarrow> Inr (String (debackslash (tl tok) (len - 2)), s)
    | T_BitString \<Rightarrow> Inr (BitString (debackslash tok len), s))"
| "read_list schema 0 tok s = Inl Diverge"
| "read_list schema (Suc fuel) tok s =
    (if is_close tok then Inr ([], s)
     else rbind (nodeRead schema fuel (Some tok) s) (\<lambda>(n, s). rbind (pg_strtok s) (\<lambda>(t, s).
       case t of
         None \<Rightarrow> Inl (elog_error ''unterminated List structure'')
       | Some tok \<Rightarrow> rbind (read_list schema fuel tok s) (\<lambda>(l, s). Inr (n # l, s)))))"

definition stringToNode :: "schema \<Rightarrow> string \<Rightarrow> pgnode result" where
  "stringToNode schema s = rmap fst (nodeRead schema (Suc (length s)) None s)"

end
