(* ===== verification/Node_Roundtrip.thy ===== *)
theory Node_Roundtrip
  imports Node_Text
begin

text \<open>
  What \<open>outNode\<close> writes, \<open>nodeRead\<close> reads back. The lemmas go up from tokens and numbers over fields to nodes. Each says that the
  reader stops right behind the text of its item, so that no reader looks at more than the one character that ends its last
  token; a node in braces or parentheses needs not even that.
\<close>

section \<open>Tokens\<close>

definition plain :: "char \<Rightarrow> bool" where
  "plain c \<longleftrightarrow> c \<noteq> NULC \<and> c \<noteq> BACKSLASH \<and> \<not> blank c \<and> \<not> special c"

definition no_nul :: "string \<Rightarrow> bool" where "no_nul s \<longleftrightarrow> NULC \<notin> set s"

text \<open>The text goes on with a character that ends a token.\<close>

definition ends :: "string \<Rightarrow> bool" where
  "ends s \<longleftrightarrow> s \<noteq> [] \<and> (hd s = NULC \<or> blank (hd s) \<or> special (hd s))"

lemma ends_simps [simp]:
  "ends (CHR '' '' # s)" "ends (CHR '')'' # s)" "ends (CHR ''}'' # s)" "ends (write_field n v @ s)" "\<not> ends []"
  by (simp_all add: ends_def blank_def special_def write_field_def)

lemma token_end_stop: "ends s \<Longrightarrow> token_end s = Inr s"
  by (cases s rule: token_end.cases) (auto simp: ends_def)

lemma token_end_plain: "plain c \<Longrightarrow> s \<noteq> [] \<Longrightarrow> token_end (c # s) = token_end s"
  by (cases s) (auto simp: plain_def)

lemma token_end_backslash: "c \<noteq> NULC \<Longrightarrow> token_end (BACKSLASH # c # s) = token_end s"
  by (simp add: blank_def special_def)

lemma escape_simps [simp]:
  "escape [] = []"
  "escape (c # s) = (if blank c \<or> special c \<or> c = BACKSLASH then [BACKSLASH, c] else [c]) @ escape s"
  by (simp_all add: escape_def)

lemma escape_plain: "list_all plain s \<Longrightarrow> escape s = s"
  by (induction s) (auto simp: plain_def)

lemma token_end_escape: "no_nul s \<Longrightarrow> s' \<noteq> [] \<Longrightarrow> token_end (escape s @ s') = token_end s'"
proof (induction s)
  case (Cons c s)
  then have "c \<noteq> NULC" "no_nul s" by (auto simp: no_nul_def)
  then show ?case using Cons token_end_backslash [of c] token_end_plain [of c "escape s @ s'"] by (auto simp: plain_def simp del: token_end.simps)
qed simp

lemma blank_strtok [simp]: "pg_strtok (CHR '' '' # s) = pg_strtok s"
  by (simp add: pg_strtok_def blank_def)

lemma strtok_special: "special c \<Longrightarrow> pg_strtok (c # s) = Inr (Some (c # s, 1), s)"
  by (auto simp: pg_strtok_def blank_def special_def)

lemma strtok_brackets [simp]:
  "pg_strtok (CHR ''('' # s) = Inr (Some (CHR ''('' # s, 1), s)" "pg_strtok (CHR '')'' # s) = Inr (Some (CHR '')'' # s, 1), s)"
  "pg_strtok (CHR ''{'' # s) = Inr (Some (CHR ''{'' # s, 1), s)" "pg_strtok (CHR ''}'' # s) = Inr (Some (CHR ''}'' # s, 1), s)"
  by (simp_all add: strtok_special special_def)

text \<open>The token of a text that \<open>token_end\<close> runs over, and the length it gets.\<close>

definition token_of :: "string \<Rightarrow> string \<Rightarrow> token" where
  "token_of t rest = (t @ rest, if t = ''<>'' then 0 else length t)"

lemma strtok_token:
  assumes "token_end (t @ rest) = Inr rest" "t \<noteq> []" "hd t \<noteq> NULC" "\<not> blank (hd t)" "\<not> special (hd t)"
  shows "pg_strtok (t @ rest) = Inr (Some (token_of t rest), rest)"
proof -
  obtain c u where t: "t = c # u" using assms(2) by (cases t) auto
  then have "skip_blanks (t @ rest) = Inr (t @ rest)" using assms(4) by simp
  moreover have "length t = 2 \<and> take 2 (t @ rest) = ''<>'' \<longleftrightarrow> t = ''<>''" by auto
  ultimately show ?thesis using assms t by (auto simp: pg_strtok_def token_of_def Let_def)
qed

lemma strtok_plain:
  assumes "list_all plain t" "t \<noteq> []" "ends rest"
  shows "pg_strtok (t @ rest) = Inr (Some (token_of t rest), rest)"
proof (rule strtok_token)
  have "no_nul t" using assms(1) by (auto simp: no_nul_def list_all_iff plain_def)
  then show "token_end (t @ rest) = Inr rest"
    using token_end_escape [of t rest] token_end_stop [OF assms(3)] escape_plain [OF assms(1)] assms(3) by (auto simp: ends_def)
qed (use assms in \<open>cases t; auto simp: plain_def\<close>)+

lemma start_plain: "quote_start s \<Longrightarrow> plain (hd s)"
  by (auto simp: quote_start_def plain_def blank_def special_def is_digit_def)

lemma token_text_end:
  assumes "no_nul s" "s \<noteq> []" "s' \<noteq> []"
  shows "token_end (outToken (Some s) @ s') = token_end s'"
proof (cases "quote_start s")
  case True
  obtain c u where s: "s = c # u" using assms(2) by (cases s) auto
  have "plain c" "no_nul u" using start_plain [OF True] assms(1) s by (auto simp: no_nul_def)
  then show ?thesis using True s assms(3) token_end_backslash [of c "escape u @ s'"] token_end_escape [of u s']
    by (auto simp: plain_def simp del: token_end.simps)
qed (use assms token_end_escape in auto)

lemma token_text_start:
  assumes "no_nul s" "s \<noteq> []"
  shows "outToken (Some s) \<noteq> []" "hd (outToken (Some s)) \<noteq> NULC" "\<not> blank (hd (outToken (Some s)))" "\<not> special (hd (outToken (Some s)))"
    "outToken (Some s) \<noteq> ''<>''"
  using assms by (cases s; auto simp: no_nul_def blank_def special_def quote_start_def)+

lemma strtok_text:
  assumes "no_nul s" "s \<noteq> []" "ends rest"
  shows "pg_strtok (outToken (Some s) @ rest) = Inr (Some (token_of (outToken (Some s)) rest), rest)"
  by (rule strtok_token [OF _ token_text_start(1-4) [OF assms(1,2)]])
    (use token_text_end [OF assms(1,2), of rest] token_end_stop [OF assms(3)] assms(3) in \<open>auto simp: ends_def\<close>)

lemma debackslash_escape: "debackslash (escape s @ s') (length (escape s)) = s"
  by (induction s) auto

lemma debackslash_text: "s \<noteq> [] \<Longrightarrow> debackslash (outToken (Some s) @ s') (length (outToken (Some s))) = s"
proof (cases "quote_start s")
  case True
  assume "s \<noteq> []"
  then obtain c u where s: "s = c # u" by (cases s) auto
  have "plain c" using start_plain [OF True] s by simp
  then show ?thesis using True s debackslash_escape [of u s'] by (auto simp: plain_def)
qed (auto simp: debackslash_escape)

section \<open>Numbers\<close>

definition int32 :: "int \<Rightarrow> bool" where "int32 i \<longleftrightarrow> - (2 ^ 31) \<le> i \<and> i < 2 ^ 31"

lemma ends_no_digit: "ends s \<Longrightarrow> \<not> is_digit (hd s)"
  by (auto simp: ends_def blank_def special_def is_digit_def)

lemma scan_digits_append:
  "list_all is_digit ds \<Longrightarrow> scan_digits v (ds @ s) = scan_digits (foldl (\<lambda>v c. 10 * v + digit_value c) v ds) s"
  by (induction ds arbitrary: v) auto

lemma scan_digits_stop: "s \<noteq> [] \<Longrightarrow> \<not> is_digit (hd s) \<Longrightarrow> scan_digits v s = Inr (v, s)"
  by (cases s) auto

lemma scan_digits_text:
  "ends rest \<Longrightarrow> scan_digits 0 (p @ rest) = Inr (nat_of_digits (takeWhile is_digit p), dropWhile is_digit p @ rest)"
proof -
  assume rest: "ends rest"
  have "scan_digits 0 ((takeWhile is_digit p @ dropWhile is_digit p) @ rest) = Inr (nat_of_digits (takeWhile is_digit p), dropWhile is_digit p @ rest)"
    unfolding append_assoc nat_of_digits_def
    by (subst scan_digits_append) (use rest ends_no_digit [OF rest] hd_dropWhile [of is_digit p] in
      \<open>auto simp: list_all_iff ends_def hd_append dest: set_takeWhileD intro!: scan_digits_stop split: if_splits\<close>)
  then show ?thesis by simp
qed

lemma digit_start: "is_digit c \<Longrightarrow> \<not> isspace c \<and> \<not> is_sign c"
  by (auto simp: is_digit_def isspace_def is_sign_def)

lemma show_nat_Cons: "\<exists>c ds. show_nat n = c # ds \<and> is_digit c \<and> list_all is_digit ds"
  using show_nat_digits [of n] by (cases "show_nat n") (auto simp: list_all_iff)

lemma scan_show_nat: "ends rest \<Longrightarrow> scan_number (show_nat n @ rest) = Inr ((False, n), rest)"
proof -
  assume rest: "ends rest"
  obtain c ds where n: "show_nat n = c # ds" "is_digit c" "list_all is_digit ds" using show_nat_Cons by blast
  have all: "takeWhile is_digit (show_nat n) = show_nat n" "dropWhile is_digit (show_nat n) = []" using show_nat_digits [of n] by simp_all
  have "scan_digits 0 (show_nat n @ rest) = Inr (n, rest)" using scan_digits_text [OF rest, of "show_nat n"] unfolding all by simp
  then show ?thesis using digit_start [OF n(2)] n by (auto simp: scan_number_def is_sign_def)
qed

lemma scan_show_int: "ends rest \<Longrightarrow> scan_number (show_int i @ rest) = Inr ((i < 0, nat \<bar>i\<bar>), rest)"
proof (cases "i < 0")
  case True
  assume rest: "ends rest"
  obtain c ds where n: "show_nat (nat (- i)) = c # ds" using show_nat_Cons by blast
  have "scan_digits 0 (show_nat (nat (- i)) @ rest) = Inr (nat (- i), rest)"
    using scan_show_nat [OF rest, of "nat (- i)"] digit_start show_nat_Cons [of "nat (- i)"] by (auto simp: scan_number_def result_simps Let_def split: if_splits)
  then show ?thesis using True n by (auto simp: scan_number_def show_int_def is_sign_def isspace_def)
qed (simp add: show_int_def scan_show_nat)

definition int64 :: "int \<Rightarrow> bool" where "int64 i \<longleftrightarrow> - (2 ^ 63) \<le> i \<and> i < 2 ^ 63"

lemma int32_64: "int32 i \<Longrightarrow> int64 i"
  by (simp add: int32_def int64_def)

lemma strtol_show [simp]: "ends rest \<Longrightarrow> int64 i \<Longrightarrow> strtol (show_int i @ rest) = Inr (i, rest)"
  by (auto simp: strtol_def scan_show_int int64_def)

lemma to_int32 [simp]: "int32 i \<Longrightarrow> to_int32 i = i"
  by (simp add: to_int32_def int32_def signed_take_bit_int_eq_self_iff sint_sbintrunc')

lemma to_int32_less: "to_int32 i < 2 ^ 31"
  using sint_lt [of "word_of_int i :: 32 word"] by (simp add: to_int32_def)

lemma atoi_show [simp]: "ends rest \<Longrightarrow> int32 i \<Longrightarrow> atoi (show_int i @ rest) = Inr i"
  by (simp add: atoi_def int32_64)

lemma strtoul_show [simp]: "ends rest \<Longrightarrow> strtoul_ptr (show_oid w @ rest) = Inr (ucast w, rest)"
  using unat_oid_less [of w] by (simp add: strtoul_ptr_def show_oid_def scan_show_nat)

lemma strtoul_show64 [simp]: "ends rest \<Longrightarrow> strtoul_ptr (show_nat (unat w) @ rest) = Inr (w, rest)" for w :: "64 word"
proof -
  have "unat w < 2 ^ 64" by (rule order_less_le_trans [OF unsigned_less]) simp
  then show "ends rest \<Longrightarrow> strtoul_ptr (show_nat (unat w) @ rest) = Inr (w, rest)" by (simp add: strtoul_ptr_def scan_show_nat)
qed

lemma ucast_32 [simp]: "ucast (ucast w :: 64 word) = (w :: 32 word)"
  by (rule ucast_up_ucast_id) (simp add: is_up)

lemma atooid_show [simp]: "ends rest \<Longrightarrow> atooid (show_oid w @ rest) = Inr w" "ends rest \<Longrightarrow> atoui (show_oid w @ rest) = Inr w"
  by (simp_all add: atooid_def atoui_def)

section \<open>Fields\<close>

lemma plain_digit: "is_digit c \<Longrightarrow> plain c"
  by (auto simp: is_digit_def plain_def blank_def special_def)

lemma plain_show_nat: "list_all plain (show_nat n)"
  using show_nat_digits [of n] plain_digit by (auto simp: list_all_iff)

lemma plain_show_int: "list_all plain (show_int i)"
  using plain_show_nat by (auto simp: show_int_def plain_def blank_def special_def)

lemma number_tokens [simp]:
  "ends rest \<Longrightarrow> pg_strtok (show_nat n @ rest) = Inr (Some (show_nat n @ rest, length (show_nat n)), rest)"
  "ends rest \<Longrightarrow> pg_strtok (show_int i @ rest) = Inr (Some (show_int i @ rest, length (show_int i)), rest)"
  "ends rest \<Longrightarrow> pg_strtok (show_oid w @ rest) = Inr (Some (show_oid w @ rest, length (show_oid w)), rest)"
proof -
  have digit: "show_nat n \<noteq> ''<>''" "show_int i \<noteq> ''<>''" for n i using show_nat_Cons [of n] show_nat_Cons [of "nat i"] by (auto simp: is_digit_def show_int_def)
  have int: "show_int i \<noteq> []" for i by (simp add: show_int_def)
  assume rest: "ends rest"
  show "pg_strtok (show_nat n @ rest) = Inr (Some (show_nat n @ rest, length (show_nat n)), rest)"
    "pg_strtok (show_oid w @ rest) = Inr (Some (show_oid w @ rest, length (show_oid w)), rest)"
    using strtok_plain [OF plain_show_nat _ rest] digit by (simp_all add: token_of_def show_oid_def)
  show "pg_strtok (show_int i @ rest) = Inr (Some (show_int i @ rest, length (show_int i)), rest)"
    using strtok_plain [OF plain_show_int int rest] digit by (simp add: token_of_def)
qed

lemma bool_token [simp]:
  "ends rest \<Longrightarrow> pg_strtok (booltostr b @ rest) = Inr (Some (booltostr b @ rest, length (booltostr b)), rest)"
  using strtok_plain [of "booltostr b" rest] by (auto simp: booltostr_def token_of_def plain_def blank_def special_def)

lemma hd_booltostr [simp]: "hd (booltostr b @ rest) = CHR ''t'' \<longleftrightarrow> b"
  by (simp add: booltostr_def)

lemma name_token [simp]:
  "list_all plain name \<Longrightarrow> pg_strtok (write_field name v @ rest) = Inr (Some (token_of (CHR '':'' # name) (CHR '' '' # v @ rest)), CHR '' '' # v @ rest)"
  using strtok_plain [of "CHR '':'' # name" "CHR '' '' # v @ rest"] by (simp add: write_field_def plain_def blank_def special_def)

lemma read_token:
  "list_all plain name \<Longrightarrow> pg_strtok (v @ rest) = Inr (Some tok, rest) \<Longrightarrow> READ_FIELD conv (write_field name v @ rest) = rmap (\<lambda>x. (x, rest)) (conv tok)"
  by (simp add: READ_FIELD_def field_token_def)

lemma read_scalar_fields [simp]:
  assumes "list_all plain name" "ends rest"
  shows "int32 i \<Longrightarrow> READ_INT_FIELD (write_field name (show_int i) @ rest) = Inr (i, rest)"
    "int32 i \<Longrightarrow> READ_ENUM_FIELD (write_field name (show_int i) @ rest) = Inr (i, rest)"
    "READ_OID_FIELD (write_field name (show_oid w) @ rest) = Inr (w, rest)"
    "READ_UINT_FIELD (write_field name (show_oid w) @ rest) = Inr (w, rest)"
    "READ_UINT64_FIELD (write_field name (show_nat (unat w')) @ rest) = Inr (w', rest)"
    "int64 i \<Longrightarrow> READ_LONG_FIELD (write_field name (show_int i) @ rest) = Inr (i, rest)"
    "READ_BOOL_FIELD (write_field name (booltostr b) @ rest) = Inr (b, rest)"
    "READ_LOCATION_FIELD (write_field name (show_int i) @ rest) = Inr (- 1, rest)"
  using assms by (simp_all add: READ_INT_FIELD_def READ_ENUM_FIELD_def READ_OID_FIELD_def READ_UINT_FIELD_def READ_UINT64_FIELD_def READ_LONG_FIELD_def READ_BOOL_FIELD_def
      READ_LOCATION_FIELD_def read_token)

lemma read_string_field [simp]:
  assumes "list_all plain name" "ends rest" "case v of None \<Rightarrow> True | Some s \<Rightarrow> no_nul s"
  shows "READ_STRING_FIELD (write_field name (outToken v) @ rest) = Inr (v, rest)"
proof -
  have "pg_strtok (outToken v @ rest) = Inr (Some (token_of (outToken v) rest), rest) \<and> nullable_string (token_of (outToken v) rest) = v"
  proof (cases "v = None \<or> v = Some []")
    case True
    then show ?thesis using strtok_plain [of "outToken v" rest] assms(2)
      by (auto simp: nullable_string_def token_of_def plain_def blank_def special_def)
  next
    case False
    then obtain s where s: "v = Some s" "s \<noteq> []" "no_nul s" using assms(3) by (cases v) auto
    have "\<not> (length (outToken v) = 2 \<and> take 2 (outToken v @ rest) = [QUOTE, QUOTE])" using s
      by (cases s) (auto simp: quote_start_def)
    then show ?thesis using s strtok_text [OF s(3,2) assms(2)] debackslash_text [OF s(2), of rest] token_text_start(1,5) [OF s(3,2)]
      by (auto simp: nullable_string_def token_of_def simp del: outToken.simps)
  qed
  then show ?thesis using assms(1) by (simp add: READ_STRING_FIELD_def read_token)
qed

lemma read_char_field [simp]:
  assumes "list_all plain name" "ends rest"
  shows "READ_CHAR_FIELD (write_field name (outChar c) @ rest) = Inr (c, rest)"
proof -
  have tok: "pg_strtok (outChar c @ rest) = Inr (Some (token_of (outChar c) rest), rest)"
    using strtok_plain [of "''<>''" rest] strtok_text [of "[c]" rest] assms(2)
    by (auto simp: outChar_def no_nul_def plain_def blank_def special_def simp del: outToken.simps)
  have "outToken (Some [c]) \<noteq> ''<>''" by (auto simp: quote_start_def)
  then have "(case token_of (outChar c) rest of (tok, len) \<Rightarrow> if len = 0 then NULC else if hd tok = BACKSLASH then tok ! 1 else hd tok) = c"
    by (auto simp: outChar_def token_of_def plain_def dest: start_plain)
  then show ?thesis unfolding READ_CHAR_FIELD_def read_token [OF assms(1) tok] by (simp add: case_prod_unfold)
qed

section \<open>Lists of numbers and bytes of a datum\<close>

lemma read_items_list:
  assumes "\<And>v rest. P v \<Longrightarrow> ends rest \<Longrightarrow> pg_strtok (f v @ rest) = Inr (Some (f v @ rest, length (f v)), rest)"
    and "\<And>v rest. P v \<Longrightarrow> ends rest \<Longrightarrow> \<not> closes (f v @ rest, length (f v)) \<and> conv (f v @ rest, length (f v)) = Inr v"
    and "closes (CHR '')'' # rest, 1)"
  shows "list_all P vs \<Longrightarrow> length vs < fuel \<Longrightarrow>
    read_items what closes conv fuel (concat (map (\<lambda>v. CHR '' '' # f v) vs) @ CHR '')'' # rest) = Inr (vs, rest)"
proof (induction vs arbitrary: fuel)
  case Nil
  then show ?case using assms(3) by (cases fuel) auto
next
  case (Cons v vs)
  let ?rest = "concat (map (\<lambda>v. CHR '' '' # f v) vs) @ CHR '')'' # rest"
  have "ends ?rest" by (cases vs) auto
  then show ?case using Cons assms(1,2) [of v ?rest] by (cases fuel) auto
qed

lemma item_not_close:
  "\<not> is_close (show_int i @ rest, n)" "\<not> is_close (show_oid w @ rest, n)"
  using show_nat_Cons [of "nat i"] show_nat_Cons [of "unat w"] by (auto simp: is_close_def show_int_def show_oid_def is_digit_def)

lemma item_tokens:
  "ends rest \<Longrightarrow> int32 i \<Longrightarrow> int_token (show_int i @ rest, length (show_int i)) = Inr i"
  "ends rest \<Longrightarrow> oid_token what (show_oid w @ rest, length (show_oid w)) = Inr w"
  by (simp_all add: int_token_def oid_token_def whole_def int32_64)

lemma length_items: "length vs \<le> length (concat (map (\<lambda>v. CHR '' '' # f v) vs))"
  by (induction vs) auto

lemma read_ints: "list_all int32 l \<Longrightarrow> length l < fuel \<Longrightarrow>
    read_items what is_close int_token fuel (concat (map (\<lambda>i. CHR '' '' # show_int i) l) @ CHR '')'' # rest) = Inr (l, rest)"
  by (rule read_items_list [where P = int32]) (auto simp: item_tokens item_not_close, simp add: is_close_def)

lemma read_oids: "length l < fuel \<Longrightarrow>
    read_items what is_close (oid_token what') fuel (concat (map (\<lambda>w. CHR '' '' # show_oid w) l) @ CHR '')'' # rest) = Inr (l, rest)"
  by (rule read_items_list [where P = "\<lambda>_. True"]) (auto simp: item_tokens item_not_close list_all_iff, simp add: is_close_def)

text \<open>A bitmapset is the sorted list of its members, as \<open>bms_next_member\<close> gives them.\<close>

definition bitmap :: "nat list \<Rightarrow> bool" where
  "bitmap ms \<longleftrightarrow> sorted_wrt (<) ms \<and> list_all (\<lambda>m. int32 (int m)) ms"

lemma insort_last: "\<forall>y \<in> set xs. y < x \<Longrightarrow> insort x xs = xs @ [x]" for x :: nat
  by (induction xs) auto

lemma bms_of_sorted: "sorted_wrt (<) (acc @ ms) \<Longrightarrow> foldl bms_add_member acc ms = acc @ ms"
proof (induction ms arbitrary: acc)
  case (Cons m ms)
  have "bms_add_member acc m = acc @ [m]" using Cons(2) by (auto simp: bms_add_member_def sorted_wrt_append insort_last)
  then show ?case using Cons by simp
qed simp

lemma read_members:
  assumes "bitmap ms" "length ms < fuel"
  shows "read_bitmapset fuel (concat (map (\<lambda>x. CHR '' '' # show_nat x) ms) @ CHR '')'' # rest) = Inr (ms, rest)"
proof -
  have int: "show_nat x = show_int (int x)" for x by (simp add: show_int_def)
  have "read_items ''Bitmapset'' (\<lambda>t. snd t = 1 \<and> is_close t) member_token fuel (concat (map (\<lambda>x. CHR '' '' # show_nat x) ms) @ CHR '')'' # rest) = Inr (ms, rest)"
    by (rule read_items_list [where P = "\<lambda>m. int32 (int m)"])
      (use assms in \<open>auto simp: int item_tokens item_not_close member_token_def bitmap_def, auto simp: is_close_def\<close>)
  then show ?thesis using assms(1) bms_of_sorted [of "[]" ms] by (simp add: read_bitmapset_def bitmap_def)
qed

lemma readBitmapset_text: "bitmap ms \<Longrightarrow> readBitmapset (outBitmapset ms @ rest) = Inr (ms, rest)"
proof -
  assume ms: "bitmap ms"
  let ?s = "concat (map (\<lambda>x. CHR '' '' # show_nat x) ms) @ CHR '')'' # rest"
  have "ends ?s" by (cases ms) auto
  then have "pg_strtok (CHR ''b'' # ?s) = Inr (Some (CHR ''b'' # ?s, 1), ?s)"
    using strtok_plain [of "''b''" ?s] by (simp add: token_of_def plain_def blank_def special_def)
  moreover have "length ms < Suc (length ?s)" using length_items [of ms show_nat] by simp
  ultimately show ?thesis using read_members [OF ms] by (simp add: readBitmapset_def expect_token_def outBitmapset_def)
qed

lemma read_bytes_text:
  "read_bytes (length bs) (CHR '' '' # concat (map (\<lambda>b. show_int (sint b) @ '' '') bs) @ rest) = Inr (bs, CHR '' '' # rest)"
proof (induction bs)
  case (Cons b bs)
  have "int32 (sint b)" using sint_ge [of b] sint_lt [of b] by (simp add: int32_def)
  with Cons show ?case by simp
qed simp

lemma plain_brackets: "list_all plain ''['' \<and> list_all plain '']''"
  by (simp add: plain_def blank_def special_def)

lemma readDatum_text:
  assumes "if byval then 0 \<le> clen \<and> clen \<le> 8 \<and> length bytes = 8 else length bytes < 2 ^ 32" "ends rest"
  shows "readDatum byval (outDatum bytes clen byval @ rest) = Inr (bytes, rest)"
proof -
  let ?n = "if byval then nat clen else length bytes"
  let ?bs = "concat (map (\<lambda>b. show_int (sint b) @ '' '') bytes) @ CHR '']'' # rest"
  have "?n < 4294967296" using assms(1) by (auto simp: nat_less_iff split: if_splits)
  then have n: "unat (of_nat ?n :: 32 word) = ?n" "show_nat ?n = show_oid (of_nat ?n)" unfolding show_oid_def unat_of_nat
    by (simp_all del: if_split)
  have left: "expect_bracket (CHR ''['') msg (CHR '' '' # CHR ''['' # CHR '' '' # s) = Inr ((), CHR '' '' # s)" for s msg
    using strtok_plain [of "''[''" "CHR '' '' # s"] plain_brackets by (simp add: expect_bracket_def token_of_def)
  have right: "expect_bracket (CHR '']'') msg (CHR '' '' # CHR '']'' # rest) = Inr ((), rest)" for msg
    using strtok_plain [of "'']''" rest] plain_brackets assms(2) by (simp add: expect_bracket_def token_of_def)
  have bs: "(if byval then (if unat (of_nat ?n :: 32 word) > 8 then Inl e else read_bytes 8 (CHR '' '' # ?bs))
      else read_bytes (unat (of_nat ?n :: 32 word)) (CHR '' '' # ?bs)) = Inr (bytes, CHR '' '' # CHR '']'' # rest)" for e
    using read_bytes_text [of bytes "CHR '']'' # rest"] assms(1) n(1) by (auto split: if_splits)
  have "outDatum bytes clen byval @ rest = show_oid (of_nat ?n) @ CHR '' '' # CHR ''['' # CHR '' '' # ?bs"
    by (simp add: outDatum_def n(2) [symmetric])
  then show ?thesis by (simp add: readDatum_def left bs right del: if_split)
qed

section \<open>Nodes\<close>

fun kind_of :: "'n field \<Rightarrow> field_kind" where
  "kind_of (IntField _) = KInt"
| "kind_of (UintField _) = KUint"
| "kind_of (Uint64Field _) = KUint64"
| "kind_of (LongField _) = KLong"
| "kind_of (OidField _) = KOid"
| "kind_of (EnumField _) = KEnum"
| "kind_of (BoolField _) = KBool"
| "kind_of (CharField _) = KChar"
| "kind_of (StringField _) = KString"
| "kind_of (LocationField _) = KLocation"
| "kind_of (NodeField _) = KNode"
| "kind_of (BitmapsetField _) = KBitmapset"

fun field_ok :: "'n field \<Rightarrow> bool" where
  "field_ok (IntField i) = int32 i"
| "field_ok (LongField i) = int64 i"
| "field_ok (EnumField i) = int32 i"
| "field_ok (StringField s) = (case s of None \<Rightarrow> True | Some s \<Rightarrow> no_nul s)"
| "field_ok (BitmapsetField ms) = bitmap ms"
| "field_ok _ = True"

text \<open>A literal that is a number but not an \<open>int\<close>.\<close>

definition float_text :: "string \<Rightarrow> bool" where
  "float_text f \<longleftrightarrow> f \<noteq> [] \<and> list_all plain f \<and>
    (let p = (if is_sign (hd f) then tl f else f) in
     p \<noteq> [] \<and> (is_digit (hd p) \<or> (2 \<le> length p \<and> hd p = CHR ''.'' \<and> is_digit (p ! 1))) \<and> (list_all is_digit p \<longrightarrow> 2 ^ 31 \<le> nat_of_digits p))"

definition handwritten :: "string list" where
  "handwritten = [''CONST'', ''BOOLEXPR'', ''LAMBDAEXPR'', ''LAMBDAINPUTPARAM'']"

text \<open>
  The nodes that have a text form: numbers fit their C types, strings hold no NUL, empty lists are null pointers, and generated structs
  have the fields of the schema. \<^verbatim>\<open>INT_MIN\<close> is not among the integers, nor the bit strings without a digit among the bit strings.
\<close>

fun wf_node :: "schema \<Rightarrow> pgnode \<Rightarrow> bool" where
  "wf_node schema NullPtr = True"
| "wf_node schema (List l) = (l \<noteq> [] \<and> list_all (wf_node schema) l)"
| "wf_node schema (IntList l) = (l \<noteq> [] \<and> list_all int32 l)"
| "wf_node schema (OidList l) = (l \<noteq> [])"
| "wf_node schema (XidList l) = (l \<noteq> [])"
| "wf_node schema (Bitmapset ms) = (ms \<noteq> [] \<and> bitmap ms)"
| "wf_node schema (Integer i) = (int32 i \<and> int32 (- i))"
| "wf_node schema (Float f) = float_text f"
| "wf_node schema (Boolean b) = True"
| "wf_node schema (String s) = no_nul s"
| "wf_node schema (BitString s) = (no_nul s \<and> 2 \<le> length s \<and> (hd s = CHR ''b'' \<or> hd s = CHR ''x''))"
| "wf_node schema (ConstN _ ctypmod _ clen byval isnull _ value) = (int32 ctypmod \<and> int32 clen \<and>
    (if isnull then value = [] else if byval then 0 \<le> clen \<and> clen \<le> 8 \<and> length value = 8 else length value < 2 ^ 32))"
| "wf_node schema (BoolExprN _ args _) = wf_node schema args"
| "wf_node schema (LambdaExprN lambdakind argnames argtypes expr _ rettypmod lambdatypmod _ _) =
    (int32 lambdakind \<and> wf_node schema argnames \<and> wf_node schema argtypes \<and> wf_node schema expr \<and> int32 rettypmod \<and> int32 lambdatypmod)"
| "wf_node schema (LambdaInputParamN name _ _ inputs idx _) = (wf_node schema name \<and> wf_node schema inputs \<and> int32 idx)"
| "wf_node schema (Struct nodelabel fields) = (nodelabel \<noteq> [] \<and> list_all plain nodelabel \<and> nodelabel \<noteq> ''<>'' \<and> nodelabel \<notin> set handwritten \<and>
    schema nodelabel = Some (map (\<lambda>(fldname, f). (fldname, kind_of f)) fields) \<and>
    list_all (\<lambda>(fldname, f). list_all plain fldname \<and> field_ok f \<and> pred_field (wf_node schema) f) fields)"

text \<open>Locations are written as -1.\<close>

fun unlocated :: "('n \<Rightarrow> 'n) \<Rightarrow> 'n field \<Rightarrow> 'n field" where
  "unlocated g (LocationField _) = LocationField (- 1)"
| "unlocated g f = map_field g f"

lemma unlocated_cong [fundef_cong]:
  "f = f' \<Longrightarrow> (\<And>n. n \<in> set_field f' \<Longrightarrow> g n = g' n) \<Longrightarrow> unlocated g f = unlocated g' f'"
  by (cases f') auto

fun no_locations :: "pgnode \<Rightarrow> pgnode" where
  "no_locations (List l) = List (map no_locations l)"
| "no_locations (ConstN ctype ctypmod collid clen byval isnull _ value) = ConstN ctype ctypmod collid clen byval isnull (- 1) value"
| "no_locations (BoolExprN boolop args _) = BoolExprN boolop (no_locations args) (- 1)"
| "no_locations (LambdaExprN kind argnames argtypes expr rettype rettypmod lambdatypmod is_strict l3_safe) =
    LambdaExprN kind (no_locations argnames) (no_locations argtypes) (no_locations expr) rettype rettypmod lambdatypmod is_strict l3_safe"
| "no_locations (LambdaInputParamN name type atomic inputs idx _) = LambdaInputParamN (no_locations name) type atomic (no_locations inputs) idx (- 1)"
| "no_locations (Struct nodelabel fields) = Struct nodelabel (map (\<lambda>(fldname, f). (fldname, unlocated no_locations f)) fields)"
| "no_locations n = n"

text \<open>
  \<open>reads schema n\<close>: the text of \<open>n\<close> starts with a token that cannot be taken for something else in a list, and from there \<open>nodeRead\<close>
  reads \<open>n\<close> and stops behind its text.
\<close>

fun bracketed :: "pgnode \<Rightarrow> bool" where
  "bracketed NullPtr = False"
| "bracketed (Integer _) = False"
| "bracketed (Float _) = False"
| "bracketed (Boolean _) = False"
| "bracketed (String _) = False"
| "bracketed (BitString _) = False"
| "bracketed _ = True"

definition list_marker :: "token \<Rightarrow> bool" where
  "list_marker t \<longleftrightarrow> is_close t \<or> one_char (CHR ''i'') t \<or> one_char (CHR ''o'') t \<or> one_char (CHR ''x'') t \<or> one_char (CHR ''b'') t"

definition reads :: "schema \<Rightarrow> pgnode \<Rightarrow> bool" where
  "reads schema n \<longleftrightarrow> (\<forall>rest fuel. ends rest \<or> bracketed n \<longrightarrow> length (outNode n) \<le> fuel \<longrightarrow>
    (\<exists>tok r. pg_strtok (outNode n @ rest) = Inr (Some tok, r) \<and> nodeRead schema fuel (Some tok) r = Inr (no_locations n, rest) \<and> \<not> list_marker tok))"

lemma readsE:
  assumes "reads schema n" "ends rest \<or> bracketed n" "length (outNode n) \<le> fuel"
  obtains tok r where "pg_strtok (outNode n @ rest) = Inr (Some tok, r)" "nodeRead schema fuel (Some tok) r = Inr (no_locations n, rest)" "\<not> list_marker tok"
  using assms unfolding reads_def by blast

lemma nodeRead_text:
  assumes "reads schema n" "ends rest \<or> bracketed n" "length (outNode n) < fuel"
  shows "nodeRead schema fuel None (outNode n @ rest) = Inr (no_locations n, rest)" "nodeRead schema fuel None (CHR '' '' # outNode n @ rest) = Inr (no_locations n, rest)"
proof -
  obtain f where f: "fuel = Suc f" "length (outNode n) \<le> f" using assms(3) by (cases fuel) auto
  obtain tok r where "pg_strtok (outNode n @ rest) = Inr (Some tok, r)" "nodeRead schema f (Some tok) r = Inr (no_locations n, rest)"
    by (rule readsE [OF assms(1,2) f(2)])
  then show "nodeRead schema fuel None (outNode n @ rest) = Inr (no_locations n, rest)" "nodeRead schema fuel None (CHR '' '' # outNode n @ rest) = Inr (no_locations n, rest)"
    using f by simp_all
qed

lemma read_node_field:
  assumes "reads schema n" "list_all plain name" "ends rest" "length (outNode n) < fuel"
  shows "READ_NODE_FIELD (nodeRead schema fuel None) (write_field name (outNode n) @ rest) = Inr (no_locations n, rest)"
  using assms nodeRead_text(2) [OF assms(1) disjI1 [OF assms(3)] assms(4)] by (simp add: READ_NODE_FIELD_def)

text \<open>A node whose text is one token.\<close>

lemma reads_token:
  assumes "\<And>rest. ends rest \<Longrightarrow> pg_strtok (outNode n @ rest) = Inr (Some (token_of (outNode n) rest), rest)"
    and "\<And>rest fuel. ends rest \<Longrightarrow> nodeRead schema (Suc fuel) (Some (token_of (outNode n) rest)) rest = Inr (no_locations n, rest)"
    and "\<not> bracketed n" "outNode n \<noteq> []" "hd (outNode n) \<noteq> CHR '')''" "outNode n \<notin> set [''i'', ''o'', ''x'', ''b'']"
  shows "reads schema n"
  unfolding reads_def
proof (intro allI impI)
  fix rest fuel assume rest: "ends rest \<or> bracketed n" and "length (outNode n) \<le> fuel"
  then obtain f where "fuel = Suc f" using assms(4) by (cases fuel) auto
  then show "\<exists>tok r. pg_strtok (outNode n @ rest) = Inr (Some tok, r) \<and> nodeRead schema fuel (Some tok) r = Inr (no_locations n, rest) \<and> \<not> list_marker tok"
    using rest assms by (cases "outNode n") (auto simp: list_marker_def one_char_def is_close_def token_of_def)
qed

lemma reads_null: "reads schema NullPtr"
proof (rule reads_token)
  show "pg_strtok (outNode NullPtr @ rest) = Inr (Some (token_of (outNode NullPtr) rest), rest)" if "ends rest" for rest
    using strtok_plain [of "''<>''" rest] that by (simp add: plain_def blank_def special_def)
qed (simp_all add: token_of_def nodeTokenType_def is_sign_def)

lemma reads_boolean: "reads schema (Boolean b)"
proof (rule reads_token)
  show "pg_strtok (outNode (Boolean b) @ rest) = Inr (Some (token_of (outNode (Boolean b)) rest), rest)" if "ends rest" for rest
    using bool_token [OF that, of b] by (simp add: token_of_def) (simp add: booltostr_def)
qed (simp_all add: token_of_def nodeTokenType_def is_sign_def booltostr_def is_digit_def)

lemma reads_integer:
  assumes "int32 i" "int32 (- i)"
  shows "reads schema (Integer i)"
proof (rule reads_token)
  have tok: "token_of (show_int i) rest = (show_int i @ rest, length (show_int i))" for rest
    using show_nat_Cons [of "nat i"] by (auto simp: token_of_def show_int_def is_digit_def)
  show "pg_strtok (outNode (Integer i) @ rest) = Inr (Some (token_of (outNode (Integer i)) rest), rest)" if "ends rest" for rest
    using that tok by simp
  obtain c ds where n: "show_nat (nat \<bar>i\<bar>) = c # ds" "is_digit c" using show_nat_Cons by blast
  have "nodeTokenType (show_int i @ rest, length (show_int i)) = Inr T_Integer" if rest: "ends rest" for rest
  proof -
    have "(if is_sign (hd (show_int i @ rest)) then tl (show_int i @ rest) else show_int i @ rest) = show_int \<bar>i\<bar> @ rest"
      "(if is_sign (hd (show_int i @ rest)) then length (show_int i) - 1 else length (show_int i)) = length (show_int \<bar>i\<bar>)"
      using n digit_start [OF n(2)] by (auto simp: show_int_def abs_if is_sign_def split: if_splits)
    moreover have "int32 \<bar>i\<bar>" using assms by (auto simp: abs_if)
    moreover have "0 < length (show_int \<bar>i\<bar>)" "is_digit (hd (show_int \<bar>i\<bar> @ rest))" using n by (simp_all add: show_int_def)
    moreover have "whole (show_int i @ rest, length (show_int i)) rest" by (simp add: whole_def)
    ultimately show ?thesis using rest by (simp add: nodeTokenType_def Let_def int32_64 del: if_split)
  qed
  then show "nodeRead schema (Suc fuel) (Some (token_of (outNode (Integer i)) rest)) rest = Inr (no_locations (Integer i), rest)" if "ends rest" for rest fuel
    using that assms tok by simp
qed (use show_nat_Cons [of "nat i"] in \<open>auto simp: show_int_def is_digit_def\<close>)

lemma reads_float:
  assumes "float_text f"
  shows "reads schema (Float f)"
proof (rule reads_token)
  define p where "p = (if is_sign (hd f) then tl f else f)"
  have f: "f \<noteq> []" "list_all plain f" "p \<noteq> []" "is_digit (hd p) \<or> (2 \<le> length p \<and> hd p = CHR ''.'' \<and> is_digit (p ! 1))"
    "list_all is_digit p \<Longrightarrow> 2 ^ 31 \<le> nat_of_digits p" using assms by (auto simp: float_text_def p_def Let_def)
  have start: "\<not> isspace (hd p)" "\<not> is_sign (hd p)" using f(4) digit_start by (auto simp: isspace_def is_sign_def)
  have "is_sign (hd f) \<or> is_digit (hd f) \<or> hd f = CHR ''.''" using f(4) unfolding p_def by (cases "is_sign (hd f)") auto
  then have hd: "hd f \<noteq> CHR ''<''" "hd f \<noteq> CHR '')''" "hd f \<notin> set ''ioxb''" by (auto simp: is_sign_def is_digit_def)
  have tok: "token_of f rest = (f @ rest, length f)" for rest using hd by (auto simp: token_of_def)
  show "pg_strtok (outNode (Float f) @ rest) = Inr (Some (token_of (outNode (Float f)) rest), rest)" if "ends rest" for rest
    using strtok_plain [OF f(2,1) that] by simp
  have "nodeTokenType (f @ rest, length f) = Inr T_Float" if rest: "ends rest" for rest
  proof -
    have "(if is_sign (hd (f @ rest)) then tl (f @ rest) else f @ rest) = p @ rest" "(if is_sign (hd (f @ rest)) then length f - 1 else length f) = length p"
      using f(1) by (simp_all add: p_def)
    moreover have "(0 < length p \<and> is_digit (hd (p @ rest))) \<or> (1 < length p \<and> hd (p @ rest) = CHR ''.'' \<and> is_digit ((p @ rest) ! 1))"
      using f(3,4) by (auto simp: nth_append)
    moreover obtain v e where "strtol (p @ rest) = Inr (v, e)" "\<not> whole (f @ rest, length f) e \<or> v \<noteq> to_int32 v"
    proof -
      let ?e = "dropWhile is_digit p @ rest"
      have scan: "scan_number (p @ rest) = Inr ((False, nat_of_digits (takeWhile is_digit p)), if ?e = p @ rest then p @ rest else ?e)"
        using f(3) start scan_digits_text [OF rest, of p] by (cases p) (auto simp: scan_number_def is_sign_def)
      show ?thesis
      proof (cases "list_all is_digit p")
        case True
        then have "takeWhile is_digit p = p" by (simp add: list_all_iff)
        let ?v = "min (2 ^ 63 - 1) (int (nat_of_digits p))"
        have "int (2 ^ 31) \<le> int (nat_of_digits p)" using f(5) [OF True] by (simp only: of_nat_le_iff)
        then have "2 ^ 31 \<le> ?v" by simp
        then have "?v \<noteq> to_int32 ?v" using to_int32_less [of ?v] by linarith
        moreover have "strtol (p @ rest) = Inr (?v, if ?e = p @ rest then p @ rest else ?e)" using scan \<open>takeWhile is_digit p = p\<close> by (simp add: strtol_def)
        ultimately show ?thesis using that by blast
      next
        case False
        then have "dropWhile is_digit p \<noteq> []" by (simp add: list_all_iff)
        then have "\<not> whole (f @ rest, length f) (if ?e = p @ rest then p @ rest else ?e)" using f(3) by (simp add: whole_def)
        moreover have "\<exists>v. strtol (p @ rest) = Inr (v, if ?e = p @ rest then p @ rest else ?e)" using scan by (simp add: strtol_def)
        ultimately show ?thesis using that by blast
      qed
    qed
    ultimately show ?thesis by (simp add: nodeTokenType_def Let_def del: if_split)
  qed
  then show "nodeRead schema (Suc fuel) (Some (token_of (outNode (Float f)) rest)) rest = Inr (no_locations (Float f), rest)" if "ends rest" for rest fuel
    using that tok by simp
  show "outNode (Float f) \<noteq> []" "hd (outNode (Float f)) \<noteq> CHR '')''" "outNode (Float f) \<notin> set [''i'', ''o'', ''x'', ''b'']" using f(1) hd by auto
qed simp

lemma reads_string:
  assumes "no_nul s"
  shows "reads schema (String s)"
proof (rule reads_token)
  let ?t = "if s = [] then [] else outToken (Some s)"
  have tok: "token_of (outNode (String s)) rest = (CHR 0x22 # ?t @ CHR 0x22 # rest, Suc (Suc (length ?t)))" for rest by (simp add: token_of_def)
  have quote: "plain QUOTE" by (simp add: plain_def blank_def special_def)
  have "token_end (outNode (String s) @ rest) = Inr rest" if "ends rest" for rest
    using token_end_plain [OF quote, of "?t @ QUOTE # rest"] token_end_plain [OF quote, of rest] token_text_end [OF assms, of "QUOTE # rest"] that
      token_end_stop [OF that] by (auto simp: ends_def simp del: token_end.simps outToken.simps)
  from strtok_token [OF this]
  show "pg_strtok (outNode (String s) @ rest) = Inr (Some (token_of (outNode (String s)) rest), rest)" if "ends rest" for rest
    using that by (simp add: blank_def special_def)
  have "nodeTokenType (QUOTE # ?t @ QUOTE # rest, Suc (Suc (length ?t))) = Inr T_String" for rest
    by (simp add: nodeTokenType_def is_sign_def is_digit_def nth_append del: outToken.simps)
  then show "nodeRead schema (Suc fuel) (Some (token_of (outNode (String s)) rest)) rest = Inr (no_locations (String s), rest)" for rest fuel
    using debackslash_text [of s "QUOTE # rest"] unfolding tok by (simp del: outToken.simps)
qed (simp_all del: outToken.simps)

lemma reads_bitstring:
  assumes "no_nul s" "2 \<le> length s" "hd s = CHR ''b'' \<or> hd s = CHR ''x''"
  shows "reads schema (BitString s)"
proof (rule reads_token)
  have s: "s \<noteq> []" "outToken (Some s) = escape s" using assms by (auto simp: quote_start_def is_digit_def)
  have hd: "hd (escape s) = hd s" using assms s(1) by (cases s) (auto simp: blank_def special_def)
  have len: "2 \<le> length (escape s)"
  proof -
    have "length s \<le> length (escape s)" by (induction s) auto
    then show ?thesis using assms(2) by simp
  qed
  have ne: "escape s \<noteq> []" "escape s \<noteq> ''<>''" using len hd assms(3) by auto
  show "pg_strtok (outNode (BitString s) @ rest) = Inr (Some (token_of (outNode (BitString s)) rest), rest)" if "ends rest" for rest
    using strtok_text [OF assms(1) s(1) that] by (simp del: outToken.simps)
  have "nodeTokenType (escape s @ rest, length (escape s)) = Inr T_BitString" for rest
  proof -
    have "hd (escape s @ rest) = hd s" using hd ne by simp
    moreover have "take 4 (escape s @ rest) \<noteq> ''true''" "take 5 (escape s @ rest) \<noteq> ''false''"
      using ne(1) hd assms(3) by (cases "escape s"; auto)+
    ultimately show ?thesis using assms(3) by (auto simp: nodeTokenType_def is_sign_def is_digit_def)
  qed
  then show "nodeRead schema (Suc fuel) (Some (token_of (outNode (BitString s)) rest)) rest = Inr (no_locations (BitString s), rest)" for rest fuel
    using debackslash_escape [of s rest] ne by (simp add: s token_of_def del: outToken.simps)
  show "outNode (BitString s) \<noteq> []" "hd (outNode (BitString s)) \<noteq> CHR '')''" "outNode (BitString s) \<notin> set [''i'', ''o'', ''x'', ''b'']"
    using ne len hd assms(3) by (auto simp: s(2) simp del: outToken.simps)
qed simp

text \<open>Lists.\<close>

lemma reads_paren:
  assumes "outNode n = CHR ''('' # t" "bracketed n"
    and "\<And>rest fuel. length t \<le> fuel \<Longrightarrow> nodeRead schema (Suc fuel) (Some (CHR ''('' # t @ rest, 1)) (t @ rest) = Inr (no_locations n, rest)"
  shows "reads schema n"
  unfolding reads_def
proof (intro allI impI)
  fix rest fuel assume "length (outNode n) \<le> fuel"
  then obtain f where "fuel = Suc f" "length t \<le> f" using assms(1) by (cases fuel) auto
  then show "\<exists>tok r. pg_strtok (outNode n @ rest) = Inr (Some tok, r) \<and> nodeRead schema fuel (Some tok) r = Inr (no_locations n, rest) \<and> \<not> list_marker tok"
    using assms by (auto simp: list_marker_def one_char_def is_close_def)
qed

lemma type_paren: "nodeTokenType (CHR ''('' # s, Suc 0) = Inr LEFT_PAREN"
  by (simp add: nodeTokenType_def is_sign_def is_digit_def)

lemma marker_token: "c \<in> set ''ioxb'' \<Longrightarrow> ends s \<Longrightarrow> pg_strtok (c # s) = Inr (Some (c # s, 1), s)"
  using strtok_plain [of "[c]" s] by (auto simp: token_of_def plain_def blank_def special_def)

lemma ends_items: "ends (concat (map (\<lambda>v. CHR '' '' # f v) l) @ CHR '')'' # rest)"
  by (cases l) auto

lemmas read_item_loops =
  read_ints [OF _ le_less_trans [OF length_items [of _ show_int]]] read_oids [OF le_less_trans [OF length_items [of _ show_oid]]]
  read_members [OF _ le_less_trans [OF length_items [of _ show_nat]]]

lemmas reads_paren_simps = comp_def type_paren marker_token ends_items one_char_def read_item_loops

lemma reads_ints: "l \<noteq> [] \<Longrightarrow> list_all int32 l \<Longrightarrow> reads schema (IntList l)"
  by (rule reads_paren [where t = "CHR ''i'' # concat (map (\<lambda>i. CHR '' '' # show_int i) l) @ '')''"])
    (simp_all add: reads_paren_simps del: read_items.simps)

lemma reads_oids: "l \<noteq> [] \<Longrightarrow> reads schema (OidList l)"
  by (rule reads_paren [where t = "CHR ''o'' # concat (map (\<lambda>w. CHR '' '' # show_oid w) l) @ '')''"])
    (simp_all add: reads_paren_simps del: read_items.simps)

lemma reads_xids: "l \<noteq> [] \<Longrightarrow> reads schema (XidList l)"
  by (rule reads_paren [where t = "CHR ''x'' # concat (map (\<lambda>w. CHR '' '' # show_oid w) l) @ '')''"])
    (simp_all add: reads_paren_simps del: read_items.simps)

lemma reads_members: "ms \<noteq> [] \<Longrightarrow> bitmap ms \<Longrightarrow> reads schema (Bitmapset ms)"
  by (rule reads_paren [where t = "CHR ''b'' # concat (map (\<lambda>x. CHR '' '' # show_nat x) ms) @ '')''"])
    (simp_all add: outBitmapset_def reads_paren_simps)

lemma read_list_text:
  assumes "l \<noteq> []" "list_all (reads schema) l" "length (spaced (map outNode l)) < fuel"
  shows "\<exists>tok r. pg_strtok (spaced (map outNode l) @ CHR '')'' # rest) = Inr (Some tok, r) \<and>
    read_list schema fuel tok r = Inr (map no_locations l, rest) \<and> \<not> list_marker tok"
  using assms
proof (induction l arbitrary: fuel)
  case (Cons x l)
  then have x: "reads schema x" by simp
  obtain f where f: "fuel = Suc f" using Cons.prems(3) by (cases fuel) auto
  show ?case
  proof (cases "l = []")
    case True
    then have len: "length (outNode x) \<le> f" using Cons.prems(3) f by simp
    obtain tok r where tok: "pg_strtok (outNode x @ CHR '')'' # rest) = Inr (Some tok, r)"
      "nodeRead schema f (Some tok) r = Inr (no_locations x, CHR '')'' # rest)" "\<not> list_marker tok"
      using readsE [OF x disjI1 [OF ends_simps(2)] len] by blast
    then obtain g where "f = Suc g" by (cases f) auto
    then show ?thesis using True f tok by (auto simp: list_marker_def is_close_def)
  next
    case False
    have spaced: "spaced (map outNode (x # l)) = outNode x @ CHR '' '' # spaced (map outNode l)" using False by (cases l) auto
    then have len: "length (outNode x) \<le> f" "length (spaced (map outNode l)) < f" using Cons.prems(3) f by auto
    obtain tok r where tok: "pg_strtok (outNode x @ CHR '' '' # spaced (map outNode l) @ CHR '')'' # rest) = Inr (Some tok, r)"
      "nodeRead schema f (Some tok) r = Inr (no_locations x, CHR '' '' # spaced (map outNode l) @ CHR '')'' # rest)" "\<not> list_marker tok"
      using readsE [OF x disjI1 [OF ends_simps(1)] len(1)] by blast
    obtain tok' r' where "pg_strtok (spaced (map outNode l) @ CHR '')'' # rest) = Inr (Some tok', r')"
      "read_list schema f tok' r' = Inr (map no_locations l, rest)" using Cons.IH [OF False _ len(2)] Cons.prems(2) by auto
    then show ?thesis using f tok unfolding spaced by (auto simp: list_marker_def)
  qed
qed simp

lemma reads_list:
  assumes "l \<noteq> []" "list_all (reads schema) l"
  shows "reads schema (List l)"
proof (rule reads_paren [where t = "spaced (map outNode l) @ '')''"])
  fix rest fuel assume "length (spaced (map outNode l) @ '')'') \<le> fuel"
  then obtain tok r where "pg_strtok (spaced (map outNode l) @ CHR '')'' # rest) = Inr (Some tok, r)"
    "read_list schema fuel tok r = Inr (map no_locations l, rest)" "\<not> list_marker tok" using read_list_text [OF assms, of fuel rest] by auto
  then show "nodeRead schema (Suc fuel) (Some (CHR ''('' # (spaced (map outNode l) @ '')'') @ rest, 1)) ((spaced (map outNode l) @ '')'') @ rest) = Inr (no_locations (List l), rest)"
    using assms(1) by (simp add: type_paren list_marker_def)
qed simp_all

end
