(* ===== verification/Lambda_Text.thy ===== *)
theory Lambda_Text
  imports Node_Roundtrip
begin

text \<open>
  Lambdas as text and as stored values: structs and whole trees on top of \<open>Node_Roundtrip\<close>, and the serialized form of a lambda
  (\<^verbatim>\<open>src/backend/utils/adt/lambda_serialize.c\<close>), a varlena that holds the text of the \<open>LambdaExpr\<close>.
\<close>

section \<open>Structs\<close>

lemma type_brace: "nodeTokenType (CHR ''{'' # s, Suc 0) = Inr LEFT_BRACE"
  by (simp add: nodeTokenType_def is_sign_def is_digit_def)

lemma expect_brace: "expect_bracket (CHR ''}'') msg (CHR ''}'' # s) = Inr ((), s)"
  by (simp add: expect_bracket_def)

lemma reads_brace:
  assumes "outNode n = CHR ''{'' # t @ ''}''" "bracketed n"
    and "\<And>rest fuel. length t < fuel \<Longrightarrow> parseNodeString schema (nodeRead schema fuel None) (t @ CHR ''}'' # rest) = Inr (no_locations n, CHR ''}'' # rest)"
  shows "reads schema n"
  unfolding reads_def
proof (intro allI impI)
  fix rest fuel assume "length (outNode n) \<le> fuel"
  then obtain f where f: "fuel = Suc f" "length t < f" using assms(1) by (cases fuel) auto
  then show "\<exists>tok r. pg_strtok (outNode n @ rest) = Inr (Some tok, r) \<and> nodeRead schema fuel (Some tok) r = Inr (no_locations n, rest) \<and> \<not> list_marker tok"
    using assms(1) assms(3) [OF f(2), of rest] by (auto simp: type_brace expect_brace list_marker_def one_char_def is_close_def)
qed

lemma label_token:
  "label \<noteq> [] \<Longrightarrow> list_all plain label \<Longrightarrow> label \<noteq> ''<>'' \<Longrightarrow> ends s \<Longrightarrow> pg_strtok (label @ s) = Inr (Some (label @ s, length label), s)"
  by (simp add: strtok_plain token_of_def)

lemma parse_labels:
  assumes "ends s"
  shows "parseNodeString schema rd (''CONST'' @ s) = readConst s"
    "parseNodeString schema rd (''BOOLEXPR'' @ s) = readBoolExpr rd s"
    "parseNodeString schema rd (''LAMBDAEXPR'' @ s) = readLambdaExpr rd s"
    "parseNodeString schema rd (''LAMBDAINPUTPARAM'' @ s) = readLambdaInputParam rd s"
  using label_token [of "''CONST''" s] label_token [of "''BOOLEXPR''" s] label_token [of "''LAMBDAEXPR''" s] label_token [of "''LAMBDAINPUTPARAM''" s] assms
  by (simp_all add: parseNodeString_def plain_def blank_def special_def)

lemma parse_struct:
  assumes "label \<noteq> []" "list_all plain label" "label \<noteq> ''<>''" "label \<notin> set handwritten" "schema label = Some kinds" "ends s"
  shows "parseNodeString schema rd (label @ s) = rmap (\<lambda>(fields, s). (Struct label fields, s)) (read_fields rd kinds s)"
  using assms label_token [of label s] by (simp add: parseNodeString_def handwritten_def)

lemma plain_chars [simp]: "plain c \<longleftrightarrow> c \<noteq> NULC \<and> c \<noteq> BACKSLASH \<and> c \<notin> {CHR '' '', CHR 0x0A, CHR 0x09, CHR ''('', CHR '')'', CHR ''{'', CHR ''}''}"
  by (auto simp: plain_def blank_def special_def)

lemma length_write_field: "length v \<le> length (write_field name v)"
  by (simp add: write_field_def)

lemma readDatum_blank [simp]: "readDatum byval (CHR '' '' # s) = readDatum byval s"
  by (simp add: readDatum_def)

lemma reads_const:
  assumes "wf_node schema (ConstN ctype ctypmod collid clen byval isnull loc bytes)"
  shows "reads schema (ConstN ctype ctypmod collid clen byval isnull loc bytes)"
proof -
  let ?v = "if isnull then ''<>'' else outDatum bytes clen byval"
  let ?t = "''CONST'' @ write_field ''consttype'' (show_oid ctype) @ write_field ''consttypmod'' (show_int ctypmod) @
    write_field ''constcollid'' (show_oid collid) @ write_field ''constlen'' (show_int clen) @
    write_field ''constbyval'' (booltostr byval) @ write_field ''constisnull'' (booltostr isnull) @
    write_field ''location'' (show_int (- 1)) @ write_field ''constvalue'' ?v"
  have "parseNodeString schema rd (?t @ CHR ''}'' # rest) = Inr (ConstN ctype ctypmod collid clen byval isnull (- 1) bytes, CHR ''}'' # rest)" for rd rest
  proof -
    have "pg_strtok (''<>'' @ CHR ''}'' # rest) = Inr (Some (token_of ''<>'' (CHR ''}'' # rest)), CHR ''}'' # rest)" by (rule strtok_plain) auto
    then show ?thesis unfolding append_assoc parse_labels(1) [OF ends_simps(4)] using assms readDatum_text [of byval clen bytes "CHR ''}'' # rest"]
      by (auto simp: readConst_def)
  qed
  then show ?thesis by (intro reads_brace [where t = ?t]) simp_all
qed

lemma boolop_token:
  "ends s \<Longrightarrow> pg_strtok (boolop_text boolop @ s) = Inr (Some (boolop_text boolop @ s, length (boolop_text boolop)), s)"
  "outToken (Some (boolop_text boolop)) = boolop_text boolop"
  using strtok_plain [of "boolop_text boolop" s] by (cases boolop; simp add: token_of_def quote_start_def blank_def special_def is_digit_def)+

lemma boolop_value: "boolop_of (boolop_text b @ s, length (boolop_text b)) = Inr b"
  by (cases b) (simp_all add: boolop_of_def)

lemma reads_bool_expr:
  assumes "reads schema args"
  shows "reads schema (BoolExprN boolop args loc)"
proof -
  let ?t = "''BOOLEXPR'' @ write_field ''boolop'' (boolop_text boolop) @ write_field ''args'' (outNode args) @ write_field ''location'' (show_int (- 1))"
  have "parseNodeString schema (nodeRead schema fuel None) (?t @ CHR ''}'' # rest) = Inr (BoolExprN boolop (no_locations args) (- 1), CHR ''}'' # rest)"
    if "length ?t < fuel" for rest fuel
  proof -
    have "length (outNode args) < fuel" using that length_write_field [of "outNode args" "''args''"] by simp
    note read_node_field [OF assms _ _ this]
    then show ?thesis unfolding append_assoc parse_labels(2) [OF ends_simps(4)]
      by (simp add: readBoolExpr_def boolop_token boolop_value)
  qed
  then show ?thesis by (intro reads_brace [where t = ?t]) (simp_all add: boolop_token(2) del: outToken.simps)
qed

lemma reads_lambda:
  assumes "reads schema argnames" "reads schema argtypes" "reads schema expr" "int32 kind" "int32 rettypmod" "int32 lambdatypmod"
  shows "reads schema (LambdaExprN kind argnames argtypes expr rettype rettypmod lambdatypmod is_strict l3_safe)"
proof -
  let ?t = "''LAMBDAEXPR'' @ write_field ''argnames'' (outNode argnames) @ write_field ''argtypes'' (outNode argtypes) @
    write_field ''is_strict'' (booltostr is_strict) @ write_field ''l3_safe'' (booltostr l3_safe) @
    write_field ''lambdakind'' (show_int kind) @ write_field ''rettype'' (show_oid rettype) @
    write_field ''rettypmod'' (show_int rettypmod) @ write_field ''lambdatypmod'' (show_int lambdatypmod) @
    write_field ''expr'' (outNode expr)"
  have "parseNodeString schema (nodeRead schema fuel None) (?t @ CHR ''}'' # rest) =
      Inr (LambdaExprN kind (no_locations argnames) (no_locations argtypes) (no_locations expr) rettype rettypmod lambdatypmod is_strict l3_safe, CHR ''}'' # rest)"
    if "length ?t < fuel" for rest fuel
  proof -
    have "length (outNode argnames) < fuel" "length (outNode argtypes) < fuel" "length (outNode expr) < fuel"
      using that length_write_field [of "outNode argnames" "''argnames''"] length_write_field [of "outNode argtypes" "''argtypes''"]
        length_write_field [of "outNode expr" "''expr''"] by simp_all
    note read_node_field [OF assms(1) _ _ this(1)] read_node_field [OF assms(2) _ _ this(2)] read_node_field [OF assms(3) _ _ this(3)]
    then show ?thesis unfolding append_assoc parse_labels(3) [OF ends_simps(4)] using assms(4-6) by (simp add: readLambdaExpr_def)
  qed
  then show ?thesis by (intro reads_brace [where t = ?t]) simp_all
qed

lemma reads_input_param:
  assumes "reads schema name" "reads schema inputs" "int32 idx"
  shows "reads schema (LambdaInputParamN name type atomic inputs idx loc)"
proof -
  let ?t = "''LAMBDAINPUTPARAM'' @ write_field ''name'' (outNode name) @ write_field ''type'' (show_oid type) @
    write_field ''isAtomic'' (booltostr atomic) @ write_field ''input_types'' (outNode inputs) @
    write_field ''idx'' (show_int idx) @ write_field ''location'' (show_int (- 1))"
  have "parseNodeString schema (nodeRead schema fuel None) (?t @ CHR ''}'' # rest) =
      Inr (LambdaInputParamN (no_locations name) type atomic (no_locations inputs) idx (- 1), CHR ''}'' # rest)" if "length ?t < fuel" for rest fuel
  proof -
    have "length (outNode name) < fuel" "length (outNode inputs) < fuel"
      using that length_write_field [of "outNode name" "''name''"] length_write_field [of "outNode inputs" "''input_types''"] by simp_all
    note read_node_field [OF assms(1) _ _ this(1)] read_node_field [OF assms(2) _ _ this(2)]
    then show ?thesis unfolding append_assoc parse_labels(4) [OF ends_simps(4)] using assms(3) by (simp add: readLambdaInputParam_def)
  qed
  then show ?thesis by (intro reads_brace [where t = ?t]) simp_all
qed

lemma readBitmapset_blank [simp]: "readBitmapset (CHR '' '' # s) = readBitmapset s"
  by (simp add: readBitmapset_def expect_token_def)

lemma read_field_text:
  assumes "list_all plain name" "field_ok f" "pred_field (reads schema) f" "ends rest" "length (out_field outNode f) < fuel"
  shows "read_field (nodeRead schema fuel None) (kind_of f) (write_field name (out_field outNode f) @ rest) = Inr (unlocated no_locations f, rest)"
  using assms read_string_field [OF assms(1,4)] read_node_field [OF _ assms(1,4)]
  by (cases f) (auto simp: readBitmapset_text simp del: outToken.simps plain_chars)

lemma read_fields_text:
  assumes "list_all (\<lambda>(name, f). list_all plain name \<and> field_ok f \<and> pred_field (reads schema) f) fs"
    and "length (concat (map (\<lambda>(name, f). write_field name (out_field outNode f)) fs)) < fuel"
  shows "read_fields (nodeRead schema fuel None) (map (\<lambda>(name, f). (name, kind_of f)) fs)
      (concat (map (\<lambda>(name, f). write_field name (out_field outNode f)) fs) @ CHR ''}'' # rest) =
    Inr (map (\<lambda>(name, f). (name, unlocated no_locations f)) fs, CHR ''}'' # rest)"
  using assms
proof (induction fs)
  case (Cons nf fs)
  obtain name f where nf: "nf = (name, f)" by force
  let ?s = "concat (map (\<lambda>(name, f). write_field name (out_field outNode f)) fs) @ CHR ''}'' # rest"
  have "ends ?s" by (cases fs) auto
  moreover have "length (out_field outNode f) < fuel" using Cons.prems(2) nf length_write_field [of "out_field outNode f" name] by simp
  ultimately show ?case using Cons nf read_field_text [of name f schema ?s fuel] by (simp del: plain_chars)
qed simp

lemma reads_struct:
  assumes "wf_node schema (Struct label fs)" "list_all (\<lambda>(name, f). pred_field (reads schema) f) fs"
  shows "reads schema (Struct label fs)"
proof -
  let ?fs = "concat (map (\<lambda>(name, f). write_field name (out_field outNode f)) fs)"
  have fields: "list_all (\<lambda>(name, f). list_all plain name \<and> field_ok f \<and> pred_field (reads schema) f) fs" using assms by (fastforce simp: list_all_iff)
  have "parseNodeString schema (nodeRead schema fuel None) ((label @ ?fs) @ CHR ''}'' # rest) = Inr (no_locations (Struct label fs), CHR ''}'' # rest)"
    if "length (label @ ?fs) < fuel" for rest fuel
  proof -
    have "ends (?fs @ CHR ''}'' # rest)" by (cases fs) auto
    then show ?thesis using assms(1) that read_fields_text [OF fields, of fuel rest]
        parse_struct [of label schema "map (\<lambda>(name, f). (name, kind_of f)) fs" "?fs @ CHR ''}'' # rest"] by (simp del: plain_chars)
  qed
  then show ?thesis by (intro reads_brace [where t = "label @ ?fs"]) simp_all
qed

lemma node_reads: "wf_node schema n \<Longrightarrow> reads schema n"
proof (induction n)
  case (List l)
  then show ?case by (simp add: reads_list list_all_iff)
next
  case (Struct label fs)
  have "pred_field (reads schema) f" if f: "(name, f) \<in> set fs" for name f
  proof -
    have "pred_field (wf_node schema) f" using Struct.prems f by (auto simp: list_all_iff)
    then show ?thesis using Struct.IH [of "(name, f)" f] f by (auto simp: field.pred_set)
  qed
  then show ?case by (intro reads_struct [OF Struct.prems]) (auto simp: list_all_iff)
qed (auto simp: reads_null reads_ints reads_oids reads_xids reads_members reads_integer reads_float reads_boolean reads_string reads_bitstring
    reads_bool_expr reads_lambda reads_input_param intro!: reads_const)

lemma node_text:
  assumes "wf_node schema n" "ends rest \<or> bracketed n"
  shows "stringToNode schema (nodeToString n @ rest) = Inr (no_locations n)"
  using nodeRead_text(1) [OF node_reads [OF assms(1)] assms(2), of "Suc (length (outNode n @ rest))"]
  by (simp add: stringToNode_def nodeToString_def del: nodeRead.simps)

section \<open>A lambda as an example\<close>

text \<open>\<open>x + 1\<close>, with the fields of \<open>Param\<close> and \<open>OpExpr\<close> in \<^verbatim>\<open>src/include/nodes/primnodes.h\<close>; the names need escapes.\<close>

definition ex_schema :: schema where
  "ex_schema label =
    (if label = ''PARAM'' then Some [(''paramkind'', KEnum), (''paramid'', KInt), (''paramtype'', KOid), (''paramtypmod'', KInt),
       (''paramcollid'', KOid), (''location'', KLocation), (''lambda'', KBool)]
     else if label = ''OPEXPR'' then Some [(''opno'', KOid), (''opfuncid'', KOid), (''opresulttype'', KOid), (''opretset'', KBool),
       (''opcollid'', KOid), (''inputcollid'', KOid), (''args'', KNode), (''location'', KLocation)]
     else None)"

definition ex_stored_body :: pgnode where
  "ex_stored_body = Struct ''OPEXPR'' [(''opno'', OidField 551), (''opfuncid'', OidField 177), (''opresulttype'', OidField 23), (''opretset'', BoolField False),
    (''opcollid'', OidField 0), (''inputcollid'', OidField 0),
    (''args'', NodeField (List [
       Struct ''PARAM'' [(''paramkind'', EnumField 1), (''paramid'', IntField 0), (''paramtype'', OidField 23), (''paramtypmod'', IntField (- 1)),
         (''paramcollid'', OidField 0), (''location'', LocationField 12), (''lambda'', BoolField True)],
       ConstN 23 (- 1) 0 4 True False 14 [1, 0, 0, 0, 0, 0, 0, 0]])),
    (''location'', LocationField 13)]"

definition ex_stored_lambda :: pgnode where
  "ex_stored_lambda = LambdaExprN 1 (List [String ''x (1)'', String ''<y>'']) (List [List [LambdaInputParamN NullPtr 23 True NullPtr 0 3], List [LambdaInputParamN NullPtr 23 True NullPtr 0 6]])
    ex_stored_body 23 (- 1) (- 1) False True"

lemma ex_stored_wf: "wf_node ex_schema ex_stored_lambda"
  by (simp add: ex_stored_lambda_def ex_stored_body_def ex_schema_def int32_def no_nul_def handwritten_def)

text \<open>C17: trees survive their text form. For every tree whose numbers fit (an \<open>Integer\<close> is not \<open>INT_MIN\<close>), whose strings hold no NUL and whose
  generated structs have the fields of the schema, \<open>stringToNode\<close> gives back what \<open>nodeToString\<close> wrote, apart from parse locations, which are written as -1. It needs one character
  behind the text that ends a token; for lists and structs, and so for lambdas, nothing behind the text is looked at at all.\<close>

theorem node_text_roundtrip:
  assumes "wf_node schema n" "ends rest \<or> bracketed n"
  shows "stringToNode schema (nodeToString n @ rest) = Inr (no_locations n)"
  by (rule node_text [OF assms])

theorem node_text_roundtrip_witness:
  "wf_node ex_schema ex_stored_lambda \<and> no_locations ex_stored_lambda \<noteq> ex_stored_lambda \<and>
    stringToNode ex_schema (nodeToString ex_stored_lambda @ []) = Inr (no_locations ex_stored_lambda)"
proof -
  have "bracketed ex_stored_lambda" "no_locations ex_stored_lambda \<noteq> ex_stored_lambda" by (simp_all add: ex_stored_lambda_def)
  then show ?thesis using node_text_roundtrip [OF ex_stored_wf, of "[]"] ex_stored_wf by simp
qed

text \<open>The smallest \<open>int\<close> is written like every other one, but its digits without the sign are out of range: it is read back as a \<open>Float\<close>.\<close>

lemma int_min_text:
  assumes "ends rest"
  shows "stringToNode schema (nodeToString (Integer (- (2 ^ 31))) @ rest) = Inr (Float (show_int (- (2 ^ 31))))"
proof -
  have "float_text (show_int (- (2 ^ 31)))"
    using plain_show_int [of "- (2 ^ 31)"] show_nat_Cons [of "2147483648"] show_nat_digits [of 2147483648]
    by (auto simp: float_text_def show_int_def is_sign_def list_all_iff simp del: plain_chars)
  then show ?thesis using node_text [of schema "Float (show_int (- (2 ^ 31)))" rest] assms by (simp add: nodeToString_def)
qed

end
