(* ===== verification/Job_Queue.thy ===== *)
theory Job_Queue
  imports Prelude
begin

text \<open>
  The job queue of \<^verbatim>\<open>src/ext/threadpool.c\<close>: a linked list of nodes between a head and a tail pointer. The functions
  are the parts of \<open>q_enqueue\<close> and \<open>q_dequeue\<close> that run with the mutex held; locking and waiting are in
  \<open>Thread_Pool\<close>. The list of nodes is shown to be a first-in first-out queue of jobs.
\<close>

section \<open>The queue\<close>

text \<open>Nodes live in a store; \<open>q_fresh\<close> is the next free address. Nodes are never freed while the pool runs.\<close>

record 'j TP_QNode =
  next_node :: "nat option"
  job :: 'j

record 'j TP_Queue =
  q_head :: "nat option"
  q_tail :: "nat option"
  q_count :: nat
  q_shutdown :: bool
  q_nodes :: "nat \<Rightarrow> 'j TP_QNode option"
  q_fresh :: nat

definition q_init :: "'j TP_Queue" where
  "q_init = \<lparr>q_head = None, q_tail = None, q_count = 0, q_shutdown = False, q_nodes = (\<lambda>_. None), q_fresh = 0\<rparr>"

text \<open>A job is \<open>None\<close> when the caller passes NULL or no bytes.\<close>

fun qnode_create_copy :: "'j option \<Rightarrow> 'j TP_Queue \<Rightarrow> (nat \<times> 'j TP_Queue) result" where
  "qnode_create_copy None q = Inl (Ereport ERRCODE_INVALID_PARAMETER_VALUE ''threadpool job must be non-empty'')"
| "qnode_create_copy (Some j) q =
    Inr (q_fresh q, q\<lparr>q_nodes := (q_nodes q)(q_fresh q := Some \<lparr>next_node = None, job = j\<rparr>), q_fresh := Suc (q_fresh q)\<rparr>)"

definition q_enqueue :: "nat \<Rightarrow> 'j TP_Queue \<Rightarrow> 'j TP_Queue" where
  "q_enqueue n q =
    (if q_shutdown q then q
     else
       let q = (case q_tail q of
                  Some t \<Rightarrow> q\<lparr>q_nodes := (q_nodes q)(t := map_option (\<lambda>nd. nd\<lparr>next_node := Some n\<rparr>) (q_nodes q t))\<rparr>
                | None \<Rightarrow> q\<lparr>q_head := Some n\<rparr>)
       in q\<lparr>q_tail := Some n, q_count := q_count q + 1\<rparr>)"

text \<open>The part of \<open>q_dequeue\<close> after its loop, on a queue that is not empty.\<close>

definition q_dequeue :: "'j TP_Queue \<Rightarrow> ('j \<times> 'j TP_Queue) result" where
  "q_dequeue q =
    (case q_head q of
       None \<Rightarrow> Inl Crash
     | Some n \<Rightarrow>
         (case q_nodes q n of
            None \<Rightarrow> Inl Crash
          | Some nd \<Rightarrow>
              Inr (job nd, q\<lparr>q_head := next_node nd, q_tail := (if next_node nd = None then None else q_tail q),
                             q_count := q_count q - 1\<rparr>)))"

text \<open>The addresses from the head on, and the jobs in them.\<close>

fun chain :: "(nat \<Rightarrow> 'j TP_QNode option) \<Rightarrow> nat \<Rightarrow> nat option \<Rightarrow> nat list" where
  "chain nodes 0 p = []"
| "chain nodes (Suc n) None = []"
| "chain nodes (Suc n) (Some a) = a # (case nodes a of None \<Rightarrow> [] | Some nd \<Rightarrow> chain nodes n (next_node nd))"

definition q_addrs :: "'j TP_Queue \<Rightarrow> nat list" where
  "q_addrs q = chain (q_nodes q) (q_count q) (q_head q)"

definition q_jobs :: "'j TP_Queue \<Rightarrow> 'j list" where
  "q_jobs q = map (\<lambda>a. job (the (q_nodes q a))) (q_addrs q)"

fun linked :: "(nat \<Rightarrow> 'j TP_QNode option) \<Rightarrow> nat option \<Rightarrow> nat list \<Rightarrow> bool" where
  "linked nodes p [] \<longleftrightarrow> p = None"
| "linked nodes p (a # as) \<longleftrightarrow> p = Some a \<and> (\<exists>nd. nodes a = Some nd \<and> linked nodes (next_node nd) as)"

definition queue_inv :: "'j TP_Queue \<Rightarrow> bool" where
  "queue_inv q \<longleftrightarrow> linked (q_nodes q) (q_head q) (q_addrs q) \<and> distinct (q_addrs q) \<and> length (q_addrs q) = q_count q \<and>
     q_tail q = (if q_addrs q = [] then None else Some (last (q_addrs q))) \<and> (\<forall>a \<in> set (q_addrs q). a < q_fresh q) \<and>
     (\<forall>a \<ge> q_fresh q. q_nodes q a = None)"

text \<open>A node that is not in the queue yet.\<close>

definition detached :: "'j TP_Queue \<Rightarrow> nat \<Rightarrow> 'j \<Rightarrow> bool" where
  "detached q a j \<longleftrightarrow> a \<notin> set (q_addrs q) \<and> q_nodes q a = Some \<lparr>next_node = None, job = j\<rparr>"

lemma linked_chain: "linked nodes p as \<Longrightarrow> chain nodes (length as) p = as"
  by (induction nodes p as rule: linked.induct) auto

lemma q_addrsI: "linked (q_nodes q) (q_head q) as \<Longrightarrow> q_count q = length as \<Longrightarrow> q_addrs q = as"
  by (simp add: q_addrs_def linked_chain)

lemma linked_update: "a \<notin> set as \<Longrightarrow> linked (nodes(a := v)) p as = linked nodes p as"
  by (induction nodes p as rule: linked.induct) auto

lemma linked_snoc:
  assumes "linked nodes p (as @ [t])" "distinct (as @ [t])" "nodes t = Some nd" "nodes a = Some \<lparr>next_node = None, job = j\<rparr>" "a \<notin> set (as @ [t])"
  shows "linked (nodes(t := Some (nd\<lparr>next_node := Some a\<rparr>))) p (as @ [t, a])"
  using assms(1,2,5)
proof (induction as arbitrary: p)
  case Nil
  then show ?case using assms(3,4) by (auto intro!: exI [of _ "\<lparr>next_node = None, job = j\<rparr>"])
next
  case (Cons b as)
  from Cons.prems obtain nd' where nd': "p = Some b" "nodes b = Some nd'" "linked nodes (next_node nd') (as @ [t])" by auto
  with Cons show ?case by auto
qed

lemma linked_data: "linked nodes p as \<Longrightarrow> a \<in> set as \<Longrightarrow> nodes a \<noteq> None"
  by (induction nodes p as rule: linked.induct) auto

text \<open>What a client of the queue relies on.\<close>

locale fifo =
  fixes inv :: "'q \<Rightarrow> bool" and items :: "'q \<Rightarrow> 'j list" and loose :: "'q \<Rightarrow> 'n \<Rightarrow> 'j \<Rightarrow> bool" and closed :: "'q \<Rightarrow> bool"
    and init :: 'q and create :: "'j option \<Rightarrow> 'q \<Rightarrow> ('n \<times> 'q) result" and enq :: "'n \<Rightarrow> 'q \<Rightarrow> 'q" and deq :: "'q \<Rightarrow> ('j \<times> 'q) result"
  assumes init_inv: "inv init" and init_items: "items init = []" and init_open: "\<not> closed init"
    and create_ok: "inv q \<Longrightarrow> \<exists>n q'. create (Some j) q = Inr (n, q') \<and> inv q' \<and> items q' = items q \<and> closed q' = closed q \<and> loose q' n j"
    and enq_ok: "inv q \<Longrightarrow> loose q n j \<Longrightarrow> \<not> closed q \<Longrightarrow> inv (enq n q) \<and> items (enq n q) = items q @ [j] \<and> \<not> closed (enq n q)"
    and deq_ok: "inv q \<Longrightarrow> items q = j # js \<Longrightarrow> \<exists>q'. deq q = Inr (j, q') \<and> inv q' \<and> items q' = js \<and> closed q' = closed q"
    and deq_loose: "inv q \<Longrightarrow> deq q = Inr (j, q') \<Longrightarrow> loose q n i \<Longrightarrow> loose q' n i"
begin

lemma create_spec:
  assumes "inv q" "create (Some j) q = Inr (n, q')"
  shows "inv q'" "items q' = items q" "closed q' = closed q" "loose q' n j"
  using create_ok [OF assms(1), of j] assms(2) by auto

lemma deq_spec:
  assumes "inv q" "deq q = Inr (j, q')" "items q \<noteq> []"
  shows "inv q'" "items q = j # items q'" "closed q' = closed q"
proof -
  obtain j0 js where "items q = j0 # js" using assms(3) by (cases "items q") auto
  with deq_ok [OF assms(1) this] assms(2) show "inv q'" "items q = j # items q'" "closed q' = closed q" by auto
qed

end

lemma queue_head: "queue_inv q \<Longrightarrow> q_head q = None \<longleftrightarrow> q_jobs q = []"
  by (cases "q_addrs q") (auto simp: queue_inv_def q_jobs_def)

lemma create_queue:
  assumes "queue_inv q"
  shows "\<exists>n q'. qnode_create_copy (Some j) q = Inr (n, q') \<and> queue_inv q' \<and> q_jobs q' = q_jobs q \<and>
    q_shutdown q' = q_shutdown q \<and> detached q' n j"
proof -
  let ?q = "q\<lparr>q_nodes := (q_nodes q)(q_fresh q := Some \<lparr>next_node = None, job = j\<rparr>), q_fresh := Suc (q_fresh q)\<rparr>"
  have new: "q_fresh q \<notin> set (q_addrs q)" using assms by (auto simp: queue_inv_def)
  have addrs: "q_addrs ?q = q_addrs q" using assms new by (intro q_addrsI) (simp_all add: linked_update queue_inv_def)
  have "queue_inv ?q"
    using assms new unfolding queue_inv_def addrs by (auto simp: linked_update less_Suc_eq)
  moreover have "q_jobs ?q = q_jobs q" unfolding q_jobs_def addrs using new by auto
  moreover have "detached ?q (q_fresh q) j" unfolding detached_def addrs using new by simp
  ultimately show ?thesis by (intro exI [of _ "q_fresh q"] exI [of _ ?q]) simp
qed

lemma enqueue_queue:
  assumes inv: "queue_inv q" and loose: "detached q n j" and "\<not> q_shutdown q"
  shows "queue_inv (q_enqueue n q) \<and> q_jobs (q_enqueue n q) = q_jobs q @ [j] \<and> \<not> q_shutdown (q_enqueue n q)"
proof (cases "q_addrs q" rule: rev_cases)
  case Nil
  let ?q = "q\<lparr>q_head := Some n, q_tail := Some n, q_count := 1\<rparr>"
  have q: "q_enqueue n q = ?q" using assms Nil by (auto simp: q_enqueue_def Let_def queue_inv_def)
  have addrs: "q_addrs ?q = [n]" using loose by (intro q_addrsI) (simp_all add: detached_def)
  have fresh: "n < q_fresh q" using inv loose by (metis detached_def not_less option.distinct(1) queue_inv_def)
  then have "queue_inv ?q" using inv loose unfolding queue_inv_def addrs by (simp add: detached_def)
  moreover have "q_jobs ?q = q_jobs q @ [j]" using loose unfolding q_jobs_def addrs by (simp add: Nil detached_def)
  ultimately show ?thesis unfolding q using assms(3) by simp
next
  case (snoc as t)
  from inv snoc have lk: "linked (q_nodes q) (q_head q) (as @ [t])" "distinct (as @ [t])" "q_tail q = Some t" "q_count q = Suc (length as)"
    by (auto simp: queue_inv_def)
  obtain nd where nd: "q_nodes q t = Some nd" using linked_data [OF lk(1), of t] by auto
  let ?nodes = "(q_nodes q)(t := Some (nd\<lparr>next_node := Some n\<rparr>))"
  let ?q = "q\<lparr>q_nodes := ?nodes, q_tail := Some n, q_count := q_count q + 1\<rparr>"
  have q: "q_enqueue n q = ?q" using assms(3) lk(3) nd by (simp add: q_enqueue_def Let_def)
  have n: "n \<notin> set (as @ [t])" "q_nodes q n = Some \<lparr>next_node = None, job = j\<rparr>" using loose snoc by (auto simp: detached_def)
  have addrs: "q_addrs ?q = as @ [t, n]" using linked_snoc [OF lk(1,2) nd n(2,1)] lk(4) by (intro q_addrsI) simp_all
  have fresh: "n < q_fresh q" "t < q_fresh q" using inv n(2) nd by (metis not_less option.distinct(1) queue_inv_def)+
  have "queue_inv ?q"
    using inv snoc fresh n lk(4) linked_snoc [OF lk(1,2) nd n(2,1)] unfolding queue_inv_def addrs by auto
  moreover have "q_jobs ?q = q_jobs q @ [j]"
    using n lk(2) nd unfolding q_jobs_def addrs snoc by auto
  ultimately show ?thesis unfolding q using assms(3) by simp
qed

lemma dequeue_queue:
  assumes inv: "queue_inv q" and items: "q_jobs q = j # js"
  shows "\<exists>q'. q_dequeue q = Inr (j, q') \<and> queue_inv q' \<and> q_jobs q' = js \<and> q_shutdown q' = q_shutdown q"
proof -
  obtain a as where as: "q_addrs q = a # as" using items by (cases "q_addrs q") (auto simp: q_jobs_def)
  then obtain nd where nd: "q_head q = Some a" "q_nodes q a = Some nd" "linked (q_nodes q) (next_node nd) as"
    using inv by (auto simp: queue_inv_def)
  let ?q = "q\<lparr>q_head := next_node nd, q_tail := (if next_node nd = None then None else q_tail q), q_count := q_count q - 1\<rparr>"
  have addrs: "q_addrs ?q = as" using nd(3) inv as by (intro q_addrsI) (auto simp: queue_inv_def)
  have "next_node nd = None \<longleftrightarrow> as = []" using nd(3) by (cases as) auto
  then have "queue_inv ?q" using inv as nd unfolding queue_inv_def addrs by auto
  moreover have "q_jobs ?q = js" "job nd = j" using items nd(2) unfolding q_jobs_def addrs as by auto
  ultimately show ?thesis using nd by (intro exI [of _ ?q]) (simp add: q_dequeue_def)
qed

lemma dequeue_detached:
  assumes "queue_inv q" "q_dequeue q = Inr (j, q')" "detached q n i" shows "detached q' n i"
proof -
  obtain a as where as: "q_addrs q = a # as"
    using assms(1,2) by (cases "q_addrs q") (auto simp: q_dequeue_def queue_inv_def)
  then obtain nd where nd: "q_head q = Some a" "q_nodes q a = Some nd" "linked (q_nodes q) (next_node nd) as"
    using assms(1) by (auto simp: queue_inv_def)
  have q': "q' = q\<lparr>q_head := next_node nd, q_tail := (if next_node nd = None then None else q_tail q), q_count := q_count q - 1\<rparr>"
    using assms(2) nd by (simp add: q_dequeue_def)
  have "q_addrs q' = as" unfolding q' using nd(3) assms(1) as by (intro q_addrsI) (auto simp: queue_inv_def)
  then show ?thesis using assms(3) as by (simp add: detached_def q')
qed

interpretation linked_queue: fifo queue_inv q_jobs detached q_shutdown q_init qnode_create_copy q_enqueue q_dequeue
proof (unfold_locales, goal_cases)
  case 1
  show ?case by (simp add: queue_inv_def q_init_def q_addrs_def)
next
  case 2
  show ?case by (simp add: q_init_def q_jobs_def q_addrs_def)
next
  case 3
  show ?case by (simp add: q_init_def)
next
  case (4 q j)
  then show ?case by (rule create_queue)
next
  case (5 q n j)
  then show ?case by (rule enqueue_queue)
next
  case (6 q j js)
  then show ?case by (rule dequeue_queue)
next
  case (7 q j q' n i)
  then show ?case by (rule dequeue_detached)
qed

end
