(* ===== verification/Thread_Pool.thy ===== *)
theory Thread_Pool
  imports Job_Queue
begin

text \<open>
  The worker pool of \<^verbatim>\<open>src/ext/threadpool.c\<close>: the loop of a worker, and the thread that creates the pool, submits
  jobs and waits for the workers, around the queue of \<open>Job_Queue\<close>. Threads interleave freely; a step
  of a thread is the code between two operations on the mutex. \<open>pthread_cond_signal\<close> wakes at
  least one waiting thread, and a waiting thread may wake without a signal, as POSIX has it.

  A job stands for the writes it makes to shared memory, one step each.
\<close>

section \<open>Threads\<close>

datatype thread = Main | Worker nat

text \<open>
  Where a worker is: before \<open>pthread_mutex_lock\<close> of \<open>q_dequeue\<close>, holding the mutex at the head of its
  loop, in \<open>pthread_cond_wait\<close>, woken but without the mutex, running a job, at its end.
\<close>

datatype 'v worker_pc = W_start | W_locked | W_wait | W_woken | W_run "(nat \<times> 'v) list" | W_exit

text \<open>
  Where the main thread is: in the loop of \<open>tp_create\<close>, on its error path, in \<open>tp_submit\<close> and
  \<open>q_enqueue\<close> with the jobs still to submit, in \<open>tp_finish_and_destroy\<close>.
\<close>

datatype 'j main_pc =
    M_create nat | M_fail nat | M_fail_locked nat | M_fail_join nat nat | M_error
  | M_submit "'j list" | M_submit_locked "'j list" | M_copy "'j list" | M_enqueue nat "'j list" | M_enqueue_locked nat "'j list"
  | M_finish_locked | M_join nat | M_end

text \<open>\<open>taken\<close> records the jobs in the order in which workers took them; no step depends on it.\<close>

record ('j, 'v) pool =
  queue :: "'j TP_Queue"
  mu :: "thread option"
  workers :: "'v worker_pc list"
  main_thread :: "'j main_pc"
  mem :: "nat \<Rightarrow> 'v"
  taken :: "'j list"

definition tp_threads :: "int \<Rightarrow> nat" where
  "tp_threads nthreads = (if nthreads \<le> 0 then 1 else nat nthreads)"

definition tp_create :: "(nat \<Rightarrow> 'v) \<Rightarrow> ('j, 'v) pool" where
  "tp_create m = \<lparr>queue = q_init, mu = None, workers = [], main_thread = M_create 0, mem = m, taken = []\<rparr>"

fun wake :: "'v worker_pc \<Rightarrow> 'v worker_pc" where
  "wake W_wait = W_woken"
| "wake w = w"

definition pthread_cond_signal :: "'v worker_pc list \<Rightarrow> 'v worker_pc list \<Rightarrow> bool" where
  "pthread_cond_signal ws ws' \<longleftrightarrow> list_all2 (\<lambda>w w'. w' = w \<or> w = W_wait \<and> w' = W_woken) ws ws' \<and> (W_wait \<in> set ws \<longrightarrow> ws' \<noteq> ws)"

definition pthread_cond_broadcast :: "'v worker_pc list \<Rightarrow> 'v worker_pc list" where
  "pthread_cond_broadcast ws = map wake ws"

datatype label = Normal | Spurious

text \<open>
  The steps, for a pool of \<open>n\<close> threads whose worker function makes the writes \<open>fn\<close> and a client that
  submits the jobs \<open>js\<close>.
\<close>

inductive step :: "nat \<Rightarrow> ('j \<Rightarrow> (nat \<times> 'v) list) \<Rightarrow> 'j list \<Rightarrow> label \<Rightarrow> ('j, 'v) pool \<Rightarrow> ('j, 'v) pool \<Rightarrow> bool"
  for n fn js where
  create: "main_thread s = M_create i \<Longrightarrow> i < n \<Longrightarrow>
    step n fn js Normal s (s\<lparr>workers := workers s @ [W_start], main_thread := M_create (Suc i)\<rparr>)"
| created: "main_thread s = M_create i \<Longrightarrow> n \<le> i \<Longrightarrow> step n fn js Normal s (s\<lparr>main_thread := M_submit js\<rparr>)"
| create_fail: "main_thread s = M_create i \<Longrightarrow> i < n \<Longrightarrow> step n fn js Normal s (s\<lparr>main_thread := M_fail i\<rparr>)"
| fail_lock: "main_thread s = M_fail i \<Longrightarrow> mu s = None \<Longrightarrow>
    step n fn js Normal s (s\<lparr>mu := Some Main, main_thread := M_fail_locked i\<rparr>)"
| fail_shutdown: "main_thread s = M_fail_locked i \<Longrightarrow>
    step n fn js Normal s (s\<lparr>queue := (queue s)\<lparr>q_shutdown := True\<rparr>, workers := pthread_cond_broadcast (workers s), mu := None,
      main_thread := M_fail_join i 0\<rparr>)"
| fail_join: "main_thread s = M_fail_join i k \<Longrightarrow> k < i \<Longrightarrow> workers s ! k = W_exit \<Longrightarrow>
    step n fn js Normal s (s\<lparr>main_thread := M_fail_join i (Suc k)\<rparr>)"
| fail_end: "main_thread s = M_fail_join i k \<Longrightarrow> i \<le> k \<Longrightarrow> step n fn js Normal s (s\<lparr>main_thread := M_error\<rparr>)"
| submit_lock: "main_thread s = M_submit (j # rest) \<Longrightarrow> mu s = None \<Longrightarrow>
    step n fn js Normal s (s\<lparr>mu := Some Main, main_thread := M_submit_locked (j # rest)\<rparr>)"
| submit_check: "main_thread s = M_submit_locked (j # rest) \<Longrightarrow>
    step n fn js Normal s (s\<lparr>mu := None, main_thread := (if q_shutdown (queue s) then M_submit rest else M_copy (j # rest))\<rparr>)"
| submit_copy: "main_thread s = M_copy (j # rest) \<Longrightarrow> qnode_create_copy (Some j) (queue s) = Inr (a, q) \<Longrightarrow>
    step n fn js Normal s (s\<lparr>queue := q, main_thread := M_enqueue a (j # rest)\<rparr>)"
| enqueue_lock: "main_thread s = M_enqueue a (j # rest) \<Longrightarrow> mu s = None \<Longrightarrow>
    step n fn js Normal s (s\<lparr>mu := Some Main, main_thread := M_enqueue_locked a (j # rest)\<rparr>)"
| enqueue: "main_thread s = M_enqueue_locked a (j # rest) \<Longrightarrow>
    (if q_shutdown (queue s) then ws = workers s else pthread_cond_signal (workers s) ws) \<Longrightarrow>
    step n fn js Normal s (s\<lparr>queue := q_enqueue a (queue s), workers := ws, mu := None, main_thread := M_submit rest\<rparr>)"
| finish_lock: "main_thread s = M_submit [] \<Longrightarrow> mu s = None \<Longrightarrow>
    step n fn js Normal s (s\<lparr>mu := Some Main, main_thread := M_finish_locked\<rparr>)"
| finish: "main_thread s = M_finish_locked \<Longrightarrow>
    step n fn js Normal s (s\<lparr>queue := (queue s)\<lparr>q_shutdown := True\<rparr>, workers := pthread_cond_broadcast (workers s), mu := None,
      main_thread := M_join 0\<rparr>)"
| join: "main_thread s = M_join k \<Longrightarrow> k < n \<Longrightarrow> workers s ! k = W_exit \<Longrightarrow> step n fn js Normal s (s\<lparr>main_thread := M_join (Suc k)\<rparr>)"
| join_end: "main_thread s = M_join k \<Longrightarrow> n \<le> k \<Longrightarrow> step n fn js Normal s (s\<lparr>main_thread := M_end\<rparr>)"
| lock: "i < length (workers s) \<Longrightarrow> workers s ! i = W_start \<Longrightarrow> mu s = None \<Longrightarrow>
    step n fn js Normal s (s\<lparr>mu := Some (Worker i), workers := (workers s)[i := W_locked]\<rparr>)"
| wait: "i < length (workers s) \<Longrightarrow> workers s ! i = W_locked \<Longrightarrow> q_head (queue s) = None \<Longrightarrow> \<not> q_shutdown (queue s) \<Longrightarrow>
    step n fn js Normal s (s\<lparr>mu := None, workers := (workers s)[i := W_wait]\<rparr>)"
| quit: "i < length (workers s) \<Longrightarrow> workers s ! i = W_locked \<Longrightarrow> q_head (queue s) = None \<Longrightarrow> q_shutdown (queue s) \<Longrightarrow>
    step n fn js Normal s (s\<lparr>mu := None, workers := (workers s)[i := W_exit]\<rparr>)"
| take: "i < length (workers s) \<Longrightarrow> workers s ! i = W_locked \<Longrightarrow> q_head (queue s) \<noteq> None \<Longrightarrow> q_dequeue (queue s) = Inr (j, q) \<Longrightarrow>
    step n fn js Normal s (s\<lparr>queue := q, mu := None, workers := (workers s)[i := W_run (fn j)], taken := taken s @ [j]\<rparr>)"
| relock: "i < length (workers s) \<Longrightarrow> workers s ! i = W_woken \<Longrightarrow> mu s = None \<Longrightarrow>
    step n fn js Normal s (s\<lparr>mu := Some (Worker i), workers := (workers s)[i := W_locked]\<rparr>)"
| store: "i < length (workers s) \<Longrightarrow> workers s ! i = W_run ((a, v) # todo) \<Longrightarrow>
    step n fn js Normal s (s\<lparr>mem := (mem s)(a := v), workers := (workers s)[i := W_run todo]\<rparr>)"
| again: "i < length (workers s) \<Longrightarrow> workers s ! i = W_run [] \<Longrightarrow> step n fn js Normal s (s\<lparr>workers := (workers s)[i := W_start]\<rparr>)"
| spurious: "i < length (workers s) \<Longrightarrow> workers s ! i = W_wait \<Longrightarrow> step n fn js Spurious s (s\<lparr>workers := (workers s)[i := W_woken]\<rparr>)"

text \<open>A run, with the number of its steps and of the wakings without a signal among them.\<close>

inductive run :: "nat \<Rightarrow> ('j \<Rightarrow> (nat \<times> 'v) list) \<Rightarrow> 'j list \<Rightarrow> (nat \<Rightarrow> 'v) \<Rightarrow> nat \<Rightarrow> nat \<Rightarrow> ('j, 'v) pool \<Rightarrow> bool" for n fn js m where
  start: "run n fn js m 0 0 (tp_create m)"
| normal: "run n fn js m t k s \<Longrightarrow> step n fn js Normal s s' \<Longrightarrow> run n fn js m (Suc t) k s'"
| spurious: "run n fn js m t k s \<Longrightarrow> step n fn js Spurious s s' \<Longrightarrow> run n fn js m (Suc t) (Suc k) s'"

section \<open>A scheduler\<close>

text \<open>Steps picked by a schedule, for one way to signal: the first waiting worker wakes.\<close>

datatype choice = Go_main | Go_fail | Go_worker nat | Go_spurious nat

fun wake_first :: "'v worker_pc list \<Rightarrow> 'v worker_pc list" where
  "wake_first [] = []"
| "wake_first (W_wait # ws) = W_woken # ws"
| "wake_first (w # ws) = w # wake_first ws"

definition exec_main :: "nat \<Rightarrow> 'j list \<Rightarrow> ('j, 'v) pool \<Rightarrow> ('j, 'v) pool option" where
  "exec_main n js s =
    (case main_thread s of
       M_create i \<Rightarrow>
         if i < n then Some (s\<lparr>workers := workers s @ [W_start], main_thread := M_create (Suc i)\<rparr>)
         else Some (s\<lparr>main_thread := M_submit js\<rparr>)
     | M_fail i \<Rightarrow> if mu s = None then Some (s\<lparr>mu := Some Main, main_thread := M_fail_locked i\<rparr>) else None
     | M_fail_locked i \<Rightarrow> Some (s\<lparr>queue := (queue s)\<lparr>q_shutdown := True\<rparr>, workers := pthread_cond_broadcast (workers s), mu := None,
         main_thread := M_fail_join i 0\<rparr>)
     | M_fail_join i k \<Rightarrow>
         if i \<le> k then Some (s\<lparr>main_thread := M_error\<rparr>)
         else (case workers s ! k of W_exit \<Rightarrow> Some (s\<lparr>main_thread := M_fail_join i (Suc k)\<rparr>) | _ \<Rightarrow> None)
     | M_submit [] \<Rightarrow> if mu s = None then Some (s\<lparr>mu := Some Main, main_thread := M_finish_locked\<rparr>) else None
     | M_submit (j # rest) \<Rightarrow> if mu s = None then Some (s\<lparr>mu := Some Main, main_thread := M_submit_locked (j # rest)\<rparr>) else None
     | M_submit_locked (j # rest) \<Rightarrow>
         Some (s\<lparr>mu := None, main_thread := (if q_shutdown (queue s) then M_submit rest else M_copy (j # rest))\<rparr>)
     | M_copy (j # rest) \<Rightarrow>
         (case qnode_create_copy (Some j) (queue s) of
            Inr (a, q) \<Rightarrow> Some (s\<lparr>queue := q, main_thread := M_enqueue a (j # rest)\<rparr>) | Inl _ \<Rightarrow> None)
     | M_enqueue a (j # rest) \<Rightarrow> if mu s = None then Some (s\<lparr>mu := Some Main, main_thread := M_enqueue_locked a (j # rest)\<rparr>) else None
     | M_enqueue_locked a (j # rest) \<Rightarrow>
         Some (s\<lparr>queue := q_enqueue a (queue s), workers := (if q_shutdown (queue s) then workers s else wake_first (workers s)),
           mu := None, main_thread := M_submit rest\<rparr>)
     | M_finish_locked \<Rightarrow> Some (s\<lparr>queue := (queue s)\<lparr>q_shutdown := True\<rparr>, workers := pthread_cond_broadcast (workers s), mu := None,
         main_thread := M_join 0\<rparr>)
     | M_join k \<Rightarrow>
         if n \<le> k then Some (s\<lparr>main_thread := M_end\<rparr>)
         else (case workers s ! k of W_exit \<Rightarrow> Some (s\<lparr>main_thread := M_join (Suc k)\<rparr>) | _ \<Rightarrow> None)
     | _ \<Rightarrow> None)"

definition exec_worker :: "('j \<Rightarrow> (nat \<times> 'v) list) \<Rightarrow> nat \<Rightarrow> ('j, 'v) pool \<Rightarrow> ('j, 'v) pool option" where
  "exec_worker fn i s =
    (if i < length (workers s) then
       (case workers s ! i of
          W_locked \<Rightarrow>
            (case q_head (queue s) of
               None \<Rightarrow> Some (s\<lparr>mu := None, workers := (workers s)[i := (if q_shutdown (queue s) then W_exit else W_wait)]\<rparr>)
             | Some _ \<Rightarrow>
                 (case q_dequeue (queue s) of
                    Inr (j, q) \<Rightarrow> Some (s\<lparr>queue := q, mu := None, workers := (workers s)[i := W_run (fn j)], taken := taken s @ [j]\<rparr>)
                  | Inl _ \<Rightarrow> None))
        | W_run [] \<Rightarrow> Some (s\<lparr>workers := (workers s)[i := W_start]\<rparr>)
        | W_run ((a, v) # rest) \<Rightarrow> Some (s\<lparr>mem := (mem s)(a := v), workers := (workers s)[i := W_run rest]\<rparr>)
        | W_wait \<Rightarrow> None
        | W_exit \<Rightarrow> None
        | _ \<Rightarrow> if mu s = None then Some (s\<lparr>mu := Some (Worker i), workers := (workers s)[i := W_locked]\<rparr>) else None)
     else None)"

fun exec :: "nat \<Rightarrow> ('j \<Rightarrow> (nat \<times> 'v) list) \<Rightarrow> 'j list \<Rightarrow> choice \<Rightarrow> ('j, 'v) pool \<Rightarrow> ('j, 'v) pool option" where
  "exec n fn js Go_main s = exec_main n js s"
| "exec n fn js Go_fail s = (case main_thread s of M_create i \<Rightarrow> if i < n then Some (s\<lparr>main_thread := M_fail i\<rparr>) else None | _ \<Rightarrow> None)"
| "exec n fn js (Go_worker i) s = exec_worker fn i s"
| "exec n fn js (Go_spurious i) s =
    (if i < length (workers s) then
       (case workers s ! i of W_wait \<Rightarrow> Some (s\<lparr>workers := (workers s)[i := W_woken]\<rparr>) | _ \<Rightarrow> None)
     else None)"

fun exec_run :: "nat \<Rightarrow> ('j \<Rightarrow> (nat \<times> 'v) list) \<Rightarrow> 'j list \<Rightarrow> choice list \<Rightarrow> ('j, 'v) pool \<Rightarrow> ('j, 'v) pool option" where
  "exec_run n fn js [] s = Some s"
| "exec_run n fn js (ch # chs) s = (case exec n fn js ch s of None \<Rightarrow> None | Some s' \<Rightarrow> exec_run n fn js chs s')"

lemma wake_first_id: "W_wait \<notin> set ws \<Longrightarrow> wake_first ws = ws"
  by (induction ws rule: wake_first.induct) auto

lemma wake_first_signal: "pthread_cond_signal ws (wake_first ws)"
proof -
  have "W_wait \<in> set ws \<longrightarrow> wake_first ws \<noteq> ws" by (induction ws rule: wake_first.induct) auto
  moreover have "list_all2 (\<lambda>w w'. w' = w \<or> w = W_wait \<and> w' = W_woken) ws (wake_first ws)"
    by (induction ws rule: wake_first.induct) (auto intro: list_all2_refl)
  ultimately show ?thesis by (simp add: pthread_cond_signal_def)
qed

lemma exec_main_step: "exec_main n js s = Some s' \<Longrightarrow> step n fn js Normal s s'"
  unfolding exec_main_def
  using step.submit_check [of s _ _ n fn js] step.enqueue [of s _ _ _ "workers s" n fn js]
  by (auto split: main_pc.splits list.splits if_splits sum.splits worker_pc.splits simp: wake_first_signal intro: step.intros)

lemma exec_worker_step: "exec_worker fn i s = Some s' \<Longrightarrow> step n fn js Normal s s'"
  unfolding exec_worker_def
  by (auto split: list.splits if_splits sum.splits option.splits worker_pc.splits intro: step.intros)

lemma exec_step: "exec n fn js ch s = Some s' \<Longrightarrow> \<exists>l. step n fn js l s s'"
  by (cases "(n, fn, js, ch, s)" rule: exec.cases)
    (auto split: main_pc.splits if_splits worker_pc.splits intro: exec_main_step exec_worker_step step.intros)

lemma exec_run_run:
  assumes "exec_run n fn js chs s = Some s'" "run n fn js m t k s" shows "\<exists>t k. run n fn js m t k s'"
  using assms
proof (induction chs arbitrary: s t k)
  case (Cons ch chs)
  then obtain s1 where s1: "exec n fn js ch s = Some s1" "exec_run n fn js chs s1 = Some s'" by (auto split: option.splits)
  obtain l where "step n fn js l s s1" using exec_step [OF s1(1)] by blast
  then show ?case using Cons.IH [OF s1(2)] run.normal [OF Cons.prems(2)] run.spurious [OF Cons.prems(2)] by (cases l) blast+
qed auto

section \<open>Invariants\<close>

fun main_locked :: "'j main_pc \<Rightarrow> bool" where
  "main_locked (M_fail_locked _) = True"
| "main_locked (M_submit_locked _) = True"
| "main_locked (M_enqueue_locked _ _) = True"
| "main_locked M_finish_locked = True"
| "main_locked _ = False"

definition mutex_ok :: "thread option \<Rightarrow> bool \<Rightarrow> 'v worker_pc list \<Rightarrow> bool" where
  "mutex_ok m ml ws \<longleftrightarrow> (m = Some Main \<longleftrightarrow> ml) \<and> (\<forall>i. m = Some (Worker i) \<longleftrightarrow> i < length ws \<and> ws ! i = W_locked)"

definition mutex_inv :: "('j, 'v) pool \<Rightarrow> bool" where
  "mutex_inv s \<longleftrightarrow> mutex_ok (mu s) (main_locked (main_thread s)) (workers s)"

fun closing :: "'j main_pc \<Rightarrow> bool" where
  "closing (M_fail_join _ _) = True"
| "closing M_error = True"
| "closing (M_join _) = True"
| "closing M_end = True"
| "closing _ = False"

fun threads_at :: "nat \<Rightarrow> 'j main_pc \<Rightarrow> nat \<Rightarrow> bool" where
  "threads_at n (M_create i) l \<longleftrightarrow> l = i \<and> i \<le> n"
| "threads_at n (M_fail i) l \<longleftrightarrow> l = i"
| "threads_at n (M_fail_locked i) l \<longleftrightarrow> l = i"
| "threads_at n (M_fail_join i k) l \<longleftrightarrow> l = i \<and> k \<le> i"
| "threads_at n M_error l \<longleftrightarrow> True"
| "threads_at n (M_join k) l \<longleftrightarrow> l = n \<and> k \<le> n"
| "threads_at n _ l \<longleftrightarrow> l = n"

text \<open>How many workers the main thread has waited for.\<close>

fun joined :: "'j main_pc \<Rightarrow> nat \<Rightarrow> nat" where
  "joined (M_fail_join _ k) l = k"
| "joined (M_join k) l = k"
| "joined M_error l = l"
| "joined M_end l = l"
| "joined _ l = 0"

definition control_inv :: "nat \<Rightarrow> ('j, 'v) pool \<Rightarrow> bool" where
  "control_inv n s \<longleftrightarrow> threads_at n (main_thread s) (length (workers s)) \<and>
     (q_shutdown (queue s) \<longleftrightarrow> closing (main_thread s)) \<and> (W_wait \<in> set (workers s) \<longrightarrow> \<not> q_shutdown (queue s)) \<and>
     (\<forall>i < joined (main_thread s) (length (workers s)). workers s ! i = W_exit)"

text \<open>The jobs the main thread has not put into the queue yet.\<close>

fun main_jobs :: "'j list \<Rightarrow> 'j main_pc \<Rightarrow> 'j list" where
  "main_jobs js (M_submit l) = l"
| "main_jobs js (M_submit_locked l) = l"
| "main_jobs js (M_copy l) = l"
| "main_jobs js (M_enqueue _ l) = l"
| "main_jobs js (M_enqueue_locked _ l) = l"
| "main_jobs js M_finish_locked = []"
| "main_jobs js (M_join _) = []"
| "main_jobs js M_end = []"
| "main_jobs js _ = js"

fun main_ok :: "'j TP_Queue \<Rightarrow> 'j main_pc \<Rightarrow> bool" where
  "main_ok q (M_submit_locked l) \<longleftrightarrow> l \<noteq> []"
| "main_ok q (M_copy l) \<longleftrightarrow> l \<noteq> []"
| "main_ok q (M_enqueue a l) \<longleftrightarrow> l \<noteq> [] \<and> detached q a (hd l)"
| "main_ok q (M_enqueue_locked a l) \<longleftrightarrow> l \<noteq> [] \<and> detached q a (hd l)"
| "main_ok q _ \<longleftrightarrow> True"

definition jobs_inv :: "'j list \<Rightarrow> ('j, 'v) pool \<Rightarrow> bool" where
  "jobs_inv js s \<longleftrightarrow> queue_inv (queue s) \<and> main_ok (queue s) (main_thread s) \<and>
     taken s @ q_jobs (queue s) @ main_jobs js (main_thread s) = js \<and>
     (W_exit \<in> set (workers s) \<longrightarrow> q_shutdown (queue s) \<and> q_jobs (queue s) = []) \<and>
     (q_jobs (queue s) \<noteq> [] \<longrightarrow> (\<exists>w \<in> set (workers s). w \<noteq> W_wait))"

lemma set_shutdown [simp]:
  "q_jobs (q\<lparr>q_shutdown := b\<rparr>) = q_jobs q" "queue_inv (q\<lparr>q_shutdown := b\<rparr>) = queue_inv q" "detached (q\<lparr>q_shutdown := b\<rparr>) = detached q"
  by (simp_all add: q_jobs_def q_addrs_def queue_inv_def detached_def fun_eq_iff)

lemma wake_eq [simp]: "wake w \<noteq> W_wait" "wake w = W_exit \<longleftrightarrow> w = W_exit" "wake w = W_locked \<longleftrightarrow> w = W_locked"
  "W_wait \<noteq> wake w" "W_exit = wake w \<longleftrightarrow> w = W_exit"
  by (cases w; simp)+

lemma wake_cases: "wake w = w \<or> w = W_wait \<and> wake w = W_woken"
  by (cases w) auto

lemma broadcast_simps [simp]:
  "length (pthread_cond_broadcast ws) = length ws" "W_wait \<notin> set (pthread_cond_broadcast ws)"
  "i < length ws \<Longrightarrow> pthread_cond_broadcast ws ! i = wake (ws ! i)"
  "W_exit \<in> set (pthread_cond_broadcast ws) \<longleftrightarrow> W_exit \<in> set ws"
  by (auto simp: pthread_cond_broadcast_def image_iff)

lemma signal_facts:
  assumes "pthread_cond_signal ws ws'"
  shows "length ws' = length ws" "i < length ws \<Longrightarrow> ws' ! i = W_locked \<longleftrightarrow> ws ! i = W_locked"
    "i < length ws \<Longrightarrow> ws' ! i = W_exit \<longleftrightarrow> ws ! i = W_exit"
    "W_exit \<in> set ws' \<longleftrightarrow> W_exit \<in> set ws" "ws \<noteq> [] \<Longrightarrow> \<exists>w \<in> set ws'. w \<noteq> W_wait"
proof -
  have l: "length ws' = length ws" and nth: "\<And>i. i < length ws \<Longrightarrow> ws' ! i = ws ! i \<or> ws ! i = W_wait \<and> ws' ! i = W_woken"
    using assms by (auto simp: pthread_cond_signal_def list_all2_conv_all_nth)
  show "length ws' = length ws" by (rule l)
  show "i < length ws \<Longrightarrow> ws' ! i = W_locked \<longleftrightarrow> ws ! i = W_locked" "i < length ws \<Longrightarrow> ws' ! i = W_exit \<longleftrightarrow> ws ! i = W_exit"
    using nth [of i] by auto
  show "W_exit \<in> set ws' \<longleftrightarrow> W_exit \<in> set ws" using l nth by (auto simp: in_set_conv_nth) (metis worker_pc.distinct)+
  show "\<exists>w \<in> set ws'. w \<noteq> W_wait" if "ws \<noteq> []"
  proof (cases "W_wait \<in> set ws")
    case True
    then have "ws' \<noteq> ws" using assms by (simp add: pthread_cond_signal_def)
    then obtain i where "i < length ws" "ws' ! i \<noteq> ws ! i" using l by (auto simp: list_eq_iff_nth_eq)
    then show ?thesis using nth [of i] l nth_mem [of i ws'] by (intro bexI [of _ "ws' ! i"]) auto
  next
    case False
    then have "ws' ! 0 = ws ! 0" "ws ! 0 \<noteq> W_wait" using nth [of 0] that by (auto simp: in_set_conv_nth)
    then show ?thesis using that l nth_mem [of 0 ws'] by (intro bexI [of _ "ws' ! 0"]) auto
  qed
qed

lemma mutex_ok_rules:
  "mutex_ok None False ws \<Longrightarrow> mutex_ok (Some Main) True ws"
  "mutex_ok m True ws \<Longrightarrow> mutex_ok None False ws"
  "mutex_ok None ml ws \<Longrightarrow> i < length ws \<Longrightarrow> mutex_ok (Some (Worker i)) ml (ws[i := W_locked])"
  "mutex_ok m ml ws \<Longrightarrow> i < length ws \<Longrightarrow> ws ! i = W_locked \<Longrightarrow> w \<noteq> W_locked \<Longrightarrow> mutex_ok None ml (ws[i := w])"
  "mutex_ok m ml ws \<Longrightarrow> i < length ws \<Longrightarrow> ws ! i \<noteq> W_locked \<Longrightarrow> w \<noteq> W_locked \<Longrightarrow> mutex_ok m ml (ws[i := w])"
  "mutex_ok m ml ws \<Longrightarrow> w \<noteq> W_locked \<Longrightarrow> mutex_ok m ml (ws @ [w])"
  "mutex_ok m ml ws \<Longrightarrow> length ws' = length ws \<Longrightarrow> (\<And>i. i < length ws \<Longrightarrow> ws' ! i = W_locked \<longleftrightarrow> ws ! i = W_locked) \<Longrightarrow>
    mutex_ok m ml ws'"
proof goal_cases
  case (3)
  then show ?case by (auto simp: mutex_ok_def nth_list_update)
next
  case 4
  then have m: "m = Some (Worker i)" by (simp add: mutex_ok_def)
  with 4 show ?case by (auto simp: mutex_ok_def nth_list_update)
next
  case 5
  then show ?case by (auto simp: mutex_ok_def nth_list_update)
next
  case 6
  then show ?case by (auto simp: mutex_ok_def nth_append less_Suc_eq)
qed (auto simp: mutex_ok_def)

lemma mutex_step:
  assumes "step n fn js l s s'" "mutex_inv s" shows "mutex_inv s'"
  using assms
proof (induction rule: step.induct)
  case (enqueue s a j rest ws)
  have "mutex_ok None False (workers s)" using enqueue mutex_ok_rules(2) [of "mu s"] by (simp add: mutex_inv_def)
  then show ?case using enqueue(2) signal_facts(1,2) [of "workers s" ws] mutex_ok_rules(7) [of None False "workers s" ws]
    by (auto simp: mutex_inv_def split: if_splits)
next
  case (fail_shutdown s i)
  have "mutex_ok None False (workers s)" using fail_shutdown mutex_ok_rules(2) [of "mu s"] by (simp add: mutex_inv_def)
  then show ?case using mutex_ok_rules(7) [of None False "workers s" "pthread_cond_broadcast (workers s)"] by (simp add: mutex_inv_def)
next
  case (finish s)
  have "mutex_ok None False (workers s)" using finish mutex_ok_rules(2) [of "mu s"] by (simp add: mutex_inv_def)
  then show ?case using mutex_ok_rules(7) [of None False "workers s" "pthread_cond_broadcast (workers s)"] by (simp add: mutex_inv_def)
qed (simp_all add: mutex_inv_def mutex_ok_rules(1,3-6) mutex_ok_rules(2) [of "mu s" for s])

lemma in_update: "x \<in> set (ws[i := w]) \<Longrightarrow> w \<noteq> x \<Longrightarrow> x \<in> set ws"
  using set_update_subset_insert [of ws i w] by auto

lemma exit_update: "(\<forall>k < m. ws ! k = W_exit) \<Longrightarrow> ws ! i \<noteq> W_exit \<Longrightarrow> \<forall>k < m. ws[i := w] ! k = W_exit"
  by (metis nth_list_update_neq)

lemma joined_le: "threads_at n pc l \<Longrightarrow> joined pc l \<le> l"
  by (cases "(pc, l)" rule: joined.cases) auto

lemma control_step:
  assumes "step n fn js l s s'" "control_inv n s" shows "control_inv n s'"
  using assms
proof (induction rule: step.induct)
  case (enqueue s a j rest ws)
  then have ws: "pthread_cond_signal (workers s) ws" by (simp add: control_inv_def)
  show ?case using enqueue(1,3) signal_facts(1) [OF ws] by (simp add: control_inv_def q_enqueue_def Let_def split: option.splits)
next
  case (submit_copy s j rest a q)
  then show ?case by (auto simp: control_inv_def)
next
  case (take i s j q)
  have "q_shutdown q = q_shutdown (queue s)" using take(4) by (auto simp: q_dequeue_def split: option.splits)
  with take show ?case by (auto simp: control_inv_def exit_update dest: in_update)
next
  case (join s k)
  then show ?case by (auto simp: control_inv_def less_Suc_eq)
next
  case (fail_join s i k)
  then show ?case by (auto simp: control_inv_def less_Suc_eq)
qed (auto simp: control_inv_def exit_update dest: in_update)

lemma signal_open: "control_inv n s \<Longrightarrow> \<not> closing (main_thread s) \<Longrightarrow> \<not> q_shutdown (queue s)"
  by (simp add: control_inv_def)

lemma awake_update: "i < length ws \<Longrightarrow> w \<noteq> W_wait \<Longrightarrow> \<exists>w \<in> set (ws[i := w]). w \<noteq> W_wait"
  using set_update_memI [of i ws w] by blast

lemma jobs_step:
  assumes "step n fn js l s s'" "control_inv n s" "0 < n" "jobs_inv js s" shows "jobs_inv js s'"
  using assms
proof (induction rule: step.induct)
  case (submit_copy s j rest a q)
  have "queue_inv (queue s)" using submit_copy.prems(3) by (simp add: jobs_inv_def)
  note q = linked_queue.create_spec [OF this submit_copy(2)]
  show ?case using submit_copy(1) submit_copy.prems(3) q by (simp add: jobs_inv_def)
next
  case (enqueue s a j rest ws)
  then have sd: "\<not> q_shutdown (queue s)" by (intro signal_open) simp_all
  with enqueue(2) have ws: "pthread_cond_signal (workers s) ws" by simp
  have inv: "queue_inv (queue s)" "detached (queue s) a j" using enqueue(1) enqueue.prems(3) by (simp_all add: jobs_inv_def)
  have "workers s \<noteq> []" using enqueue.prems(1,2) enqueue(1) by (auto simp: control_inv_def)
  then show ?case using linked_queue.enq_ok [OF inv sd] enqueue(1) enqueue.prems(3) signal_facts(4,5) [OF ws] sd by (auto simp: jobs_inv_def)
next
  case (take i s j q)
  have inv: "queue_inv (queue s)" using take.prems(3) by (simp add: jobs_inv_def)
  have ne: "q_jobs (queue s) \<noteq> []" using take(3) queue_head [OF inv] by simp
  note q = linked_queue.deq_spec [OF inv take(4) ne]
  have "main_ok q (main_thread s)"
    using take.prems(3) linked_queue.deq_loose [OF inv take(4)] by (cases "main_thread s") (auto simp: jobs_inv_def)
  then show ?case using take.prems(3) q awake_update [OF take(1), of "W_run (fn j)"] ne
    by (auto simp: jobs_inv_def dest: in_update)
next
  case (submit_check s j rest)
  then have "\<not> q_shutdown (queue s)" by (intro signal_open) simp_all
  with submit_check show ?case by (simp add: jobs_inv_def)
next
  case (fail_shutdown s i)
  then show ?case by (auto simp: jobs_inv_def pthread_cond_broadcast_def intro!: bexI)
next
  case (finish s)
  then show ?case by (auto simp: jobs_inv_def pthread_cond_broadcast_def intro!: bexI)
next
  case (wait i s)
  then show ?case using queue_head [of "queue s"] by (auto simp: jobs_inv_def dest: in_update)
next
  case (quit i s)
  then show ?case using queue_head [of "queue s"] by (auto simp: jobs_inv_def)
next
  case (lock i s)
  then show ?case using awake_update [OF lock(1), of W_locked] by (auto simp: jobs_inv_def dest: in_update)
next
  case (relock i s)
  then show ?case using awake_update [OF relock(1), of W_locked] by (auto simp: jobs_inv_def dest: in_update)
next
  case (store i s a v todo)
  then show ?case using awake_update [OF store(1), of "W_run todo"] by (auto simp: jobs_inv_def dest: in_update)
next
  case (again i s)
  then show ?case using awake_update [OF again(1), of W_start] by (auto simp: jobs_inv_def dest: in_update)
next
  case (spurious i s)
  then show ?case using awake_update [OF spurious(1), of W_woken] by (auto simp: jobs_inv_def dest: in_update)
qed (auto simp: jobs_inv_def)

section \<open>Memory\<close>

fun todo :: "'v worker_pc \<Rightarrow> (nat \<times> 'v) list" where
  "todo (W_run ws) = ws"
| "todo _ = []"

definition in_work :: "'v worker_pc list \<Rightarrow> (nat \<times> 'v) set" where
  "in_work ws = (\<Union>w \<in> set ws. set (todo w))"

definition writes :: "('j \<Rightarrow> (nat \<times> 'v) list) \<Rightarrow> 'j list \<Rightarrow> (nat \<times> 'v) set" where
  "writes fn js = (\<Union>j \<in> set js. set (fn j))"

definition pending :: "('j \<Rightarrow> (nat \<times> 'v) list) \<Rightarrow> 'j list \<Rightarrow> ('j, 'v) pool \<Rightarrow> (nat \<times> 'v) set" where
  "pending fn js s = in_work (workers s) \<union> writes fn (q_jobs (queue s)) \<union> writes fn (main_jobs js (main_thread s))"

text \<open>Every write of a job is still to be made or in memory; other addresses keep their value.\<close>

definition mem_inv :: "('j \<Rightarrow> (nat \<times> 'v) list) \<Rightarrow> 'j list \<Rightarrow> (nat \<Rightarrow> 'v) \<Rightarrow> ('j, 'v) pool \<Rightarrow> bool" where
  "mem_inv fn js m s \<longleftrightarrow> pending fn js s \<subseteq> writes fn js \<and>
     (\<forall>a v. (a, v) \<in> writes fn js \<longrightarrow> (a, v) \<in> pending fn js s \<or> mem s a = v) \<and>
     (\<forall>a. a \<notin> fst ` writes fn js \<longrightarrow> mem s a = m a)"

lemma writes_simps [simp]: "writes fn [] = {}" "writes fn (j # js) = set (fn j) \<union> writes fn js" "writes fn (js @ js') = writes fn js \<union> writes fn js'"
  by (auto simp: writes_def)

lemma in_work_update:
  assumes "i < length ws" shows "in_work (ws[i := w]) \<union> set (todo (ws ! i)) = in_work ws \<union> set (todo w)"
proof -
  have "set ws = insert (ws ! i) (set (take i ws) \<union> set (drop (Suc i) ws))"
    using arg_cong [OF id_take_nth_drop [OF assms], of set] by auto
  moreover have "set (ws[i := w]) = insert w (set (take i ws) \<union> set (drop (Suc i) ws))"
    using upd_conv_take_nth_drop [OF assms, of w] by auto
  ultimately show ?thesis unfolding in_work_def by auto
qed

lemma in_work_idle: "i < length ws \<Longrightarrow> todo (ws ! i) = [] \<Longrightarrow> todo w = [] \<Longrightarrow> in_work (ws[i := w]) = in_work ws"
  using in_work_update [of i ws w] by simp

lemma todo_wake [simp]: "todo (wake w) = todo w"
  by (cases w) auto

lemma in_work_broadcast [simp]: "in_work (pthread_cond_broadcast ws) = in_work ws"
  by (auto simp: in_work_def pthread_cond_broadcast_def)

lemma in_work_append [simp]: "in_work (ws @ ws') = in_work ws \<union> in_work ws'" "in_work [w] = set (todo w)"
  by (auto simp: in_work_def)

lemma in_work_signal: "pthread_cond_signal ws ws' \<Longrightarrow> in_work ws' = in_work ws"
proof -
  assume "pthread_cond_signal ws ws'"
  then have "list_all2 (\<lambda>w w'. todo w' = todo w) ws ws'" unfolding pthread_cond_signal_def by (auto elim!: list_all2_mono)
  then show ?thesis unfolding in_work_def by (induction rule: list_all2_induct) auto
qed

lemma mem_inv_frame: "mem_inv fn js m s \<Longrightarrow> pending fn js s' = pending fn js s \<Longrightarrow> mem s' = mem s \<Longrightarrow> mem_inv fn js m s'"
  by (simp add: mem_inv_def)

lemma mem_step:
  assumes "step n fn js l s s'" "control_inv n s" "jobs_inv js s" "inj_on fst (writes fn js)" "mem_inv fn js m s"
  shows "mem_inv fn js m s'"
  using assms
proof (induction rule: step.induct)
  case (submit_copy s j rest a q)
  have "queue_inv (queue s)" using submit_copy.prems(2) by (simp add: jobs_inv_def)
  note q = linked_queue.create_spec [OF this submit_copy(2)]
  show ?case by (rule mem_inv_frame [OF submit_copy.prems(4)]) (simp_all add: pending_def q submit_copy(1))
next
  case (enqueue s a j rest ws)
  then have sd: "\<not> q_shutdown (queue s)" by (intro signal_open) simp_all
  with enqueue(2) have ws: "pthread_cond_signal (workers s) ws" by simp
  have inv: "queue_inv (queue s)" "detached (queue s) a j" using enqueue(1) enqueue.prems(2) by (simp_all add: jobs_inv_def)
  show ?case
    by (rule mem_inv_frame [OF enqueue.prems(4)]) (auto simp: pending_def linked_queue.enq_ok [OF inv sd] enqueue(1) in_work_signal [OF ws])
next
  case (take i s j q)
  have inv: "queue_inv (queue s)" using take.prems(2) by (simp add: jobs_inv_def)
  have ne: "q_jobs (queue s) \<noteq> []" using take(3) queue_head [OF inv] by simp
  note q = linked_queue.deq_spec [OF inv take(4) ne]
  show ?case using in_work_update [OF take(1), of "W_run (fn j)"] take(2)
    by (intro mem_inv_frame [OF take.prems(4)]) (auto simp: pending_def q)
next
  case (submit_check s j rest)
  then have "\<not> q_shutdown (queue s)" by (intro signal_open) simp_all
  then show ?case by (intro mem_inv_frame [OF submit_check.prems(4)]) (simp_all add: pending_def submit_check(1))
next
  case (store i s a v ws)
  let ?s = "s\<lparr>mem := (mem s)(a := v), workers := (workers s)[i := W_run ws]\<rparr>"
  have p: "pending fn js s = insert (a, v) (pending fn js ?s)"
    using in_work_update [OF store(1), of "W_run ws"] store(2) nth_mem [OF store(1)] set_update_memI [OF store(1), of "W_run ws"]
    by (fastforce simp: pending_def in_work_def)
  then have av: "(a, v) \<in> writes fn js" using store.prems(4) by (auto simp: mem_inv_def)
  then have uniq: "v' = v" if "(a, v') \<in> writes fn js" for v' using inj_onD [OF store.prems(3), of "(a, v')" "(a, v)"] that by simp
  have "a \<in> fst ` writes fn js" using av by force
  have m: "pending fn js s \<subseteq> writes fn js" "\<And>b u. (b, u) \<in> writes fn js \<Longrightarrow> (b, u) \<in> pending fn js s \<or> mem s b = u"
    "\<And>b. b \<notin> fst ` writes fn js \<Longrightarrow> mem s b = m b" using store.prems(4) by (simp_all add: mem_inv_def)
  show ?case unfolding mem_inv_def
  proof (intro conjI allI impI)
    show "pending fn js ?s \<subseteq> writes fn js" using m(1) p by simp
    show "(b, u) \<in> pending fn js ?s \<or> mem ?s b = u" if "(b, u) \<in> writes fn js" for b u
    proof (cases "b = a")
      case True
      then show ?thesis using uniq that by simp
    next
      case False
      then show ?thesis using m(2) [OF that] p by simp
    qed
    show "mem ?s b = m b" if "b \<notin> fst ` writes fn js" for b using m(3) [OF that] that \<open>a \<in> fst ` writes fn js\<close> by auto
  qed
qed (simp_all add: mem_inv_def pending_def in_work_idle)

text \<open>Before the first job is taken nothing is written.\<close>

definition idle_inv :: "(nat \<Rightarrow> 'v) \<Rightarrow> ('j, 'v) pool \<Rightarrow> bool" where
  "idle_inv m s \<longleftrightarrow> (taken s = [] \<longrightarrow> mem s = m \<and> in_work (workers s) = {})"

lemma idle_step:
  assumes "step n fn js l s s'" "idle_inv m s" shows "idle_inv m s'"
  using assms
proof (induction rule: step.induct)
  case (enqueue s a j rest ws)
  then show ?case using in_work_signal [of "workers s" ws] by (auto simp: idle_inv_def split: if_splits)
next
  case (store i s a v ws)
  then have "taken s \<noteq> []" using nth_mem [OF store(1)] by (fastforce simp: idle_inv_def in_work_def)
  then show ?case by (simp add: idle_inv_def)
qed (simp_all add: idle_inv_def in_work_idle)

section \<open>Runs\<close>

definition pool_inv :: "nat \<Rightarrow> ('j \<Rightarrow> (nat \<times> 'v) list) \<Rightarrow> 'j list \<Rightarrow> (nat \<Rightarrow> 'v) \<Rightarrow> ('j, 'v) pool \<Rightarrow> bool" where
  "pool_inv n fn js m s \<longleftrightarrow> mutex_inv s \<and> control_inv n s \<and> jobs_inv js s \<and> (inj_on fst (writes fn js) \<longrightarrow> mem_inv fn js m s) \<and>
     idle_inv m s"

lemma pool_create: "pool_inv n fn js m (tp_create m)"
  by (simp add: pool_inv_def tp_create_def mutex_inv_def mutex_ok_def control_inv_def jobs_inv_def mem_inv_def pending_def in_work_def
    idle_inv_def linked_queue.init_inv linked_queue.init_items linked_queue.init_open)

lemma pool_step:
  assumes "0 < n" "step n fn js l s s'" "pool_inv n fn js m s" shows "pool_inv n fn js m s'"
  using assms mutex_step [OF assms(2)] control_step [OF assms(2)] jobs_step [OF assms(2)] mem_step [OF assms(2)]
    idle_step [OF assms(2)]
  by (auto simp: pool_inv_def)

lemma run_inv: "run n fn js m t k s \<Longrightarrow> 0 < n \<Longrightarrow> pool_inv n fn js m s"
  by (induction rule: run.induct) (auto intro: pool_create pool_step)

definition final :: "('j, 'v) pool \<Rightarrow> bool" where
  "final s \<longleftrightarrow> main_thread s = M_end \<or> main_thread s = M_error"

text \<open>A thread that holds the mutex can always go on.\<close>

lemma holder_step:
  assumes inv: "pool_inv n fn js m s" and "mu s = Some th"
  shows "\<exists>s'. step n fn js Normal s s'"
proof (cases th)
  case Main
  then have "main_locked (main_thread s)" using assms by (simp add: pool_inv_def mutex_inv_def mutex_ok_def)
  moreover have "main_ok (queue s) (main_thread s)" using inv by (simp add: pool_inv_def jobs_inv_def)
  moreover have "\<exists>ws. if q_shutdown (queue s) then ws = workers s else pthread_cond_signal (workers s) ws"
  proof (cases "q_shutdown (queue s)")
    case False
    have "pthread_cond_signal (workers s) (pthread_cond_broadcast (workers s))"
      unfolding pthread_cond_signal_def
    proof (intro conjI impI)
      show "list_all2 (\<lambda>w w'. w' = w \<or> w = W_wait \<and> w' = W_woken) (workers s) (pthread_cond_broadcast (workers s))"
        unfolding list_all2_conv_all_nth by (simp add: wake_cases)
      show "pthread_cond_broadcast (workers s) \<noteq> workers s" if "W_wait \<in> set (workers s)"
      proof
        assume "pthread_cond_broadcast (workers s) = workers s"
        then have "W_wait \<notin> set (workers s)" using broadcast_simps(2) [of "workers s"] by (simp only: not_False_eq_True)
        with that show False by contradiction
      qed
    qed
    with False show ?thesis by auto
  qed simp
  ultimately show ?thesis
    by (cases "main_thread s") (auto simp: neq_Nil_conv intro: fail_shutdown submit_check enqueue finish)
next
  case (Worker i)
  then have i: "i < length (workers s)" "workers s ! i = W_locked" using assms unfolding pool_inv_def mutex_inv_def mutex_ok_def by blast+
  have q: "queue_inv (queue s)" using inv by (simp add: pool_inv_def jobs_inv_def)
  show ?thesis
  proof (cases "q_head (queue s)")
    case None
    with i show ?thesis by (cases "q_shutdown (queue s)") (auto intro: wait quit)
  next
    case (Some a)
    then obtain j js' where "q_jobs (queue s) = j # js'" using queue_head [OF q] by (cases "q_jobs (queue s)") auto
    with linked_queue.deq_ok [OF q this] i Some show ?thesis by (auto intro: take)
  qed
qed

text \<open>A worker that is not waiting and not at its end can go on while the mutex is free.\<close>

lemma worker_step:
  assumes "mu s = None" "mutex_inv s" "i < length (workers s)" "workers s ! i \<noteq> W_wait" "workers s ! i \<noteq> W_exit"
  shows "\<exists>s'. step n fn js Normal s s'"
proof (cases "workers s ! i")
  case (W_run ws)
  with assms show ?thesis by (cases ws) (auto intro: again store)
next
  case W_locked
  with assms show ?thesis by (simp add: mutex_inv_def mutex_ok_def)
qed (use assms in \<open>auto intro: lock relock\<close>)

lemma progress:
  assumes inv: "pool_inv n fn js m s" and "\<not> final s"
  shows "\<exists>s'. step n fn js Normal s s'"
proof (cases "mu s")
  case None
  have c: "control_inv n s" "mutex_inv s" "jobs_inv js s" using inv by (simp_all add: pool_inv_def)
  have waits: "\<exists>s'. step n fn js Normal s s'" if "closing (main_thread s)" "k < length (workers s)" "workers s ! k \<noteq> W_exit" for k
  proof -
    have "W_wait \<notin> set (workers s)" using c(1) that(1) by (auto simp: control_inv_def)
    then have "workers s ! k \<noteq> W_wait" using that(2) nth_mem by metis
    then show ?thesis using worker_step [OF None c(2) that(2)] that(3) by blast
  qed
  show ?thesis
  proof (cases "main_thread s")
    case (M_create i)
    then show ?thesis by (cases "i < n") (auto simp: not_less intro: create created)
  next
    case (M_fail_join i k)
    then have "length (workers s) = i" "k \<le> i" using c(1) by (simp_all add: control_inv_def)
    then show ?thesis using M_fail_join waits [of k]
      by (cases "k < i"; cases "workers s ! k = W_exit") (auto simp: not_less intro: fail_join fail_end)
  next
    case (M_join k)
    then have "length (workers s) = n" "k \<le> n" using c(1) by (simp_all add: control_inv_def)
    then show ?thesis using M_join waits [of k]
      by (cases "k < n"; cases "workers s ! k = W_exit") (auto simp: not_less intro: join join_end)
  next
    case (M_submit l)
    with None show ?thesis by (cases l) (auto intro: submit_lock finish_lock)
  next
    case (M_copy l)
    then obtain j rest where l: "l = j # rest" using c(3) by (auto simp: jobs_inv_def neq_Nil_conv)
    have "queue_inv (queue s)" using c(3) by (simp add: jobs_inv_def)
    from linked_queue.create_ok [OF this, of j] obtain a q where "qnode_create_copy (Some j) (queue s) = Inr (a, q)"
      by (elim exE conjE)
    from submit_copy [OF M_copy [unfolded l] this] show ?thesis by (rule exI)
  next
    case (M_enqueue a l)
    then obtain j rest where l: "l = j # rest" using c(3) by (auto simp: jobs_inv_def neq_Nil_conv)
    with M_enqueue None show ?thesis by (auto intro: enqueue_lock)
  qed (use assms(2) None c(2) in \<open>auto simp: final_def mutex_inv_def mutex_ok_def intro: fail_lock\<close>)
qed (rule holder_step [OF inv])

section \<open>Runs end\<close>

text \<open>
  A bound on the steps still to come. A worker that is woken takes the mutex and waits again: two
  steps. A job costs its writes, the step that takes it and the return to the queue.
\<close>

fun worker_cost :: "'v worker_pc \<Rightarrow> nat" where
  "worker_cost W_start = 2"
| "worker_cost W_locked = 1"
| "worker_cost W_wait = 0"
| "worker_cost W_woken = 2"
| "worker_cost (W_run ws) = length ws + 3"
| "worker_cost W_exit = 0"

definition job_cost :: "('j \<Rightarrow> (nat \<times> 'v) list) \<Rightarrow> 'j list \<Rightarrow> nat" where
  "job_cost fn js = sum_list (map (\<lambda>j. length (fn j) + 3) js)"

definition submit_cost :: "nat \<Rightarrow> ('j \<Rightarrow> (nat \<times> 'v) list) \<Rightarrow> 'j list \<Rightarrow> nat" where
  "submit_cost n fn js = job_cost fn js + (5 + 2 * n) * length js"

fun main_cost :: "nat \<Rightarrow> ('j \<Rightarrow> (nat \<times> 'v) list) \<Rightarrow> 'j list \<Rightarrow> 'j main_pc \<Rightarrow> nat" where
  "main_cost n fn js (M_create i) = 3 * (n - i) + submit_cost n fn js + 3 * n + 6"
| "main_cost n fn js (M_fail i) = 3 * i + 4"
| "main_cost n fn js (M_fail_locked i) = 3 * i + 3"
| "main_cost n fn js (M_fail_join i k) = (i - k) + 2"
| "main_cost n fn js M_error = 0"
| "main_cost n fn js (M_submit l) = submit_cost n fn l + 3 * n + 5"
| "main_cost n fn js (M_submit_locked l) = submit_cost n fn l + 3 * n + 4"
| "main_cost n fn js (M_copy l) = submit_cost n fn l + 3 * n + 3"
| "main_cost n fn js (M_enqueue a l) = submit_cost n fn l + 3 * n + 2"
| "main_cost n fn js (M_enqueue_locked a l) = submit_cost n fn l + 3 * n + 1"
| "main_cost n fn js M_finish_locked = 3 * n + 4"
| "main_cost n fn js (M_join k) = (n - k) + 2"
| "main_cost n fn js M_end = 0"

definition cost :: "nat \<Rightarrow> ('j \<Rightarrow> (nat \<times> 'v) list) \<Rightarrow> 'j list \<Rightarrow> ('j, 'v) pool \<Rightarrow> nat" where
  "cost n fn js s = sum_list (map worker_cost (workers s)) + job_cost fn (q_jobs (queue s)) + main_cost n fn js (main_thread s)"

lemma cost_simps [simp]:
  "job_cost fn [] = 0" "job_cost fn (j # js) = length (fn j) + 3 + job_cost fn js" "job_cost fn (js @ js') = job_cost fn js + job_cost fn js'"
  "submit_cost n fn [] = 0" "submit_cost n fn (j # js) = length (fn j) + 8 + 2 * n + submit_cost n fn js"
  by (simp_all add: job_cost_def submit_cost_def)

lemma cost_update:
  assumes "i < length ws"
  shows "sum_list (map worker_cost (ws[i := w])) + worker_cost (ws ! i) = sum_list (map worker_cost ws) + worker_cost w"
  using assms elem_le_sum_list [of i "map worker_cost ws"] by (simp add: map_update sum_list_update)

lemma broadcast_cost: "sum_list (map worker_cost (pthread_cond_broadcast ws)) \<le> sum_list (map worker_cost ws) + 2 * length ws"
proof (induction ws)
  case (Cons w ws)
  have "worker_cost (wake w) \<le> worker_cost w + 2" by (cases w) auto
  with Cons show ?case by (simp add: pthread_cond_broadcast_def)
qed (simp add: pthread_cond_broadcast_def)

lemma signal_cost:
  assumes "pthread_cond_signal ws ws'"
  shows "sum_list (map worker_cost ws') \<le> sum_list (map worker_cost ws) + 2 * length ws"
proof -
  have "list_all2 (\<lambda>w w'. worker_cost w' \<le> worker_cost w + 2) ws ws'"
    using assms unfolding pthread_cond_signal_def by (auto elim!: list_all2_mono)
  then show ?thesis by (induction rule: list_all2_induct) auto
qed

lemma cost_step:
  assumes "step n fn js l s s'" "control_inv n s" "jobs_inv js s"
  shows "if l = Spurious then cost n fn js s' = cost n fn js s + 2 else cost n fn js s' < cost n fn js s"
  using assms
proof (induction rule: step.induct)
  case (submit_copy s j rest a q)
  have "queue_inv (queue s)" using submit_copy.prems(2) by (simp add: jobs_inv_def)
  note q = linked_queue.create_spec [OF this submit_copy(2)]
  show ?case by (simp add: cost_def q submit_copy(1))
next
  case (enqueue s a j rest ws)
  then have sd: "\<not> q_shutdown (queue s)" by (intro signal_open) simp_all
  with enqueue(2) have ws: "pthread_cond_signal (workers s) ws" by simp
  have inv: "queue_inv (queue s)" "detached (queue s) a j" using enqueue(1) enqueue.prems(2) by (simp_all add: jobs_inv_def)
  have "length (workers s) = n" using enqueue.prems(1) enqueue(1) by (simp add: control_inv_def)
  then show ?case using signal_cost [OF ws] by (simp add: cost_def linked_queue.enq_ok [OF inv sd] enqueue(1))
next
  case (take i s j q)
  have inv: "queue_inv (queue s)" using take.prems(2) by (simp add: jobs_inv_def)
  have ne: "q_jobs (queue s) \<noteq> []" using take(3) queue_head [OF inv] by simp
  note q = linked_queue.deq_spec [OF inv take(4) ne]
  show ?case using cost_update [OF take(1), of "W_run (fn j)"] take(2) by (simp add: cost_def q)
next
  case (submit_check s j rest)
  then have "\<not> q_shutdown (queue s)" by (intro signal_open) simp_all
  then show ?case by (simp add: cost_def submit_check(1))
next
  case (fail_shutdown s i)
  then show ?case using broadcast_cost [of "workers s"] by (simp add: cost_def control_inv_def)
next
  case (finish s)
  then show ?case using broadcast_cost [of "workers s"] by (simp add: cost_def control_inv_def)
next
  case (store i s a v ws)
  then show ?case using cost_update [OF store(1), of "W_run ws"] by (simp add: cost_def)
next
  case (again i s)
  then show ?case using cost_update [OF again(1), of W_start] by (simp add: cost_def)
next
  case (lock i s)
  then show ?case using cost_update [OF lock(1), of W_locked] by (simp add: cost_def)
next
  case (relock i s)
  then show ?case using cost_update [OF relock(1), of W_locked] by (simp add: cost_def)
next
  case (wait i s)
  then show ?case using cost_update [OF wait(1), of W_wait] by (simp add: cost_def)
next
  case (quit i s)
  then show ?case using cost_update [OF quit(1), of W_exit] by (simp add: cost_def)
next
  case (spurious i s)
  then show ?case using cost_update [OF spurious(1), of W_woken] by (simp add: cost_def)
qed (simp_all add: cost_def control_inv_def)

lemma run_cost:
  assumes "run n fn js m t k s" "0 < n" shows "t + cost n fn js s \<le> cost n fn js (tp_create m) + 3 * k"
  using assms
proof (induction rule: run.induct)
  case (normal t k s s')
  have "pool_inv n fn js m s" using run_inv normal.hyps(1) normal.prems by blast
  then show ?case using cost_step [OF normal.hyps(2)] normal.IH [OF normal.prems] by (simp add: pool_inv_def)
next
  case (spurious t k s s')
  have "pool_inv n fn js m s" using run_inv spurious.hyps(1) spurious.prems by blast
  then show ?case using cost_step [OF spurious.hyps(2)] spurious.IH [OF spurious.prems] by (simp add: pool_inv_def)
qed simp

lemma create_cost: "cost n fn js (tp_create m) = 6 * n + 6 + submit_cost n fn js"
  by (simp add: cost_def tp_create_def linked_queue.init_items)

lemma all_exit:
  assumes "control_inv n s" "final s" shows "\<forall>w \<in> set (workers s). w = W_exit"
  using assms by (auto simp: control_inv_def final_def in_set_conv_nth)

lemma exit_work: "\<forall>w \<in> set ws. w = W_exit \<Longrightarrow> in_work ws = {}"
  by (auto simp: in_work_def)

text \<open>The state after \<open>tp_finish_and_destroy\<close>.\<close>

lemma end_jobs:
  assumes inv: "pool_inv n fn js m s" and e: "main_thread s = M_end" and n: "0 < n"
  shows "length (workers s) = n" "q_jobs (queue s) = []" "taken s = js"
proof -
  have c: "control_inv n s" "jobs_inv js s" using inv by (simp_all add: pool_inv_def)
  show l: "length (workers s) = n" using c(1) e by (simp add: control_inv_def)
  have "W_exit \<in> set (workers s)"
    using all_exit [OF c(1)] e n l by (metis final_def length_greater_0_conv list.set_sel(1))
  then show q: "q_jobs (queue s) = []" using c(2) by (simp add: jobs_inv_def)
  then show "taken s = js" using c(2) e by (simp add: jobs_inv_def)
qed

lemma end_memory:
  assumes inv: "pool_inv n fn js m s" and "inj_on fst (writes fn js)" "main_thread s = M_end" "0 < n"
  shows "(a, v) \<in> writes fn js \<Longrightarrow> mem s a = v" "a \<notin> fst ` writes fn js \<Longrightarrow> mem s a = m a"
proof -
  have c: "control_inv n s" "mem_inv fn js m s" using inv assms(2) by (simp_all add: pool_inv_def)
  have "pending fn js s = {}"
    using exit_work [OF all_exit [OF c(1)]] end_jobs(2) [OF inv assms(3,4)] assms(3) by (simp add: pending_def final_def)
  then show "(a, v) \<in> writes fn js \<Longrightarrow> mem s a = v" "a \<notin> fst ` writes fn js \<Longrightarrow> mem s a = m a"
    using c(2) by (auto simp: mem_inv_def)
qed

section \<open>Properties\<close>

text \<open>C25: in every reachable state of the pool at most one thread is inside the critical sections, the queue is
  well-formed, every submitted job is taken at most once and in the order of submission, and when
  the queue is not empty some worker is not waiting: no wake-up is lost.\<close>

theorem thread_pool_safe:
  assumes "run n fn js m t k s" "0 < n"
  shows "queue_inv (queue s) \<and> taken s @ q_jobs (queue s) @ main_jobs js (main_thread s) = js \<and>
    (\<forall>i < length (workers s). \<forall>i' < length (workers s). workers s ! i = W_locked \<longrightarrow> workers s ! i' = W_locked \<longrightarrow> i = i') \<and>
    (main_locked (main_thread s) \<longrightarrow> W_locked \<notin> set (workers s)) \<and>
    (q_jobs (queue s) \<noteq> [] \<longrightarrow> (\<exists>w \<in> set (workers s). w \<noteq> W_wait))"
proof -
  have inv: "mutex_inv s" "jobs_inv js s" using run_inv [OF assms] by (simp_all add: pool_inv_def)
  have mutex: "mu s = Some (Worker i)" if "i < length (workers s)" "workers s ! i = W_locked" for i
    using inv(1) that by (simp add: mutex_inv_def mutex_ok_def)
  have "W_locked \<notin> set (workers s)" if "main_locked (main_thread s)"
    using inv(1) that mutex by (auto simp: mutex_inv_def mutex_ok_def in_set_conv_nth)
  moreover have "i = i'" if "i < length (workers s)" "i' < length (workers s)" "workers s ! i = W_locked" "workers s ! i' = W_locked" for i i'
    using mutex [OF that(1,3)] mutex [OF that(2,4)] by simp
  ultimately show ?thesis using inv(2) by (auto simp: jobs_inv_def)
qed

text \<open>C26: the pool cannot deadlock and always comes to its end: every run that is not final can be continued by a
  step other than a spurious wake-up, and with \<open>k\<close> spurious wake-ups a run has at most
  \<open>6n + 6 + (2n + 8) * jobs + writes + 3k\<close> steps.\<close>

theorem thread_pool_live:
  assumes "run n fn js m t k s" "0 < n"
  shows "(final s \<or> (\<exists>s'. step n fn js Normal s s')) \<and>
    t \<le> 6 * n + 6 + (2 * n + 8) * length js + sum_list (map (length \<circ> fn) js) + 3 * k"
proof -
  have "submit_cost n fn js = (2 * n + 8) * length js + sum_list (map (length \<circ> fn) js)"
    by (induction js) (simp_all add: algebra_simps)
  then show ?thesis using progress [OF run_inv [OF assms]] run_cost [OF assms] by (auto simp: create_cost)
qed

text \<open>C27: when \<open>tp_finish_and_destroy\<close> returns, every submitted job has run to its end, in whatever order the
  threads interleaved: all workers are gone, the queue is empty, each job was taken once, memory holds
  every value the jobs write and is otherwise as before. Jobs must not write to the same address.
  When \<open>tp_create\<close> fails, the workers it had started are gone and memory is untouched.\<close>

theorem thread_pool_result:
  assumes "run n fn js m t k s" "0 < n" "inj_on fst (writes fn js)" "final s"
  shows "(\<forall>w \<in> set (workers s). w = W_exit) \<and>
    (if main_thread s = M_end
     then taken s = js \<and> q_jobs (queue s) = [] \<and> length (workers s) = n \<and>
       (\<forall>a v. (a, v) \<in> writes fn js \<longrightarrow> mem s a = v) \<and> (\<forall>a. a \<notin> fst ` writes fn js \<longrightarrow> mem s a = m a)
     else taken s = [] \<and> mem s = m)"
proof -
  have inv: "control_inv n s" "jobs_inv js s" "idle_inv m s" using run_inv [OF assms(1,2)] by (simp_all add: pool_inv_def)
  note ex = all_exit [OF inv(1) assms(4)]
  show ?thesis
  proof (cases "main_thread s = M_end")
    case True
    with ex end_jobs [OF run_inv [OF assms(1,2)] True assms(2)] end_memory [OF run_inv [OF assms(1,2)] assms(3) True assms(2)]
    show ?thesis by simp
  next
    case False
    then have "main_thread s = M_error" using assms(4) by (simp add: final_def)
    then have "taken s = []" using inv(2) by (simp add: jobs_inv_def)
    then show ?thesis using ex False inv(3) by (simp add: idle_inv_def)
  qed
qed

text \<open>Two workers and three jobs under a schedule in which both workers wait, one wakes without a signal and the
  jobs interleave.\<close>

definition ex_fn :: "nat \<Rightarrow> (nat \<times> nat) list" where "ex_fn j = [(2 * j, j), (2 * j + 1, j * j)]"
definition ex_jobs :: "nat list" where "ex_jobs = [1, 2, 3]"
definition ex_schedule :: "choice list" where
  "ex_schedule = [Go_main, Go_main, Go_main, Go_worker 0, Go_worker 0, Go_worker 1, Go_worker 1, Go_spurious 0, Go_worker 0] @
     [Go_worker 0] @ replicate 5 Go_main @ [Go_worker 0, Go_worker 0] @ replicate 5 Go_main @ [Go_worker 1, Go_worker 1] @
     concat (replicate 3 [Go_worker 1, Go_worker 0]) @ replicate 7 Go_main @ replicate 5 (Go_worker 1) @
     replicate 2 (Go_worker 0) @ replicate 2 (Go_worker 1) @ replicate 3 Go_main"
definition ex_final :: "(nat, nat) pool option" where "ex_final = exec_run 2 ex_fn ex_jobs ex_schedule (tp_create (\<lambda>_. 0))"

lemma ex_run:
  obtains s where "\<exists>t k. run 2 ex_fn ex_jobs (\<lambda>_. 0) t k s" "ex_final = Some s" "main_thread s = M_end"
proof -
  have "(case ex_final of Some s \<Rightarrow> main_thread s = M_end | None \<Rightarrow> False)" by code_simp
  then obtain s where s: "ex_final = Some s" "main_thread s = M_end" by (auto split: option.splits)
  then show thesis using that exec_run_run [OF s(1) [unfolded ex_final_def] run.start] by blast
qed

lemma ex_disjoint: "inj_on fst (writes ex_fn ex_jobs)"
  by (auto simp: inj_on_def writes_def ex_fn_def ex_jobs_def)

theorem thread_pool_safe_witness:
  "\<exists>s. ex_final = Some s \<and> taken s @ q_jobs (queue s) @ main_jobs ex_jobs (main_thread s) = ex_jobs"
proof -
  obtain s t k where s: "run 2 ex_fn ex_jobs (\<lambda>_. 0) t k s" "ex_final = Some s" using ex_run by metis
  then show ?thesis using thread_pool_safe [OF s(1)] by auto
qed

theorem thread_pool_live_witness:
  "\<exists>s t k. run 2 ex_fn ex_jobs (\<lambda>_. 0) t k s \<and> final s \<and> t \<le> 60 + 3 * k"
proof -
  obtain s t k where s: "run 2 ex_fn ex_jobs (\<lambda>_. 0) t k s" "main_thread s = M_end" using ex_run by metis
  then show ?thesis using thread_pool_live [OF s(1)]
    by (intro exI [of _ s] exI [of _ t] exI [of _ k]) (simp add: final_def ex_jobs_def ex_fn_def)
qed

theorem thread_pool_result_witness:
  "\<exists>s. ex_final = Some s \<and> taken s = ex_jobs \<and> mem s 4 = 2 \<and> mem s 5 = 4 \<and> mem s 7 = 9 \<and> mem s 0 = 0"
proof -
  obtain s t k where s: "run 2 ex_fn ex_jobs (\<lambda>_. 0) t k s" "ex_final = Some s" "main_thread s = M_end" using ex_run by metis
  then have "final s" by (simp add: final_def)
  with thread_pool_result [OF s(1) _ ex_disjoint] s(2,3) show ?thesis
    by (intro exI [of _ s]) (simp add: writes_def ex_fn_def ex_jobs_def image_iff)
qed

end
