(* ===== verification/Apply_Mt.thy ===== *)
theory Apply_Mt
  imports Thread_Pool
begin

text \<open>
  The table function \<^verbatim>\<open>apply_mt\<close> of \<^verbatim>\<open>src/ext/apply_mt_ext.c\<close>: every lambda of one table is applied to every row of
  another, by the threads of the pool. The rows are copied into one flat array, whose size and offsets the code computes with 32 bits; a job is one lambda on one
  range of rows and writes its results into another array. Injecting, folding and compiling a lambda is
  the argument \<open>compile\<close>; a row is a list of values, one for each column.
\<close>

section \<open>Jobs\<close>

record 'd WorkItem =
  id_lambda :: "64 word"
  start_row :: "64 word"
  end_row :: "64 word"
  num_cols :: nat
  num_tuples :: "64 word"
  in_data :: "'d list"
  eval_func :: "'d list \<Rightarrow> 'd"

text \<open>The row at index \<open>i\<close> of a flat array.\<close>

definition row_at :: "nat \<Rightarrow> 'd list \<Rightarrow> nat \<Rightarrow> 'd list" where
  "row_at cols chunk i = take cols (drop (i * cols) chunk)"

text \<open>\<open>eval_lambda\<close>, as the writes it makes to the result array.\<close>

definition job_rows :: "'d WorkItem \<Rightarrow> nat list" where
  "job_rows w = [unat (start_row w)..<min (unat (end_row w)) (unat (num_tuples w))]"

definition eval_lambda :: "'d WorkItem \<Rightarrow> (nat \<times> 'd) list" where
  "eval_lambda w =
    map (\<lambda>i. (unat (id_lambda w * num_tuples w + of_nat i), eval_func w (row_at (num_cols w) (in_data w) i))) (job_rows w)"

text \<open>\<open>(uint64_t) n * (uint64_t) i / (uint64_t) parts\<close>\<close>

definition chunk_bound :: "int \<Rightarrow> int \<Rightarrow> int \<Rightarrow> 64 word" where
  "chunk_bound n i parts = of_int n * of_int i div of_int parts"

definition apply_mt_threads :: "int \<Rightarrow> int \<Rightarrow> int" where
  "apply_mt_threads nthreads num_tuples_data =
    (if nthreads > num_tuples_data \<and> num_tuples_data > 0 then num_tuples_data else nthreads)"

text \<open>The jobs in the order in which they are submitted; \<open>nthreads\<close> after its adjustment.\<close>

definition lambda_jobs :: "int \<Rightarrow> nat \<Rightarrow> nat \<Rightarrow> 'd list \<Rightarrow> int \<Rightarrow> ('d list \<Rightarrow> 'd) \<Rightarrow> 'd WorkItem list" where
  "lambda_jobs nthreads cols n chunk lambda_ctr f =
    map (\<lambda>i. \<lparr>id_lambda = of_int lambda_ctr, start_row = chunk_bound (int n) i nthreads,
               end_row = chunk_bound (int n) (i + 1) nthreads, num_cols = cols,
               num_tuples = of_nat n, in_data = chunk, eval_func = f\<rparr>) [0..nthreads - 1]"

definition apply_mt_jobs :: "int \<Rightarrow> nat \<Rightarrow> ('l \<Rightarrow> 'd list \<Rightarrow> 'd) \<Rightarrow> nat \<Rightarrow> 'd list \<Rightarrow> 'l list \<Rightarrow> 'd WorkItem list" where
  "apply_mt_jobs nthreads cols compile n chunk lambdas =
    concat (map (\<lambda>(ctr, l). lambda_jobs nthreads cols n chunk (int ctr) (compile l)) (zip [0..<length lambdas] lambdas))"

section \<open>Memory\<close>

text \<open>Products of two \<open>int\<close>s, and \<open>palloc\<close> of a number of items: a negative one becomes a size beyond the limit.\<close>

definition mul32 :: "nat \<Rightarrow> nat \<Rightarrow> int" where
  "mul32 a b = sint (of_nat a * of_nat b :: 32 word)"

definition MaxAllocSize :: int where "MaxAllocSize = 0x3fffffff"

definition palloc_items :: "int \<Rightarrow> nat result" where
  "palloc_items k = (if k < 0 \<or> k * 8 > MaxAllocSize then Inl (elog_error ''invalid memory alloc request size'') else Inr (nat k))"

definition num_tuples_result :: "nat \<Rightarrow> nat \<Rightarrow> int" where
  "num_tuples_result n l = mul32 n l"

text \<open>The rows are copied into the array at \<open>idx_tup * num_cols_data\<close>; a copy that does not fit is \<open>Crash\<close>.\<close>

fun copy_rows :: "nat \<Rightarrow> nat \<Rightarrow> 'd list list \<Rightarrow> 'd list \<Rightarrow> 'd list result" where
  "copy_rows cols idx_tup [] chunk = Inr chunk"
| "copy_rows cols idx_tup (r # rs) chunk =
    (let off = mul32 idx_tup cols in
     if 0 \<le> off \<and> nat off + cols \<le> length chunk
     then copy_rows cols (Suc idx_tup) rs (take (nat off) chunk @ r @ drop (nat off + cols) chunk)
     else Inl Crash)"

text \<open>Both arrays: that of the data, filled, and that of the results. \<open>junk\<close> is the content of fresh memory.\<close>

definition apply_mt_memory :: "(nat \<Rightarrow> 'd) \<Rightarrow> nat \<Rightarrow> 'd list list \<Rightarrow> nat \<Rightarrow> 'd list result" where
  "apply_mt_memory junk cols data num_tuples_lambda =
    rbind (palloc_items (mul32 cols (length data))) (\<lambda>items.
    rbind (copy_rows cols 0 data (map junk [0..<items])) (\<lambda>mem_chunk_data.
    rbind (palloc_items (num_tuples_result (length data) num_tuples_lambda)) (\<lambda>_.
      Inr mem_chunk_data)))"

text \<open>The output rows, read off both arrays after the pool has ended.\<close>

definition apply_mt_output :: "nat \<Rightarrow> nat \<Rightarrow> 'd list \<Rightarrow> nat \<Rightarrow> (nat \<Rightarrow> 'd) \<Rightarrow> 'd list list result" where
  "apply_mt_output cols n chunk num_tuples_lambda result =
    rmapM (\<lambda>i. let off = mul32 (nat i mod n) cols in
      if 0 \<le> off \<and> nat off + cols \<le> length chunk then Inr (take cols (drop (nat off) chunk) @ [result (nat i)]) else Inl Crash)
      [0..num_tuples_result n num_tuples_lambda - 1]"

text \<open>What the function is for: each lambda on each row.\<close>

definition apply_all :: "('l \<Rightarrow> 'd list \<Rightarrow> 'd) \<Rightarrow> 'd list list \<Rightarrow> 'l list \<Rightarrow> 'd list list" where
  "apply_all compile data lambdas = concat (map (\<lambda>l. map (\<lambda>r. r @ [compile l r]) data) lambdas)"

section \<open>Flat arrays\<close>

lemma row_at_concat:
  assumes "\<forall>r \<in> set data. length r = cols" "i < length data" shows "row_at cols (concat data) i = data ! i"
  using assms
proof (induction data arbitrary: i)
  case (Cons r data)
  then show ?case by (cases i) (auto simp: row_at_def add.commute)
qed simp

lemma upto_upt: "[0..p - 1] = map int [0..<nat p]"
  by (rule nth_equalityI) (auto simp: nth_upto)

lemma upt_split: "(a :: nat) \<le> b \<Longrightarrow> b \<le> c \<Longrightarrow> [a..<b] @ [b..<c] = [a..<c]"
  by (metis le_Suc_ex upt_add_eq_append)

lemma concat_upt:
  assumes "\<And>i. i < p \<Longrightarrow> (b :: nat \<Rightarrow> nat) i \<le> b (Suc i)" shows "concat (map (\<lambda>i. [b i..<b (Suc i)]) [0..<p]) = [b 0..<b p]"
  using assms
proof (induction p)
  case (Suc p)
  have "b 0 \<le> b p" using Suc.prems by (intro lift_Suc_mono_le [of "\<lambda>i. b (min i p)" 0 p, simplified]) (auto simp: min_def not_le Suc_le_eq)
  then show ?case using Suc by (simp add: upt_split)
qed simp

section \<open>The ranges of the jobs\<close>

lemma unat_of_int64: "0 \<le> k \<Longrightarrow> k < 18446744073709551616 \<Longrightarrow> unat (of_int k :: 64 word) = nat k"
proof -
  assume k: "0 \<le> k" "k < 18446744073709551616"
  then have "uint (of_int k :: 64 word) = k" by (simp add: unsigned_of_int take_bit_int_eq_self)
  then show ?thesis by (simp flip: nat_uint_eq)
qed

lemma mult_bound: "0 \<le> a \<Longrightarrow> a \<le> 2147483647 \<Longrightarrow> 0 \<le> b \<Longrightarrow> b \<le> 2147483648 \<Longrightarrow> a * b < (18446744073709551616 :: int)"
proof -
  assume "0 \<le> a" "a \<le> 2147483647" "0 \<le> b" "b \<le> 2147483648"
  then have "a * b \<le> 2147483647 * 2147483648" by (intro mult_mono) auto
  then show ?thesis by simp
qed

lemma unat_chunk_bound:
  assumes "0 \<le> n" "n \<le> PG_INT32_MAX" "0 \<le> i" "i \<le> PG_INT32_MAX + 1" "0 < parts" "parts \<le> PG_INT32_MAX"
  shows "unat (chunk_bound n i parts) = nat (n * i div parts)"
proof -
  have "of_int n * of_int i = (of_int (n * i) :: 64 word)" by simp
  moreover have "unat (of_int (n * i) :: 64 word) = nat (n * i)"
    using assms by (intro unat_of_int64 mult_bound) (simp_all add: PG_INT32_MAX_def)
  moreover have "unat (of_int parts :: 64 word) = nat parts" using assms by (intro unat_of_int64) (simp_all add: PG_INT32_MAX_def)
  ultimately show ?thesis using assms by (simp add: chunk_bound_def unat_div_distrib nat_div_distrib)
qed

text \<open>A job of a partition into \<open>parts\<close> ranges, as a function of the number of its range.\<close>

definition part :: "nat \<Rightarrow> nat \<Rightarrow> nat \<Rightarrow> nat" where
  "part n parts i = n * i div parts"

lemma parts_cover:
  assumes "0 < parts" shows "concat (map (\<lambda>i. [part n parts i..<part n parts (Suc i)]) [0..<parts]) = [0..<n]"
proof -
  have "part n parts i \<le> part n parts (Suc i)" for i unfolding part_def by (rule div_le_mono) simp
  from concat_upt [of parts "part n parts", OF this] show ?thesis using assms by (simp add: part_def)
qed

lemma part_le: "0 < parts \<Longrightarrow> i \<le> parts \<Longrightarrow> part n parts i \<le> n"
  unfolding part_def by (metis div_le_mono mult.commute mult_le_mono2 nonzero_mult_div_cancel_left not_less_zero)

lemma unat_small: "n \<le> 2147483647 \<Longrightarrow> unat (of_nat n :: 64 word) = n"
  using unat_of_int64 [of "int n"] by simp

text \<open>The writes of one lambda over all its jobs are its results, in the order of the rows.\<close>

lemma lambda_jobs_writes:
  assumes n: "int n \<le> PG_INT32_MAX" and l: "int l \<le> PG_INT32_MAX" and p: "0 < p" "p \<le> PG_INT32_MAX"
  shows "concat (map eval_lambda (lambda_jobs p cols n chunk (int l) f)) =
    map (\<lambda>i. (l * n + i, f (row_at cols chunk i))) [0..<n]"
proof -
  let ?b = "part n (nat p)"
  let ?g = "\<lambda>i. (l * n + i, f (row_at cols chunk i))"
  have b: "unat (chunk_bound (int n) (int i) p) = ?b i" if "i \<le> nat p" for i
    using unat_chunk_bound [of "int n" "int i" p] n p that
    by (simp add: part_def nat_div_distrib nat_mult_distrib)
  have addr: "unat (of_nat l * of_nat n + of_nat i :: 64 word) = l * n + i" if "i < n" for i
  proof -
    have "int l * int n \<le> 2147483647 * 2147483647" using l n by (intro mult_mono) (auto simp: PG_INT32_MAX_def)
    then have "int (l * n + i) < 18446744073709551616" using that n by (simp add: PG_INT32_MAX_def)
    then have "unat (of_int (int (l * n + i)) :: 64 word) = nat (int (l * n + i))" by (intro unat_of_int64) auto
    then have "unat (of_nat (l * n + i) :: 64 word) = l * n + i" by (simp only: of_int_of_nat_eq nat_int)
    then show ?thesis by simp
  qed
  let ?job = "\<lambda>i. \<lparr>id_lambda = of_nat l, start_row = chunk_bound (int n) (int i) p, end_row = chunk_bound (int n) (int i + 1) p,
      num_cols = cols, num_tuples = of_nat n, in_data = chunk, eval_func = f\<rparr>"
  have job: "eval_lambda (?job i) = map ?g [?b i..<?b (Suc i)]" if i: "i < nat p" for i
  proof -
    have "?b (Suc i) \<le> n" using part_le [of "nat p" "Suc i" n] i by simp
    then have "job_rows (?job i) = [?b i..<?b (Suc i)]"
      using b [of i] b [of "Suc i"] i n by (simp add: job_rows_def unat_small PG_INT32_MAX_def add.commute)
    with \<open>?b (Suc i) \<le> n\<close> show ?thesis using addr by (auto simp: eval_lambda_def)
  qed
  have "concat (map eval_lambda (lambda_jobs p cols n chunk (int l) f)) = concat (map (\<lambda>i. map ?g [?b i..<?b (Suc i)]) [0..<nat p])"
    unfolding lambda_jobs_def upto_upt by (intro arg_cong [of _ _ concat]) (auto simp: job)
  also have "\<dots> = map ?g (concat (map (\<lambda>i. [?b i..<?b (Suc i)]) [0..<nat p]))" by (simp add: map_concat comp_def)
  also have "\<dots> = map ?g [0..<n]" using parts_cover [of "nat p" n] p by simp
  finally show ?thesis .
qed

lemma apply_mt_job_writes:
  assumes n: "int n \<le> PG_INT32_MAX" and l: "int (length lambdas) \<le> PG_INT32_MAX" and p: "0 < p" "p \<le> PG_INT32_MAX"
  shows "concat (map eval_lambda (apply_mt_jobs p cols compile n chunk lambdas)) =
    concat (map (\<lambda>j. map (\<lambda>i. (j * n + i, compile (lambdas ! j) (row_at cols chunk i))) [0..<n]) [0..<length lambdas])"
proof -
  have "zip [0..<length lambdas] lambdas = map (\<lambda>j. (j, lambdas ! j)) [0..<length lambdas]" by (rule nth_equalityI) simp_all
  then have "concat (map eval_lambda (apply_mt_jobs p cols compile n chunk lambdas)) =
      concat (map (\<lambda>j. concat (map eval_lambda (lambda_jobs p cols n chunk (int j) (compile (lambdas ! j))))) [0..<length lambdas])"
    by (simp add: apply_mt_jobs_def concat_map_concat comp_def)
  also have "\<dots> = concat (map (\<lambda>j. map (\<lambda>i. (j * n + i, compile (lambdas ! j) (row_at cols chunk i))) [0..<n]) [0..<length lambdas])"
    using lambda_jobs_writes [OF n _ p, where cols = cols and chunk = chunk] l by (intro arg_cong [of _ _ concat] map_cong refl) simp
  finally show ?thesis .
qed

lemma apply_mt_writes:
  assumes n: "int (length data) \<le> PG_INT32_MAX" and l: "int (length lambdas) \<le> PG_INT32_MAX" and p: "0 < p" "p \<le> PG_INT32_MAX"
    and cols: "\<forall>r \<in> set data. length r = cols"
  shows "writes eval_lambda (apply_mt_jobs p cols compile (length data) (concat data) lambdas) =
    (\<Union>j \<in> {0..<length lambdas}. (\<lambda>i. (j * length data + i, compile (lambdas ! j) (data ! i))) ` {0..<length data})"
proof -
  have "writes eval_lambda (apply_mt_jobs p cols compile (length data) (concat data) lambdas) =
      (\<Union>j \<in> {0..<length lambdas}. (\<lambda>i. (j * length data + i, compile (lambdas ! j) (row_at cols (concat data) i))) ` {0..<length data})"
    using arg_cong [OF apply_mt_job_writes [OF n l p, of cols compile "concat data"], of set] unfolding writes_def by simp
  also have "\<dots> = (\<Union>j \<in> {0..<length lambdas}. (\<lambda>i. (j * length data + i, compile (lambdas ! j) (data ! i))) ` {0..<length data})"
    by (intro SUP_cong image_cong refl) (simp add: row_at_concat [OF cols])
  finally show ?thesis .
qed

lemma apply_mt_disjoint:
  assumes "int (length data) \<le> PG_INT32_MAX" "int (length lambdas) \<le> PG_INT32_MAX" "0 < p" "p \<le> PG_INT32_MAX"
    "\<forall>r \<in> set data. length r = cols"
  shows "inj_on fst (writes eval_lambda (apply_mt_jobs p cols compile (length data) (concat data) lambdas))"
  unfolding apply_mt_writes [OF assms] by (auto simp: inj_on_def dest: cell_unique)

lemma apply_all_cells:
  "apply_all compile data lambdas =
    map (\<lambda>k. data ! (k mod length data) @ [compile (lambdas ! (k div length data)) (data ! (k mod length data))])
      [0..<length lambdas * length data]"
proof -
  have "apply_all compile data lambdas =
      concat (map (\<lambda>l. map (\<lambda>i. data ! i @ [compile (lambdas ! l) (data ! i)]) [0..<length data]) [0..<length lambdas])"
    unfolding apply_all_def by (intro arg_cong [of _ _ concat] nth_equalityI) (auto intro!: nth_equalityI)
  then show ?thesis by (simp add: concat_cells)
qed

lemma sint_small: "0 \<le> k \<Longrightarrow> k \<le> PG_INT32_MAX \<Longrightarrow> sint (of_int k :: 32 word) = k"
  by (simp add: PG_INT32_MAX_def signed_of_int signed_take_bit_int_eq_self)

lemma mul32_small: "int (a * b) \<le> PG_INT32_MAX \<Longrightarrow> mul32 a b = int (a * b)"
  using sint_small [of "int (a * b)"] by (simp add: mul32_def)

lemma num_tuples_small: "int (n * l) \<le> PG_INT32_MAX \<Longrightarrow> num_tuples_result n l = int (n * l)"
  by (simp add: num_tuples_result_def mul32_small)

lemma copy_rows_spec:
  assumes "copy_rows cols idx rows chunk = Inr chunk'" "\<forall>r \<in> set rows. length r = cols" "idx * cols \<le> length chunk" "int (length chunk) \<le> PG_INT32_MAX"
  shows "(idx + length rows) * cols \<le> length chunk \<and> chunk' = take (idx * cols) chunk @ concat rows @ drop ((idx + length rows) * cols) chunk"
  using assms
proof (induction rows arbitrary: idx chunk)
  case (Cons r rows)
  have off: "mul32 idx cols = int (idx * cols)" using Cons.prems(3,4) by (intro mul32_small) linarith
  let ?c = "take (idx * cols) chunk @ r @ drop (idx * cols + cols) chunk"
  have fit: "idx * cols + cols \<le> length chunk" "copy_rows cols (Suc idx) rows ?c = Inr chunk'"
    using Cons.prems(1) by (auto simp: Let_def off simp del: of_nat_mult split: if_splits)
  have r: "length r = cols" "length ?c = length chunk" using Cons.prems(2) fit(1) by auto
  have "(Suc idx + length rows) * cols \<le> length ?c \<and> chunk' = take (Suc idx * cols) ?c @ concat rows @ drop ((Suc idx + length rows) * cols) ?c"
    by (rule Cons.IH [OF fit(2)]) (use Cons.prems(2,4) fit(1) r in simp_all)
  moreover have "take (Suc idx * cols) ?c = take (idx * cols) chunk @ r" using fit(1) r(1) by (simp add: add.commute)
  moreover have "drop ((Suc idx + length rows) * cols) ?c = drop ((idx + length (r # rows)) * cols) chunk"
    using fit(1) r(1) by (simp add: algebra_simps)
  ultimately show ?case using r(2) by simp
qed simp

text \<open>If the arrays can be allocated and filled, no product has wrapped around, and the array holds the rows.\<close>

lemma memory_spec:
  assumes mem: "apply_mt_memory junk cols data l = Inr chunk" and cols: "\<forall>r \<in> set data. length r = cols"
  shows "chunk = concat data" "int (length data * cols) \<le> PG_INT32_MAX"
proof -
  define items where "items = nat (mul32 cols (length data))"
  have items: "mul32 cols (length data) \<ge> 0" "int items \<le> PG_INT32_MAX" "copy_rows cols 0 data (map junk [0..<items]) = Inr chunk"
    using mem unfolding items_def
    by (auto simp: apply_mt_memory_def palloc_items_def MaxAllocSize_def PG_INT32_MAX_def result_simps split: if_splits)
  from copy_rows_spec [OF items(3) cols] items(2)
  have fit: "length data * cols \<le> items" "chunk = concat data @ drop (length data * cols) (map junk [0..<items])" by simp_all
  then show small: "int (length data * cols) \<le> PG_INT32_MAX" using items(2) by linarith
  have "items = length data * cols" unfolding items_def using mul32_small [of cols "length data"] small by (simp add: mult.commute del: of_nat_mult)
  then show "chunk = concat data" using fit(2) by simp
qed

lemma output_cells:
  assumes "int (length data * l) \<le> PG_INT32_MAX" "\<forall>r \<in> set data. length r = cols" "int (length data * cols) \<le> PG_INT32_MAX"
  shows "apply_mt_output cols (length data) (concat data) l result =
    Inr (map (\<lambda>k. data ! (k mod length data) @ [result k]) [0..<l * length data])"
proof -
  have ks: "[0..num_tuples_result (length data) l - 1] = map int [0..<l * length data]"
    unfolding num_tuples_small [OF assms(1)] upto_upt nat_int by (simp add: mult.commute)
  have len: "length (concat data) = length data * cols" using assms(2) by (induction data) auto
  have cell: "mul32 (k mod length data) cols = int (k mod length data * cols)" "k mod length data * cols + cols \<le> length (concat data)"
    "row_at cols (concat data) (k mod length data) = data ! (k mod length data)" if "k < l * length data" for k
  proof -
    have k: "k mod length data < length data" using that by (cases data) auto
    then have "Suc (k mod length data) * cols \<le> length data * cols" by (intro mult_le_mono1) simp
    then show "k mod length data * cols + cols \<le> length (concat data)" using len by simp
    then show "mul32 (k mod length data) cols = int (k mod length data * cols)" using assms(3) len by (intro mul32_small) linarith
    show "row_at cols (concat data) (k mod length data) = data ! (k mod length data)" by (rule row_at_concat [OF assms(2) k])
  qed
  show ?thesis unfolding apply_mt_output_def ks rmapM_map
    by (rule rmapM_total) (use cell in \<open>auto simp: row_at_def Let_def simp del: of_nat_mult\<close>)
qed

lemma apply_mt_threads_pos: "0 < nthreads \<Longrightarrow> 0 \<le> n \<Longrightarrow> 0 < apply_mt_threads nthreads n \<and> apply_mt_threads nthreads n \<le> nthreads"
  by (auto simp: apply_mt_threads_def)

lemma apply_mt_cells:
  assumes "0 < nthreads" "nthreads \<le> PG_INT32_MAX" "int (length data) \<le> PG_INT32_MAX" "int (length lambdas) \<le> PG_INT32_MAX"
    and cols: "\<forall>r \<in> set data. length r = cols"
    and run: "run (tp_threads p) eval_lambda (apply_mt_jobs p cols compile (length data) (concat data) lambdas) (\<lambda>_. zero) t k s" "main_thread s = M_end"
    and p_def: "p = apply_mt_threads nthreads (int (length data))" and a: "a < length lambdas * length data"
  shows "mem s a = compile (lambdas ! (a div length data)) (data ! (a mod length data))"
proof -
  let ?n = "length data" and ?js = "apply_mt_jobs p cols compile (length data) (concat data) lambdas"
  have p: "0 < p" "p \<le> PG_INT32_MAX" using apply_mt_threads_pos [OF assms(1), of "int ?n"] assms(2) p_def by auto
  then have threads: "0 < tp_threads p" by (simp add: tp_threads_def)
  have inv: "pool_inv (tp_threads p) eval_lambda ?js (\<lambda>_. zero) s" by (rule run_inv [OF run(1) threads])
  have "0 < ?n" using a by (cases ?n) auto
  then have "a div ?n < length lambdas" "a mod ?n < ?n" using a by (simp_all add: div_less_iff_less_mult)
  then have "(a div ?n * ?n + a mod ?n, compile (lambdas ! (a div ?n)) (data ! (a mod ?n))) \<in> writes eval_lambda ?js"
    unfolding apply_mt_writes [OF assms(3,4) p cols] by force
  then show ?thesis using end_memory [OF inv apply_mt_disjoint [OF assms(3,4) p cols, of compile] run(2) threads] by simp
qed

section \<open>Properties\<close>

text \<open>C28: \<open>apply_mt\<close> computes every lambda on every row. If the arrays for the data and the results can be allocated, the thread
  count is positive and the number of results fits into an \<open>int\<close>, then whatever way the threads of the pool interleave, once the
  pool has ended the output consists of the data rows, each with the result of the lambda on it, lambda by
  lambda, and no row is read outside of the array of the data.\<close>

theorem apply_mt_results:
  assumes "0 < nthreads" "nthreads \<le> PG_INT32_MAX" "int (length data) \<le> PG_INT32_MAX" "int (length lambdas) \<le> PG_INT32_MAX"
    and "int (length data * length lambdas) \<le> PG_INT32_MAX" "\<forall>r \<in> set data. length r = cols"
    and mem: "apply_mt_memory junk cols data (length lambdas) = Inr chunk"
    and "run (tp_threads p) eval_lambda (apply_mt_jobs p cols compile (length data) chunk lambdas) (\<lambda>_. zero) t k s" "main_thread s = M_end"
    and "p = apply_mt_threads nthreads (int (length data))"
  shows "apply_mt_output cols (length data) chunk (length lambdas) (mem s) = Inr (apply_all compile data lambdas)"
proof -
  note chunk = memory_spec [OF mem assms(6)]
  have cells: "mem s a = compile (lambdas ! (a div length data)) (data ! (a mod length data))" if "a < length lambdas * length data" for a
    by (rule apply_mt_cells [OF assms(1-4,6) assms(8) [unfolded chunk(1)] assms(9,10) that])
  show ?thesis unfolding chunk(1) output_cells [OF assms(5,6) chunk(2)] apply_all_cells using cells by simp
qed

text \<open>C31: the jobs of \<open>apply_mt\<close> stay inside the result array and never write to the same place, for a positive number of
  threads and a number of results that fits into an \<open>int\<close>: every address is
  below the number of results, each result has exactly one writer, and none is left out.\<close>

theorem apply_mt_jobs_partition:
  assumes "0 < p" "p \<le> PG_INT32_MAX" "int n \<le> PG_INT32_MAX" "int (length lambdas) \<le> PG_INT32_MAX"
    and "int (n * length lambdas) \<le> PG_INT32_MAX"
  shows "map fst (concat (map eval_lambda (apply_mt_jobs p cols compile n chunk lambdas))) =
    [0..<nat (num_tuples_result n (length lambdas))]"
  unfolding apply_mt_job_writes [OF assms(3,4,1,2)] num_tuples_small [OF assms(5)] nat_int
  by (simp add: map_concat comp_def concat_cells mult.commute)

text \<open>C32: with a thread count that is not positive, \<open>tp_create\<close> still starts one worker, but no job is submitted: the
  output has a row for every lambda and data row, all with the result 0, if the two arrays can be allocated.\<close>

theorem apply_mt_no_threads:
  assumes "nthreads \<le> 0" "p = apply_mt_threads nthreads (int (length data))"
    and mem: "apply_mt_memory junk cols data (length lambdas) = Inr chunk"
    and "run (tp_threads p) eval_lambda (apply_mt_jobs p cols compile (length data) chunk lambdas) (\<lambda>_. zero) t k s" "main_thread s = M_end"
    and "int (length data * length lambdas) \<le> PG_INT32_MAX" "\<forall>r \<in> set data. length r = cols"
  shows "tp_threads p = 1 \<and> apply_mt_jobs p cols compile (length data) chunk lambdas = [] \<and>
    apply_mt_output cols (length data) chunk (length lambdas) (mem s) = Inr (apply_all (\<lambda>_ _. zero) data lambdas)"
proof -
  have p: "p \<le> 0" using assms(1,2) by (auto simp: apply_mt_threads_def)
  then have none: "apply_mt_jobs p cols compile (length data) chunk lambdas = []" by (auto simp: apply_mt_jobs_def lambda_jobs_def)
  have one: "tp_threads p = 1" using p by (simp add: tp_threads_def)
  have inv: "pool_inv 1 eval_lambda ([] :: 'a WorkItem list) (\<lambda>_. zero) s"
    using run_inv [OF assms(4)] unfolding one none by simp
  have zeros: "mem s a = zero" for a using end_memory(2) [OF inv _ assms(5)] by simp
  note chunk = memory_spec [OF mem assms(7)]
  have "apply_mt_output cols (length data) chunk (length lambdas) (mem s) = Inr (apply_all (\<lambda>_ _. zero) data lambdas)"
    unfolding chunk(1) output_cells [OF assms(6,7) chunk(2)] apply_all_cells by (simp add: zeros)
  with one none show ?thesis by simp
qed

text \<open>Two lambdas on three rows of two columns, with two threads.\<close>

definition ex_data :: "int list list" where "ex_data = [[1, 2], [3, 4], [5, 6]]"
definition ex_compile :: "int \<Rightarrow> int list \<Rightarrow> int" where "ex_compile l r = l * sum_list r"
definition ex_mt_jobs :: "int \<Rightarrow> int WorkItem list" where "ex_mt_jobs p = apply_mt_jobs p 2 ex_compile 3 (concat ex_data) [10, 20]"
definition ex_turn :: "choice list" where "ex_turn = [Go_main, Go_worker 0, Go_worker 1]"

text \<open>Both workers and the main thread in turn; steps that are not possible are left out.\<close>

fun round_robin :: "nat \<Rightarrow> ('j \<Rightarrow> (nat \<times> 'v) list) \<Rightarrow> 'j list \<Rightarrow> choice list \<Rightarrow> ('j, 'v) pool \<Rightarrow> ('j, 'v) pool" where
  "round_robin n fn js [] s = s"
| "round_robin n fn js (ch # chs) s = round_robin n fn js chs (case exec n fn js ch s of None \<Rightarrow> s | Some s' \<Rightarrow> s')"

lemma round_robin_run:
  assumes "run n fn js m t k s" shows "\<exists>t k. run n fn js m t k (round_robin n fn js chs s)"
  using assms
proof (induction chs arbitrary: s t k)
  case (Cons ch chs)
  then show ?case
  proof (cases "exec n fn js ch s")
    case (Some s')
    then have "\<exists>t k. run n fn js m t k s'" using exec_run_run [of n fn js "[ch]" s s'] Cons.prems by simp
    with Cons.IH Some show ?thesis by auto
  qed auto
qed auto

definition ex_mt_final :: "int \<Rightarrow> (int WorkItem, int) pool" where
  "ex_mt_final p = round_robin (tp_threads p) eval_lambda (ex_mt_jobs p) (concat (replicate 40 ex_turn)) (tp_create (\<lambda>_. 0))"

lemma ex_mt_run: "\<exists>t k. run (tp_threads p) eval_lambda (ex_mt_jobs p) (\<lambda>_. 0) t k (ex_mt_final p)"
  unfolding ex_mt_final_def by (rule round_robin_run [OF run.start])

lemma ex_mt_end: "main_thread (ex_mt_final 2) = M_end" "main_thread (ex_mt_final 0) = M_end"
proof -
  have "(case main_thread (ex_mt_final 2) of M_end \<Rightarrow> True | _ \<Rightarrow> False)" "(case main_thread (ex_mt_final 0) of M_end \<Rightarrow> True | _ \<Rightarrow> False)"
    by code_simp+
  then show "main_thread (ex_mt_final 2) = M_end" "main_thread (ex_mt_final 0) = M_end" by (auto split: main_pc.splits)
qed

lemma ex_mt_facts:
  "int (length ex_data) \<le> PG_INT32_MAX" "int (length ex_data * length [10, 20 :: int]) \<le> PG_INT32_MAX"
  "\<forall>r \<in> set ex_data. length r = 2" "length ex_data = 3" "apply_mt_memory (\<lambda>_. 0) 2 ex_data (length [10, 20 :: int]) = Inr (concat ex_data)"
  by (simp_all add: ex_data_def PG_INT32_MAX_def) code_simp

theorem apply_mt_results_witness:
  "apply_mt_output 2 3 (concat ex_data) 2 (mem (ex_mt_final 2)) =
     Inr [[1, 2, 30], [3, 4, 70], [5, 6, 110], [1, 2, 60], [3, 4, 140], [5, 6, 220]]"
proof -
  obtain t k where "run (tp_threads 2) eval_lambda (apply_mt_jobs 2 2 ex_compile (length ex_data) (concat ex_data) [10, 20]) (\<lambda>_. 0) t k (ex_mt_final 2)"
    using ex_mt_run [of 2] by (auto simp: ex_mt_jobs_def ex_mt_facts(4))
  from apply_mt_results [OF _ _ ex_mt_facts(1) _ ex_mt_facts(2,3,5) this ex_mt_end(1), of 2]
  show ?thesis by (simp add: ex_mt_facts(4) apply_mt_threads_def PG_INT32_MAX_def) (simp add: ex_data_def ex_compile_def apply_all_def numeral_2_eq_2)
qed

theorem apply_mt_jobs_partition_witness:
  "map fst (concat (map eval_lambda (ex_mt_jobs 2))) = [0, 1, 2, 3, 4, 5]"
  using apply_mt_jobs_partition [of 2 3 "[10, 20 :: int]" 2 ex_compile "concat ex_data"] num_tuples_small [of 3 "Suc (Suc 0)"]
  by (simp add: ex_mt_jobs_def PG_INT32_MAX_def upt_rec)

theorem apply_mt_no_threads_witness:
  "apply_mt_output 2 3 (concat ex_data) 2 (mem (ex_mt_final 0)) =
     Inr [[1, 2, 0], [3, 4, 0], [5, 6, 0], [1, 2, 0], [3, 4, 0], [5, 6, 0]]"
proof -
  obtain t k where "run (tp_threads 0) eval_lambda (apply_mt_jobs 0 2 ex_compile (length ex_data) (concat ex_data) [10, 20]) (\<lambda>_. 0) t k (ex_mt_final 0)"
    using ex_mt_run [of 0] by (auto simp: ex_mt_jobs_def ex_mt_facts(4))
  from apply_mt_no_threads [OF _ _ ex_mt_facts(5) this ex_mt_end(2) ex_mt_facts(2,3), of 0]
  show ?thesis by (simp add: ex_mt_facts(4) apply_mt_threads_def) (simp add: ex_data_def apply_all_def numeral_2_eq_2)
qed

end
