(* ===== verification/Apply_Pw.thy ===== *)
theory Apply_Pw
  imports Apply_Mt Hash_Bytes
begin

text \<open>
  The table functions \<^verbatim>\<open>apply_mt_pw\<close> and \<^verbatim>\<open>apply_mt_agg_pw\<close> of \<^verbatim>\<open>src/ext/apply_mt_pw_ext.c\<close>: the work of \<^verbatim>\<open>apply_mt\<close> on parallel
  worker processes. The leader packs the serialized lambdas and the jobs into shared memory, launches the
  workers, and copies the data in while they compile; workers claim jobs with an atomic counter and
  wait for the data before their first row. How a lambda is serialized, deserialized and compiled, the
  tests on types, and the arithmetic of \<open>float8\<close> are arguments.
\<close>

section \<open>Arguments\<close>

definition APPLY_PW_CHECKED :: int where "APPLY_PW_CHECKED = 0"
definition APPLY_PW_FAST :: int where "APPLY_PW_FAST = 1"
definition APPLY_PW_FAST_TUPLE :: int where "APPLY_PW_FAST_TUPLE = 2"

text \<open>A column has a name and may be passed by value.\<close>

definition apply_mt_pw_check :: "int \<Rightarrow> bool \<Rightarrow> (string \<times> bool) list \<Rightarrow> bool \<Rightarrow> unit result" where
  "apply_mt_pw_check mode jit_enabled columns ret_byval =
    (if mode \<noteq> APPLY_PW_CHECKED \<and> mode \<noteq> APPLY_PW_FAST \<and> mode \<noteq> APPLY_PW_FAST_TUPLE then
       Inl (Ereport ERRCODE_INVALID_PARAMETER_VALUE
         (''apply_mt_pw: mode must be 0 (checked), 1 (fast) or 2 (fast+tuple), got '' @ show_int mode))
     else if mode \<noteq> APPLY_PW_CHECKED \<and> \<not> jit_enabled then
       Inl (Ereport ERRCODE_FEATURE_NOT_SUPPORTED (''apply_mt_pw: mode '' @ show_int mode @ '' needs the fast-path JIT, but jit is off''))
     else (case find (\<lambda>(name, byval). \<not> byval) columns of
             Some (name, _) \<Rightarrow>
               Inl (EreportDetail ERRCODE_FEATURE_NOT_SUPPORTED (''apply_mt_pw: data column \"'' @ name @ ''\" is pass-by-reference'')
                 ''Parallel workers read the data out of shared memory, so every column has to be pass-by-value (float8).'')
           | None \<Rightarrow>
               if \<not> ret_byval then
                 Inl (EreportDetail ERRCODE_FEATURE_NOT_SUPPORTED ''apply_mt_pw: lambda returns a pass-by-reference type''
                   ''Results are written into shared memory, so the return type has to be pass-by-value (float8).'')
               else Inr ()))"

section \<open>Jobs\<close>

text \<open>Arithmetic of \<open>int\<close>: results wrap around, division rounds towards zero.\<close>

definition wrap32 :: "int \<Rightarrow> int" where
  "wrap32 k = sint (of_int k :: 32 word)"

definition c_div :: "int \<Rightarrow> int \<Rightarrow> int" where
  "c_div a b = sgn a * sgn b * (\<bar>a\<bar> div \<bar>b\<bar>)"

definition pw_workers :: "int \<Rightarrow> int" where
  "pw_workers nworkers = (if nworkers < 1 then 1 else nworkers)"

definition chunks_per_lambda :: "int \<Rightarrow> int \<Rightarrow> int \<Rightarrow> int \<Rightarrow> int" where
  "chunks_per_lambda mode nworkers num_tuples_lambda num_tuples_data =
    (let chunks = (if mode = APPLY_PW_CHECKED \<and> num_tuples_lambda > 0 \<and> num_tuples_lambda < nworkers
                   then c_div (wrap32 (wrap32 (nworkers + num_tuples_lambda) - 1)) num_tuples_lambda else 1);
         chunks = (if chunks > num_tuples_data then num_tuples_data else chunks)
     in if chunks < 1 then 1 else chunks)"

record pw_job =
  pw_lambda :: nat
  pw_start :: "64 word"
  pw_end :: "64 word"

definition pw_jobs :: "int \<Rightarrow> nat \<Rightarrow> nat \<Rightarrow> pw_job list" where
  "pw_jobs chunks num_tuples_lambda num_tuples_data =
    concat (map (\<lambda>l. map (\<lambda>c. \<lparr>pw_lambda = l, pw_start = chunk_bound (int num_tuples_data) c chunks,
                                pw_end = chunk_bound (int num_tuples_data) (c + 1) chunks\<rparr>) [0..chunks - 1])
      [0..<num_tuples_lambda])"

text \<open>Never more workers than jobs.\<close>

definition pw_launch :: "int \<Rightarrow> int \<Rightarrow> int" where
  "pw_launch nworkers num_jobs = (if nworkers > num_jobs \<and> num_jobs > 0 then num_jobs else nworkers)"

section \<open>The pack of lambdas\<close>

text \<open>
  The size of a datum is in its first four bytes. \<open>LambdaPack\<close> keeps the offset of each lambda as 32 bits
  and the bytes of all of them one after the other.
\<close>

definition VARSIZE :: "bool \<Rightarrow> bytes \<Rightarrow> nat" where
  "VARSIZE bigendian bs =
    unat (and (if bigendian then load32 bigendian bs 0 else drop_bit 2 (load32 bigendian bs 0)) 0x3FFFFFFF)"

definition varlena :: "bool \<Rightarrow> bytes \<Rightarrow> bool" where
  "varlena bigendian bs \<longleftrightarrow> 4 \<le> length bs \<and> VARSIZE bigendian bs = length bs"

record LambdaPack =
  pack_offsets :: "32 word list"
  pack_blob :: bytes

definition memcpy :: "'b list \<Rightarrow> nat \<Rightarrow> 'b list \<Rightarrow> 'b list" where
  "memcpy dest off src = take off dest @ src @ drop (off + length src) dest"

fun pack_from :: "32 word \<Rightarrow> bytes list \<Rightarrow> bytes \<Rightarrow> LambdaPack" where
  "pack_from cur_off [] blob = \<lparr>pack_offsets = [], pack_blob = blob\<rparr>"
| "pack_from cur_off (ser # sers) blob =
    (let p = pack_from (cur_off + of_nat (length ser)) sers (memcpy blob (unat cur_off) ser)
     in p\<lparr>pack_offsets := cur_off # pack_offsets p\<rparr>)"

definition pack_lambdas :: "bytes list \<Rightarrow> LambdaPack" where
  "pack_lambdas sers = pack_from 0 sers (replicate (sum_list (map length sers)) 0)"

text \<open>What a worker copies out of the pack for lambda \<open>l\<close>.\<close>

definition unpack_lambda :: "bool \<Rightarrow> LambdaPack \<Rightarrow> nat \<Rightarrow> bytes" where
  "unpack_lambda bigendian p l =
    (let ser_shm = drop (unat (pack_offsets p ! l)) (pack_blob p) in take (VARSIZE bigendian ser_shm) ser_shm)"

section \<open>Leader and workers\<close>

text \<open>
  A worker process starts or fails to, claims a job, compiles its lambda, waits for the data and goes through the rows of the job
  with a running sum. If the flag is not set, it prepares to sleep on the condition variable, which puts it on the list of
  waiting processes, reads the flag again, and sleeps until the leader takes it off the list; each time it wakes up it
  goes back onto the list and reads the flag again. The leader copies the rows, sets the flag, wakes the waiting processes and waits for the
  workers to finish. What is compiled is kept
  for the next job of the same lambda in the code; compiling again gives the same function.
\<close>

datatype 'd pw_pc = V_start | V_failed | V_claim | V_job nat | V_prep nat | V_check nat | V_sleep nat | V_rows nat nat 'd | V_exit | V_error pg_error

datatype leader_pc = L_copy nat | L_bcast | L_wait | L_done | L_error pg_error

text \<open>The query: its columns, rows (a NULL is \<open>None\<close>), jobs, lambdas as a worker reads them, the variant, and the errors a worker may
  report while it starts.\<close>

record 'd pw_query =
  col_names :: "string list"
  rows_in :: "'d option list list"
  jobs :: "pw_job list"
  body :: "nat \<Rightarrow> ('d list \<Rightarrow> 'd result) result"
  agg :: bool
  result_flat :: bool
  plus8 :: "'d \<Rightarrow> 'd \<Rightarrow> 'd"
  zero8 :: 'd
  start_error :: "pg_error \<Rightarrow> bool"

text \<open>Shared memory: \<open>cells\<close> holds a finished tuple or one result for each lambda and row.\<close>

record 'd pw_state =
  next_job :: "32 word"
  data_ready :: bool
  cv_waiters :: "nat list"
  dsm_data :: "nat \<Rightarrow> 'd"
  cells :: "nat \<Rightarrow> 'd list"
  partial :: "nat \<Rightarrow> 'd"
  procs :: "'d pw_pc list"
  leader :: leader_pc

definition dsm_row :: "'d pw_query \<Rightarrow> 'd pw_state \<Rightarrow> nat \<Rightarrow> 'd list" where
  "dsm_row Q s i = map (dsm_data s) [i * length (col_names Q)..<(i + 1) * length (col_names Q)]"

definition null_error :: "'d pw_query \<Rightarrow> 'd option list \<Rightarrow> pg_error option" where
  "null_error Q r =
    map_option (\<lambda>(name, _). Ereport ERRCODE_NULL_VALUE_NOT_ALLOWED (''apply_mt_pw: data column \"'' @ name @ ''\" contains a NULL''))
      (find (\<lambda>(name, v). v = None) (zip (col_names Q) r))"

definition fill_row :: "nat \<Rightarrow> nat \<Rightarrow> 'd option list \<Rightarrow> (nat \<Rightarrow> 'd) \<Rightarrow> nat \<Rightarrow> 'd" where
  "fill_row cols i r m a = (if i * cols \<le> a \<and> a < i * cols + length r then the (r ! (a - i * cols)) else m a)"

definition row_result :: "'d pw_query \<Rightarrow> nat \<Rightarrow> 'd list \<Rightarrow> 'd result" where
  "row_result Q l r = rbind (body Q l) (\<lambda>f. f r)"

definition start_job :: "'d pw_query \<Rightarrow> nat \<Rightarrow> 'd pw_pc" where
  "start_job Q k = V_rows k (unat (pw_start (jobs Q ! k))) (zero8 Q)"

text \<open>After compiling: an error, the rows, or the condition variable.\<close>

definition compiled_job :: "'d pw_query \<Rightarrow> bool \<Rightarrow> nat \<Rightarrow> 'd pw_pc" where
  "compiled_job Q ready k =
    (case body Q (pw_lambda (jobs Q ! k)) of
       Inl e \<Rightarrow> V_error e
     | Inr _ \<Rightarrow> if ready then start_job Q k else V_prep k)"

definition worker_init_error :: pg_error where
  "worker_init_error = Ereport ERRCODE_OBJECT_NOT_IN_PREREQUISITE_STATE ''parallel worker failed to initialize''"

definition has_row :: "'d pw_query \<Rightarrow> nat \<Rightarrow> nat \<Rightarrow> bool" where
  "has_row Q k i \<longleftrightarrow> i < unat (pw_end (jobs Q ! k)) \<and> i < length (rows_in Q)"

definition eval_row :: "'d pw_query \<Rightarrow> nat \<Rightarrow> nat \<Rightarrow> nat \<Rightarrow> 'd \<Rightarrow> 'd pw_state \<Rightarrow> 'd pw_state" where
  "eval_row Q w k i acc s =
    (let l = pw_lambda (jobs Q ! k); r = dsm_row Q s i in
     case row_result Q l r of
       Inl e \<Rightarrow> s\<lparr>procs := (procs s)[w := V_error e]\<rparr>
     | Inr v \<Rightarrow>
         if agg Q then s\<lparr>procs := (procs s)[w := V_rows k (i + 1) (plus8 Q acc v)]\<rparr>
         else s\<lparr>cells := (cells s)(l * length (rows_in Q) + i := (if result_flat Q then r @ [v] else [v])),
                procs := (procs s)[w := V_rows k (i + 1) acc]\<rparr>)"

inductive pw_step :: "'d pw_query \<Rightarrow> 'd pw_state \<Rightarrow> 'd pw_state \<Rightarrow> bool" for Q where
  copy: "leader s = L_copy i \<Longrightarrow> i < length (rows_in Q) \<Longrightarrow> null_error Q (rows_in Q ! i) = None \<Longrightarrow>
    pw_step Q s (s\<lparr>dsm_data := fill_row (length (col_names Q)) i (rows_in Q ! i) (dsm_data s), leader := L_copy (Suc i)\<rparr>)"
| copy_null: "leader s = L_copy i \<Longrightarrow> i < length (rows_in Q) \<Longrightarrow> null_error Q (rows_in Q ! i) = Some e \<Longrightarrow>
    pw_step Q s (s\<lparr>leader := L_error e\<rparr>)"
| ready: "leader s = L_copy i \<Longrightarrow> length (rows_in Q) \<le> i \<Longrightarrow> pw_step Q s (s\<lparr>data_ready := True, leader := L_bcast\<rparr>)"
| broadcast: "leader s = L_bcast \<Longrightarrow> pw_step Q s (s\<lparr>cv_waiters := [], leader := L_wait\<rparr>)"
| finish: "leader s = L_wait \<Longrightarrow> \<forall>p \<in> set (procs s). p = V_exit \<Longrightarrow> pw_step Q s (s\<lparr>leader := L_done\<rparr>)"
| rethrow: "leader s = L_wait \<Longrightarrow> V_error e \<in> set (procs s) \<Longrightarrow> pw_step Q s (s\<lparr>leader := L_error e\<rparr>)"
| init_failed: "leader s = L_wait \<Longrightarrow> V_failed \<in> set (procs s) \<Longrightarrow> pw_step Q s (s\<lparr>leader := L_error worker_init_error\<rparr>)"
| attach: "w < length (procs s) \<Longrightarrow> procs s ! w = V_start \<Longrightarrow> pw_step Q s (s\<lparr>procs := (procs s)[w := V_claim]\<rparr>)"
| start_fails: "w < length (procs s) \<Longrightarrow> procs s ! w = V_start \<Longrightarrow> pw_step Q s (s\<lparr>procs := (procs s)[w := V_failed]\<rparr>)"
| start_throws: "w < length (procs s) \<Longrightarrow> procs s ! w = V_start \<Longrightarrow> start_error Q e \<Longrightarrow> pw_step Q s (s\<lparr>procs := (procs s)[w := V_error e]\<rparr>)"
| claim: "w < length (procs s) \<Longrightarrow> procs s ! w = V_claim \<Longrightarrow>
    pw_step Q s (s\<lparr>next_job := next_job s + 1,
      procs := (procs s)[w := (if length (jobs Q) \<le> unat (next_job s) then V_exit else V_job (unat (next_job s)))]\<rparr>)"
| compile: "w < length (procs s) \<Longrightarrow> procs s ! w = V_job k \<Longrightarrow>
    pw_step Q s (s\<lparr>procs := (procs s)[w := compiled_job Q (data_ready s) k]\<rparr>)"
| prepare: "w < length (procs s) \<Longrightarrow> procs s ! w = V_prep k \<Longrightarrow>
    pw_step Q s (s\<lparr>cv_waiters := cv_waiters s @ [w], procs := (procs s)[w := V_check k]\<rparr>)"
| check_ready: "w < length (procs s) \<Longrightarrow> procs s ! w = V_check k \<Longrightarrow> data_ready s \<Longrightarrow>
    pw_step Q s (s\<lparr>cv_waiters := removeAll w (cv_waiters s), procs := (procs s)[w := start_job Q k]\<rparr>)"
| check_sleep: "w < length (procs s) \<Longrightarrow> procs s ! w = V_check k \<Longrightarrow> \<not> data_ready s \<Longrightarrow>
    pw_step Q s (s\<lparr>procs := (procs s)[w := V_sleep k]\<rparr>)"
| wake: "w < length (procs s) \<Longrightarrow> procs s ! w = V_sleep k \<Longrightarrow> w \<notin> set (cv_waiters s) \<Longrightarrow>
    pw_step Q s (s\<lparr>cv_waiters := cv_waiters s @ [w], procs := (procs s)[w := V_check k]\<rparr>)"
| row: "w < length (procs s) \<Longrightarrow> procs s ! w = V_rows k i acc \<Longrightarrow> has_row Q k i \<Longrightarrow> pw_step Q s (eval_row Q w k i acc s)"
| job_end: "w < length (procs s) \<Longrightarrow> procs s ! w = V_rows k i acc \<Longrightarrow> \<not> has_row Q k i \<Longrightarrow>
    pw_step Q s (s\<lparr>partial := (if agg Q then (partial s)(k := acc) else partial s), procs := (procs s)[w := V_claim]\<rparr>)"

text \<open>The state at the launch of \<open>n\<close> workers. Only the partial sums are set to zero.\<close>

definition pw_init :: "'d pw_query \<Rightarrow> nat \<Rightarrow> (nat \<Rightarrow> 'd) \<Rightarrow> (nat \<Rightarrow> 'd list) \<Rightarrow> 'd pw_state" where
  "pw_init Q n junk junk' =
    \<lparr>next_job = 0, data_ready = False, cv_waiters = [], dsm_data = junk, cells = junk', partial = (\<lambda>_. zero8 Q),
      procs = replicate n V_start, leader = L_copy 0\<rparr>"

inductive pw_run :: "'d pw_query \<Rightarrow> nat \<Rightarrow> nat \<Rightarrow> 'd pw_state \<Rightarrow> bool" for Q n where
  start: "pw_run Q n 0 (pw_init Q n junk junk')"
| step: "pw_run Q n t s \<Longrightarrow> pw_step Q s s' \<Longrightarrow> pw_run Q n (Suc t) s'"

text \<open>The output of the leader, when there is a result at all; without one no worker is launched.\<close>

definition pw_output :: "'d pw_query \<Rightarrow> nat \<Rightarrow> 'd pw_state \<Rightarrow> 'd list list" where
  "pw_output Q num_lambdas s =
    map (\<lambda>i. if result_flat Q then cells s i else dsm_row Q s (i mod length (rows_in Q)) @ cells s i)
      [0..<length (rows_in Q) * num_lambdas]"

definition pw_average :: "('d \<Rightarrow> nat \<Rightarrow> 'd) \<Rightarrow> 'd pw_query \<Rightarrow> nat \<Rightarrow> 'd pw_state \<Rightarrow> 'd" where
  "pw_average divide8 Q num_lambdas s =
    divide8 (foldl (plus8 Q) (zero8 Q) (map (partial s) [0..<length (jobs Q)])) (length (rows_in Q) * num_lambdas)"

section \<open>Invariants\<close>

definition row_value :: "'d pw_query \<Rightarrow> nat \<Rightarrow> 'd list \<Rightarrow> 'd" where
  "row_value Q l r = (case row_result Q l r of Inr v \<Rightarrow> v | Inl _ \<Rightarrow> zero8 Q)"

definition true_row :: "'d pw_query \<Rightarrow> nat \<Rightarrow> 'd list" where
  "true_row Q i = map the (rows_in Q ! i)"

definition rectangular :: "'d pw_query \<Rightarrow> bool" where
  "rectangular Q \<longleftrightarrow> (\<forall>r \<in> set (rows_in Q). length r = length (col_names Q))"

definition data_inv :: "'d pw_query \<Rightarrow> 'd pw_state \<Rightarrow> bool" where
  "data_inv Q s \<longleftrightarrow> (case leader s of L_copy i \<Rightarrow> \<not> data_ready s \<and> i \<le> length (rows_in Q) | L_error _ \<Rightarrow> True | _ \<Rightarrow> data_ready s) \<and>
     (\<forall>i < (case leader s of L_copy k \<Rightarrow> k | _ \<Rightarrow> if data_ready s then length (rows_in Q) else 0).
        dsm_row Q s i = true_row Q i \<and> None \<notin> set (rows_in Q ! i))"

fun held :: "'d pw_pc \<Rightarrow> nat option" where
  "held (V_job k) = Some k"
| "held (V_prep k) = Some k"
| "held (V_check k) = Some k"
| "held (V_sleep k) = Some k"
| "held (V_rows k _ _) = Some k"
| "held _ = None"

fun is_error :: "'d pw_pc \<Rightarrow> bool" where
  "is_error (V_error _) = True"
| "is_error _ = False"

fun is_exit :: "'d pw_pc \<Rightarrow> bool" where
  "is_exit V_exit = True"
| "is_exit _ = False"

definition claim_inv :: "'d pw_query \<Rightarrow> nat \<Rightarrow> 'd pw_state \<Rightarrow> bool" where
  "claim_inv Q n s \<longleftrightarrow> length (procs s) = n \<and> unat (next_job s) \<le> length (jobs Q) + length (filter is_exit (procs s)) \<and>
     (\<forall>p \<in> set (procs s). \<forall>k. held p = Some k \<longrightarrow> k < length (jobs Q) \<and> k < unat (next_job s)) \<and>
     (V_exit \<in> set (procs s) \<longrightarrow> length (jobs Q) \<le> unat (next_job s)) \<and>
     (\<forall>w w' k. w < n \<longrightarrow> w' < n \<longrightarrow> held (procs s ! w) = Some k \<longrightarrow> held (procs s ! w') = Some k \<longrightarrow> w = w')"

lemma data_row:
  assumes "data_inv Q s" "data_ready s" "i < length (rows_in Q)" shows "dsm_row Q s i = true_row Q i" "None \<notin> set (rows_in Q ! i)"
  using assms by (auto simp: data_inv_def split: leader_pc.splits)

lemma dsm_row_cong: "dsm_data s' = dsm_data s \<Longrightarrow> dsm_row Q s' i = dsm_row Q s i"
  by (simp add: dsm_row_def)

lemma fill_row_same:
  assumes "rectangular Q" "i < length (rows_in Q)"
  shows "dsm_row Q (s\<lparr>dsm_data := fill_row (length (col_names Q)) i (rows_in Q ! i) (dsm_data s), leader := l\<rparr>) i = true_row Q i"
proof -
  have "length (rows_in Q ! i) = length (col_names Q)" using assms by (simp add: rectangular_def)
  then show ?thesis by (intro nth_equalityI) (auto simp: dsm_row_def true_row_def fill_row_def)
qed

lemma fill_row_other:
  assumes "rectangular Q" "i < length (rows_in Q)" "i' < i"
  shows "dsm_row Q (s\<lparr>dsm_data := fill_row (length (col_names Q)) i (rows_in Q ! i) (dsm_data s), leader := l\<rparr>) i' = dsm_row Q s i'"
proof -
  let ?c = "length (col_names Q)"
  have "(i' + 1) * ?c \<le> i * ?c" using assms(3) by (intro mult_right_mono) auto
  then show ?thesis by (auto simp: dsm_row_def fill_row_def)
qed

lemma no_null: "null_error Q r = None \<Longrightarrow> length r = length (col_names Q) \<Longrightarrow> None \<notin> set r"
proof
  assume n: "null_error Q r = None" "length r = length (col_names Q)" "None \<in> set r"
  then obtain i where "i < length r" "r ! i = None" by (auto simp: in_set_conv_nth)
  then have "(col_names Q ! i, None) \<in> set (zip (col_names Q) r)" using n(2) by (auto simp: set_zip)
  then show False using n(1) by (fastforce simp: null_error_def find_None_iff)
qed

lemma eval_row_frame:
  obtains f p where "eval_row Q w k i acc s = s\<lparr>cells := f, procs := p\<rparr>"
proof (cases "row_result Q (pw_lambda (jobs Q ! k)) (dsm_row Q s i)")
  case (Inl e)
  then show ?thesis using that [where f = "cells s"] by (simp add: eval_row_def Let_def)
next
  case (Inr v)
  then show ?thesis using that [where f = "cells s"] that by (cases "agg Q") (simp_all add: eval_row_def Let_def)
qed

lemma eval_row_pc:
  obtains e where "procs (eval_row Q w k i acc s) = (procs s)[w := V_error e]"
  | acc' where "procs (eval_row Q w k i acc s) = (procs s)[w := V_rows k (Suc i) acc']"
  using that by (cases "row_result Q (pw_lambda (jobs Q ! k)) (dsm_row Q s i)"; cases "agg Q") (simp_all add: eval_row_def Let_def)

lemma data_step:
  assumes "pw_step Q s s'" "rectangular Q" "data_inv Q s" shows "data_inv Q s'"
  using assms
proof (induction rule: pw_step.induct)
  case (copy s i)
  let ?s = "s\<lparr>dsm_data := fill_row (length (col_names Q)) i (rows_in Q ! i) (dsm_data s), leader := L_copy (Suc i)\<rparr>"
  have "length (rows_in Q ! i) = length (col_names Q)" using copy by (simp add: rectangular_def)
  then have "None \<notin> set (rows_in Q ! i)" using no_null copy(3) by blast
  moreover have "dsm_row Q ?s i = true_row Q i" using fill_row_same copy by blast
  moreover have "dsm_row Q ?s i' = dsm_row Q s i'" if "i' < i" for i' using fill_row_other copy that by blast
  ultimately show ?case using copy by (auto simp: data_inv_def less_Suc_eq)
next
  case (row w s k i acc)
  obtain f p where "eval_row Q w k i acc s = s\<lparr>cells := f, procs := p\<rparr>" by (rule eval_row_frame)
  with row show ?case by (auto simp: data_inv_def dsm_row_def split: leader_pc.splits)
qed (auto simp: data_inv_def dsm_row_def split: leader_pc.splits)

lemma held_compiled: "held (compiled_job Q r k) = None \<or> held (compiled_job Q r k) = Some k" "\<not> is_exit (compiled_job Q r k)"
  by (auto simp: compiled_job_def start_job_def split: sum.splits)

lemma count_update:
  assumes "w < length ps" "\<not> P (ps ! w)"
  shows "length (filter P (ps[w := p])) = length (filter P ps) + (if P p then 1 else 0)"
  using assms by (subst (2) id_take_nth_drop [OF assms(1)]) (simp add: upd_conv_take_nth_drop)

lemma claim_update:
  assumes inv: "claim_inv Q n s" and w: "w < length (procs s)" "\<not> is_exit (procs s ! w)" and p: "\<not> is_exit p" "held p = None \<or> held p = held (procs s ! w)"
    and s': "procs s' = (procs s)[w := p]" "next_job s' = next_job s"
  shows "claim_inv Q n s'"
proof -
  have p': "p \<noteq> V_exit" using p(1) by auto
  have len: "length (procs s) = n" and cnt: "unat (next_job s) \<le> length (jobs Q) + length (filter is_exit (procs s))"
    and hold: "\<And>q k. q \<in> set (procs s) \<Longrightarrow> held q = Some k \<Longrightarrow> k < length (jobs Q) \<and> k < unat (next_job s)"
    and ex: "V_exit \<in> set (procs s) \<Longrightarrow> length (jobs Q) \<le> unat (next_job s)"
    and uniq: "\<And>u u' k. u < n \<Longrightarrow> u' < n \<Longrightarrow> held (procs s ! u) = Some k \<Longrightarrow> held (procs s ! u') = Some k \<Longrightarrow> u = u'"
    using inv unfolding claim_inv_def by blast+
  show ?thesis unfolding claim_inv_def s'
  proof (intro conjI ballI allI impI)
    show "length ((procs s)[w := p]) = n" using len by simp
    show "unat (next_job s) \<le> length (jobs Q) + length (filter is_exit ((procs s)[w := p]))"
      using cnt count_update [of w "procs s" is_exit p] w p(1) by simp
    show "length (jobs Q) \<le> unat (next_job s)" if "V_exit \<in> set ((procs s)[w := p])"
      using ex set_update_subset_insert [of "procs s" w p] that p' by auto
  next
    fix q k assume q: "q \<in> set ((procs s)[w := p])" "held q = Some k"
    then have "q = p \<or> q \<in> set (procs s)" using set_update_subset_insert [of "procs s" w p] by auto
    then show "k < length (jobs Q)" "k < unat (next_job s)" using hold [of q k] hold [of "procs s ! w" k] q(2) p(2) nth_mem [OF w(1)] by auto
  next
    fix u u' k
    assume "u < n" "u' < n" "held ((procs s)[w := p] ! u) = Some k" "held ((procs s)[w := p] ! u') = Some k"
    then show "u = u'" using uniq [of u u' k] p(2) len w(1) by (cases "u = w"; cases "u' = w") auto
  qed
qed

lemma exits_less: "w < length ps \<Longrightarrow> \<not> P (ps ! w) \<Longrightarrow> length (filter P ps) < length ps"
  using length_filter_less [of "ps ! w" ps P] nth_mem by blast

lemma claim_next:
  assumes inv: "claim_inv Q n s" and w: "w < length (procs s)" "procs s ! w = V_claim" and small: "length (jobs Q) + n < 4294967296"
    and s': "procs s' = (procs s)[w := (if length (jobs Q) \<le> unat (next_job s) then V_exit else V_job (unat (next_job s)))]"
      "next_job s' = next_job s + 1"
  shows "claim_inv Q n s'"
proof -
  let ?p = "if length (jobs Q) \<le> unat (next_job s) then V_exit else V_job (unat (next_job s))"
  have len: "length (procs s) = n" and cnt: "unat (next_job s) \<le> length (jobs Q) + length (filter is_exit (procs s))"
    and hold: "\<And>q k. q \<in> set (procs s) \<Longrightarrow> held q = Some k \<Longrightarrow> k < length (jobs Q) \<and> k < unat (next_job s)"
    and ex: "V_exit \<in> set (procs s) \<Longrightarrow> length (jobs Q) \<le> unat (next_job s)"
    and uniq: "\<And>u u' k. u < n \<Longrightarrow> u' < n \<Longrightarrow> held (procs s ! u) = Some k \<Longrightarrow> held (procs s ! u') = Some k \<Longrightarrow> u = u'"
    using inv unfolding claim_inv_def by blast+
  have "length (filter is_exit (procs s)) < n" using exits_less [of w "procs s" is_exit] w len by simp
  then have "unat (next_job s) + 1 < 4294967296" using cnt small by linarith
  then have next': "unat (next_job s + 1) = Suc (unat (next_job s))" by (simp add: unat_word_ariths)
  have new: "q = ?p \<or> q \<in> set (procs s)" if "q \<in> set ((procs s)[w := ?p])" for q
    using set_update_subset_insert [of "procs s" w ?p] that by auto
  have old: "held (procs s ! u) = Some k \<Longrightarrow> u < n \<Longrightarrow> k < unat (next_job s)" for u k using hold [OF nth_mem] len by blast
  show ?thesis unfolding claim_inv_def s' next'
  proof (intro conjI ballI allI impI)
    show "length ((procs s)[w := ?p]) = n" using len by simp
    show "Suc (unat (next_job s)) \<le> length (jobs Q) + length (filter is_exit ((procs s)[w := ?p]))"
      using cnt count_update [of w "procs s" is_exit ?p] w by auto
    show "length (jobs Q) \<le> Suc (unat (next_job s))" if "V_exit \<in> set ((procs s)[w := ?p])"
      using new [OF that] ex by (auto split: if_splits)
  next
    fix q k assume q: "q \<in> set ((procs s)[w := ?p])" "held q = Some k"
    from new [OF q(1)] have "k < length (jobs Q) \<and> k \<le> unat (next_job s)"
    proof
      assume "q = ?p"
      then show ?thesis using q(2) by (simp split: if_splits)
    next
      assume "q \<in> set (procs s)"
      then show ?thesis using hold [of q k] q(2) by simp
    qed
    then show "k < length (jobs Q)" "k < Suc (unat (next_job s))" by simp_all
  next
    fix u u' k
    assume "u < n" "u' < n" "held ((procs s)[w := ?p] ! u) = Some k" "held ((procs s)[w := ?p] ! u') = Some k"
    then show "u = u'" using uniq [of u u' k] old [of u k] old [of u' k] len w(1)
      by (cases "u = w"; cases "u' = w") (auto split: if_splits)
  qed
qed

lemma claim_step:
  assumes "pw_step Q s s'" "length (jobs Q) + n < 4294967296" "claim_inv Q n s" shows "claim_inv Q n s'"
  using assms
proof (induction rule: pw_step.induct)
  case (claim w s)
  show ?case by (rule claim_next [OF claim.prems(2) claim.hyps claim.prems(1)]) simp_all
next
  case (attach w s)
  show ?case by (rule claim_update [OF attach.prems(2) attach.hyps(1), of V_claim]) (simp_all add: attach.hyps)
next
  case (start_fails w s)
  show ?case by (rule claim_update [OF start_fails.prems(2) start_fails.hyps(1), of V_failed]) (simp_all add: start_fails.hyps)
next
  case (start_throws w s e)
  show ?case by (rule claim_update [OF start_throws.prems(2) start_throws.hyps(1), of "V_error e"]) (simp_all add: start_throws.hyps)
next
  case (compile w s k)
  show ?case using held_compiled [of Q "data_ready s" k]
    by (intro claim_update [OF compile.prems(2) compile.hyps(1), of "compiled_job Q (data_ready s) k"]) (simp_all add: compile.hyps)
next
  case (prepare w s k)
  show ?case by (rule claim_update [OF prepare.prems(2) prepare.hyps(1), of "V_check k"]) (simp_all add: prepare.hyps)
next
  case (check_ready w s k)
  show ?case by (rule claim_update [OF check_ready.prems(2) check_ready.hyps(1), of "start_job Q k"]) (simp_all add: check_ready.hyps start_job_def)
next
  case (check_sleep w s k)
  show ?case by (rule claim_update [OF check_sleep.prems(2) check_sleep.hyps(1), of "V_sleep k"]) (simp_all add: check_sleep.hyps)
next
  case (wake w s k)
  show ?case by (rule claim_update [OF wake.prems(2) wake.hyps(1), of "V_check k"]) (simp_all add: wake.hyps)
next
  case (row w s k i acc)
  obtain p where p: "procs (eval_row Q w k i acc s) = (procs s)[w := p]" "\<not> is_exit p" "held p = None \<or> held p = Some k"
    by (rule eval_row_pc [of Q w k i acc s]) auto
  obtain f ps where "eval_row Q w k i acc s = s\<lparr>cells := f, procs := ps\<rparr>" by (rule eval_row_frame)
  then have "next_job (eval_row Q w k i acc s) = next_job s" by simp
  then show ?case using row.hyps p by (intro claim_update [OF row.prems(2) row.hyps(1) _ p(2) _ p(1)]) simp_all
next
  case (job_end w s k i acc)
  then show ?case by (intro claim_update [OF job_end.prems(2) job_end.hyps(1), of V_claim]) simp_all
qed (simp_all add: claim_inv_def)

section \<open>Results\<close>

abbreviation job_lambda :: "'d pw_query \<Rightarrow> nat \<Rightarrow> nat" where
  "job_lambda Q k \<equiv> pw_lambda (jobs Q ! k)"

definition first_row :: "'d pw_query \<Rightarrow> nat \<Rightarrow> nat" where
  "first_row Q k = unat (pw_start (jobs Q ! k))"

definition last_row :: "'d pw_query \<Rightarrow> nat \<Rightarrow> nat" where
  "last_row Q k = max (first_row Q k) (min (unat (pw_end (jobs Q ! k))) (length (rows_in Q)))"

definition cell_value :: "'d pw_query \<Rightarrow> nat \<Rightarrow> nat \<Rightarrow> 'd list" where
  "cell_value Q l i = (let r = true_row Q i; v = row_value Q l r in if result_flat Q then r @ [v] else [v])"

definition sum_to :: "'d pw_query \<Rightarrow> nat \<Rightarrow> nat \<Rightarrow> 'd" where
  "sum_to Q k i = foldl (plus8 Q) (zero8 Q) (map (\<lambda>i. row_value Q (job_lambda Q k) (true_row Q i)) [first_row Q k..<i])"

definition rows_done :: "'d pw_query \<Rightarrow> 'd pw_state \<Rightarrow> nat \<Rightarrow> nat \<Rightarrow> bool" where
  "rows_done Q s k i \<longleftrightarrow>
     (\<not> agg Q \<longrightarrow> (\<forall>i'. first_row Q k \<le> i' \<longrightarrow> i' < i \<longrightarrow> cells s (job_lambda Q k * length (rows_in Q) + i') = cell_value Q (job_lambda Q k) i'))"

text \<open>The lambda of the job compiles and the rows before \<open>i\<close> evaluate.\<close>

definition good_rows :: "'d pw_query \<Rightarrow> nat \<Rightarrow> nat \<Rightarrow> bool" where
  "good_rows Q k i \<longleftrightarrow> \<not> isl (body Q (job_lambda Q k)) \<and>
     (\<forall>i'. first_row Q k \<le> i' \<longrightarrow> i' < i \<longrightarrow> \<not> isl (row_result Q (job_lambda Q k) (true_row Q i')))"

definition job_error :: "'d pw_query \<Rightarrow> pg_error \<Rightarrow> bool" where
  "job_error Q e \<longleftrightarrow> start_error Q e \<or> (\<exists>k < length (jobs Q). body Q (job_lambda Q k) = Inl e \<or>
     (\<exists>i < length (rows_in Q). row_result Q (job_lambda Q k) (true_row Q i) = Inl e))"

definition job_done :: "'d pw_query \<Rightarrow> 'd pw_state \<Rightarrow> nat \<Rightarrow> bool" where
  "job_done Q s k \<longleftrightarrow> rows_done Q s k (last_row Q k) \<and> (agg Q \<longrightarrow> partial s k = sum_to Q k (last_row Q k)) \<and>
     good_rows Q k (last_row Q k)"

fun worker_ok :: "'d pw_query \<Rightarrow> 'd pw_state \<Rightarrow> 'd pw_pc \<Rightarrow> bool" where
  "worker_ok Q s (V_rows k i acc) \<longleftrightarrow> data_ready s \<and> first_row Q k \<le> i \<and> i \<le> last_row Q k \<and> rows_done Q s k i \<and> (agg Q \<longrightarrow> acc = sum_to Q k i) \<and>
     good_rows Q k i"
| "worker_ok Q s (V_prep k) \<longleftrightarrow> \<not> isl (body Q (job_lambda Q k))"
| "worker_ok Q s (V_check k) \<longleftrightarrow> \<not> isl (body Q (job_lambda Q k))"
| "worker_ok Q s (V_sleep k) \<longleftrightarrow> \<not> isl (body Q (job_lambda Q k))"
| "worker_ok Q s (V_error e) \<longleftrightarrow> job_error Q e"
| "worker_ok Q s _ \<longleftrightarrow> True"

definition result_inv :: "'d pw_query \<Rightarrow> 'd pw_state \<Rightarrow> bool" where
  "result_inv Q s \<longleftrightarrow> (\<forall>p \<in> set (procs s). worker_ok Q s p) \<and>
     ((\<forall>p \<in> set (procs s). \<not> is_error p) \<longrightarrow>
       (\<forall>k < length (jobs Q). k < unat (next_job s) \<longrightarrow> (\<forall>p \<in> set (procs s). held p \<noteq> Some k) \<longrightarrow> job_done Q s k))"

text \<open>A step writes no wrong value.\<close>

definition keeps :: "'d pw_query \<Rightarrow> 'd pw_state \<Rightarrow> 'd pw_state \<Rightarrow> bool" where
  "keeps Q s s' \<longleftrightarrow> (data_ready s \<longrightarrow> data_ready s') \<and>
     (\<not> agg Q \<longrightarrow> (\<forall>l. \<forall>i < length (rows_in Q). cells s (l * length (rows_in Q) + i) = cell_value Q l i \<longrightarrow>
        cells s' (l * length (rows_in Q) + i) = cell_value Q l i)) \<and>
     (agg Q \<longrightarrow> (\<forall>k. partial s k = sum_to Q k (last_row Q k) \<longrightarrow> partial s' k = sum_to Q k (last_row Q k)))"

lemma rows_done_keeps:
  assumes "keeps Q s s'" "rows_done Q s k i" "i \<le> last_row Q k" shows "rows_done Q s' k i"
  unfolding rows_done_def
proof (intro impI allI)
  fix i' assume i': "\<not> agg Q" "first_row Q k \<le> i'" "i' < i"
  then have "i' < length (rows_in Q)" using assms(3) by (simp add: last_row_def)
  with assms(1,2) i' show "cells s' (job_lambda Q k * length (rows_in Q) + i') = cell_value Q (job_lambda Q k) i'"
    by (simp add: keeps_def rows_done_def)
qed

lemma job_done_keeps: "keeps Q s s' \<Longrightarrow> job_done Q s k \<Longrightarrow> job_done Q s' k"
  using rows_done_keeps [of Q s s' k "last_row Q k"] by (auto simp: job_done_def keeps_def)

lemma worker_ok_keeps: "keeps Q s s' \<Longrightarrow> worker_ok Q s p \<Longrightarrow> worker_ok Q s' p"
  using rows_done_keeps [of Q s s'] by (cases p) (simp_all, auto simp: keeps_def)

lemma result_update:
  assumes inv: "result_inv Q s" and keeps: "keeps Q s s'" and w: "w < length (procs s)"
    and s': "procs s' = (procs s)[w := p]" and p: "worker_ok Q s' p"
    and fin: "\<And>k. k < length (jobs Q) \<Longrightarrow> k < unat (next_job s') \<Longrightarrow> \<not> is_error p \<Longrightarrow> held p \<noteq> Some k \<Longrightarrow>
      k < unat (next_job s) \<and> (held (procs s ! w) = Some k \<longrightarrow> job_done Q s' k)"
    and err: "is_error (procs s ! w) \<Longrightarrow> is_error p"
  shows "result_inv Q s'"
  unfolding result_inv_def s'
proof (intro conjI ballI impI allI)
  fix q assume "q \<in> set ((procs s)[w := p])"
  then have "q = p \<or> q \<in> set (procs s)" using set_update_subset_insert [of "procs s" w p] by auto
  then show "worker_ok Q s' q" using p inv worker_ok_keeps [OF keeps, of q] by (auto simp: result_inv_def)
next
  fix k assume noerr: "\<forall>q \<in> set ((procs s)[w := p]). \<not> is_error q" and k: "k < length (jobs Q)" "k < unat (next_job s')"
    and free: "\<forall>q \<in> set ((procs s)[w := p]). held q \<noteq> Some k"
  have pin: "p \<in> set ((procs s)[w := p])" using w by (rule set_update_memI)
  have other: "procs s ! u \<in> set ((procs s)[w := p])" if "u < length (procs s)" "u \<noteq> w" for u
    using that by (metis length_list_update nth_list_update_neq nth_mem)
  have old: "\<not> is_error q" if "q \<in> set (procs s)" for q
    using that noerr other pin err by (metis in_set_conv_nth)
  have k': "k < unat (next_job s)" "held (procs s ! w) = Some k \<Longrightarrow> job_done Q s' k" using fin [OF k] noerr free pin by auto
  show "job_done Q s' k"
  proof (cases "held (procs s ! w) = Some k")
    case False
    then have "\<forall>q \<in> set (procs s). held q \<noteq> Some k" using free other by (metis in_set_conv_nth)
    then show ?thesis using inv old k(1) k'(1) job_done_keeps [OF keeps] by (simp add: result_inv_def)
  qed (rule k'(2))
qed

lemma result_frame:
  assumes "result_inv Q s" "keeps Q s s'" "procs s' = procs s" "next_job s' = next_job s" shows "result_inv Q s'"
  using assms worker_ok_keeps [OF assms(2)] job_done_keeps [OF assms(2)] by (auto simp: result_inv_def)

lemma has_row_iff: "first_row Q k \<le> i \<Longrightarrow> has_row Q k i \<longleftrightarrow> i < last_row Q k"
  by (auto simp: has_row_def last_row_def)

lemma sum_to_step: "first_row Q k \<le> i \<Longrightarrow> sum_to Q k (Suc i) = plus8 Q (sum_to Q k i) (row_value Q (job_lambda Q k) (true_row Q i))"
  by (simp add: sum_to_def)

lemma keeps_refl: "data_ready s' = data_ready s \<or> data_ready s' \<Longrightarrow> cells s' = cells s \<Longrightarrow> partial s' = partial s \<Longrightarrow> keeps Q s s'"
  by (auto simp: keeps_def)

lemma worker_rows: "result_inv Q s \<Longrightarrow> w < length (procs s) \<Longrightarrow> procs s ! w = V_rows k i acc \<Longrightarrow> worker_ok Q s (V_rows k i acc)"
  unfolding result_inv_def by (metis nth_mem)

lemma row_result_inv:
  assumes d: "data_inv Q s" and inv: "result_inv Q s" and w: "w < length (procs s)" "procs s ! w = V_rows k i acc" and row: "has_row Q k i"
    and k: "k < length (jobs Q)"
  shows "result_inv Q (eval_row Q w k i acc s)"
proof -
  let ?N = "length (rows_in Q)" and ?l = "job_lambda Q k" and ?s = "eval_row Q w k i acc s"
  have ok: "worker_ok Q s (V_rows k i acc)" by (rule worker_rows [OF inv w])
  then have i: "first_row Q k \<le> i" "i < last_row Q k" "data_ready s" using row has_row_iff [of Q k i] by simp_all
  have N: "i < ?N" using row by (simp add: has_row_def)
  have r: "dsm_row Q s i = true_row Q i" by (rule data_row [OF d i(3) N])
  show ?thesis
  proof (cases "row_result Q ?l (true_row Q i)")
    case (Inl e)
    have s: "?s = s\<lparr>procs := (procs s)[w := V_error e]\<rparr>" using Inl r by (simp add: eval_row_def Let_def)
    have "job_error Q e" using Inl k N by (auto simp: job_error_def)
    moreover have "keeps Q s ?s" by (rule keeps_refl) (simp_all add: s)
    ultimately show ?thesis by (intro result_update [OF inv _ w(1), of ?s "V_error e"]) (simp_all add: s)
  next
    case (Inr v)
    have v: "row_value Q ?l (true_row Q i) = v" using Inr by (simp add: row_value_def)
    have good: "good_rows Q k (Suc i)" using ok Inr by (auto simp: good_rows_def less_Suc_eq)
    show ?thesis
    proof (cases "agg Q")
      case True
      have s: "?s = s\<lparr>procs := (procs s)[w := V_rows k (i + 1) (plus8 Q acc v)]\<rparr>" using True r Inr by (simp add: eval_row_def Let_def)
      have "keeps Q s ?s" by (rule keeps_refl) (simp_all add: s)
      then show ?thesis
      proof (rule result_update [OF inv _ w(1)])
        show "procs ?s = (procs s)[w := V_rows k (i + 1) (plus8 Q acc v)]" by (simp add: s)
        show "worker_ok Q ?s (V_rows k (i + 1) (plus8 Q acc v))"
          unfolding s using ok i True good by (simp add: rows_done_def sum_to_step v)
      qed (unfold s, use w(2) in auto)
    next
      case False
      have s: "?s = s\<lparr>cells := (cells s)(?l * ?N + i := cell_value Q ?l i), procs := (procs s)[w := V_rows k (i + 1) acc]\<rparr>"
        using False r Inr v by (simp add: eval_row_def Let_def cell_value_def)
      have keeps: "keeps Q s ?s" using N False by (auto simp: keeps_def s dest: cell_unique)
      then show ?thesis
      proof (rule result_update [OF inv _ w(1)])
        show "procs ?s = (procs s)[w := V_rows k (i + 1) acc]" by (simp add: s)
        have "rows_done Q ?s k i" using rows_done_keeps [OF keeps] ok by simp
        then have "rows_done Q ?s k (i + 1)" by (auto simp: rows_done_def s less_Suc_eq)
        then show "worker_ok Q ?s (V_rows k (i + 1) acc)" unfolding s using i False good by simp
      qed (unfold s, use w(2) in auto)
    qed
  qed
qed

lemma job_end_result:
  assumes inv: "result_inv Q s" and w: "w < length (procs s)" "procs s ! w = V_rows k i acc" and row: "\<not> has_row Q k i"
  shows "result_inv Q (s\<lparr>partial := (if agg Q then (partial s)(k := acc) else partial s), procs := (procs s)[w := V_claim]\<rparr>)"
proof -
  let ?s = "s\<lparr>partial := (if agg Q then (partial s)(k := acc) else partial s), procs := (procs s)[w := V_claim]\<rparr>"
  have ok: "worker_ok Q s (V_rows k i acc)" by (rule worker_rows [OF inv w])
  then have i: "i = last_row Q k" using row has_row_iff [of Q k i] by simp
  have keeps: "keeps Q s ?s" using ok i by (auto simp: keeps_def)
  have "job_done Q ?s k" using ok i rows_done_keeps [OF keeps, of k i] by (simp add: job_done_def)
  with keeps show ?thesis by (intro result_update [OF inv _ w(1), where p = V_claim]) (use w(2) in auto)
qed

lemma start_ok: "data_ready s \<Longrightarrow> \<not> isl (body Q (job_lambda Q k)) \<Longrightarrow> worker_ok Q s (start_job Q k)"
  by (auto simp: start_job_def good_rows_def rows_done_def sum_to_def first_row_def last_row_def)

lemma compiled_ok: "k < length (jobs Q) \<Longrightarrow> data_ready s = r \<Longrightarrow> worker_ok Q s (compiled_job Q r k)"
  using start_ok [of s Q k] by (auto simp: compiled_job_def job_error_def split: sum.splits)

lemma proc_ok: "result_inv Q s \<Longrightarrow> w < length (procs s) \<Longrightarrow> worker_ok Q s (procs s ! w)"
  by (simp add: result_inv_def)

lemma held_job: "claim_inv Q n s \<Longrightarrow> w < length (procs s) \<Longrightarrow> held (procs s ! w) = Some k \<Longrightarrow> k < length (jobs Q)"
  using nth_mem [of w "procs s"] unfolding claim_inv_def by blast

text \<open>A step of a worker that keeps its job and writes no result.\<close>

lemma result_move:
  assumes inv: "result_inv Q s" and w: "w < length (procs s)" and s': "procs s' = (procs s)[w := p]" "next_job s' = next_job s"
      "data_ready s' = data_ready s" "cells s' = cells s" "partial s' = partial s"
    and p: "worker_ok Q s' p" "held p = held (procs s ! w) \<or> is_error p" "\<not> is_error (procs s ! w)"
  shows "result_inv Q s'"
proof (rule result_update [OF inv _ w s'(1) p(1)])
  show "keeps Q s s'" by (rule keeps_refl) (simp_all add: s')
qed (use p(2,3) s'(2) in auto)

lemma result_step:
  assumes "pw_step Q s s'" "data_inv Q s" "claim_inv Q n s" "length (jobs Q) + n < 4294967296" "result_inv Q s" shows "result_inv Q s'"
  using assms
proof (induction rule: pw_step.induct)
  case (row w s k i acc)
  have "k < length (jobs Q)" using row.prems(2) row.hyps(1,2) nth_mem [OF row.hyps(1)] by (auto simp: claim_inv_def)
  then show ?case by (rule row_result_inv [OF row.prems(1,4) row.hyps])
next
  case (job_end w s k i acc)
  show ?case by (rule job_end_result [OF job_end.prems(4) job_end.hyps])
next
  case (claim w s)
  let ?p = "if length (jobs Q) \<le> unat (next_job s) then V_exit else V_job (unat (next_job s))"
  let ?s = "s\<lparr>next_job := next_job s + 1, procs := (procs s)[w := ?p]\<rparr>"
  have le: "unat (next_job s + 1) \<le> Suc (unat (next_job s))" by (simp add: unat_word_ariths)
  have "keeps Q s ?s" by (rule keeps_refl) simp_all
  then show ?case
  proof (rule result_update [OF claim.prems(4) _ claim.hyps(1), where p = ?p])
    fix k assume k: "k < length (jobs Q)" "k < unat (next_job ?s)" "held ?p \<noteq> Some k"
    then have "k \<noteq> unat (next_job s)" by auto
    then show "k < unat (next_job s) \<and> (held (procs s ! w) = Some k \<longrightarrow> job_done Q ?s k)" using k le claim.hyps(2) by simp
  qed (use claim.hyps(2) in auto)
next
  case (attach w s)
  show ?case by (rule result_move [OF attach.prems(4) attach.hyps(1), of _ V_claim]) (simp_all add: attach.hyps)
next
  case (start_fails w s)
  show ?case by (rule result_move [OF start_fails.prems(4) start_fails.hyps(1), of _ V_failed]) (simp_all add: start_fails.hyps)
next
  case (start_throws w s e)
  show ?case by (rule result_move [OF start_throws.prems(4) start_throws.hyps(1), of _ "V_error e"]) (simp_all add: start_throws.hyps job_error_def)
next
  case (compile w s k)
  have "k < length (jobs Q)" using held_job [OF compile.prems(2) compile.hyps(1)] compile.hyps(2) by simp
  then show ?case using held_compiled [of Q "data_ready s" k] compiled_ok [of k Q _ "data_ready s"]
    by (intro result_move [OF compile.prems(4) compile.hyps(1), of _ "compiled_job Q (data_ready s) k"])
      (auto simp: compile.hyps compiled_job_def start_job_def split: sum.splits)
next
  case (prepare w s k)
  show ?case using proc_ok [OF prepare.prems(4) prepare.hyps(1)]
    by (intro result_move [OF prepare.prems(4) prepare.hyps(1), of _ "V_check k"]) (simp_all add: prepare.hyps)
next
  case (check_ready w s k)
  let ?s = "s\<lparr>cv_waiters := removeAll w (cv_waiters s), procs := (procs s)[w := start_job Q k]\<rparr>"
  have "worker_ok Q ?s (start_job Q k)" using proc_ok [OF check_ready.prems(4) check_ready.hyps(1)] check_ready.hyps by (intro start_ok) simp_all
  then show ?case
    by (intro result_move [OF check_ready.prems(4) check_ready.hyps(1), of _ "start_job Q k"]) (simp_all add: check_ready.hyps(2) start_job_def)
next
  case (check_sleep w s k)
  show ?case using proc_ok [OF check_sleep.prems(4) check_sleep.hyps(1)]
    by (intro result_move [OF check_sleep.prems(4) check_sleep.hyps(1), of _ "V_sleep k"]) (simp_all add: check_sleep.hyps)
next
  case (wake w s k)
  show ?case using proc_ok [OF wake.prems(4) wake.hyps(1)]
    by (intro result_move [OF wake.prems(4) wake.hyps(1), of _ "V_check k"]) (simp_all add: wake.hyps)
next
  case (broadcast s)
  show ?case by (rule result_frame [OF broadcast.prems(4)]) (auto intro: keeps_refl)
next
  case (init_failed s)
  show ?case by (rule result_frame [OF init_failed.prems(4)]) (auto intro: keeps_refl)
next
  case (copy s i)
  show ?case by (rule result_frame [OF copy.prems(4)]) (auto intro: keeps_refl)
next
  case (copy_null s i e)
  show ?case by (rule result_frame [OF copy_null.prems(4)]) (auto intro: keeps_refl)
next
  case (ready s i)
  show ?case by (rule result_frame [OF ready.prems(4)]) (auto intro: keeps_refl)
next
  case (finish s)
  show ?case by (rule result_frame [OF finish.prems(4)]) (auto intro: keeps_refl)
next
  case (rethrow s e)
  show ?case by (rule result_frame [OF rethrow.prems(4)]) (auto intro: keeps_refl)
qed

section \<open>The condition variable\<close>

text \<open>A worker that is about to sleep or sleeps is on the list unless the flag is set; once the leader waits for the workers, no
  worker that sleeps is on the list.\<close>

fun at_cv :: "'d pw_pc \<Rightarrow> bool" where
  "at_cv (V_check _) = True"
| "at_cv (V_sleep _) = True"
| "at_cv _ = False"

fun asleep :: "'d pw_pc \<Rightarrow> bool" where
  "asleep (V_sleep _) = True"
| "asleep _ = False"

definition cv_inv :: "'d pw_state \<Rightarrow> bool" where
  "cv_inv s \<longleftrightarrow> (\<forall>w < length (procs s). at_cv (procs s ! w) \<longrightarrow> w \<in> set (cv_waiters s) \<or> data_ready s) \<and>
     (leader s = L_wait \<longrightarrow> (\<forall>w < length (procs s). asleep (procs s ! w) \<longrightarrow> w \<notin> set (cv_waiters s)))"

lemma compiled_cv: "\<not> at_cv (compiled_job Q r k)" "\<not> asleep (compiled_job Q r k)" "\<not> asleep (start_job Q k)"
  by (auto simp: compiled_job_def start_job_def split: sum.splits)

lemma cv_update:
  assumes inv: "cv_inv s" and w: "w < length (procs s)" and s': "procs s' = (procs s)[w := p]" "data_ready s' = data_ready s" "leader s' = leader s"
      "\<And>u. u \<noteq> w \<Longrightarrow> u \<in> set (cv_waiters s') \<longleftrightarrow> u \<in> set (cv_waiters s)"
    and p: "at_cv p \<Longrightarrow> w \<in> set (cv_waiters s') \<or> data_ready s" "leader s = L_wait \<Longrightarrow> \<not> asleep p"
  shows "cv_inv s'"
  using inv p s' w unfolding cv_inv_def by (auto simp: nth_list_update)

lemma cv_step:
  assumes "pw_step Q s s'" "data_inv Q s" "cv_inv s" shows "cv_inv s'"
  using assms
proof (induction rule: pw_step.induct)
  case (attach w s)
  show ?case by (rule cv_update [OF attach.prems(2) attach.hyps(1), of _ V_claim]) simp_all
next
  case (start_fails w s)
  show ?case by (rule cv_update [OF start_fails.prems(2) start_fails.hyps(1), of _ V_failed]) simp_all
next
  case (start_throws w s e)
  show ?case by (rule cv_update [OF start_throws.prems(2) start_throws.hyps(1), of _ "V_error e"]) simp_all
next
  case (claim w s)
  let ?p = "if length (jobs Q) \<le> unat (next_job s) then V_exit else V_job (unat (next_job s))"
  show ?case by (rule cv_update [OF claim.prems(2) claim.hyps(1), of _ ?p]) (auto split: if_splits)
next
  case (compile w s k)
  show ?case by (rule cv_update [OF compile.prems(2) compile.hyps(1), of _ "compiled_job Q (data_ready s) k"]) (simp_all add: compiled_cv)
next
  case (prepare w s k)
  show ?case by (rule cv_update [OF prepare.prems(2) prepare.hyps(1), of _ "V_check k"]) simp_all
next
  case (check_ready w s k)
  show ?case by (rule cv_update [OF check_ready.prems(2) check_ready.hyps(1), of _ "start_job Q k"])
    (simp_all add: compiled_cv check_ready.hyps)
next
  case (check_sleep w s k)
  have "w \<in> set (cv_waiters s)" using check_sleep.prems(2) check_sleep.hyps unfolding cv_inv_def by fastforce
  moreover have "leader s \<noteq> L_wait" using check_sleep.prems(1) check_sleep.hyps(3) by (auto simp: data_inv_def)
  ultimately show ?case by (intro cv_update [OF check_sleep.prems(2) check_sleep.hyps(1), of _ "V_sleep k"]) simp_all
next
  case (wake w s k)
  show ?case by (rule cv_update [OF wake.prems(2) wake.hyps(1), of _ "V_check k"]) simp_all
next
  case (row w s k i acc)
  obtain p where p: "procs (eval_row Q w k i acc s) = (procs s)[w := p]" "\<not> at_cv p" "\<not> asleep p"
    by (rule eval_row_pc [of Q w k i acc s]) auto
  obtain f ps where "eval_row Q w k i acc s = s\<lparr>cells := f, procs := ps\<rparr>" by (rule eval_row_frame)
  then show ?case using p by (intro cv_update [OF row.prems(2) row.hyps(1) p(1)]) simp_all
next
  case (job_end w s k i acc)
  show ?case by (rule cv_update [OF job_end.prems(2) job_end.hyps(1), of _ V_claim]) simp_all
next
  case (broadcast s)
  then show ?case by (simp add: cv_inv_def data_inv_def)
qed (auto simp: cv_inv_def)

section \<open>Runs\<close>

definition pw_inv :: "'d pw_query \<Rightarrow> nat \<Rightarrow> 'd pw_state \<Rightarrow> bool" where
  "pw_inv Q n s \<longleftrightarrow> data_inv Q s \<and> claim_inv Q n s \<and> result_inv Q s \<and> cv_inv s \<and> (leader s = L_done \<longrightarrow> (\<forall>p \<in> set (procs s). p = V_exit)) \<and>
     (\<forall>e. leader s = L_error e \<longrightarrow> (\<exists>i < length (rows_in Q). null_error Q (rows_in Q ! i) = Some e) \<or>
        job_error Q e \<or> e = worker_init_error \<and> V_failed \<in> set (procs s))"

definition query_ok :: "'d pw_query \<Rightarrow> nat \<Rightarrow> bool" where
  "query_ok Q n \<longleftrightarrow> rectangular Q \<and> 0 < n \<and> length (jobs Q) + n < 4294967296"

lemma pw_init_inv: "query_ok Q n \<Longrightarrow> pw_inv Q n (pw_init Q n junk junk')"
  by (auto simp: pw_inv_def pw_init_def data_inv_def claim_inv_def result_inv_def cv_inv_def)

lemma worker_step_done:
  assumes "pw_step Q s s'" "leader s = L_done" "\<forall>p \<in> set (procs s). p = V_exit" shows False
proof -
  have v: "procs s ! w = V_exit" if "w < length (procs s)" for w using assms(3) nth_mem [OF that] by blast
  show ?thesis using assms(1,2) by (cases rule: pw_step.cases) (auto dest: v)
qed

lemma failed_stays:
  assumes "pw_step Q s s'" "V_failed \<in> set (procs s)" shows "V_failed \<in> set (procs s')"
proof -
  obtain u where u: "u < length (procs s)" "procs s ! u = V_failed" using assms(2) by (auto simp: in_set_conv_nth)
  have upd: "V_failed \<in> set ((procs s)[w := p])" if "procs s ! w \<noteq> V_failed" for w p
    using u that by (metis length_list_update nth_list_update_neq nth_mem)
  show ?thesis using assms(1)
  proof (cases rule: pw_step.cases)
    case (row w k i acc)
    obtain p where "procs (eval_row Q w k i acc s) = (procs s)[w := p]" by (rule eval_row_pc [of Q w k i acc s]) auto
    then show ?thesis using row upd by simp
  qed (use upd assms(2) in auto)
qed

lemma leader_step:
  assumes "pw_step Q s s'" "pw_inv Q n s"
  shows "leader s' = L_done \<longrightarrow> (\<forall>p \<in> set (procs s'). p = V_exit)"
    "\<forall>e. leader s' = L_error e \<longrightarrow> (\<exists>i < length (rows_in Q). null_error Q (rows_in Q ! i) = Some e) \<or>
        job_error Q e \<or> e = worker_init_error \<and> V_failed \<in> set (procs s')"
proof -
  have d: False if "leader s = L_done" using worker_step_done [OF assms(1) that] assms(2) that by (simp add: pw_inv_def)
  show "leader s' = L_done \<longrightarrow> (\<forall>p \<in> set (procs s'). p = V_exit)"
    using assms(1)
  proof (cases rule: pw_step.cases)
    case (row w k i acc)
    obtain f p where "eval_row Q w k i acc s = s\<lparr>cells := f, procs := p\<rparr>" by (rule eval_row_frame)
    then show ?thesis using row d by auto
  qed (use d in auto)
  have old: "(\<exists>i < length (rows_in Q). null_error Q (rows_in Q ! i) = Some e) \<or> job_error Q e \<or> e = worker_init_error \<and> V_failed \<in> set (procs s')"
    if "leader s = L_error e" for e
    using assms(2) failed_stays [OF assms(1)] that unfolding pw_inv_def by blast
  show "\<forall>e. leader s' = L_error e \<longrightarrow> (\<exists>i < length (rows_in Q). null_error Q (rows_in Q ! i) = Some e) \<or>
        job_error Q e \<or> e = worker_init_error \<and> V_failed \<in> set (procs s')"
    using assms(1)
  proof (cases rule: pw_step.cases)
    case (rethrow e)
    have "\<forall>p \<in> set (procs s). worker_ok Q s p" using assms(2) by (simp add: pw_inv_def result_inv_def)
    with rethrow(3) have "worker_ok Q s (V_error e)" by blast
    then show ?thesis unfolding rethrow(1) by auto
  next
    case (row w k i acc)
    obtain f p where "eval_row Q w k i acc s = s\<lparr>cells := f, procs := p\<rparr>" by (rule eval_row_frame)
    then show ?thesis using row old by auto
  qed (use old in auto)
qed

lemma pw_step_inv:
  assumes "pw_step Q s s'" "query_ok Q n" "pw_inv Q n s" shows "pw_inv Q n s'"
proof -
  have i: "data_inv Q s" "claim_inv Q n s" "result_inv Q s" "cv_inv s" using assms(3) by (simp_all add: pw_inv_def)
  have q: "rectangular Q" "length (jobs Q) + n < 4294967296" using assms(2) by (simp_all add: query_ok_def)
  show ?thesis unfolding pw_inv_def
    using data_step [OF assms(1) q(1) i(1)] claim_step [OF assms(1) q(2) i(2)] result_step [OF assms(1) i(1,2) q(2) i(3)]
      cv_step [OF assms(1) i(1,4)] leader_step [OF assms(1,3)] by blast
qed

lemma pw_run_inv: "pw_run Q n t s \<Longrightarrow> query_ok Q n \<Longrightarrow> pw_inv Q n s"
proof (induction rule: pw_run.induct)
  case (start junk junk')
  then show ?case by (rule pw_init_inv)
next
  case (step t s s')
  then show ?case using pw_step_inv by blast
qed

lemma all_jobs_done:
  assumes inv: "pw_inv Q n s" and q: "query_ok Q n" and "leader s = L_done" "k < length (jobs Q)" shows "job_done Q s k"
proof -
  have e: "\<forall>p \<in> set (procs s). p = V_exit" using inv assms(3) by (simp add: pw_inv_def)
  have "length (procs s) = n" "0 < n" using inv q by (simp_all add: pw_inv_def claim_inv_def query_ok_def)
  then have "V_exit \<in> set (procs s)" using e by (metis length_greater_0_conv list.set_sel(1))
  then have "length (jobs Q) \<le> unat (next_job s)" using inv by (simp add: pw_inv_def claim_inv_def)
  then have "k < unat (next_job s)" using assms(4) by simp
  moreover have "\<forall>p \<in> set (procs s). \<not> is_error p" "\<forall>p \<in> set (procs s). held p \<noteq> Some k" using e by auto
  ultimately show ?thesis using inv assms(4) by (simp add: pw_inv_def result_inv_def)
qed

section \<open>Runs end\<close>

definition pw_final :: "'d pw_state \<Rightarrow> bool" where
  "pw_final s \<longleftrightarrow> (case leader s of L_done \<Rightarrow> True | L_error _ \<Rightarrow> True | _ \<Rightarrow> False)"

text \<open>A worker that is still at work can take a step once the leader waits for the workers: none sleeps forever.\<close>

lemma worker_progress:
  assumes inv: "pw_inv Q n s" and "leader s = L_wait" and w: "w < length (procs s)" "procs s ! w \<noteq> V_exit" "procs s ! w \<noteq> V_failed" "\<not> is_error (procs s ! w)"
  shows "\<exists>s'. pw_step Q s s'"
proof (cases "procs s ! w")
  case V_start
  then show ?thesis using pw_step.attach [OF w(1)] by blast
next
  case V_claim
  then show ?thesis using pw_step.claim [OF w(1) V_claim] by blast
next
  case (V_job k)
  then show ?thesis using pw_step.compile [OF w(1) V_job] by blast
next
  case (V_prep k)
  then show ?thesis using pw_step.prepare [OF w(1) V_prep] by blast
next
  case (V_check k)
  then show ?thesis using pw_step.check_ready [OF w(1) V_check] pw_step.check_sleep [OF w(1) V_check] by blast
next
  case (V_sleep k)
  have "w \<notin> set (cv_waiters s)" using inv assms(2) w(1) V_sleep by (auto simp: pw_inv_def cv_inv_def)
  then show ?thesis using pw_step.wake [OF w(1) V_sleep] by blast
next
  case (V_rows k i acc)
  then show ?thesis using pw_step.row [OF w(1) V_rows] pw_step.job_end [OF w(1) V_rows] by blast
qed (use w in auto)

lemma pw_progress:
  assumes inv: "pw_inv Q n s" and "\<not> pw_final s" shows "\<exists>s'. pw_step Q s s'"
proof (cases "leader s")
  case (L_copy i)
  then show ?thesis by (cases "i < length (rows_in Q)"; cases "null_error Q (rows_in Q ! i)")
      (auto simp: not_less intro: pw_step.copy pw_step.copy_null pw_step.ready)
next
  case L_bcast
  then show ?thesis using pw_step.broadcast by blast
next
  case L_wait
  show ?thesis
  proof (cases "\<exists>w < length (procs s). procs s ! w \<noteq> V_exit \<and> procs s ! w \<noteq> V_failed \<and> \<not> is_error (procs s ! w)")
    case True
    then show ?thesis using worker_progress [OF inv L_wait] by blast
  next
    case False
    then have "p = V_exit \<or> p = V_failed \<or> is_error p" if "p \<in> set (procs s)" for p using that by (auto simp: in_set_conv_nth)
    moreover have "\<exists>e. p = V_error e" if "is_error p" for p using that by (cases p) auto
    ultimately have "(\<forall>p \<in> set (procs s). p = V_exit) \<or> V_failed \<in> set (procs s) \<or> (\<exists>e. V_error e \<in> set (procs s))" by metis
    then show ?thesis using pw_step.finish [OF L_wait] pw_step.rethrow [OF L_wait] pw_step.init_failed [OF L_wait] by blast
  qed
qed (use assms(2) in \<open>simp_all add: pw_final_def\<close>)

text \<open>The number of steps left. A worker goes through the condition variable at most once: it wakes up only after the flag is set.\<close>

fun proc_cost :: "'d pw_query \<Rightarrow> bool \<Rightarrow> 'd pw_pc \<Rightarrow> nat" where
  "proc_cost Q ready V_start = 2"
| "proc_cost Q ready V_failed = 0"
| "proc_cost Q ready V_claim = 1"
| "proc_cost Q ready (V_job k) = length (rows_in Q) + 7"
| "proc_cost Q ready (V_prep k) = length (rows_in Q) + 6"
| "proc_cost Q ready (V_check k) = length (rows_in Q) + (if ready then 3 else 5)"
| "proc_cost Q ready (V_sleep k) = length (rows_in Q) + 4"
| "proc_cost Q ready (V_rows k i acc) = last_row Q k - i + 2"
| "proc_cost Q ready V_exit = 0"
| "proc_cost Q ready (V_error e) = 0"

fun leader_cost :: "'d pw_query \<Rightarrow> leader_pc \<Rightarrow> nat" where
  "leader_cost Q (L_copy i) = length (rows_in Q) - i + 3"
| "leader_cost Q L_bcast = 2"
| "leader_cost Q L_wait = 1"
| "leader_cost Q _ = 0"

definition pw_cost :: "'d pw_query \<Rightarrow> 'd pw_state \<Rightarrow> nat" where
  "pw_cost Q s = sum_list (map (proc_cost Q (data_ready s)) (procs s)) + (length (jobs Q) - unat (next_job s)) * (length (rows_in Q) + 8) +
     leader_cost Q (leader s)"

lemma proc_cost_update:
  assumes "w < length ps"
  shows "sum_list (map (proc_cost Q r) (ps[w := p])) + proc_cost Q r (ps ! w) = sum_list (map (proc_cost Q r) ps) + proc_cost Q r p"
  using assms elem_le_sum_list [of w "map (proc_cost Q r) ps"] by (simp add: map_update sum_list_update)

lemma start_cost: "proc_cost Q r (start_job Q k) \<le> length (rows_in Q) + 2"
  by (auto simp: start_job_def last_row_def first_row_def)

lemma compiled_cost: "proc_cost Q r (compiled_job Q r k) \<le> length (rows_in Q) + 6"
  using start_cost [of Q r k] by (auto simp: compiled_job_def split: sum.splits)

lemma ready_cost: "proc_cost Q True p \<le> proc_cost Q r p"
  by (cases p) auto

lemma pw_cost_move:
  assumes w: "w < length (procs s)" and s': "procs s' = (procs s)[w := p]" "next_job s' = next_job s" "data_ready s' = data_ready s" "leader s' = leader s"
    and less: "proc_cost Q (data_ready s) p < proc_cost Q (data_ready s) (procs s ! w)"
  shows "pw_cost Q s' < pw_cost Q s"
  using proc_cost_update [OF w, of Q "data_ready s" p] less by (simp add: pw_cost_def s')

lemma pw_cost_step:
  assumes "pw_step Q s s'" "pw_inv Q n s" "query_ok Q n" shows "pw_cost Q s' < pw_cost Q s"
  using assms
proof (induction rule: pw_step.induct)
  case (ready s i)
  have "sum_list (map (proc_cost Q True) (procs s)) \<le> sum_list (map (proc_cost Q (data_ready s)) (procs s))"
    by (rule sum_list_mono) (rule ready_cost)
  then show ?case using ready.hyps by (simp add: pw_cost_def)
next
  case (claim w s)
  let ?j = "unat (next_job s)"
  have c: "claim_inv Q n s" "length (jobs Q) + n < 4294967296" using claim.prems by (simp_all add: pw_inv_def query_ok_def)
  have "length (filter is_exit (procs s)) < n" using exits_less [of w "procs s" is_exit] claim.hyps c(1) by (simp add: claim_inv_def)
  then have "Suc ?j < 4294967296" using c by (simp add: claim_inv_def)
  then have next': "unat (next_job s + 1) = Suc ?j" by (simp add: unat_word_ariths)
  show ?case
  proof (cases "length (jobs Q) \<le> ?j")
    case True
    then show ?thesis using proc_cost_update [OF claim.hyps(1), of Q "data_ready s" V_exit] claim.hyps(2) next' by (simp add: pw_cost_def)
  next
    case False
    then have "length (jobs Q) - ?j = Suc (length (jobs Q) - Suc ?j)" by simp
    then show ?thesis using proc_cost_update [OF claim.hyps(1), of Q "data_ready s" "V_job ?j"] claim.hyps(2) next' False by (simp add: pw_cost_def)
  qed
next
  case (attach w s)
  show ?case by (rule pw_cost_move [OF attach.hyps(1), of _ V_claim]) (simp_all add: attach.hyps)
next
  case (start_fails w s)
  show ?case by (rule pw_cost_move [OF start_fails.hyps(1), of _ V_failed]) (simp_all add: start_fails.hyps)
next
  case (start_throws w s e)
  show ?case by (rule pw_cost_move [OF start_throws.hyps(1), of _ "V_error e"]) (simp_all add: start_throws.hyps)
next
  case (compile w s k)
  show ?case using compiled_cost [of Q "data_ready s" k]
    by (intro pw_cost_move [OF compile.hyps(1), of _ "compiled_job Q (data_ready s) k"]) (simp_all add: compile.hyps)
next
  case (prepare w s k)
  show ?case by (rule pw_cost_move [OF prepare.hyps(1), of _ "V_check k"]) (simp_all add: prepare.hyps)
next
  case (check_ready w s k)
  show ?case using start_cost [of Q True k]
    by (intro pw_cost_move [OF check_ready.hyps(1), of _ "start_job Q k"]) (simp_all add: check_ready.hyps)
next
  case (check_sleep w s k)
  show ?case by (rule pw_cost_move [OF check_sleep.hyps(1), of _ "V_sleep k"]) (simp_all add: check_sleep.hyps)
next
  case (wake w s k)
  have "data_ready s" using wake.prems(1) wake.hyps unfolding pw_inv_def cv_inv_def by fastforce
  then show ?case by (intro pw_cost_move [OF wake.hyps(1), of _ "V_check k"]) (simp_all add: wake.hyps)
next
  case (row w s k i acc)
  have "result_inv Q s" using row.prems(1) by (simp add: pw_inv_def)
  then have "worker_ok Q s (V_rows k i acc)" by (rule worker_rows [OF _ row.hyps(1,2)])
  then have i: "i < last_row Q k" using has_row_iff [of Q k i] row.hyps(3) by simp
  obtain p where p: "procs (eval_row Q w k i acc s) = (procs s)[w := p]" "proc_cost Q (data_ready s) p < last_row Q k - i + 2"
    by (rule eval_row_pc [of Q w k i acc s]) (use i in auto)
  obtain f ps where "eval_row Q w k i acc s = s\<lparr>cells := f, procs := ps\<rparr>" by (rule eval_row_frame)
  then show ?case using p row.hyps(2) by (intro pw_cost_move [OF row.hyps(1) p(1)]) simp_all
next
  case (job_end w s k i acc)
  show ?case by (rule pw_cost_move [OF job_end.hyps(1), of _ V_claim]) (simp_all add: job_end.hyps)
qed (simp_all add: pw_cost_def)

end
