(* ===== verification/Pw_Results.thy ===== *)
theory Pw_Results
  imports Apply_Pw
begin

text \<open>
  What \<^verbatim>\<open>apply_mt_pw\<close> and \<^verbatim>\<open>apply_mt_agg_pw\<close> compute: the pack of lambdas is read back as it was written, the jobs
  cover every pair of lambda and row once, and under every schedule of leader and workers the call
  ends with the rows of \<open>apply_all\<close>, their average, or an error whose causes are listed. The whole call, with the
  tests and allocations before the workers start, is \<open>apply_mt_pw_internal\<close>.
\<close>

section \<open>The pack\<close>

lemma VARSIZE_append: "4 \<le> length bs \<Longrightarrow> VARSIZE be (bs @ cs) = VARSIZE be bs"
  by (simp add: VARSIZE_def load32_def)

lemma memcpy_memcpy:
  assumes "off + length a + length b \<le> length dest"
  shows "memcpy (memcpy dest off a) (off + length a) b = memcpy dest off (a @ b)"
  using assms by (simp add: memcpy_def ac_simps)

lemma length_memcpy: "off + length src \<le> length dest \<Longrightarrow> length (memcpy dest off src) = length dest"
  by (simp add: memcpy_def)

lemma unat_advance:
  fixes cur :: "32 word"
  assumes "unat cur + n < 4294967296" shows "unat (cur + of_nat n) = unat cur + n"
  using assms by (simp add: unat_word_ariths unat_of_nat)

lemma pack_from_ok:
  assumes "unat cur + length (concat sers) < 4294967296" "unat cur + length (concat sers) \<le> length blob"
  shows "pack_blob (pack_from cur sers blob) = memcpy blob (unat cur) (concat sers)"
    "l < length sers \<Longrightarrow> unat (pack_offsets (pack_from cur sers blob) ! l) = unat cur + length (concat (take l sers))"
  using assms
proof (induction sers arbitrary: cur blob l)
  case Nil
  { case 1 show ?case by (simp add: memcpy_def) }
  { case 2 then show ?case by simp }
next
  case (Cons ser sers)
  { case 1
    let ?cur = "cur + of_nat (length ser)" and ?blob = "memcpy blob (unat cur) ser"
    have c: "unat ?cur = unat cur + length ser" using 1(1) by (intro unat_advance) simp
    have b: "length ?blob = length blob" using 1(2) by (intro length_memcpy) simp
    have "pack_blob (pack_from ?cur sers ?blob) = memcpy ?blob (unat ?cur) (concat sers)" using 1 by (intro Cons.IH(1)) (simp_all add: c b)
    then show ?case using 1(2) memcpy_memcpy [of "unat cur" ser "concat sers" blob] by (simp add: Let_def c) }
  { case 2
    let ?cur = "cur + of_nat (length ser)" and ?blob = "memcpy blob (unat cur) ser"
    have c: "unat ?cur = unat cur + length ser" using 2(2) by (intro unat_advance) simp
    have b: "length ?blob = length blob" using 2(3) by (intro length_memcpy) simp
    have "unat (pack_offsets (pack_from ?cur sers ?blob) ! m) = unat ?cur + length (concat (take m sers))" if "m < length sers" for m
      using 2 that by (intro Cons.IH(2)) (simp_all add: c b)
    then show ?case using 2(1) by (cases l) (simp_all add: Let_def c) }
qed

lemma drop_concat_take: "drop (length (concat (take l xss))) (concat xss) = concat (drop l xss)"
  by (metis append_eq_conv_conj append_take_drop_id concat_append)

lemma pack_slice:
  assumes "sum_list (map length sers) < 4294967296" "l < length sers"
  shows "drop (unat (pack_offsets (pack_lambdas sers) ! l)) (pack_blob (pack_lambdas sers)) = sers ! l @ concat (drop (Suc l) sers)"
proof -
  have len: "length (concat sers) = sum_list (map length sers)" by (simp add: length_concat)
  let ?p = "pack_lambdas sers"
  have "pack_blob ?p = concat sers" using pack_from_ok(1) [of 0 sers] assms(1) len by (simp add: pack_lambdas_def memcpy_def)
  moreover have "unat (pack_offsets ?p ! l) = length (concat (take l sers))"
    using pack_from_ok(2) [of 0 sers _ l] assms len by (simp add: pack_lambdas_def)
  ultimately have "drop (unat (pack_offsets ?p ! l)) (pack_blob ?p) = concat (drop l sers)" by (simp add: drop_concat_take)
  also have "\<dots> = sers ! l @ concat (drop (Suc l) sers)" using Cons_nth_drop_Suc [OF assms(2)] by (metis concat.simps(2))
  finally show ?thesis .
qed

text \<open>A worker reads back from the pack in shared memory exactly the bytes of each serialized lambda,
  as long as all of them together stay below the 4 GiB that 32-bit offsets can address.
\<close>

lemma lambda_unpack:
  assumes "\<forall>ser \<in> set sers. varlena be ser" "sum_list (map length sers) < 4294967296" "l < length sers"
  shows "unpack_lambda be (pack_lambdas sers) l = sers ! l"
  using assms by (simp add: unpack_lambda_def pack_slice varlena_def VARSIZE_append)

definition ex_sers :: "bytes list" where
  "ex_sers = [[24, 0, 0, 0, 1, 2], [16, 0, 0, 0], [28, 0, 0, 0, 7, 8, 9]]"

section \<open>The query of a call\<close>

text \<open>What \<open>apply_mt_pw_internal\<close> puts into shared memory.\<close>

definition pw_setup :: "bool \<Rightarrow> int \<Rightarrow> int \<Rightarrow> bool \<Rightarrow> bool \<Rightarrow> ('d \<Rightarrow> 'd \<Rightarrow> 'd) \<Rightarrow> 'd \<Rightarrow> (pg_error \<Rightarrow> bool) \<Rightarrow>
    (bytes \<Rightarrow> ('d list \<Rightarrow> 'd result) result) \<Rightarrow> string list \<Rightarrow> 'd option list list \<Rightarrow> bytes list \<Rightarrow> 'd pw_query" where
  "pw_setup be mode nworkers agg' flat add8 z8 starts compile names rows sers =
    (let chunks = chunks_per_lambda mode (pw_workers nworkers) (int (length sers)) (int (length rows))
     in \<lparr>col_names = names, rows_in = rows, jobs = pw_jobs chunks (length sers) (length rows),
         body = (\<lambda>l. compile (unpack_lambda be (pack_lambdas sers) l)), agg = agg', result_flat = flat, plus8 = add8, zero8 = z8, start_error = starts\<rparr>)"

lemma chunks_range: "1 \<le> chunks_per_lambda mode n l d \<and> chunks_per_lambda mode n l d \<le> max 1 d"
  by (auto simp: chunks_per_lambda_def Let_def)

lemma length_pw_jobs: "length (pw_jobs chunks L N) = L * nat chunks"
  by (simp add: pw_jobs_def length_concat comp_def sum_list_triv)

lemma job_bounds:
  assumes "int N \<le> PG_INT32_MAX" "0 < chunks" "chunks \<le> PG_INT32_MAX" "c \<le> nat chunks"
  shows "unat (chunk_bound (int N) (int c) chunks) = part N (nat chunks) c"
proof -
  have "int c \<le> PG_INT32_MAX + 1" using assms(2,3,4) by linarith
  then have "unat (chunk_bound (int N) (int c) chunks) = nat (int N * int c div chunks)" using assms by (intro unat_chunk_bound) auto
  also have "\<dots> = nat (int (N * c div nat chunks))" using assms(2) by (simp add: zdiv_int)
  finally show ?thesis by (simp add: part_def)
qed

lemma pw_jobs_parts:
  assumes "int N \<le> PG_INT32_MAX" "0 < chunks" "chunks \<le> PG_INT32_MAX"
  shows "map (\<lambda>j. (pw_lambda j, unat (pw_start j), unat (pw_end j))) (pw_jobs chunks L N) =
    concat (map (\<lambda>l. map (\<lambda>c. (l, part N (nat chunks) c, part N (nat chunks) (Suc c))) [0..<nat chunks]) [0..<L])"
proof -
  have "map (\<lambda>c. (l, unat (chunk_bound (int N) c chunks), unat (chunk_bound (int N) (c + 1) chunks))) [0..chunks - 1] =
      map (\<lambda>c. (l, part N (nat chunks) c, part N (nat chunks) (Suc c))) [0..<nat chunks]" for l :: nat
    unfolding upto_upt using job_bounds [OF assms] job_bounds [OF assms, of "Suc _"]
    by (auto simp: comp_def add.commute [of _ 1] intro!: map_cong)
  then show ?thesis by (simp add: pw_jobs_def map_concat comp_def)
qed

text \<open>The pairs of lambda and row in the order of the jobs: lambda by lambda, rows in order.\<close>

definition job_cells :: "nat \<Rightarrow> pw_job \<Rightarrow> (nat \<times> nat) list" where
  "job_cells N j = map (Pair (pw_lambda j)) [unat (pw_start j)..<min (unat (pw_end j)) N]"

lemma pw_jobs_cells:
  assumes "int N \<le> PG_INT32_MAX" "0 < chunks" "chunks \<le> PG_INT32_MAX"
  shows "concat (map (job_cells N) (pw_jobs chunks L N)) = concat (map (\<lambda>l. map (Pair l) [0..<N]) [0..<L])"
proof -
  let ?p = "part N (nat chunks)"
  have le: "min (?p (Suc c)) N = ?p (Suc c)" if "c < nat chunks" for c using part_le [of "nat chunks" "Suc c" N] that assms(2) by simp
  have "map (job_cells N) (pw_jobs chunks L N) =
      map (\<lambda>(l, a, b). map (Pair l) [a..<min b N]) (map (\<lambda>j. (pw_lambda j, unat (pw_start j), unat (pw_end j))) (pw_jobs chunks L N))"
    by (simp add: job_cells_def comp_def)
  also have "concat \<dots> = concat (map (\<lambda>l. concat (map (\<lambda>c. map (Pair l) [?p c..<min (?p (Suc c)) N]) [0..<nat chunks])) [0..<L])"
    unfolding pw_jobs_parts [OF assms] map_concat map_map
    using concat_map_concat [of id "\<lambda>l. map (\<lambda>c. map (Pair l) [?p c..<min (?p (Suc c)) N]) [0..<nat chunks]" "[0..<L]"]
    by (simp add: comp_def)
  also have "\<dots> = concat (map (\<lambda>l. map (Pair l) (concat (map (\<lambda>c. [?p c..<?p (Suc c)]) [0..<nat chunks]))) [0..<L])"
    unfolding map_concat map_map comp_def by (intro arg_cong [where f = concat] map_cong refl) (simp add: le)
  finally show ?thesis using parts_cover [of "nat chunks" N] assms(2) by simp
qed

section \<open>The call\<close>

text \<open>
  \<open>apply_mt_pw_internal\<close> from the launch on: without results nothing is launched; the postmaster may start
  fewer workers than asked for, but no worker at all is an error.
\<close>

definition pw_result :: "('d \<Rightarrow> nat \<Rightarrow> 'd) \<Rightarrow> 'd pw_query \<Rightarrow> nat \<Rightarrow> 'd pw_state \<Rightarrow> 'd list list" where
  "pw_result divide8 Q num_lambdas s = (if agg Q then [[pw_average divide8 Q num_lambdas s]] else pw_output Q num_lambdas s)"

definition no_worker_error :: pg_error where
  "no_worker_error = Ereport ERRCODE_INSUFFICIENT_RESOURCES ''apply_mt_pw: no parallel worker could be launched''"

inductive pw_call :: "('d \<Rightarrow> nat \<Rightarrow> 'd) \<Rightarrow> int \<Rightarrow> 'd pw_query \<Rightarrow> nat \<Rightarrow> 'd list list result \<Rightarrow> bool" for divide8 nworkers Q num_lambdas where
  nothing: "length (rows_in Q) * num_lambdas = 0 \<Longrightarrow>
    pw_call divide8 nworkers Q num_lambdas (Inr (if agg Q then [[divide8 (zero8 Q) 0]] else []))"
| no_worker: "0 < length (rows_in Q) * num_lambdas \<Longrightarrow> pw_call divide8 nworkers Q num_lambdas (Inl no_worker_error)"
| finished: "0 < length (rows_in Q) * num_lambdas \<Longrightarrow> 0 < n \<Longrightarrow> int n \<le> pw_launch (pw_workers nworkers) (int (length (jobs Q))) \<Longrightarrow>
    pw_run Q n t s \<Longrightarrow> leader s = L_done \<Longrightarrow> pw_call divide8 nworkers Q num_lambdas (Inr (pw_result divide8 Q num_lambdas s))"
| failed: "0 < length (rows_in Q) * num_lambdas \<Longrightarrow> 0 < n \<Longrightarrow> int n \<le> pw_launch (pw_workers nworkers) (int (length (jobs Q))) \<Longrightarrow>
    pw_run Q n t s \<Longrightarrow> leader s = L_error e \<Longrightarrow> pw_call divide8 nworkers Q num_lambdas (Inl e)"






text \<open>What holds of the arguments: rectangular data, and counts and lengths that fit their C types.\<close>

definition pw_args :: "bool \<Rightarrow> int \<Rightarrow> int \<Rightarrow> string list \<Rightarrow> 'd option list list \<Rightarrow> bytes list \<Rightarrow> bool" where
  "pw_args be mode nworkers names rows sers \<longleftrightarrow>
    (\<forall>r \<in> set rows. length r = length names) \<and> (\<forall>ser \<in> set sers. varlena be ser) \<and> sum_list (map length sers) < 4294967296 \<and>
    int (length rows) \<le> PG_INT32_MAX \<and> nworkers \<le> PG_INT32_MAX \<and>
    int (length sers) * chunks_per_lambda mode (pw_workers nworkers) (int (length sers)) (int (length rows)) \<le> PG_INT32_MAX"

text \<open>Every lambda on every row, one after the other.\<close>

definition apply_rows :: "(bytes \<Rightarrow> ('d list \<Rightarrow> 'd result) result) \<Rightarrow> 'd list list \<Rightarrow> bytes list \<Rightarrow> 'd list list result" where
  "apply_rows compile rows sers =
    rmap concat (rmapM (\<lambda>ser. rbind (compile ser) (\<lambda>f. rmapM (\<lambda>r. rmap (\<lambda>v. r @ [v]) (f r)) rows)) sers)"

lemma setup_chunks: "int (length rows) \<le> PG_INT32_MAX \<Longrightarrow>
  0 < chunks_per_lambda mode n l (int (length rows)) \<and> chunks_per_lambda mode n l (int (length rows)) \<le> PG_INT32_MAX"
  using chunks_range [of mode n l "int (length rows)"] by (auto simp: PG_INT32_MAX_def)

lemma setup_ok:
  assumes "pw_args be mode nworkers names rows sers" "0 < n" "Q = pw_setup be mode nworkers agg' flat add8 z8 starts compile names rows sers"
    and "int n \<le> pw_launch (pw_workers nworkers) (int (length (jobs Q)))"
  shows "query_ok Q n"
proof -
  let ?c = "chunks_per_lambda mode (pw_workers nworkers) (int (length sers)) (int (length rows))"
  have "length (jobs Q) = length sers * nat ?c" using assms(3) by (simp add: pw_setup_def Let_def length_pw_jobs)
  moreover have "0 < ?c" using chunks_range [of mode "pw_workers nworkers" "int (length sers)" "int (length rows)"] by simp
  ultimately have j: "int (length (jobs Q)) \<le> PG_INT32_MAX" using assms(1) by (simp add: pw_args_def)
  have "int n \<le> PG_INT32_MAX" using assms(1,4) j by (auto simp: pw_args_def pw_launch_def pw_workers_def PG_INT32_MAX_def split: if_splits)
  then have "length (jobs Q) + n < 4294967296" using j by (simp add: PG_INT32_MAX_def)
  then show ?thesis using assms(1,2,3) by (auto simp: query_ok_def rectangular_def pw_args_def pw_setup_def Let_def)
qed

lemma job_of_cell:
  assumes "jobs Q = pw_jobs chunks L (length (rows_in Q))" "int (length (rows_in Q)) \<le> PG_INT32_MAX" "0 < chunks" "chunks \<le> PG_INT32_MAX"
    and "l < L" "i < length (rows_in Q)"
  obtains k where "k < length (jobs Q)" "job_lambda Q k = l" "first_row Q k \<le> i" "i < last_row Q k"
proof -
  let ?N = "length (rows_in Q)"
  have "(l, i) \<in> set (concat (map (job_cells ?N) (jobs Q)))"
    unfolding assms(1) pw_jobs_cells [OF assms(2,3,4)] using assms(5,6) by force
  then obtain k where k: "k < length (jobs Q)" "(l, i) \<in> set (job_cells ?N (jobs Q ! k))" by (auto simp: in_set_conv_nth [of _ "jobs Q"])
  from k(2) have "job_lambda Q k = l" "first_row Q k \<le> i" "i < last_row Q k"
    by (auto simp: job_cells_def first_row_def last_row_def)
  with k(1) show ?thesis by (rule that)
qed

section \<open>Finished calls\<close>

lemma setup_body:
  assumes "pw_args be mode nworkers names rows sers" "l < length sers"
  shows "body (pw_setup be mode nworkers agg' flat add8 z8 starts compile names rows sers) l = compile (sers ! l)"
  using assms by (simp add: pw_setup_def Let_def pw_args_def unpack_lambda_def pack_slice varlena_def VARSIZE_append)

lemma done_cell:
  assumes run: "pw_run Q n t s" "leader s = L_done" and q: "query_ok Q n"
    and jobs: "jobs Q = pw_jobs chunks L (length (rows_in Q))" "int (length (rows_in Q)) \<le> PG_INT32_MAX" "0 < chunks" "chunks \<le> PG_INT32_MAX"
    and li: "l < L" "i < length (rows_in Q)"
  shows "row_result Q l (true_row Q i) = Inr (row_value Q l (true_row Q i))"
    "\<not> agg Q \<Longrightarrow> cells s (l * length (rows_in Q) + i) = cell_value Q l i"
    "dsm_row Q s i = true_row Q i" "None \<notin> set (rows_in Q ! i)"
proof -
  have inv: "pw_inv Q n s" by (rule pw_run_inv [OF run(1) q])
  then have d: "data_inv Q s" "data_ready s" using run(2) by (auto simp: pw_inv_def data_inv_def)
  obtain k where k: "k < length (jobs Q)" "job_lambda Q k = l" "first_row Q k \<le> i" "i < last_row Q k"
    by (rule job_of_cell [OF jobs li])
  have "job_done Q s k" by (rule all_jobs_done [OF inv q run(2) k(1)])
  then show "row_result Q l (true_row Q i) = Inr (row_value Q l (true_row Q i))"
    "\<not> agg Q \<Longrightarrow> cells s (l * length (rows_in Q) + i) = cell_value Q l i"
    using k by (auto simp: job_done_def good_rows_def rows_done_def row_value_def isl_def split: sum.splits)
  show "dsm_row Q s i = true_row Q i" "None \<notin> set (rows_in Q ! i)" by (rule data_row [OF d li(2)])+
qed


lemma pw_run_cost:
  assumes "pw_run Q n t s" "query_ok Q n"
  shows "t + pw_cost Q s \<le> 2 * n + length (jobs Q) * (length (rows_in Q) + 8) + length (rows_in Q) + 3"
  using assms
proof (induction rule: pw_run.induct)
  case (start junk junk')
  show ?case by (simp add: pw_cost_def pw_init_def sum_list_replicate)
next
  case (step t s s')
  then show ?case using pw_cost_step [OF step.hyps(2) pw_run_inv [OF step.hyps(1)]] by fastforce
qed

definition lambda_value :: "(bytes \<Rightarrow> ('d list \<Rightarrow> 'd result) result) \<Rightarrow> bytes \<Rightarrow> 'd list \<Rightarrow> 'd" where
  "lambda_value compile ser r = projr (rbind (compile ser) (\<lambda>f. f r))"

lemma apply_rows_all:
  assumes "\<And>ser r. ser \<in> set sers \<Longrightarrow> r \<in> set rows \<Longrightarrow> \<not> isl (rbind (compile ser) (\<lambda>f. f r))" "rows \<noteq> []"
  shows "apply_rows compile rows sers = Inr (apply_all (lambda_value compile) rows sers)"
proof -
  have "rbind (compile ser) (\<lambda>f. rmapM (\<lambda>r. rmap (\<lambda>v. r @ [v]) (f r)) rows) = Inr (map (\<lambda>r. r @ [lambda_value compile ser r]) rows)"
    if ser: "ser \<in> set sers" for ser
  proof -
    obtain f where f: "compile ser = Inr f" using assms(1) [OF ser hd_in_set [OF assms(2)]] by (cases "compile ser") auto
    have "rmap (\<lambda>v. r @ [v]) (f r) = Inr (r @ [lambda_value compile ser r])" if "r \<in> set rows" for r
      using assms(1) [OF ser that] f by (cases "f r") (auto simp: lambda_value_def)
    then show ?thesis using f by (simp add: rmapM_total)
  qed
  then show ?thesis by (simp add: apply_rows_def apply_all_def rmapM_total)
qed

lemma done_output:
  assumes args: "pw_args be mode nworkers names rows sers" and Q: "Q = pw_setup be mode nworkers agg' flat add8 z8 starts compile names rows sers"
    and run: "pw_run Q n t s" "leader s = L_done" and q: "query_ok Q n" and "rows \<noteq> []" "sers \<noteq> []"
  shows "\<forall>r \<in> set rows. None \<notin> set r"
    "\<And>l i. l < length sers \<Longrightarrow> i < length rows \<Longrightarrow> row_value Q l (true_row Q i) = lambda_value compile (sers ! l) (map (map the) rows ! i)"
    "apply_rows compile (map (map the) rows) sers = Inr (apply_all (lambda_value compile) (map (map the) rows) sers)"
    "\<not> agg' \<Longrightarrow> pw_output Q (length sers) s = apply_all (lambda_value compile) (map (map the) rows) sers"
proof -
  let ?N = "length rows" and ?L = "length sers" and ?data = "map (map the) rows"
  define chunks where "chunks = chunks_per_lambda mode (pw_workers nworkers) (int ?L) (int ?N)"
  have f: "rows_in Q = rows" "agg Q = agg'" using Q by (simp_all add: pw_setup_def Let_def)
  have N: "int (length (rows_in Q)) \<le> PG_INT32_MAX" using args f by (simp add: pw_args_def)
  have jobs: "jobs Q = pw_jobs chunks ?L (length (rows_in Q))" using Q by (simp add: pw_setup_def Let_def chunks_def)
  have c: "0 < chunks" "chunks \<le> PG_INT32_MAX" using setup_chunks [of rows] N f by (simp_all add: chunks_def)
  note cell = done_cell [OF run q jobs N c]
  have row: "row_result Q l (true_row Q i) = rbind (compile (sers ! l)) (\<lambda>f. f (?data ! i))" if "l < ?L" "i < ?N" for l i
    using that f by (simp add: row_result_def Q setup_body [OF args] true_row_def)
  have v: "row_value Q l (true_row Q i) = lambda_value compile (sers ! l) (?data ! i)" if "l < ?L" "i < ?N" for l i
  proof -
    have "Inr (row_value Q l (true_row Q i)) = rbind (compile (sers ! l)) (\<lambda>f. f (?data ! i))"
      unfolding row [OF that, symmetric] using cell(1) [of l i] that f by simp
    then show ?thesis unfolding lambda_value_def by (metis sum.sel(2))
  qed
  show "row_value Q l (true_row Q i) = lambda_value compile (sers ! l) (?data ! i)" if "l < ?L" "i < ?N" for l i by (rule v [OF that])
  show "\<forall>r \<in> set rows. None \<notin> set r" using cell(4) [of 0] \<open>sers \<noteq> []\<close> unfolding f by (metis in_set_conv_nth length_greater_0_conv)
  show "apply_rows compile ?data sers = Inr (apply_all (lambda_value compile) ?data sers)"
  proof (rule apply_rows_all)
    fix ser r assume "ser \<in> set sers" "r \<in> set ?data"
    then obtain l i where li: "l < ?L" "ser = sers ! l" "i < ?N" "r = ?data ! i" by (auto simp: in_set_conv_nth)
    have "row_result Q l (true_row Q i) = Inr (row_value Q l (true_row Q i))" using cell(1) li f by simp
    then show "\<not> isl (rbind (compile ser) (\<lambda>f. f r))" using row [OF li(1,3)] li by simp
  qed (use assms in simp)
  assume "\<not> agg'"
  show "pw_output Q ?L s = apply_all (lambda_value compile) ?data sers"
    unfolding pw_output_def apply_all_cells length_map f mult.commute [of ?L]
  proof (intro map_cong refl)
    fix a assume "a \<in> set [0..<?N * ?L]"
    then have a: "a div ?N < ?L" "a mod ?N < ?N" using \<open>rows \<noteq> []\<close> by (simp_all add: div_less_iff_less_mult mult.commute)
    have "cells s (a div ?N * ?N + a mod ?N) = cell_value Q (a div ?N) (a mod ?N)" using cell(2) [of "a div ?N" "a mod ?N"] a f \<open>\<not> agg'\<close> by simp
    moreover have "true_row Q (a mod ?N) = ?data ! (a mod ?N)" using a f by (simp add: true_row_def)
    ultimately show "(if result_flat Q then cells s a else dsm_row Q s (a mod ?N) @ cells s a) =
        ?data ! (a mod ?N) @ [lambda_value compile (sers ! (a div ?N)) (?data ! (a mod ?N))]"
      using v [OF a] cell(3) [of "a div ?N" "a mod ?N"] a f by (simp add: cell_value_def Let_def)
  qed
qed

lemma last_apply_all:
  "map last (apply_all f rows sers) = concat (map (\<lambda>l. map (\<lambda>i. f (sers ! l) (rows ! i)) [0..<length rows]) [0..<length sers])"
proof -
  have "map (\<lambda>r. f ser r) rows = map (\<lambda>i. f ser (rows ! i)) [0..<length rows]" for ser by (rule nth_equalityI) simp_all
  then have "map last (apply_all f rows sers) = concat (map (\<lambda>ser. map (\<lambda>i. f ser (rows ! i)) [0..<length rows]) sers)"
    by (simp add: apply_all_def map_concat comp_def)
  also have "map (\<lambda>ser. map (\<lambda>i. f ser (rows ! i)) [0..<length rows]) sers =
      map (\<lambda>l. map (\<lambda>i. f (sers ! l) (rows ! i)) [0..<length rows]) [0..<length sers]" by (rule nth_equalityI) simp_all
  finally show ?thesis .
qed

lemma sum_to_cells:
  "sum_to Q k (last_row Q k) =
    foldl (plus8 Q) (zero8 Q) (map (\<lambda>(l, i). row_value Q l (true_row Q i)) (job_cells (length (rows_in Q)) (jobs Q ! k)))"
proof -
  have "[first_row Q k..<last_row Q k] = [unat (pw_start (jobs Q ! k))..<min (unat (pw_end (jobs Q ! k))) (length (rows_in Q))]"
    by (auto simp: first_row_def last_row_def max_def)
  then show ?thesis by (simp add: sum_to_def job_cells_def comp_def)
qed

text \<open>C33: when \<open>apply_mt_pw\<close> returns rows, no input was NULL, every lambda compiled and evaluated on every row, and
  the rows are those of the sequential evaluation, lambda by lambda: whatever the mode, the number of
  workers the postmaster started, and the order in which leader and workers take their steps.
\<close>

theorem apply_mt_pw_results:
  assumes "pw_args be mode nworkers names rows sers"
    and "pw_call divide8 nworkers (pw_setup be mode nworkers False flat add8 z8 starts compile names rows sers) (length sers) (Inr out)"
    and "rows \<noteq> []"
  shows "apply_rows compile (map (map the) rows) sers = Inr out \<and> (sers \<noteq> [] \<longrightarrow> (\<forall>r \<in> set rows. None \<notin> set r))"
proof -
  let ?Q = "pw_setup be mode nworkers False flat add8 z8 starts compile names rows sers"
  have f: "rows_in ?Q = rows" "agg ?Q = False" by (simp_all add: pw_setup_def Let_def)
  from assms(2) show ?thesis
  proof (cases rule: pw_call.cases)
    case nothing
    then have "sers = []" "out = []" using f assms(3) by auto
    then show ?thesis by (simp add: apply_rows_def)
  next
    case (finished n t s)
    then have "sers \<noteq> []" by auto
    then show ?thesis using done_output [OF assms(1) refl finished(5,6) setup_ok [OF assms(1) finished(3) refl finished(4)] assms(3)]
        finished(1) f by (simp add: pw_result_def)
  qed
qed

text \<open>C34: the result of a call, when there is one, does not depend on scheduling: neither on the number of workers
  started, nor on the interleaving, and for the average no associativity of the addition is assumed.
\<close>

theorem apply_mt_pw_deterministic:
  assumes "pw_args be mode nworkers names rows sers" "Q = pw_setup be mode nworkers agg' flat add8 z8 starts compile names rows sers"
    and "pw_call divide8 nworkers Q (length sers) (Inr out)" "pw_call divide8 nworkers Q (length sers) (Inr out')"
  shows "out = out'"
proof -
  have f: "rows_in Q = rows" "agg Q = agg'" using assms(2) by (simp_all add: pw_setup_def Let_def)
  define ref where "ref = (if length rows * length sers = 0 then (if agg' then [[divide8 (zero8 Q) 0]] else [])
    else if agg' then [[divide8 (foldl (plus8 Q) (zero8 Q) (map (\<lambda>k. sum_to Q k (last_row Q k)) [0..<length (jobs Q)])) (length rows * length sers)]]
    else apply_all (lambda_value compile) (map (map the) rows) sers)"
  have "o' = ref" if "pw_call divide8 nworkers Q (length sers) (Inr o')" for o'
    using that
  proof (cases rule: pw_call.cases)
    case nothing
    then show ?thesis using f by (simp add: ref_def)
  next
    case (finished n t s)
    have q: "query_ok Q n" by (rule setup_ok [OF assms(1) finished(3) assms(2) finished(4)])
    have sums: "map (partial s) [0..<length (jobs Q)] = map (\<lambda>k. sum_to Q k (last_row Q k)) [0..<length (jobs Q)]" if agg'
      using all_jobs_done [OF pw_run_inv [OF finished(5) q] q finished(6)] f that by (auto simp: job_done_def)
    have "pw_average divide8 Q (length sers) s = divide8 (foldl (plus8 Q) (zero8 Q)
        (map (\<lambda>k. sum_to Q k (last_row Q k)) [0..<length (jobs Q)])) (length rows * length sers)" if agg'
      unfolding pw_average_def sums [OF that] f ..
    then show ?thesis using done_output(4) [OF assms(1,2) finished(5,6) q] finished(1,2) f
      by (auto simp: ref_def pw_result_def)
  qed
  then show ?thesis using assms(3,4) by metis
qed

text \<open>C35: \<open>apply_mt_agg_pw\<close> returns an average in which every result counts once. The results of all lambdas on all rows, in the order
  of the sequential evaluation, are cut into one part per job; each part is added up from the left, starting with zero, the sums of the parts are
  added up in the order of the jobs, and the total is divided by the number of results. No law of the addition is used.
\<close>

theorem apply_mt_agg_pw_average:
  assumes "pw_args be mode nworkers names rows sers" "Q = pw_setup be mode nworkers True flat add8 z8 starts compile names rows sers"
    and "pw_call divide8 nworkers Q (length sers) (Inr out)" "rows \<noteq> []"
  shows "\<exists>outs parts. apply_rows compile (map (map the) rows) sers = Inr outs \<and> concat parts = map last outs \<and> length parts = length (jobs Q) \<and>
    out = [[divide8 (foldl add8 z8 (map (foldl add8 z8) parts)) (length rows * length sers)]]"
proof -
  let ?N = "length rows" and ?L = "length sers"
  define chunks where "chunks = chunks_per_lambda mode (pw_workers nworkers) (int ?L) (int ?N)"
  have f: "rows_in Q = rows" "agg Q = True" "plus8 Q = add8" "zero8 Q = z8" "jobs Q = pw_jobs chunks ?L ?N"
    by (simp_all add: assms(2) pw_setup_def Let_def chunks_def)
  from assms(3) show ?thesis
  proof (cases rule: pw_call.cases)
    case nothing
    then have "sers = []" "out = [[divide8 z8 0]]" using f assms(4) by auto
    then show ?thesis using f(5) by (intro exI [of _ "[]"]) (simp add: apply_rows_def pw_jobs_def)
  next
    case (finished n t s)
    have N: "int ?N \<le> PG_INT32_MAX" using assms(1) by (simp add: pw_args_def)
    have c: "0 < chunks" "chunks \<le> PG_INT32_MAX" using setup_chunks [OF N] by (simp_all add: chunks_def)
    have q: "query_ok Q n" by (rule setup_ok [OF assms(1) finished(3) assms(2) finished(4)])
    have "sers \<noteq> []" using finished(2) by auto
    note out = done_output(2,3) [OF assms(1,2) finished(5,6) q assms(4) this]
    define parts where "parts = map (\<lambda>j. map (\<lambda>(l, i). row_value Q l (true_row Q i)) (job_cells ?N j)) (jobs Q)"
    have sums: "map (partial s) [0..<length (jobs Q)] = map (foldl add8 z8) parts"
      using all_jobs_done [OF pw_run_inv [OF finished(5) q] q finished(6)] sum_to_cells [of Q] f(1-4)
      by (intro nth_equalityI) (simp_all add: job_done_def parts_def)
    have "concat parts = map (\<lambda>(l, i). row_value Q l (true_row Q i)) (concat (map (job_cells ?N) (jobs Q)))"
      by (simp add: parts_def map_concat comp_def)
    also have "\<dots> = map last (apply_all (lambda_value compile) (map (map the) rows) sers)"
      unfolding f(5) pw_jobs_cells [OF N c] last_apply_all map_concat map_map comp_def prod.case length_map
      using out(1) by (intro arg_cong [where f = concat] map_cong refl) simp
    finally show ?thesis using out(2) finished(1) f sums by (intro exI [of _ parts] exI conjI) (simp_all add: pw_result_def pw_average_def parts_def)
  qed
qed






text \<open>C37: no run goes on forever and none gets stuck, with the condition variable taken into account: the number of steps is bounded by
  the workers, jobs and rows, as long as the leader has neither finished nor failed someone can take a step (so that no worker is left
  sleeping on the list when the leader waits), and without NULLs, failing lambdas and workers that fail to start
  the leader finishes.
\<close>

theorem apply_mt_pw_live:
  assumes "query_ok Q n" "pw_run Q n t s"
  shows "t \<le> 2 * n + length (jobs Q) * (length (rows_in Q) + 8) + length (rows_in Q) + 3 \<and>
    (pw_final s \<or> (\<exists>s'. pw_step Q s s')) \<and>
    (pw_final s \<and> (\<forall>r \<in> set (rows_in Q). null_error Q r = None) \<and> (\<forall>e. \<not> job_error Q e) \<and> V_failed \<notin> set (procs s) \<longrightarrow>
      leader s = L_done)"
proof (intro conjI impI)
  have "t + pw_cost Q s \<le> 2 * n + length (jobs Q) * (length (rows_in Q) + 8) + length (rows_in Q) + 3"
    by (rule pw_run_cost [OF assms(2,1)])
  then show "t \<le> 2 * n + length (jobs Q) * (length (rows_in Q) + 8) + length (rows_in Q) + 3" by simp
  show "pw_final s \<or> (\<exists>s'. pw_step Q s s')" using pw_progress [OF pw_run_inv [OF assms(2,1)]] by blast
  assume a: "pw_final s \<and> (\<forall>r \<in> set (rows_in Q). null_error Q r = None) \<and> (\<forall>e. \<not> job_error Q e) \<and> V_failed \<notin> set (procs s)"
  then have "leader s \<noteq> L_error e" for e using pw_run_inv [OF assms(2,1)] by (fastforce simp: pw_inv_def)
  then show "leader s = L_done" using a by (auto simp: pw_final_def split: leader_pc.splits)
qed

text \<open>C38: a worker reads rows only when all of them are in shared memory, a job is held by at most one worker and is
  a job of the list, and a worker leaves only when all jobs are claimed. The atomic counter never wraps
  around.
\<close>

theorem apply_mt_pw_safe:
  assumes "query_ok Q n" "pw_run Q n t s"
  shows "(\<forall>k i acc. V_rows k i acc \<in> set (procs s) \<longrightarrow> (\<forall>i' < length (rows_in Q). dsm_row Q s i' = map the (rows_in Q ! i'))) \<and>
    (\<forall>w w' k. w < n \<longrightarrow> w' < n \<longrightarrow> held (procs s ! w) = Some k \<longrightarrow> held (procs s ! w') = Some k \<longrightarrow> w = w' \<and> k < length (jobs Q)) \<and>
    (V_exit \<in> set (procs s) \<longrightarrow> length (jobs Q) \<le> unat (next_job s)) \<and> unat (next_job s) \<le> length (jobs Q) + n"
proof -
  have inv: "data_inv Q s" "claim_inv Q n s" "result_inv Q s" using pw_run_inv [OF assms(2,1)] by (simp_all add: pw_inv_def)
  have "length (procs s) = n" using inv(2) unfolding claim_inv_def by blast
  then have "length (filter is_exit (procs s)) \<le> n" using length_filter_le [of is_exit "procs s"] by simp
  then have cnt: "unat (next_job s) \<le> length (jobs Q) + n" using inv(2) by (simp add: claim_inv_def)
  have rows: "dsm_row Q s i' = map the (rows_in Q ! i')" if "V_rows k i acc \<in> set (procs s)" "i' < length (rows_in Q)" for k i acc i'
  proof -
    have "worker_ok Q s (V_rows k i acc)" using inv(3) that(1) unfolding result_inv_def by blast
    then show ?thesis using data_row(1) [OF inv(1) _ that(2)] by (simp add: true_row_def)
  qed
  have held: "k < length (jobs Q)" if "w < n" "held (procs s ! w) = Some k" for w k
  proof -
    have "procs s ! w \<in> set (procs s)" using that(1) \<open>length (procs s) = n\<close> by simp
    then show ?thesis using inv(2) that(2) unfolding claim_inv_def by blast
  qed
  show ?thesis using rows cnt held inv(2) unfolding claim_inv_def by blast
qed

text \<open>C39: \<^verbatim>\<open>apply_mt\<close> on threads and \<^verbatim>\<open>apply_mt_pw\<close> on worker processes return the same rows for the same data and lambdas: if the
  lambdas do not fail, the call on workers returns rows, and the call on threads has a positive thread count, arrays that can be allocated and a
  number of results that fits into an \<open>int\<close>.
\<close>

theorem apply_mt_pw_same_as_threads:
  assumes "pw_args be mode nworkers names rows sers" "rows \<noteq> []" "\<And>ser. ser \<in> set sers \<Longrightarrow> compile ser = Inr (\<lambda>r. Inr (f ser r))"
    and "pw_call divide8 nworkers (pw_setup be mode nworkers False flat add8 z8 starts compile names rows sers) (length sers) (Inr out)"
    and "0 < nthreads" "nthreads \<le> PG_INT32_MAX" "p = apply_mt_threads nthreads (int (length rows))"
    and mem: "apply_mt_memory junk (length names) (map (map the) rows) (length sers) = Inr chunk"
    and "run (tp_threads p) eval_lambda (apply_mt_jobs p (length names) f (length rows) chunk sers) (\<lambda>_. zero) t k s" "main_thread s = M_end"
    and "int (length rows * length sers) \<le> PG_INT32_MAX"
  shows "apply_mt_output (length names) (length rows) chunk (length sers) (mem s) = Inr out"
proof -
  let ?data = "map (map the) rows"
  have small: "int (length ?data) \<le> PG_INT32_MAX" using assms(1) by (simp add: pw_args_def)
  have "length sers \<le> length rows * length sers" using assms(2) by (cases rows) simp_all
  then have sers: "int (length sers) \<le> PG_INT32_MAX" using assms(11) by linarith
  have cols: "\<forall>r \<in> set ?data. length r = length names" using assms(1) by (auto simp: pw_args_def)
  note chunk = memory_spec [OF mem cols]
  have "out = apply_all (lambda_value compile) ?data sers" if "sers \<noteq> []"
    using assms(4)
  proof (cases rule: pw_call.cases)
    case (finished n t s)
    show ?thesis using done_output(4) [OF assms(1) refl finished(5,6) setup_ok [OF assms(1) finished(3) refl finished(4)] assms(2) that] finished(1)
      by (simp add: pw_result_def pw_setup_def Let_def)
  qed (use assms(2) that in \<open>auto simp: pw_setup_def Let_def\<close>)
  moreover have "apply_all (lambda_value compile) ?data sers = apply_all f ?data sers"
    unfolding apply_all_def using assms(3) by (intro arg_cong [where f = concat] map_cong refl) (simp add: lambda_value_def)
  moreover have "apply_mt_output (length names) (length rows) chunk (length sers) (mem s) = Inr (apply_all f ?data sers)"
  proof -
    have run: "run (tp_threads p) eval_lambda (apply_mt_jobs p (length names) f (length ?data) (concat ?data) sers) (\<lambda>_. zero) t k s"
      using assms(9) chunk(1) by simp
    have p: "p = apply_mt_threads nthreads (int (length ?data))" using assms(7) by simp
    have "mem s a = f (sers ! (a div length ?data)) (?data ! (a mod length ?data))" if "a < length sers * length ?data" for a
      by (rule apply_mt_cells [OF assms(5,6) small sers cols run assms(10) p that])
    moreover have "apply_mt_output (length names) (length ?data) (concat ?data) (length sers) (mem s) =
        Inr (map (\<lambda>k. ?data ! (k mod length ?data) @ [mem s k]) [0..<length sers * length ?data])"
      by (rule output_cells [OF _ cols chunk(2)]) (use assms(11) in simp)
    ultimately show ?thesis unfolding apply_all_cells using chunk(1) by simp
  qed
  moreover have "out = []" if "sers = []"
    using assms(4) that by (auto simp: pw_setup_def Let_def elim: pw_call.cases)
  ultimately show ?thesis by (cases "sers = []") (simp_all add: apply_all_def)
qed

section \<open>An example\<close>

text \<open>A scheduler that picks the step of the leader or of one worker.\<close>

datatype pw_choice = Go_leader | Go_proc nat

fun exec_leader :: "'d pw_query \<Rightarrow> 'd pw_state \<Rightarrow> 'd pw_state option" where
  "exec_leader Q s =
    (case leader s of
       L_copy i \<Rightarrow>
         if i < length (rows_in Q) then
           (case null_error Q (rows_in Q ! i) of
              None \<Rightarrow> Some (s\<lparr>dsm_data := fill_row (length (col_names Q)) i (rows_in Q ! i) (dsm_data s), leader := L_copy (Suc i)\<rparr>)
            | Some e \<Rightarrow> Some (s\<lparr>leader := L_error e\<rparr>))
         else Some (s\<lparr>data_ready := True, leader := L_bcast\<rparr>)
     | L_bcast \<Rightarrow> Some (s\<lparr>cv_waiters := [], leader := L_wait\<rparr>)
     | L_wait \<Rightarrow>
         (case find is_error (procs s) of
            Some (V_error e) \<Rightarrow> Some (s\<lparr>leader := L_error e\<rparr>)
          | _ \<Rightarrow> if list_all is_exit (procs s) then Some (s\<lparr>leader := L_done\<rparr>) else None)
     | _ \<Rightarrow> None)"

fun exec_proc :: "'d pw_query \<Rightarrow> nat \<Rightarrow> 'd pw_state \<Rightarrow> 'd pw_state option" where
  "exec_proc Q w s =
    (if w < length (procs s) then
      (case procs s ! w of
         V_start \<Rightarrow> Some (s\<lparr>procs := (procs s)[w := V_claim]\<rparr>)
       | V_claim \<Rightarrow> Some (s\<lparr>next_job := next_job s + 1,
           procs := (procs s)[w := (if length (jobs Q) \<le> unat (next_job s) then V_exit else V_job (unat (next_job s)))]\<rparr>)
       | V_job k \<Rightarrow> Some (s\<lparr>procs := (procs s)[w := compiled_job Q (data_ready s) k]\<rparr>)
       | V_prep k \<Rightarrow> Some (s\<lparr>cv_waiters := cv_waiters s @ [w], procs := (procs s)[w := V_check k]\<rparr>)
       | V_check k \<Rightarrow>
           if data_ready s then Some (s\<lparr>cv_waiters := removeAll w (cv_waiters s), procs := (procs s)[w := start_job Q k]\<rparr>)
           else Some (s\<lparr>procs := (procs s)[w := V_sleep k]\<rparr>)
       | V_sleep k \<Rightarrow>
           if w \<in> set (cv_waiters s) then None else Some (s\<lparr>cv_waiters := cv_waiters s @ [w], procs := (procs s)[w := V_check k]\<rparr>)
       | V_rows k i acc \<Rightarrow>
           if has_row Q k i then Some (eval_row Q w k i acc s)
           else Some (s\<lparr>partial := (if agg Q then (partial s)(k := acc) else partial s), procs := (procs s)[w := V_claim]\<rparr>)
       | _ \<Rightarrow> None)
     else None)"

fun pw_exec :: "'d pw_query \<Rightarrow> pw_choice \<Rightarrow> 'd pw_state \<Rightarrow> 'd pw_state option" where
  "pw_exec Q Go_leader s = exec_leader Q s"
| "pw_exec Q (Go_proc w) s = exec_proc Q w s"

lemma is_exit_iff: "is_exit p \<longleftrightarrow> p = V_exit"
  by (cases p) auto

lemma is_error_iff: "is_error p \<longleftrightarrow> (\<exists>e. p = V_error e)"
  by (cases p) auto

lemma exec_leader_step: "exec_leader Q s = Some s' \<Longrightarrow> pw_step Q s s'"
proof (cases "leader s")
  case (L_copy i)
  assume "exec_leader Q s = Some s'"
  then show ?thesis using L_copy by (auto simp: not_less split: if_splits option.splits intro: pw_step.copy pw_step.copy_null pw_step.ready)
next
  case L_bcast
  assume "exec_leader Q s = Some s'"
  then show ?thesis using L_bcast pw_step.broadcast [OF L_bcast] by auto
next
  case L_wait
  assume ex: "exec_leader Q s = Some s'"
  show ?thesis
  proof (cases "find is_error (procs s)")
    case None
    then have "list_all is_exit (procs s)" "s' = s\<lparr>leader := L_done\<rparr>" using ex L_wait by (auto split: if_splits)
    then show ?thesis using pw_step.finish [OF L_wait] by (simp add: list_all_iff is_exit_iff)
  next
    case (Some p)
    then have "is_error p" "p \<in> set (procs s)" by (auto simp: find_Some_iff)
    moreover then obtain e where "p = V_error e" by (auto simp: is_error_iff)
    ultimately show ?thesis using ex L_wait Some pw_step.rethrow [OF L_wait] by auto
  qed
qed simp_all

lemma exec_proc_step: "exec_proc Q w s = Some s' \<Longrightarrow> pw_step Q s s'"
proof -
  assume ex: "exec_proc Q w s = Some s'"
  then have w: "w < length (procs s)" by (simp split: if_splits)
  show ?thesis
  proof (cases "procs s ! w")
    case V_start
    then show ?thesis using ex w pw_step.attach [OF w V_start, of Q] by simp
  next
    case V_claim
    then show ?thesis using ex w pw_step.claim [OF w V_claim, of Q] by simp
  next
    case (V_job k)
    then show ?thesis using ex w pw_step.compile [OF w V_job, of Q] by simp
  next
    case (V_prep k)
    then show ?thesis using ex w pw_step.prepare [OF w V_prep, of Q] by simp
  next
    case (V_check k)
    then show ?thesis using ex w pw_step.check_ready [OF w V_check, of Q] pw_step.check_sleep [OF w V_check, of Q] by (cases "data_ready s") simp_all
  next
    case (V_sleep k)
    then show ?thesis using ex w pw_step.wake [OF w V_sleep, of Q] by (cases "w \<in> set (cv_waiters s)") simp_all
  next
    case (V_rows k i acc)
    then show ?thesis using ex w pw_step.row [OF w V_rows, of Q] pw_step.job_end [OF w V_rows, of Q] by (cases "has_row Q k i") simp_all
  qed (use ex w in simp_all)
qed

lemma pw_exec_step: "pw_exec Q ch s = Some s' \<Longrightarrow> pw_step Q s s'"
  by (cases ch) (simp_all add: exec_leader_step exec_proc_step del: exec_leader.simps exec_proc.simps)

text \<open>The choices in turn; those that are not possible are left out.\<close>

fun pw_robin :: "'d pw_query \<Rightarrow> pw_choice list \<Rightarrow> 'd pw_state \<Rightarrow> 'd pw_state" where
  "pw_robin Q [] s = s"
| "pw_robin Q (ch # chs) s = pw_robin Q chs (case pw_exec Q ch s of None \<Rightarrow> s | Some s' \<Rightarrow> s')"

lemma pw_robin_run: "pw_run Q n t s \<Longrightarrow> \<exists>t. pw_run Q n t (pw_robin Q chs s)"
proof (induction chs arbitrary: s t)
  case (Cons ch chs)
  then show ?case by (cases "pw_exec Q ch s") (auto dest: pw_exec_step pw_run.step)
qed auto

definition ex_pw_compile :: "bytes \<Rightarrow> (int list \<Rightarrow> int result) result" where
  "ex_pw_compile ser = Inr (\<lambda>r. Inr (int (length ser) * sum_list r))"

definition ex_pw :: "bool \<Rightarrow> (bytes \<Rightarrow> (int list \<Rightarrow> int result) result) \<Rightarrow> int option list list \<Rightarrow> int pw_query" where
  "ex_pw agg' compile rows = pw_setup False APPLY_PW_CHECKED 4 agg' (\<not> agg') (+) 0 (\<lambda>_. False) compile [''a'', ''b''] rows ex_sers"

definition ex_pw_rows :: "int option list list" where
  "ex_pw_rows = [[Some 1, Some 2], [Some 3, Some 4], [Some 5, Some 6]]"

definition ex_pw_final :: "nat \<Rightarrow> int pw_query \<Rightarrow> int pw_state" where
  "ex_pw_final n Q = pw_robin Q (concat (replicate 40 (Go_leader # map Go_proc [0..<n]))) (pw_init Q n (\<lambda>_. 0) (\<lambda>_. []))"

lemma ex_pw_run: "\<exists>t. pw_run Q n t (ex_pw_final n Q)"
  unfolding ex_pw_final_def by (rule pw_robin_run [OF pw_run.start])

lemma ex_pw_args: "pw_args False APPLY_PW_CHECKED 4 [''a'', ''b''] ex_pw_rows ex_sers"
proof -
  have "(\<forall>r \<in> set ex_pw_rows. length r = length [''a'', ''b''])" "\<forall>ser \<in> set ex_sers. varlena False ser" by code_simp+
  moreover have "chunks_per_lambda APPLY_PW_CHECKED (pw_workers 4) (int (length ex_sers)) (int (length ex_pw_rows)) = 2" by code_simp
  moreover have "length ex_sers = 3" "length ex_pw_rows = 3" "sum_list (map length ex_sers) = 17" by (simp_all add: ex_sers_def ex_pw_rows_def)
  ultimately show ?thesis by (simp add: pw_args_def PG_INT32_MAX_def)
qed

definition finished_call :: "int pw_query \<Rightarrow> nat \<Rightarrow> bool" where
  "finished_call Q n \<longleftrightarrow> (case leader (ex_pw_final n Q) of L_done \<Rightarrow> True | _ \<Rightarrow> False) \<and>
     int n \<le> pw_launch (pw_workers 4) (int (length (jobs Q)))"

lemma ex_finished:
  "finished_call (ex_pw False ex_pw_compile ex_pw_rows) 2" "finished_call (ex_pw True ex_pw_compile ex_pw_rows) 2"
  "finished_call (ex_pw True ex_pw_compile ex_pw_rows) 3"
  by code_simp+

lemma finished_call_result:
  assumes "finished_call Q n" "0 < n" "0 < length (rows_in Q) * L"
  shows "pw_call divide8 4 Q L (Inr (pw_result divide8 Q L (ex_pw_final n Q)))"
proof -
  obtain t where "pw_run Q n t (ex_pw_final n Q)" using ex_pw_run by blast
  then show ?thesis using assms by (intro pw_call.finished) (auto simp: finished_call_def split: leader_pc.splits)
qed

lemma ex_pw_in [simp]: "rows_in (ex_pw a c rows) = rows" "agg (ex_pw a c rows) = a"
  by (simp_all add: ex_pw_def pw_setup_def Let_def)

theorem apply_mt_pw_results_witness:
  "pw_output (ex_pw False ex_pw_compile ex_pw_rows) 3 (ex_pw_final 2 (ex_pw False ex_pw_compile ex_pw_rows)) =
     [[1, 2, 18], [3, 4, 42], [5, 6, 66], [1, 2, 12], [3, 4, 28], [5, 6, 44], [1, 2, 21], [3, 4, 49], [5, 6, 77]]"
proof -
  let ?Q = "ex_pw False ex_pw_compile ex_pw_rows"
  have len: "length ex_sers = 3" "ex_pw_rows \<noteq> []" by (simp_all add: ex_sers_def ex_pw_rows_def)
  have "pw_call (\<lambda>a n. a div int n) 4 ?Q (length ex_sers) (Inr (pw_output ?Q 3 (ex_pw_final 2 ?Q)))"
    using finished_call_result [OF ex_finished(1), of 3 "\<lambda>a n. a div int n"] len by (simp add: pw_result_def)
  from apply_mt_pw_results [OF ex_pw_args this [unfolded ex_pw_def] len(2)]
  have "apply_rows ex_pw_compile (map (map the) ex_pw_rows) ex_sers = Inr (pw_output ?Q 3 (ex_pw_final 2 ?Q))" by (simp add: ex_pw_def)
  then show ?thesis by (simp add: apply_rows_def ex_pw_compile_def ex_pw_rows_def ex_sers_def)
qed

theorem apply_mt_pw_deterministic_witness:
  "pw_average (\<lambda>a n. a div int n) (ex_pw True ex_pw_compile ex_pw_rows) 3 (ex_pw_final 2 (ex_pw True ex_pw_compile ex_pw_rows)) =
   pw_average (\<lambda>a n. a div int n) (ex_pw True ex_pw_compile ex_pw_rows) 3 (ex_pw_final 3 (ex_pw True ex_pw_compile ex_pw_rows))"
proof -
  let ?Q = "ex_pw True ex_pw_compile ex_pw_rows" and ?d = "\<lambda>a n. a div int n"
  have len: "length ex_sers = 3" "ex_pw_rows \<noteq> []" by (simp_all add: ex_sers_def ex_pw_rows_def)
  have "pw_call ?d 4 ?Q (length ex_sers) (Inr [[pw_average ?d ?Q 3 (ex_pw_final 2 ?Q)]])"
    "pw_call ?d 4 ?Q (length ex_sers) (Inr [[pw_average ?d ?Q 3 (ex_pw_final 3 ?Q)]])"
    using finished_call_result [OF ex_finished(2), of 3 ?d] finished_call_result [OF ex_finished(3), of 3 ?d] len by (simp_all add: pw_result_def)
  from apply_mt_pw_deterministic [OF ex_pw_args ex_pw_def [of True] this] show ?thesis by simp
qed

theorem apply_mt_agg_pw_average_witness:
  "\<exists>parts. concat parts = [18, 42, 66, 12, 28, 44, 21, 49, 77] \<and> length parts = 6 \<and>
    pw_average (\<lambda>a n. a div int n) (ex_pw True ex_pw_compile ex_pw_rows) 3 (ex_pw_final 2 (ex_pw True ex_pw_compile ex_pw_rows)) =
      foldl (+) 0 (map (foldl (+) 0) parts) div 9"
proof -
  let ?Q = "ex_pw True ex_pw_compile ex_pw_rows" and ?d = "\<lambda>a n. a div int n"
  have len: "length ex_sers = 3" "length ex_pw_rows = 3" "ex_pw_rows \<noteq> []" "length (jobs ?Q) = 6"
    by (simp_all add: ex_sers_def ex_pw_rows_def) code_simp
  have "pw_call ?d 4 ?Q (length ex_sers) (Inr [[pw_average ?d ?Q 3 (ex_pw_final 2 ?Q)]])"
    using finished_call_result [OF ex_finished(2), of 3 ?d] len by (simp add: pw_result_def)
  from apply_mt_agg_pw_average [OF ex_pw_args ex_pw_def [of True] this len(3)]
  obtain outs parts where "apply_rows ex_pw_compile (map (map the) ex_pw_rows) ex_sers = Inr outs" "concat parts = map last outs" "length parts = 6"
    "pw_average ?d ?Q 3 (ex_pw_final 2 ?Q) = foldl (+) 0 (map (foldl (+) 0) parts) div 9"
    using len by auto
  moreover have "rmap (map last) (apply_rows ex_pw_compile (map (map the) ex_pw_rows) ex_sers) = Inr [18, 42, 66, 12, 28, 44, 21, 49, 77]" by code_simp
  ultimately show ?thesis by auto
qed







lemma ex_query_ok: "query_ok (ex_pw False ex_pw_compile ex_pw_rows) 2"
proof (rule setup_ok [OF ex_pw_args _ ex_pw_def])
  show "int 2 \<le> pw_launch (pw_workers 4) (int (length (jobs (ex_pw False ex_pw_compile ex_pw_rows))))" by code_simp
qed simp

lemma ex_jobs: "length (jobs (ex_pw False ex_pw_compile ex_pw_rows)) = 6"
  by code_simp

theorem apply_mt_pw_live_witness:
  "\<exists>t. pw_run (ex_pw False ex_pw_compile ex_pw_rows) 2 t (ex_pw_final 2 (ex_pw False ex_pw_compile ex_pw_rows)) \<and> t \<le> 76"
proof -
  obtain t where run: "pw_run (ex_pw False ex_pw_compile ex_pw_rows) 2 t (ex_pw_final 2 (ex_pw False ex_pw_compile ex_pw_rows))"
    using ex_pw_run by blast
  then show ?thesis using apply_mt_pw_live [OF ex_query_ok run] ex_jobs by (auto simp: ex_pw_rows_def)
qed

lemma ex_exits: "list_ex is_exit (procs (ex_pw_final 2 (ex_pw False ex_pw_compile ex_pw_rows)))"
  by code_simp

theorem apply_mt_pw_safe_witness:
  "let s = ex_pw_final 2 (ex_pw False ex_pw_compile ex_pw_rows) in 6 \<le> unat (next_job s) \<and> unat (next_job s) \<le> 8"
proof -
  let ?s = "ex_pw_final 2 (ex_pw False ex_pw_compile ex_pw_rows)"
  obtain t where run: "pw_run (ex_pw False ex_pw_compile ex_pw_rows) 2 t ?s" using ex_pw_run by blast
  have "V_exit \<in> set (procs ?s)" using ex_exits by (auto simp: list_ex_iff is_exit_iff)
  then show ?thesis using apply_mt_pw_safe [OF ex_query_ok run] ex_jobs by (simp add: Let_def)
qed

definition ex_mt_value :: "bytes \<Rightarrow> int list \<Rightarrow> int" where
  "ex_mt_value ser r = int (length ser) * sum_list r"

definition ex_chunk :: "int list" where "ex_chunk = concat (map (map the) ex_pw_rows)"

definition ex_threads :: "(int WorkItem, int) pool" where
  "ex_threads = round_robin (tp_threads 2) eval_lambda (apply_mt_jobs 2 2 ex_mt_value 3 ex_chunk ex_sers)
     (concat (replicate 60 ex_turn)) (tp_create (\<lambda>_. 0))"

lemma ex_threads_end: "main_thread ex_threads = M_end"
proof -
  have "case main_thread ex_threads of M_end \<Rightarrow> True | _ \<Rightarrow> False" by code_simp
  then show ?thesis by (auto split: main_pc.splits)
qed

lemma ex_pw_memory: "apply_mt_memory (\<lambda>_. 0) 2 (map (map the) ex_pw_rows) (length ex_sers) = Inr ex_chunk"
  by code_simp

theorem apply_mt_pw_same_as_threads_witness:
  "apply_mt_output 2 3 ex_chunk 3 (mem ex_threads) =
   Inr (pw_output (ex_pw False ex_pw_compile ex_pw_rows) 3 (ex_pw_final 2 (ex_pw False ex_pw_compile ex_pw_rows)))"
proof -
  let ?Q = "ex_pw False ex_pw_compile ex_pw_rows" and ?js = "apply_mt_jobs 2 2 ex_mt_value 3 ex_chunk ex_sers"
  have len: "length ex_sers = 3" "length ex_pw_rows = 3" "ex_pw_rows \<noteq> []" by (simp_all add: ex_sers_def ex_pw_rows_def)
  have call: "pw_call (\<lambda>a n. a div int n) 4 ?Q (length ex_sers) (Inr (pw_output ?Q 3 (ex_pw_final 2 ?Q)))"
    using finished_call_result [OF ex_finished(1), of 3 "\<lambda>a n. a div int n"] len by (simp add: pw_result_def)
  obtain t k where run: "run (tp_threads 2) eval_lambda ?js (\<lambda>_. 0) t k ex_threads"
    using round_robin_run [OF run.start, of "tp_threads 2" eval_lambda ?js "\<lambda>_. 0" "concat (replicate 60 ex_turn)"] by (auto simp: ex_threads_def)
  have two: "length [''a'', ''b''] = 2" by simp
  have "apply_mt_output 2 (length ex_pw_rows) ex_chunk (length ex_sers) (mem ex_threads) = Inr (pw_output ?Q 3 (ex_pw_final 2 ?Q))"
    by (rule apply_mt_pw_same_as_threads [OF ex_pw_args len(3) _ call [unfolded ex_pw_def], of ex_mt_value 2 2,
          unfolded two, OF _ _ _ _ ex_pw_memory _ ex_threads_end, folded ex_pw_def])
       (use run in \<open>simp_all add: ex_pw_compile_def ex_mt_value_def PG_INT32_MAX_def apply_mt_threads_def len\<close>)
  then show ?thesis using len by simp
qed

end
