(* ===== verification/Lambda_Serial.thy ===== *)
theory Lambda_Serial
  imports Lambda_Text Pw_Results
begin

text \<open>
  Stored lambdas: \<open>lambdaExprToSerialLambda\<close> and \<open>lambda_deserialize\<close> of \<^verbatim>\<open>src/backend/utils/adt/lambda_serialize.c\<close>, on the bytes of the
  varlena. The text of the lambda is copied without a terminating NUL; whether one follows depends on the padding. The round
  trip shows that the reader does not need it. With the pack of \<open>Apply_Pw\<close> it gives the way of a lambda from the leader to a worker.
\<close>

section \<open>The varlena\<close>

definition SERIAL_LAMBDA_MAGIC :: "32 word" where "SERIAL_LAMBDA_MAGIC = 0x1a1a1a1a"

definition ALIGN_TO_4 :: "64 word \<Rightarrow> 64 word" where "ALIGN_TO_4 len = (len + 3) AND NOT 3"

definition store32 :: "bool \<Rightarrow> 32 word \<Rightarrow> bytes" where
  "store32 bigendian w = (if bigendian then rev else id) (map (\<lambda>k. ucast (drop_bit (8 * k) w)) [0..<4])"

definition char_byte :: "char \<Rightarrow> 8 word" where "char_byte c = of_nat (of_char c)"
definition byte_char :: "8 word \<Rightarrow> char" where "byte_char b = char_of (unat b)"

definition SET_VARSIZE :: "bool \<Rightarrow> int \<Rightarrow> 32 word" where
  "SET_VARSIZE bigendian len = (if bigendian then word_of_int len AND 0x3FFFFFFF else push_bit 2 (word_of_int len))"

text \<open>\<open>argnames\<close> is null for a lambda without arguments.\<close>

fun list_length :: "pgnode \<Rightarrow> nat" where
  "list_length (List l) = length l"
| "list_length _ = 0"

text \<open>
  The header is \<open>vl_len_\<close>, \<open>nargs\<close> and \<open>magic\<close>, 12 bytes. \<open>palloc0\<close> refuses more than 1 GiB (the buffer of a text of that size is refused
  before). The argument must be a \<open>LambdaExpr\<close>.
\<close>

fun lambdaExprToSerialLambda :: "bool \<Rightarrow> pgnode \<Rightarrow> bytes result" where
  "lambdaExprToSerialLambda bigendian (LambdaExprN kind argnames argtypes expr rettype rettypmod lambdatypmod is_strict l3_safe) =
    (let s = nodeToString (LambdaExprN kind argnames argtypes expr rettype rettypmod lambdatypmod is_strict l3_safe);
         size = to_int32 (uint (ALIGN_TO_4 (12 + of_nat (length s)))) in
     if size < 0 \<or> size > MaxAllocSize then Inl (elog_error ''invalid memory alloc request size'')
     else Inr (store32 bigendian (SET_VARSIZE bigendian size) @ store32 bigendian (of_nat (list_length argnames)) @
       store32 bigendian SERIAL_LAMBDA_MAGIC @ map char_byte s @ replicate (nat size - 12 - length s) 0))"
| "lambdaExprToSerialLambda bigendian _ = Inl Crash"

definition lambda_deserialize :: "bool \<Rightarrow> schema \<Rightarrow> bytes \<Rightarrow> pgnode result" where
  "lambda_deserialize bigendian schema sl =
    (if length sl < 12 then Inl Crash
     else if load32 bigendian sl 2 \<noteq> SERIAL_LAMBDA_MAGIC then
       Inl (elog_error ''Memory is not aligned properly! Was this lambda created in an older version of Postgres or on a different system?'')
     else stringToNode schema (map byte_char (drop 12 sl)))"

section \<open>Words in memory\<close>

lemma base256: "u = u mod 256 + 256 * (u div 256 mod 256) + 65536 * (u div 65536 mod 256) + 16777216 * (u div 16777216 mod 256)"
  if "0 \<le> u" "u < 4294967296" for u :: int
proof -
  have d: "u div 65536 = u div 256 div 256" "u div 16777216 = u div 256 div 256 div 256" by (simp_all add: div_mult2_eq [symmetric])
  have "u div 16777216 mod 256 = u div 16777216" using that by simp
  then show ?thesis using mult_div_mod_eq [of 256 u] mult_div_mod_eq [of 256 "u div 256"] mult_div_mod_eq [of 256 "u div 256 div 256"] unfolding d by linarith
qed

lemma byte_part: "ucast (ucast (drop_bit k w) :: 8 word) = (word_of_int (uint w div 2 ^ k mod 256) :: 32 word)" for w :: "32 word"
proof -
  have "uint (ucast (ucast (drop_bit k w) :: 8 word) :: 32 word) = take_bit 32 (take_bit 8 (drop_bit k (take_bit 32 (uint w))))"
    by (simp add: unsigned_ucast_eq unsigned_take_bit_eq unsigned_drop_bit_eq)
  also have "\<dots> = uint w div 2 ^ k mod 256" using uint_lt2p [of w] by (simp add: take_bit_eq_mod drop_bit_eq_div)
  finally show ?thesis by (metis word_of_int_uint)
qed

lemma bytes_sum: "ucast (ucast (drop_bit 0 w) :: 8 word) + push_bit 8 (ucast (ucast (drop_bit 8 w) :: 8 word)) +
    push_bit 16 (ucast (ucast (drop_bit 16 w) :: 8 word)) + push_bit 24 (ucast (ucast (drop_bit 24 w) :: 8 word)) = w" for w :: "32 word"
proof -
  have less: "uint w < 4294967296" using uint_lt2p [of w] by simp
  have "word_of_int (uint w) = (word_of_int (uint w mod 256 + 256 * (uint w div 256 mod 256) + 65536 * (uint w div 65536 mod 256) + 16777216 * (uint w div 16777216 mod 256)) :: 32 word)"
    by (rule arg_cong [OF base256 [OF unsigned_greater_eq less]])
  then show ?thesis unfolding byte_part push_bit_eq_mult word_of_int_uint by (simp add: mult.commute)
qed

lemma load_store: "load32 be (store32 be w @ s) 0 = w"
  using bytes_sum [of w] by (subst load32_word_of) (simp_all add: store32_def word_of_def shifted_def byte_def upt_rec [of _ 4] add_ac)

lemma length_store [simp]: "length (store32 be w) = 4"
  by (simp add: store32_def)

lemma load_next: "length xs = 4 \<Longrightarrow> load32 be (xs @ s) (Suc j) = load32 be s j"
  by (simp add: load32_def)

text \<open>All bytes of the magic number are equal, so a machine of the other byte order finds it, too.\<close>

lemma load_magic: "load32 be' (store32 be SERIAL_LAMBDA_MAGIC @ s) 0 = SERIAL_LAMBDA_MAGIC"
proof -
  have "map (\<lambda>k. ucast (drop_bit (8 * k) SERIAL_LAMBDA_MAGIC)) [0..<4] = replicate 4 (0x1a :: 8 word)" by code_simp
  then have "store32 be SERIAL_LAMBDA_MAGIC = store32 be' SERIAL_LAMBDA_MAGIC" by (simp add: store32_def)
  then show ?thesis by (simp add: load_store)
qed

lemma and_not_mask: "w AND NOT (mask k) = push_bit k (drop_bit k w)" for w :: "'a :: len word"
  by (rule bit_word_eqI) (auto simp: bit_simps)

lemma align_4:
  assumes "n + 3 < 2 ^ 64"
  shows "unat (ALIGN_TO_4 (of_nat n)) = (n + 3) div 4 * 4"
proof -
  let ?x = "of_nat (n + 3) :: 64 word"
  have x: "unat ?x = n + 3" using assms by (simp only: unat_of_nat) simp
  have "unat (drop_bit 2 ?x) = (n + 3) div 4" unfolding unat_drop_bit_eq x by (simp add: drop_bit_eq_div)
  then have "drop_bit 2 ?x = of_nat ((n + 3) div 4)" by (metis of_nat_unat ucast_id)
  moreover note and_not_mask [of ?x 2]
  ultimately have "ALIGN_TO_4 (of_nat n) = of_nat ((n + 3) div 4 * 4)" by (simp add: ALIGN_TO_4_def push_bit_eq_mult mask_eq_exp_minus_1)
  moreover have "(n + 3) div 4 * 4 < 2 ^ 64" using assms div_times_less_eq_dividend [of "n + 3" 4] by linarith
  ultimately show ?thesis by (simp only: unat_of_nat) simp
qed

lemma VARSIZE_SET:
  assumes "n < 2 ^ 30"
  shows "VARSIZE be (store32 be (SET_VARSIZE be (int n)) @ s) = n"
proof -
  have n: "unat (of_nat n :: 32 word) = n" using assms by (simp add: unat_of_nat)
  have mask: "w AND 0x3FFFFFFF = take_bit 30 w" for w :: "32 word" by (simp add: take_bit_eq_mask mask_eq_exp_minus_1)
  have "take_bit 30 (of_nat n :: 32 word) = of_nat n" using n assms by (simp add: word_unat_eq_iff unsigned_take_bit_eq take_bit_nat_eq_self_iff)
  moreover have "drop_bit 2 (push_bit 2 (of_nat n)) = (of_nat n :: 32 word)"
  proof -
    have "push_bit 2 (of_nat n) = (of_nat (n * 4) :: 32 word)" by (simp add: push_bit_eq_mult)
    moreover have "unat (of_nat (n * 4) :: 32 word) = n * 4" using assms by (simp only: unat_of_nat) simp
    ultimately have "unat (drop_bit 2 (push_bit 2 (of_nat n)) :: 32 word) = n" unfolding unat_drop_bit_eq by (simp add: drop_bit_eq_div)
    then show ?thesis by (metis of_nat_unat ucast_id)
  qed
  ultimately show ?thesis using n by (cases be) (simp_all add: VARSIZE_def SET_VARSIZE_def load_store mask)
qed

lemma byte_char_byte [simp]: "byte_char (char_byte c) = c"
  by (simp add: byte_char_def char_byte_def unat_of_nat)

section \<open>Round trips\<close>

text \<open>The lambdas that are stored: they have a text form, and it fits into a varlena.\<close>

definition storable :: "schema \<Rightarrow> pgnode \<Rightarrow> bool" where
  "storable schema n \<longleftrightarrow> wf_node schema n \<and> (case n of LambdaExprN _ _ _ _ _ _ _ _ _ \<Rightarrow> True | _ \<Rightarrow> False) \<and> length (nodeToString n) + 15 < 2 ^ 30"

lemma serialize_storable:
  assumes "storable schema n"
  shows "\<exists>sl. lambdaExprToSerialLambda be n = Inr sl \<and> varlena be sl \<and> length sl = (length (nodeToString n) + 15) div 4 * 4 \<and>
    lambda_deserialize be' schema sl = Inr (no_locations n)"
proof -
  obtain kind argnames argtypes expr rettype rettypmod lambdatypmod is_strict l3_safe where
    n: "n = LambdaExprN kind argnames argtypes expr rettype rettypmod lambdatypmod is_strict l3_safe"
    using assms by (auto simp: storable_def split: pgnode.splits)
  let ?s = "nodeToString n" let ?size = "(length ?s + 15) div 4 * 4"
  have len: "length ?s + 15 < 1073741824" using assms by (simp add: storable_def)
  then have size: "?size < 1073741824" "12 + length ?s \<le> ?size" by simp_all
  let ?sl = "store32 be (SET_VARSIZE be (int ?size)) @ store32 be (of_nat (list_length argnames)) @ store32 be SERIAL_LAMBDA_MAGIC @
    map char_byte ?s @ replicate (?size - 12 - length ?s) 0"
  have "unat (ALIGN_TO_4 (12 + of_nat (length ?s))) = ?size" using align_4 [of "12 + length ?s"] len by (simp add: add.commute)
  then have "uint (ALIGN_TO_4 (12 + of_nat (length ?s))) = int ?size" by (metis of_nat_unat)
  moreover have "int32 (int ?size)" using size(1) by (simp add: int32_def del: of_nat_mult of_nat_div)
  ultimately have "to_int32 (uint (ALIGN_TO_4 (12 + of_nat (length ?s)))) = int ?size" by (simp only: to_int32)
  then have "lambdaExprToSerialLambda be n = Inr ?sl" using size(1) by (simp add: n Let_def MaxAllocSize_def)
  moreover have "length ?sl = ?size" using size(2) by simp
  moreover from this have "varlena be ?sl" unfolding varlena_def using VARSIZE_SET [of ?size be] size by simp
  moreover have "lambda_deserialize be' schema ?sl = Inr (no_locations n)"
  proof -
    have "load32 be' ?sl 2 = SERIAL_LAMBDA_MAGIC" by (simp add: numeral_2_eq_2 load_next load_magic)
    moreover have "stringToNode schema (?s @ map byte_char (replicate (?size - 12 - length ?s) 0)) = Inr (no_locations n)"
      using assms n by (intro node_text) (simp_all add: storable_def)
    ultimately show ?thesis by (simp add: lambda_deserialize_def comp_def)
  qed
  ultimately show ?thesis by blast
qed

text \<open>C18: lambdas reach the workers. Serializing storable lambdas succeeds, and when the leader packs the results into shared memory, below 4 GiB in total,
  every worker reads back each lambda, apart from parse locations, and looks at no byte behind its varlena.\<close>

theorem shared_lambda_roundtrip:
  assumes "list_all (storable schema) les" "sum_list (map (\<lambda>le. length (nodeToString le) + 15) les) < 2 ^ 32"
  shows "\<exists>sers. rmapM (lambdaExprToSerialLambda be) les = Inr sers \<and>
    (\<forall>l < length les. lambda_deserialize be schema (unpack_lambda be (pack_lambdas sers) l) = Inr (no_locations (les ! l)))"
proof -
  define ser where "ser le = (case lambdaExprToSerialLambda be le of Inr sl \<Rightarrow> sl | Inl _ \<Rightarrow> [])" for le
  have ser: "lambdaExprToSerialLambda be le = Inr (ser le)" "varlena be (ser le)" "length (ser le) \<le> length (nodeToString le) + 15"
    "lambda_deserialize be schema (ser le) = Inr (no_locations le)" if "le \<in> set les" for le
    using serialize_storable [of schema le be be] assms(1) that by (auto simp: ser_def list_all_iff)
  have "sum_list (map length (map ser les)) \<le> sum_list (map (\<lambda>le. length (nodeToString le) + 15) les)"
    unfolding map_map comp_def by (rule sum_list_mono) (use ser(3) in blast)
  then have total: "sum_list (map length (map ser les)) < 4294967296" using assms(2) by simp
  have "unpack_lambda be (pack_lambdas (map ser les)) l = ser (les ! l)" if "l < length les" for l
    using lambda_unpack [of "map ser les" be l] ser(2) total that by (simp add: nth_mem)
  then show ?thesis using rmapM_total [of les "lambdaExprToSerialLambda be" ser] ser(1,4) by (auto simp: nth_mem)
qed

theorem shared_lambda_roundtrip_witness:
  "\<exists>sers. rmapM (lambdaExprToSerialLambda False) [ex_stored_lambda, ex_stored_lambda] = Inr sers \<and>
    lambda_deserialize False ex_schema (unpack_lambda False (pack_lambdas sers) 1) = Inr (no_locations ex_stored_lambda)"
proof -
  have "length (nodeToString ex_stored_lambda) \<le> 1000" by code_simp
  then have "list_all (storable ex_schema) [ex_stored_lambda, ex_stored_lambda]"
    "sum_list (map (\<lambda>le. length (nodeToString le) + 15) [ex_stored_lambda, ex_stored_lambda]) < 2 ^ 32"
    using ex_stored_wf by (simp_all add: storable_def) (simp_all add: ex_stored_lambda_def)
  then show ?thesis using shared_lambda_roundtrip [of ex_schema "[ex_stored_lambda, ex_stored_lambda]" False] by fastforce
qed

end
