(* ===== verification/Float8_Funcs.thy ===== *)
theory Float8_Funcs
  imports Prelude Complex_Main
begin

text \<open>
  The \<open>float8\<close> functions of \<^verbatim>\<open>src/backend/utils/adt/float.c\<close> that lambda bodies may use and that can be derived, with the
  domain errors they report. A \<open>float8\<close> is a real number: rounding, infinities and NaN, and the errors
  for overflow and underflow, are left out. The last section gives the derivative of each function.
\<close>

section \<open>Arithmetic\<close>

definition float8mul :: "real \<Rightarrow> real \<Rightarrow> real result" where
  "float8mul x y = Inr (x * y)"

definition float8div :: "real \<Rightarrow> real \<Rightarrow> real result" where
  "float8div x y = (if y = 0 then Inl (Ereport ERRCODE_DIVISION_BY_ZERO ''division by zero'') else Inr (x / y))"

definition float8pl :: "real \<Rightarrow> real \<Rightarrow> real result" where
  "float8pl x y = Inr (x + y)"

definition float8mi :: "real \<Rightarrow> real \<Rightarrow> real result" where
  "float8mi x y = Inr (x - y)"

definition float8um :: "real \<Rightarrow> real result" where
  "float8um x = Inr (- x)"

definition float8abs :: "real \<Rightarrow> real result" where
  "float8abs x = Inr \<bar>x\<bar>"

text \<open>
  \<^verbatim>\<open>pow\<close> of the C library; the arguments for which it has no real value give 0, and \<open>dpow\<close> rejects them
  beforehand.
\<close>

definition c_pow :: "real \<Rightarrow> real \<Rightarrow> real" where
  "c_pow x y =
    (if y = 0 then 1
     else if 0 < x then x powr y
     else if x < 0 \<and> of_int \<lfloor>y\<rfloor> = y then (if even \<lfloor>y\<rfloor> then (- x) powr y else - ((- x) powr y))
     else 0)"

definition dpow :: "real \<Rightarrow> real \<Rightarrow> real result" where
  "dpow x y =
    (if x = 0 \<and> y < 0 then
       Inl (Ereport ERRCODE_INVALID_ARGUMENT_FOR_POWER_FUNCTION ''zero raised to a negative power is undefined'')
     else if x < 0 \<and> of_int \<lfloor>y\<rfloor> \<noteq> y then
       Inl (Ereport ERRCODE_INVALID_ARGUMENT_FOR_POWER_FUNCTION
         ''a negative number raised to a non-integer power yields a complex result'')
     else Inr (c_pow x y))"

definition dsqrt :: "real \<Rightarrow> real result" where
  "dsqrt x =
    (if x < 0 then Inl (Ereport ERRCODE_INVALID_ARGUMENT_FOR_POWER_FUNCTION ''cannot take square root of a negative number'')
     else Inr (sqrt x))"

definition dexp :: "real \<Rightarrow> real result" where
  "dexp x = Inr (exp x)"

definition log_check :: "real \<Rightarrow> real \<Rightarrow> real result" where
  "log_check x r =
    (if x = 0 then Inl (Ereport ERRCODE_INVALID_ARGUMENT_FOR_LOG ''cannot take logarithm of zero'')
     else if x < 0 then Inl (Ereport ERRCODE_INVALID_ARGUMENT_FOR_LOG ''cannot take logarithm of a negative number'')
     else Inr r)"

definition dlog1 :: "real \<Rightarrow> real result" where
  "dlog1 x = log_check x (ln x)"

definition dlog10 :: "real \<Rightarrow> real result" where
  "dlog10 x = log_check x (log 10 x)"

definition range_check :: "real \<Rightarrow> real \<Rightarrow> real result" where
  "range_check x r =
    (if x < -1 \<or> x > 1 then Inl (Ereport ERRCODE_NUMERIC_VALUE_OUT_OF_RANGE ''input is out of range'') else Inr r)"

definition dacos :: "real \<Rightarrow> real result" where
  "dacos x = range_check x (arccos x)"

definition dasin :: "real \<Rightarrow> real result" where
  "dasin x = range_check x (arcsin x)"

definition datan :: "real \<Rightarrow> real result" where
  "datan x = Inr (arctan x)"

text \<open>\<open>atan2\<close> of the C library: the angle of the point \<open>(x, y)\<close>.\<close>

definition c_atan2 :: "real \<Rightarrow> real \<Rightarrow> real" where
  "c_atan2 y x =
    (if 0 < x then arctan (y / x)
     else if x < 0 then (if 0 \<le> y then arctan (y / x) + pi else arctan (y / x) - pi)
     else if 0 < y then pi / 2 else if y < 0 then - (pi / 2) else 0)"

definition datan2 :: "real \<Rightarrow> real \<Rightarrow> real result" where
  "datan2 x y = Inr (c_atan2 x y)"

definition dcos :: "real \<Rightarrow> real result" where
  "dcos x = Inr (cos x)"

definition dsin :: "real \<Rightarrow> real result" where
  "dsin x = Inr (sin x)"

definition dtan :: "real \<Rightarrow> real result" where
  "dtan x = Inr (tan x)"

definition dcot :: "real \<Rightarrow> real result" where
  "dcot x = Inr (1 / tan x)"

section \<open>Activations\<close>

definition sigmoid :: "real \<Rightarrow> real" where
  "sigmoid x = 1 / (1 + exp (-1 * x))"

definition silu :: "real \<Rightarrow> real" where
  "silu x = x / (1 + exp (-1 * x))"

definition relu :: "real \<Rightarrow> real" where
  "relu x = (if x \<le> 0 then 0 else x)"

section \<open>Derivatives\<close>

lemma c_pow_pos: "0 < x \<Longrightarrow> c_pow x y = x powr y"
  by (simp add: c_pow_def)

lemma c_pow_int: "x \<noteq> 0 \<or> 0 \<le> m \<Longrightarrow> c_pow x (of_int m) = x powi m"
proof -
  assume x: "x \<noteq> 0 \<or> 0 \<le> m"
  consider "m = 0" | "m \<noteq> 0" "0 < x" | "m \<noteq> 0" "x = 0" | "m \<noteq> 0" "x < 0" by linarith
  then show ?thesis
  proof cases
    case 4
    then have "(- x) powr of_int m = (- x) powi m" by (simp add: powr_real_of_int')
    moreover have "(- x) powi m = (if even m then x powi m else - (x powi m))" by (simp add: power_int_minus_left)
    ultimately show ?thesis using 4 by (simp add: c_pow_def)
  qed (use x in \<open>auto simp: c_pow_def powr_real_of_int' power_int_0_left_if\<close>)
qed

lemma DERIV_c_pow_int:
  assumes "x \<noteq> 0 \<or> 1 \<le> m" shows "((\<lambda>x. c_pow x (of_int m)) has_real_derivative of_int m * c_pow x (of_int m - 1)) (at x)"
proof -
  have ev: "eventually (\<lambda>x. c_pow x (of_int m) = x powi m) (nhds x)"
  proof (cases "1 \<le> m")
    case False
    then have "eventually (\<lambda>x. x \<noteq> (0 :: real)) (nhds x)" using assms by (intro t1_space_nhds) simp
    then show ?thesis by eventually_elim (simp add: c_pow_int)
  qed (simp add: c_pow_int)
  have "((\<lambda>x. x powi m) has_real_derivative of_int m * x powi (m - 1)) (at x)"
    using assms by (auto intro!: derivative_eq_intros)
  moreover have "c_pow x (of_int m - 1) = x powi (m - 1)" using c_pow_int [of x "m - 1"] assms by auto
  ultimately show ?thesis using DERIV_cong_ev [OF refl ev] by simp
qed

lemma atan2_upper: "0 < y \<Longrightarrow> c_atan2 y x = pi / 2 - arctan (x / y)"
  using arctan_inverse [of "x / y"] by (cases x "0 :: real" rule: linorder_cases) (simp_all add: c_atan2_def)

lemma atan2_lower: "y < 0 \<Longrightarrow> c_atan2 y x = - (pi / 2) - arctan (x / y)"
  using arctan_inverse [of "x / y"] by (cases x "0 :: real" rule: linorder_cases) (simp_all add: c_atan2_def)

lemma eventually_pos:
  assumes "(f has_real_derivative d) (at t)" "0 < f t" shows "eventually (\<lambda>u. 0 < f u) (nhds t)"
proof -
  have "isCont f t" using assms(1) by (rule DERIV_isCont)
  then show ?thesis using assms(2) by (auto simp: continuous_within tendsto_at_iff_tendsto_nhds dest: order_tendstoD(1))
qed

lemma eventually_neg:
  assumes "(f has_real_derivative d) (at t)" "f t < 0" shows "eventually (\<lambda>u. f u < 0) (nhds t)"
  using eventually_pos [OF DERIV_minus [OF assms(1)]] assms(2) by simp

lemma DERIV_arctan_quotient:
  assumes a: "(a has_real_derivative a') (at t)" and b: "(b has_real_derivative b') (at t)" and nz: "b t \<noteq> 0"
  shows "((\<lambda>u. arctan (a u / b u)) has_real_derivative (a' * b t - a t * b') / (b t * b t + a t * a t)) (at t)"
proof -
  have n: "0 < b t * b t + a t * a t" using nz by (intro add_pos_nonneg) (auto simp: zero_less_mult_iff linorder_neq_iff)
  have inv: "inverse (1 + (a t / b t)\<^sup>2) = b t * b t / (b t * b t + a t * a t)"
    using nz n by (simp add: field_simps power2_eq_square)
  have eq: "inverse (1 + (a t / b t)\<^sup>2) * ((a' * b t - a t * b') / (b t * b t)) = (a' * b t - a t * b') / (b t * b t + a t * a t)"
    unfolding inv using nz by simp
  show ?thesis by (rule derivative_eq_intros refl a b nz eq)+
qed

lemma DERIV_atan2:
  assumes y: "(y has_real_derivative y') (at t)" and x: "(x has_real_derivative x') (at t)" and dom: "0 < x t \<or> y t \<noteq> 0"
  shows "((\<lambda>u. c_atan2 (y u) (x u)) has_real_derivative
    x t / (y t * y t + x t * x t) * y' + - y t / (y t * y t + x t * x t) * x') (at t)" (is "(_ has_real_derivative ?d) _")
proof -
  have d: "(y' * x t - y t * x') / (x t * x t + y t * y t) = ?d" by (simp add: diff_divide_distrib ac_simps)
  have other: "((\<lambda>u. c - arctan (x u / y u)) has_real_derivative ?d) (at t)" if "y t \<noteq> 0" for c
  proof -
    have "0 - (x' * y t - x t * y') / (y t * y t + x t * x t) = ?d" by (simp add: diff_divide_distrib ac_simps)
    then show ?thesis using DERIV_diff [OF DERIV_const DERIV_arctan_quotient [of x x' t y y', OF x y that], of c] by simp
  qed
  consider "0 < x t" | "0 < y t" | "y t < 0" using dom by linarith
  then show ?thesis
  proof cases
    case 1
    have ev: "eventually (\<lambda>u. c_atan2 (y u) (x u) = arctan (y u / x u)) (nhds t)"
      using eventually_pos [OF x 1] by eventually_elim (simp add: c_atan2_def)
    have "((\<lambda>u. arctan (y u / x u)) has_real_derivative ?d) (at t)"
      using DERIV_arctan_quotient [of y y' t x x', OF y x] 1 unfolding d by simp
    then show ?thesis using DERIV_cong_ev [OF refl ev refl] by simp
  next
    case 2
    have ev: "eventually (\<lambda>u. c_atan2 (y u) (x u) = pi / 2 - arctan (x u / y u)) (nhds t)"
      using eventually_pos [OF y 2] by eventually_elim (rule atan2_upper)
    then show ?thesis using DERIV_cong_ev [OF refl ev refl] other 2 by simp
  next
    case 3
    have ev: "eventually (\<lambda>u. c_atan2 (y u) (x u) = - (pi / 2) - arctan (x u / y u)) (nhds t)"
      using eventually_neg [OF y 3] by eventually_elim (rule atan2_lower)
    then show ?thesis using DERIV_cong_ev [OF refl ev refl] other 3 by simp
  qed
qed

lemma DERIV_sigmoid: "(sigmoid has_real_derivative sigmoid x * (1 - sigmoid x)) (at x)"
proof -
  have p: "1 + exp (-1 * x) \<noteq> 0" using exp_gt_zero [of "-1 * x"] by linarith
  show ?thesis unfolding sigmoid_def [abs_def]
    by (rule derivative_eq_intros refl p)+ (use p in \<open>simp add: field_simps power2_eq_square\<close>)
qed

lemma DERIV_silu: "(silu has_real_derivative (1 + exp (- x) + x * exp (- x)) / ((1 + exp (- x)) * (1 + exp (- x)))) (at x)"
proof -
  have p: "1 + exp (-1 * x) \<noteq> 0" using exp_gt_zero [of "-1 * x"] by linarith
  show ?thesis unfolding silu_def [abs_def]
    by (rule derivative_eq_intros refl p)+ (use p in \<open>simp add: field_simps power2_eq_square\<close>)
qed

lemma DERIV_relu: "x \<noteq> 0 \<Longrightarrow> (relu has_real_derivative (if x \<le> 0 then 0 else 1)) (at x)"
proof (cases "0 < x")
  case True
  have ev: "eventually (\<lambda>u. relu u = u) (nhds x)" using eventually_pos [OF DERIV_ident True] by eventually_elim (simp add: relu_def)
  show ?thesis using DERIV_cong_ev [OF refl ev refl, of 1] True by simp
next
  case False
  assume "x \<noteq> 0"
  with False have neg: "x < 0" by simp
  have ev: "eventually (\<lambda>u. relu u = 0) (nhds x)" using eventually_neg [OF DERIV_ident neg] by eventually_elim (simp add: relu_def)
  show ?thesis using DERIV_cong_ev [OF refl ev refl, of 0] neg by simp
qed

lemma DERIV_abs: "x \<noteq> 0 \<Longrightarrow> (abs has_real_derivative (if x < 0 then -1 else 1)) (at (x :: real))"
proof (cases "0 < x")
  case True
  have ev: "eventually (\<lambda>u. \<bar>u\<bar> = u) (nhds x)" using eventually_pos [OF DERIV_ident True] by eventually_elim simp
  show ?thesis using DERIV_cong_ev [OF refl ev refl, of 1] True by simp
next
  case False
  assume "x \<noteq> 0"
  with False have neg: "x < 0" by simp
  have ev: "eventually (\<lambda>u. \<bar>u\<bar> = - u) (nhds x)" using eventually_neg [OF DERIV_ident neg] by eventually_elim simp
  show ?thesis using DERIV_cong_ev [OF refl ev refl, of "-1"] neg by (auto intro: derivative_eq_intros)
qed

end
