(* ===== verification/Matrix_Ops.thy ===== *)
theory Matrix_Ops
  imports Float8_Funcs "HOL-Library.Log_Nat"
begin

text \<open>
  The matrix operations of \<^verbatim>\<open>src/backend/utils/adt/matrix_ops.c\<close> on arrays of \<open>float8\<close>. An array has dimensions, lower bounds and
  its elements in row-major order; a first lower bound of -1 marks a scalar. The arguments are arrays,
  so the tests for null pointers are left out, and operations that update an array in place return
  the updated array. Reading past the elements of an array, or writing past the memory of a new one, is \<open>Crash\<close>. The loops that the code marks for
  OpenMP write disjoint elements and are read as sequential loops. Only a product creates an array of a new size, so only
  there the limit on the size of arrays is checked.
\<close>

section \<open>Arrays\<close>

record 'a ArrayType =
  arr_dims :: "nat list"
  arr_lbs :: "int list"
  arr_data :: "'a list"

definition ArrayGetNItems :: "nat list \<Rightarrow> nat" where
  "ArrayGetNItems dims = (if dims = [] then 0 else prod_list dims)"

definition MaxArraySize :: nat where
  "MaxArraySize = 134217727"

definition array_size_error :: pg_error where
  "array_size_error = Ereport ERRCODE_PROGRAM_LIMIT_EXCEEDED
    (''array size exceeds the maximum allowed ('' @ show_nat MaxArraySize @ '')'')"

text \<open>The loop computes each product at 64 bits and rejects it when it does not fit into an \<open>int32\<close>.\<close>

fun items_from :: "nat \<Rightarrow> nat list \<Rightarrow> nat result" where
  "items_from ret [] = (if ret > MaxArraySize then Inl array_size_error else Inr ret)"
| "items_from ret (d # ds) = (if ret * d > 2147483647 then Inl array_size_error else items_from (ret * d) ds)"

definition ArrayGetNItemsSafe :: "nat list \<Rightarrow> nat result" where
  "ArrayGetNItemsSafe dims = (if dims = [] then Inr 0 else items_from 1 dims)"

text \<open>The arrays that exist: their dimensions are non-negative \<open>int\<close>s and their size is within the limit.\<close>

definition arr_ok :: "'a ArrayType \<Rightarrow> bool" where
  "arr_ok a \<longleftrightarrow> arr_dims a \<noteq> [] \<and> length (arr_lbs a) = length (arr_dims a) \<and> list_all (\<lambda>d. d \<le> 2147483647) (arr_dims a) \<and>
    ArrayGetNItemsSafe (arr_dims a) = Inr (length (arr_data a))"

definition isScalar :: "'a ArrayType \<Rightarrow> bool" where
  "isScalar a \<longleftrightarrow> (case arr_lbs a of [] \<Rightarrow> False | lb # _ \<Rightarrow> lb = -1)"

definition initResult :: "nat list \<Rightarrow> int list \<Rightarrow> 'a :: zero ArrayType" where
  "initResult dims lbs = \<lparr>arr_dims = dims, arr_lbs = take (length dims) lbs, arr_data = replicate (ArrayGetNItems dims) 0\<rparr>"

definition createScalar :: "'a \<Rightarrow> 'a ArrayType" where
  "createScalar v = \<lparr>arr_dims = [1], arr_lbs = [-1], arr_data = [v]\<rparr>"

definition createArray :: "nat \<Rightarrow> nat \<Rightarrow> 'a :: {zero, one} \<Rightarrow> bool \<Rightarrow> 'a ArrayType" where
  "createArray d0 d1 v identityMatrix =
    \<lparr>arr_dims = [d0, d1], arr_lbs = [1, 1],
     arr_data = (if identityMatrix \<and> d0 = d1
                 then concat (map (\<lambda>i. map (\<lambda>j. if i = j then 1 else 0) [0..<d0]) [0..<d0])
                 else concat (map (\<lambda>i. map (\<lambda>j. v) [0..<d1]) [0..<d0]))\<rparr>"

definition matrixSetValue :: "'a ArrayType \<Rightarrow> 'a \<Rightarrow> 'a ArrayType" where
  "matrixSetValue a v = a\<lparr>arr_data := map (\<lambda>_. v) (arr_data a)\<rparr>"

definition MAT_2D :: "nat \<Rightarrow> nat \<Rightarrow> nat \<Rightarrow> nat" where
  "MAT_2D x y row_size = x * row_size + y"

definition map_array :: "('a \<Rightarrow> 'a) \<Rightarrow> 'a ArrayType \<Rightarrow> 'a ArrayType" where
  "map_array f a = a\<lparr>arr_data := map f (arr_data a)\<rparr>"

section \<open>Copies\<close>

text \<open>
  The memory behind an allocation of \<open>sz\<close> bytes in an \<open>AllocSet\<close>: a power of two, or \<open>MAXALIGN\<close> of the size above the
  limit for chunks. The limit is that of the contexts with large blocks, such as those of expressions.
\<close>

definition ALLOC_CHUNK_LIMIT :: nat where "ALLOC_CHUNK_LIMIT = 8192"

definition AllocSetFreeIndex :: "nat \<Rightarrow> nat" where
  "AllocSetFreeIndex sz = (if sz > 8 then (floorlog 2 (sz - 1) - 1) - 3 + 1 else 0)"

definition AllocSetChunkSize :: "nat \<Rightarrow> nat" where
  "AllocSetChunkSize sz = (if sz > ALLOC_CHUNK_LIMIT then 8 * ((sz + 7) div 8) else 8 * 2 ^ AllocSetFreeIndex sz)"

definition ARR_OVERHEAD_NONULLS :: "nat \<Rightarrow> nat" where
  "ARR_OVERHEAD_NONULLS ndims = 8 * ((16 + 2 * 4 * ndims + 7) div 8)"

text \<open>
  \<open>copyArray\<close> allocates the header and the elements, and then copies as many bytes as it allocated behind the header: the write
  ends \<open>ARR_OVERHEAD_NONULLS\<close> bytes after the new array, which the rounding of the allocation may or may not cover. The array copied is
  taken to lie in a chunk of the same size, and to have no null bitmap.
\<close>

definition copy_bytes :: "nat list \<Rightarrow> nat" where
  "copy_bytes dims = ArrayGetNItems dims * 8 + ARR_OVERHEAD_NONULLS (length dims)"

definition copy_fits :: "nat list \<Rightarrow> bool" where
  "copy_fits dims \<longleftrightarrow> ARR_OVERHEAD_NONULLS (length dims) + copy_bytes dims \<le> AllocSetChunkSize (copy_bytes dims)"

definition copyArray :: "'a ArrayType \<Rightarrow> 'a ArrayType result" where
  "copyArray original =
    (if copy_fits (arr_dims original)
     then Inr \<lparr>arr_dims = arr_dims original, arr_lbs = arr_lbs original, arr_data = arr_data original\<rparr>
     else Inl Crash)"

lemma copyArray_fits: "copyArray a = (if copy_fits (arr_dims a) then Inr a else Inl Crash)"
  by (cases a) (simp add: copyArray_def)

text \<open>A vector of two elements can be copied, a scalar or a matrix of two rows and columns cannot.\<close>

lemma copy_sizes: "copy_fits [2]" "\<not> copy_fits [1]" "\<not> copy_fits [2, 2]" "copy_fits [2, 3]" "copy_fits [4, 5]" "\<not> copy_fits [3, 4]"
  by code_simp+

definition copy_map :: "('a \<Rightarrow> 'a) \<Rightarrow> 'a ArrayType \<Rightarrow> 'a ArrayType result" where
  "copy_map f input = rmap (map_array f) (copyArray input)"

lemma copy_map_fits: "copy_map f a = (if copy_fits (arr_dims a) then Inr (map_array f a) else Inl Crash)"
  by (simp add: copy_map_def copyArray_fits)

section \<open>Dimensions\<close>

text \<open>Equal dimensions, or an error; \<open>dim_msg\<close> gets the index of the first dimension that differs.\<close>

definition same_dims :: "string \<Rightarrow> (nat \<Rightarrow> string) \<Rightarrow> 'a ArrayType \<Rightarrow> 'b ArrayType \<Rightarrow> unit result" where
  "same_dims ndim_msg dim_msg a b =
    (if length (arr_dims a) \<noteq> length (arr_dims b) then Inl (elog_error ndim_msg)
     else if arr_dims a \<noteq> arr_dims b
     then Inl (elog_error (dim_msg (length (takeWhile (\<lambda>(x, y). x = y) (zip (arr_dims a) (arr_dims b))))))
     else Inr ())"

section \<open>Transpose and product\<close>

definition matrix_transpose_internal :: "'a :: zero ArrayType \<Rightarrow> 'a ArrayType result" where
  "matrix_transpose_internal org =
    (if isScalar org then copyArray org
     else case (arr_dims org, arr_lbs org) of
       ([n], lb # _) \<Rightarrow> Inr \<lparr>arr_dims = [1, n], arr_lbs = [1, lb], arr_data = take n (arr_data org)\<rparr>
     | (d0 # d1 # rest, lb0 # lb1 # _) \<Rightarrow>
         if rest = [] \<and> d0 = 1 then Inr \<lparr>arr_dims = [d1], arr_lbs = [lb1], arr_data = take d1 (arr_data org)\<rparr>
         else if d0 * d1 \<le> length (arr_data org)
         then Inr \<lparr>arr_dims = [d1, d0], arr_lbs = [lb1, lb0],
                   arr_data = concat (map (\<lambda>j. map (\<lambda>i. arr_data org ! MAT_2D i j d1) [0..<d0]) [0..<d1])\<rparr>
         else Inl Crash
     | _ \<Rightarrow> Inl Crash)"

definition scale_array :: "'a :: times ArrayType \<Rightarrow> 'a ArrayType \<Rightarrow> 'a ArrayType result" where
  "scale_array s a = (case arr_data s of [] \<Rightarrow> Inl Crash | v # _ \<Rightarrow> Inr (map_array (\<lambda>x. x * v) a))"

text \<open>Shape of the product: rows, inner dimension, columns, dimensions and lower bounds of the result.\<close>

definition mul_shape :: "'a ArrayType \<Rightarrow> 'a ArrayType \<Rightarrow> (nat \<times> nat \<times> nat \<times> nat list \<times> int list) result" where
  "mul_shape a1 a2 =
    (case (arr_dims a1, arr_dims a2) of
       ([_], [_]) \<Rightarrow> Inl (elog_error ''Matrix Multiplication Internal: Two column vectors can not be multiplied!'')
     | (dima # _, dimb # rest) \<Rightarrow>
         let dimc = (case rest of [d] \<Rightarrow> d | _ \<Rightarrow> 1);
             dims = (if length rest = 1 then [dima, dimc] else [dima])
         in Inr (if dima = 1 \<and> dimc = 1 then (dima, dimb, dimc, [1], [-1, 1]) else (dima, dimb, dimc, dims, [1, 1]))
     | _ \<Rightarrow> Inl Crash)"

definition mul_in_bounds :: "nat \<Rightarrow> nat \<Rightarrow> nat \<Rightarrow> 'a list \<Rightarrow> 'a list \<Rightarrow> bool" where
  "mul_in_bounds dima dimb dimc ps1 ps2 \<longleftrightarrow>
    dima = 0 \<or> dimb = 0 \<or> dimc = 0 \<or> dima * dimb \<le> length ps1 \<and> dimb * dimc \<le> length ps2"

text \<open>The function \<open>mat_mul\<close> adds up row by row in the result array.\<close>

definition mul_acc :: "nat \<Rightarrow> nat \<Rightarrow> nat \<Rightarrow> 'a :: semiring_0 list \<Rightarrow> 'a list \<Rightarrow> 'a list \<Rightarrow> 'a list" where
  "mul_acc dima dimb dimc ps1 ps2 =
    fold (\<lambda>i. fold (\<lambda>j. fold (\<lambda>k ps. ps[MAT_2D i k dimc := ps ! MAT_2D i k dimc + ps1 ! MAT_2D i j dimb * ps2 ! MAT_2D j k dimc])
      [0..<dimc]) [0..<dimb]) [0..<dima]"

definition matrix_mul :: "'a :: semiring_0 ArrayType \<Rightarrow> 'a ArrayType \<Rightarrow> 'a ArrayType result" where
  "matrix_mul a1 a2 =
    (if isScalar a1 then scale_array a1 a2
     else if isScalar a2 then scale_array a2 a1
     else rbind (mul_shape a1 a2) (\<lambda>(dima, dimb, dimc, dims, lbs).
       rbind (ArrayGetNItemsSafe dims) (\<lambda>_.
       if mul_in_bounds dima dimb dimc (arr_data a1) (arr_data a2) then
         let ret = initResult dims lbs
         in Inr (ret\<lparr>arr_data := mul_acc dima dimb dimc (arr_data a1) (arr_data a2) (arr_data ret)\<rparr>)
       else Inl Crash)))"

text \<open>
  The product inside of derivatives computes one element after the other. When one operand is a
  scalar, the other is copied as it was passed, not transposed.
\<close>

definition mul_dot :: "nat \<Rightarrow> nat \<Rightarrow> nat \<Rightarrow> 'a :: semiring_0 list \<Rightarrow> 'a list \<Rightarrow> 'a list" where
  "mul_dot dima dimb dimc ps1 ps2 =
    concat (map (\<lambda>i. map (\<lambda>k. foldl (\<lambda>tmp j. tmp + ps1 ! MAT_2D i j dimb * ps2 ! MAT_2D j k dimc) 0 [0..<dimb]) [0..<dimc]) [0..<dima])"

definition matrix_mul_internal :: "'a :: semiring_0 ArrayType \<Rightarrow> 'a ArrayType \<Rightarrow> bool \<Rightarrow> bool \<Rightarrow> 'a ArrayType result" where
  "matrix_mul_internal MatA MatB transposeA transposeB =
    rbind (if transposeA then matrix_transpose_internal MatA else Inr MatA) (\<lambda>a1.
    rbind (if transposeB then matrix_transpose_internal MatB else Inr MatB) (\<lambda>a2.
      if isScalar a1 then rbind (copyArray MatB) (scale_array a1)
      else if isScalar a2 then rbind (copyArray MatA) (scale_array a2)
      else rbind (mul_shape a1 a2) (\<lambda>(dima, dimb, dimc, dims, lbs).
        rbind (ArrayGetNItemsSafe dims) (\<lambda>_.
        if mul_in_bounds dima dimb dimc (arr_data a1) (arr_data a2) then
          Inr ((initResult dims lbs)\<lparr>arr_data := mul_dot dima dimb dimc (arr_data a1) (arr_data a2)\<rparr>)
        else Inl Crash))))"

section \<open>Element-wise operations\<close>

definition matrix_add_inplace :: "'a :: plus ArrayType \<Rightarrow> 'a ArrayType \<Rightarrow> 'a ArrayType result" where
  "matrix_add_inplace a1 a2 =
    (if isScalar a1 then (case arr_data a1 of [] \<Rightarrow> Inl Crash | elem # _ \<Rightarrow> copy_map (\<lambda>x. x + elem) a2)
     else if isScalar a2 then (case arr_data a2 of [] \<Rightarrow> Inl Crash | elem # _ \<Rightarrow> Inr (map_array (\<lambda>x. x + elem) a1))
     else rbind (same_dims ''Matrix element-wise addition(inplace): Number of dimensions mismatched!''
                   (\<lambda>i. ''Matrix element-wise addition(inplace): dimension '' @ show_nat (i + 1) @ '' mismatched!'') a1 a2) (\<lambda>_.
       Inr (a1\<lparr>arr_data := map2 (+) (arr_data a1) (arr_data a2)\<rparr>)))"

text \<open>The operator adds to a copy of its first argument.\<close>

definition matrix_add_internal :: "'a :: plus ArrayType \<Rightarrow> 'a ArrayType \<Rightarrow> 'a ArrayType result" where
  "matrix_add_internal matA matB = rbind (copyArray matA) (\<lambda>a1. matrix_add_inplace a1 matB)"

definition matrix_elem_mult :: "'a :: times ArrayType \<Rightarrow> 'a ArrayType \<Rightarrow> 'a ArrayType result" where
  "matrix_elem_mult a b =
    (if isScalar a then (case arr_data a of [] \<Rightarrow> Inl Crash | elem # _ \<Rightarrow> copy_map (\<lambda>x. elem * x) b)
     else if isScalar b then (case arr_data b of [] \<Rightarrow> Inl Crash | elem # _ \<Rightarrow> copy_map (\<lambda>x. elem * x) a)
     else rbind (same_dims ''Matrix element-wise Multiplication: Number of dimensions mismatched!''
                   (\<lambda>_. ''Matrix element-wise Multiplication: Matrices are mismatched!'') a b) (\<lambda>_.
       Inr (a\<lparr>arr_data := map2 (*) (arr_data a) (arr_data b)\<rparr>)))"

definition mat_sub_mm :: "'a :: minus ArrayType \<Rightarrow> 'a ArrayType \<Rightarrow> 'a ArrayType result" where
  "mat_sub_mm a1 a2 =
    rbind (same_dims ''Matrix element-wise Subtraction: Number of dimensions mismatched!''
             (\<lambda>_. ''Matrix element-wise Subtraction: Dimensions mismatched!'') a1 a2) (\<lambda>_.
      Inr (a1\<lparr>arr_data := map2 (-) (arr_data a1) (arr_data a2)\<rparr>))"

text \<open>These three read the elements of the new array, which are zero, instead of those of the argument.\<close>

definition mat_sub_ms :: "'a :: {zero, minus} ArrayType \<Rightarrow> 'a \<Rightarrow> 'a ArrayType" where
  "mat_sub_ms a1 scalar = map_array (\<lambda>x. x - scalar) (initResult (arr_dims a1) (arr_lbs a1))"

definition mat_sub_sm :: "'a :: {zero, minus} \<Rightarrow> 'a ArrayType \<Rightarrow> 'a ArrayType" where
  "mat_sub_sm scalar a1 = map_array (\<lambda>x. scalar - x) (initResult (arr_dims a1) (arr_lbs a1))"

definition mat_mul_sm :: "'a :: {zero, times} \<Rightarrow> 'a ArrayType \<Rightarrow> 'a ArrayType" where
  "mat_mul_sm scalar a1 = map_array (\<lambda>x. scalar * x) (initResult (arr_dims a1) (arr_lbs a1))"

definition mat_apply_gradient :: "real ArrayType \<Rightarrow> real ArrayType \<Rightarrow> real \<Rightarrow> int \<Rightarrow> real ArrayType result" where
  "mat_apply_gradient weights derivatives learning_rate batch_size =
    (if isScalar weights then copy_map (\<lambda>d. (d * learning_rate) / of_int batch_size) derivatives
     else if isScalar derivatives then Inr weights
     else rbind (same_dims ''mat_apply_gradient: derivatives and weight matrix do not match!''
                   (\<lambda>_. ''mat_apply_gradient: Dimensions do not match in derivatives and weights!'') weights derivatives) (\<lambda>_.
       Inr (weights\<lparr>arr_data := map2 (\<lambda>w d. w - (learning_rate * d) / of_int batch_size) (arr_data weights) (arr_data derivatives)\<rparr>)))"

section \<open>Softmax and activations\<close>

definition index_max :: "'a :: linorder ArrayType \<Rightarrow> nat result" where
  "index_max input =
    (case arr_data input of
       [] \<Rightarrow> Inl Crash
     | d # _ \<Rightarrow> Inr (snd (fold (\<lambda>i (max_value, max_index).
         if arr_data input ! i > max_value then (arr_data input ! i, i) else (max_value, max_index))
         [1..<length (arr_data input)] (d, 0))))"

definition max_from :: "'a :: linorder \<Rightarrow> 'a list \<Rightarrow> 'a" where
  "max_from m xs = foldl (\<lambda>m x. if m < x then x else m) m xs"

definition softmax :: "real ArrayType \<Rightarrow> real ArrayType result" where
  "softmax input =
    rbind (copyArray input) (\<lambda>array.
      let data = arr_data array; m = max_from 0 data; s = foldl (\<lambda>s x. s + exp (x - m)) 0 data
      in Inr (array\<lparr>arr_data := map (\<lambda>x. exp (x - m) / s) data\<rparr>))"

definition not_vector :: "nat list \<Rightarrow> bool" where
  "not_vector dims \<longleftrightarrow> length dims > 2 \<and> length dims \<le> 0 \<or> length dims = 2 \<and> hd dims \<noteq> 1"

text \<open>The values \<open>data[i] - max - log(sum)\<close> of both functions below.\<close>

definition log_softmax :: "real list \<Rightarrow> real list" where
  "log_softmax data =
    (let m = max_from (hd data) data; result = map (\<lambda>x. x - m) data; s = foldl (\<lambda>s x. s + exp x) 0 result
     in map (\<lambda>x. x - ln s) result)"

definition softmax_cce_internal :: "real ArrayType \<Rightarrow> real ArrayType \<Rightarrow> real result" where
  "softmax_cce_internal input labels =
    rbind (same_dims
      (''Softmax CCE: Arrays *labels* and *input* do not have same number of dims! (#dims labels: '' @
         show_nat (length (arr_dims labels)) @ '' <-> '' @ show_nat (length (arr_dims input)) @ '' :#dims input)'')
      (\<lambda>i. ''Softmax CCE: Dim '' @ show_nat i @ '' does not match (dim in 'labels': '' @ show_nat (arr_dims labels ! i) @
         '' <-> '' @ show_nat (arr_dims input ! i) @ '' :dim in 'input')'') input labels) (\<lambda>_.
    if not_vector (arr_dims input) then Inl (elog_error ''Softmax CCE: Array *input* is not a vector!'')
    else if not_vector (arr_dims labels) then Inl (elog_error ''Softmax CCE: Array *labels* is not a vector!'')
    else if arr_data input = [] then Inl Crash
    else Inr (foldl (+) 0 (map2 (*) (log_softmax (arr_data input)) (arr_data labels))))"

definition softmax_cce_derive :: "real ArrayType \<Rightarrow> real ArrayType \<Rightarrow> real ArrayType result" where
  "softmax_cce_derive input labels =
    (if ArrayGetNItems (arr_dims input) \<noteq> ArrayGetNItems (arr_dims labels) then
       Inl (elog_error ''Softmax Derivation: Arrays *labels* and *input* do not match!'')
     else if not_vector (arr_dims input) then Inl (elog_error ''Softmax Derivation: Array *input* is not a vector!'')
     else if not_vector (arr_dims labels) then Inl (elog_error ''Softmax Derivation: Array *labels* is not a vector!'')
     else if arr_data input = [] then Inl Crash
     else Inr (input\<lparr>arr_data := map2 (\<lambda>r l. exp r - l) (log_softmax (arr_data input)) (arr_data labels)\<rparr>))"

definition silu_m_internal :: "real ArrayType \<Rightarrow> real ArrayType result" where
  "silu_m_internal = copy_map (\<lambda>x. x / (1 + exp (-1 * x)))"

definition silu_m_derive :: "real ArrayType \<Rightarrow> real ArrayType result" where
  "silu_m_derive = copy_map (\<lambda>x. (1 + exp (-1 * x) + x * exp (-1 * x)) / c_pow (1 + exp (-1 * x)) 2)"

definition sigmoid_m_internal :: "real ArrayType \<Rightarrow> real ArrayType result" where
  "sigmoid_m_internal = copy_map (\<lambda>x. 1 / (1 + exp (-1 * x)))"

definition sigmoid_m_derive :: "real ArrayType \<Rightarrow> real ArrayType result" where
  "sigmoid_m_derive = copy_map (\<lambda>x. let sig_of_x = 1 / (1 + exp (-1 * x)) in sig_of_x * (1 - sig_of_x))"

definition tanh_m_internal :: "real ArrayType \<Rightarrow> real ArrayType result" where
  "tanh_m_internal = copy_map tanh"

definition tanh_m_derive :: "real ArrayType \<Rightarrow> real ArrayType result" where
  "tanh_m_derive = copy_map (\<lambda>x. let tanh_of_x = tanh x in 1 - tanh_of_x * tanh_of_x)"

definition relu_m_internal :: "real ArrayType \<Rightarrow> real ArrayType result" where
  "relu_m_internal = copy_map (\<lambda>x. max x 0)"

definition relu_m_derive :: "real ArrayType \<Rightarrow> real ArrayType result" where
  "relu_m_derive = copy_map (\<lambda>x. if x > 0 then 1 else 0)"

end
