(* ===== verification/Auto_Diff.thy ===== *)
theory Auto_Diff
  imports Lambda_Nodes Matrix_Ops
begin

text \<open>
  Automatic differentiation of lambdas in the interpreter: \<^verbatim>\<open>ExecInitLambdaExpr\<close> and \<^verbatim>\<open>ExecLambdaDeriveSubtree\<close> of
  \<^verbatim>\<open>src/backend/executor/execExpr.c\<close>. A body is compiled into steps that write into slots (the result, or an argument of a
  function call); after an evaluation the argument slots hold the values of all subexpressions, and
  the derivation walks backwards through the steps with a seed. Values are not NULL, and arithmetic on
  \<open>numeric\<close> is a parameter.
\<close>

section \<open>Functions\<close>

datatype fn =
    F_FLOAT8MUL | F_NUMERIC_MUL | F_FLOAT8DIV | F_NUMERIC_DIV | F_FLOAT8PL | F_NUMERIC_ADD | F_FLOAT8MI | F_NUMERIC_SUB
  | F_FLOAT8UM | F_FLOAT8ABS | F_ABS_FLOAT8 | F_DPOW | F_POW_FLOAT8_FLOAT8 | F_POWER_FLOAT8_FLOAT8 | F_DSQRT | F_SQRT_FLOAT8
  | F_EXP_FLOAT8 | F_LN_FLOAT8 | F_DLOG10 | F_SIN | F_COS | F_TAN | F_COT | F_ASIN | F_ACOS | F_ATAN | F_ATAN2
  | F_SOFTMAX_CCE | F_SILU | F_SIGMOID | F_TANH | F_RELU
  | F_MAT_MUL | F_SILU_M | F_SIGMOID_M | F_TANH_M | F_RELU_M | F_MAT_ADD

text \<open>The object identifiers of the functions, from \<^verbatim>\<open>pg_proc.dat\<close>.\<close>

definition fn_oids :: "(oid \<times> fn) list" where
  "fn_oids =
    [(216, F_FLOAT8MUL), (1726, F_NUMERIC_MUL), (217, F_FLOAT8DIV), (1727, F_NUMERIC_DIV), (218, F_FLOAT8PL), (1724, F_NUMERIC_ADD),
     (219, F_FLOAT8MI), (1725, F_NUMERIC_SUB), (220, F_FLOAT8UM), (221, F_FLOAT8ABS), (1395, F_ABS_FLOAT8), (232, F_DPOW),
     (1346, F_POW_FLOAT8_FLOAT8), (1368, F_POWER_FLOAT8_FLOAT8), (230, F_DSQRT), (1344, F_SQRT_FLOAT8), (1347, F_EXP_FLOAT8),
     (1341, F_LN_FLOAT8), (1339, F_DLOG10), (1604, F_SIN), (1605, F_COS), (1606, F_TAN), (1607, F_COT), (1600, F_ASIN),
     (1601, F_ACOS), (1602, F_ATAN), (1603, F_ATAN2), (7801, F_SOFTMAX_CCE), (7802, F_SILU), (7803, F_SIGMOID), (7804, F_TANH),
     (7805, F_RELU), (9000, F_MAT_MUL), (9001, F_SILU_M), (9002, F_SIGMOID_M), (9003, F_TANH_M), (9004, F_RELU_M), (9005, F_MAT_ADD)]"

definition fn_of_oid :: "oid \<Rightarrow> fn option" where
  "fn_of_oid f = map_of fn_oids f"

text \<open>A datum at run time: a number, an array, or a row.\<close>

datatype fval = F8 real | F8Array "real ArrayType" | Row "fval list"

text \<open>Reading a datum of another type as a number or an array has no meaning.\<close>

fun DatumGetFloat8 :: "fval \<Rightarrow> real result" where
  "DatumGetFloat8 (F8 x) = Inr x"
| "DatumGetFloat8 _ = Inl Crash"

fun DatumGetArrayTypeP :: "fval \<Rightarrow> real ArrayType result" where
  "DatumGetArrayTypeP (F8Array a) = Inr a"
| "DatumGetArrayTypeP _ = Inl Crash"

definition unary8 :: "(real \<Rightarrow> real result) \<Rightarrow> fval list \<Rightarrow> fval result" where
  "unary8 f args = (case args of [a] \<Rightarrow> rbind (DatumGetFloat8 a) (\<lambda>x. rmap F8 (f x)) | _ \<Rightarrow> Inl Crash)"

definition binary8 :: "(real \<Rightarrow> real \<Rightarrow> real result) \<Rightarrow> fval list \<Rightarrow> fval result" where
  "binary8 f args =
    (case args of [a, b] \<Rightarrow> rbind (DatumGetFloat8 a) (\<lambda>x. rbind (DatumGetFloat8 b) (\<lambda>y. rmap F8 (f x y))) | _ \<Rightarrow> Inl Crash)"

definition unary_m :: "(real ArrayType \<Rightarrow> fval result) \<Rightarrow> fval list \<Rightarrow> fval result" where
  "unary_m f args = (case args of [a] \<Rightarrow> rbind (DatumGetArrayTypeP a) f | _ \<Rightarrow> Inl Crash)"

definition binary_m :: "(real ArrayType \<Rightarrow> real ArrayType \<Rightarrow> fval result) \<Rightarrow> fval list \<Rightarrow> fval result" where
  "binary_m f args =
    (case args of [a, b] \<Rightarrow> rbind (DatumGetArrayTypeP a) (\<lambda>x. rbind (DatumGetArrayTypeP b) (f x)) | _ \<Rightarrow> Inl Crash)"

text \<open>The call of a function; those that are not derivable, and the functions on \<open>numeric\<close>, are the parameter.\<close>

definition fn_call :: "(oid \<Rightarrow> fval list \<Rightarrow> fval result) \<Rightarrow> oid \<Rightarrow> fval list \<Rightarrow> fval result" where
  "fn_call other_fn funcid =
    (case fn_of_oid funcid of None \<Rightarrow> other_fn funcid | Some f \<Rightarrow>
     case f of
       F_FLOAT8MUL \<Rightarrow> binary8 float8mul | F_FLOAT8DIV \<Rightarrow> binary8 float8div | F_FLOAT8PL \<Rightarrow> binary8 float8pl | F_FLOAT8MI \<Rightarrow> binary8 float8mi
     | F_FLOAT8UM \<Rightarrow> unary8 float8um | F_FLOAT8ABS \<Rightarrow> unary8 float8abs | F_ABS_FLOAT8 \<Rightarrow> unary8 float8abs
     | F_DPOW \<Rightarrow> binary8 dpow | F_POW_FLOAT8_FLOAT8 \<Rightarrow> binary8 dpow | F_POWER_FLOAT8_FLOAT8 \<Rightarrow> binary8 dpow
     | F_DSQRT \<Rightarrow> unary8 dsqrt | F_SQRT_FLOAT8 \<Rightarrow> unary8 dsqrt | F_EXP_FLOAT8 \<Rightarrow> unary8 dexp
     | F_LN_FLOAT8 \<Rightarrow> unary8 dlog1 | F_DLOG10 \<Rightarrow> unary8 dlog10
     | F_SIN \<Rightarrow> unary8 dsin | F_COS \<Rightarrow> unary8 dcos | F_TAN \<Rightarrow> unary8 dtan | F_COT \<Rightarrow> unary8 dcot
     | F_ASIN \<Rightarrow> unary8 dasin | F_ACOS \<Rightarrow> unary8 dacos | F_ATAN \<Rightarrow> unary8 datan | F_ATAN2 \<Rightarrow> binary8 datan2
     | F_SOFTMAX_CCE \<Rightarrow> binary_m (\<lambda>x y. rmap F8 (softmax_cce_internal x y))
     | F_SILU \<Rightarrow> unary8 (Inr \<circ> silu) | F_SIGMOID \<Rightarrow> unary8 (Inr \<circ> sigmoid) | F_TANH \<Rightarrow> unary8 (Inr \<circ> tanh) | F_RELU \<Rightarrow> unary8 (Inr \<circ> relu)
     | F_MAT_MUL \<Rightarrow> binary_m (\<lambda>x y. rmap F8Array (matrix_mul x y))
     | F_SILU_M \<Rightarrow> unary_m (rmap F8Array \<circ> silu_m_internal) | F_SIGMOID_M \<Rightarrow> unary_m (rmap F8Array \<circ> sigmoid_m_internal)
     | F_TANH_M \<Rightarrow> unary_m (rmap F8Array \<circ> tanh_m_internal) | F_RELU_M \<Rightarrow> unary_m (rmap F8Array \<circ> relu_m_internal)
     | F_MAT_ADD \<Rightarrow> binary_m (\<lambda>x y. rmap F8Array (matrix_add_internal x y))
     | F_NUMERIC_MUL \<Rightarrow> other_fn funcid | F_NUMERIC_DIV \<Rightarrow> other_fn funcid
     | F_NUMERIC_ADD \<Rightarrow> other_fn funcid | F_NUMERIC_SUB \<Rightarrow> other_fn funcid)"

section \<open>Steps\<close>

text \<open>Where a step writes: the result, or argument \<open>i\<close> of the call with number \<open>c\<close>.\<close>

datatype dest = Result | Arg nat nat

datatype step =
    EEOP_PARAM_EXTERN dest int
  | EEOP_FIELDSELECT dest int oid
  | EEOP_CONST dest fval
  | EEOP_FUNCEXPR dest oid nat nat
  | EEOP_DONE

text \<open>
  \<open>ExecInitExprRec\<close> for the node types of derivable bodies, with constants loaded explicitly; \<open>k\<close> is the number of the
  next call. Other node types give \<open>None\<close>.
\<close>

fun ExecInitExprRec :: "fval Node \<Rightarrow> dest \<Rightarrow> nat \<Rightarrow> (step list \<times> nat) option"
  and ExecInitFunc :: "fval Node list \<Rightarrow> nat \<Rightarrow> nat \<Rightarrow> nat \<Rightarrow> (step list \<times> nat) option" where
  "ExecInitExprRec (Const _ _ _ (Scalar v) False) d k = Some ([EEOP_CONST d v], k)"
| "ExecInitExprRec (Param PARAM_EXTERN pid _ _ _ _) d k = Some ([EEOP_PARAM_EXTERN d pid], k)"
| "ExecInitExprRec (FieldSelect arg fieldnum resulttype) d k =
    (case ExecInitExprRec arg d k of
       None \<Rightarrow> None
     | Some (steps, k') \<Rightarrow> Some (steps @ [EEOP_FIELDSELECT d fieldnum resulttype], k'))"
| "ExecInitExprRec (FuncExpr funcid _ args) d k =
    (case ExecInitFunc args k 0 (Suc k) of
       None \<Rightarrow> None
     | Some (steps, k') \<Rightarrow> Some (steps @ [EEOP_FUNCEXPR d funcid k (length args)], k'))"
| "ExecInitExprRec (OpExpr T_OpExpr opfuncid _ args) d k =
    (case ExecInitFunc args k 0 (Suc k) of
       None \<Rightarrow> None
     | Some (steps, k') \<Rightarrow> Some (steps @ [EEOP_FUNCEXPR d opfuncid k (length args)], k'))"
| "ExecInitExprRec _ d k = None"
| "ExecInitFunc [] c argno k = Some ([], k)"
| "ExecInitFunc (arg # args) c argno k =
    (case ExecInitExprRec arg (Arg c argno) k of
       None \<Rightarrow> None
     | Some (steps, k') \<Rightarrow>
         (case ExecInitFunc args c (Suc argno) k' of
            None \<Rightarrow> None
          | Some (steps', k'') \<Rightarrow> Some (steps @ steps', k'')))"

text \<open>The interpreter: one step on the slots. A field number or parameter outside of the row is not a value.\<close>

definition call_args :: "(dest \<Rightarrow> fval) \<Rightarrow> nat \<Rightarrow> nat \<Rightarrow> fval list" where
  "call_args m c nargs = map (\<lambda>i. m (Arg c i)) [0..<nargs]"

definition nth_datum :: "'a list \<Rightarrow> int \<Rightarrow> 'a result" where
  "nth_datum xs i = (if 1 \<le> i \<and> i \<le> int (length xs) then Inr (xs ! nat (i - 1)) else Inl Crash)"

fun exec_step :: "(oid \<Rightarrow> fval list \<Rightarrow> fval result) \<Rightarrow> fval list \<Rightarrow> step \<Rightarrow> (dest \<Rightarrow> fval) \<Rightarrow> (dest \<Rightarrow> fval) result" where
  "exec_step P params (EEOP_PARAM_EXTERN d pid) m = rmap (\<lambda>v. m(d := v)) (nth_datum params pid)"
| "exec_step P params (EEOP_FIELDSELECT d fieldnum _) m =
    (case m d of Row vs \<Rightarrow> rmap (\<lambda>v. m(d := v)) (nth_datum vs fieldnum) | _ \<Rightarrow> Inl Crash)"
| "exec_step P params (EEOP_CONST d v) m = Inr (m(d := v))"
| "exec_step P params (EEOP_FUNCEXPR d funcid c nargs) m =
    rmap (\<lambda>v. m(d := v)) (fn_call P funcid (call_args m c nargs))"
| "exec_step P params EEOP_DONE m = Inr m"

fun exec_steps :: "(oid \<Rightarrow> fval list \<Rightarrow> fval result) \<Rightarrow> fval list \<Rightarrow> step list \<Rightarrow> (dest \<Rightarrow> fval) \<Rightarrow> (dest \<Rightarrow> fval) result" where
  "exec_steps P params [] m = Inr m"
| "exec_steps P params (s # ss) m = rbind (exec_step P params s m) (exec_steps P params ss)"

section \<open>Derivation\<close>

text \<open>
  The seeds for the arguments of a call, from its argument values and its own seed: one case of the switch in
  \<open>ExecLambdaDeriveSubtree\<close> each.
\<close>

definition seed1 :: "(real \<Rightarrow> real \<Rightarrow> real result) \<Rightarrow> fval list \<Rightarrow> fval \<Rightarrow> fval list result" where
  "seed1 rule args seed =
    (case args of
       a # _ \<Rightarrow> rbind (DatumGetFloat8 a) (\<lambda>x. rbind (DatumGetFloat8 seed) (\<lambda>s. rmap (\<lambda>newSeedX. [F8 newSeedX]) (rule x s)))
     | _ \<Rightarrow> Inl Crash)"

definition seed2 :: "(real \<Rightarrow> real \<Rightarrow> real \<Rightarrow> (real \<times> real) result) \<Rightarrow> fval list \<Rightarrow> fval \<Rightarrow> fval list result" where
  "seed2 rule args seed =
    (case args of
       a # b # _ \<Rightarrow> rbind (DatumGetFloat8 a) (\<lambda>x. rbind (DatumGetFloat8 b) (\<lambda>y. rbind (DatumGetFloat8 seed) (\<lambda>s.
         rmap (\<lambda>(newSeedX, newSeedY). [F8 newSeedX, F8 newSeedY]) (rule x y s))))
     | _ \<Rightarrow> Inl Crash)"

definition derive_zero_error :: "string \<Rightarrow> pg_error" where
  "derive_zero_error msg = Ereport ERRCODE_DIVISION_BY_ZERO msg"

definition derive_unsupported :: "oid \<Rightarrow> pg_error" where
  "derive_unsupported funcid = Ereport ERRCODE_FEATURE_NOT_SUPPORTED
    (''Derive(Interpreted): current operator '' @ show_int (sint funcid) @ '' not supported, aborting...'')"

definition seed_m :: "(real ArrayType \<Rightarrow> real ArrayType result) \<Rightarrow> fval list \<Rightarrow> fval \<Rightarrow> fval list result" where
  "seed_m derive args seed =
    (case args of
       a # _ \<Rightarrow> rbind (DatumGetArrayTypeP a) (\<lambda>x. rbind (DatumGetArrayTypeP seed) (\<lambda>s.
         rbind (derive x) (\<lambda>d. rmap (\<lambda>newSeedX. [F8Array newSeedX]) (matrix_elem_mult s d))))
     | _ \<Rightarrow> Inl Crash)"

definition seed_mat_mul :: "fval list \<Rightarrow> fval \<Rightarrow> fval list result" where
  "seed_mat_mul args seed =
    (case args of
       a # b # _ \<Rightarrow> rbind (DatumGetArrayTypeP a) (\<lambda>x. rbind (DatumGetArrayTypeP b) (\<lambda>y. rbind (DatumGetArrayTypeP seed) (\<lambda>s.
         rbind (matrix_mul_internal s y False True) (\<lambda>newSeedX.
         rbind (matrix_mul_internal x s True False) (\<lambda>newSeedY. Inr [F8Array newSeedX, F8Array newSeedY])))))
     | _ \<Rightarrow> Inl Crash)"

definition seed_softmax_cce :: "fval list \<Rightarrow> fval \<Rightarrow> fval list result" where
  "seed_softmax_cce args seed =
    (case args of
       a # b # _ \<Rightarrow> rbind (DatumGetArrayTypeP a) (\<lambda>x. rbind (DatumGetArrayTypeP b) (\<lambda>y. rbind (DatumGetArrayTypeP seed) (\<lambda>s.
         rbind (softmax_cce_derive x y) (\<lambda>d. rbind (matrix_mul_internal s d False False) (\<lambda>newSeedX.
         Inr [F8Array newSeedX, F8Array (createScalar 0)])))))
     | _ \<Rightarrow> Inl Crash)"

definition derive_seeds :: "oid \<Rightarrow> fval list \<Rightarrow> fval \<Rightarrow> fval list result" where
  "derive_seeds funcid args seed =
    (case fn_of_oid funcid of None \<Rightarrow> Inl (derive_unsupported funcid) | Some f \<Rightarrow>
     if f \<in> {F_NUMERIC_MUL, F_FLOAT8MUL} then seed2 (\<lambda>x y s. Inr (s * y, s * x)) args seed
     else if f \<in> {F_NUMERIC_DIV, F_FLOAT8DIV} then
       seed2 (\<lambda>x y s. if y = 0 then Inl (derive_zero_error ''Derive: BINARY DIVISION, division by Zero!'')
                      else Inr (s / y, (s * x * (-1)) / (y * y))) args seed
     else if f \<in> {F_NUMERIC_ADD, F_FLOAT8PL} then Inr [seed, seed]
     else if f \<in> {F_NUMERIC_SUB, F_FLOAT8MI} then rmap (\<lambda>s. [seed, F8 (s * (-1))]) (DatumGetFloat8 seed)
     else if f \<in> {F_DPOW, F_POW_FLOAT8_FLOAT8} then
       seed2 (\<lambda>x y s. Inr (s * y * c_pow x (y - 1), s * c_pow x y * ln x)) args seed
     else if f \<in> {F_DSQRT, F_SQRT_FLOAT8} then
       seed1 (\<lambda>x s. if x = 0 then Inl (derive_zero_error ''Derive: SQRT, division by Zero!'') else Inr (s / (2 * sqrt x))) args seed
     else if f \<in> {F_FLOAT8ABS, F_ABS_FLOAT8} then
       seed1 (\<lambda>x s. if x = 0 then Inl (derive_zero_error ''Derive: ABS, division by Zero!'')
                    else Inr (s * (if x < 0 then -1 else 1))) args seed
     else if f = F_SIN then seed1 (\<lambda>x s. Inr (s * cos x)) args seed
     else if f = F_COS then seed1 (\<lambda>x s. Inr (s * (-1) * sin x)) args seed
     else if f = F_EXP_FLOAT8 then seed1 (\<lambda>x s. Inr (s * exp x)) args seed
     else if f = F_FLOAT8UM then rmap (\<lambda>s. [F8 (s * (-1))]) (DatumGetFloat8 seed)
     else if f = F_ASIN then seed1 (\<lambda>x s. Inr (s * (1 / (sqrt (1 - x) * sqrt (1 + x))))) args seed
     else if f = F_ACOS then seed1 (\<lambda>x s. Inr (s * (1 / (sqrt (1 - x) * sqrt (1 + x))) * (-1))) args seed
     else if f = F_ATAN then seed1 (\<lambda>x s. Inr (s * (1 / (x * x + 1)))) args seed
     else if f = F_ATAN2 then
       seed2 (\<lambda>x y s. Inr (s * (y / (x * x + y * y)), s * ((- x) / (x * x + y * y)))) args seed
     else if f = F_TAN then seed1 (\<lambda>x s. Inr (s * (1 / (cos x * cos x)))) args seed
     else if f = F_COT then seed1 (\<lambda>x s. Inr (s * ((-1) / (sin x * sin x)))) args seed
     else if f = F_DLOG10 then seed1 (\<lambda>x s. Inr (s * (1 / (x * ln 10)))) args seed
     else if f = F_LN_FLOAT8 then seed1 (\<lambda>x s. Inr (s / x)) args seed
     else if f = F_SOFTMAX_CCE then seed_softmax_cce args seed
     else if f = F_SILU then
       seed1 (\<lambda>x s. Inr (s * ((1 + exp (- x) + x * exp (- x)) / ((1 + exp (- x)) * (1 + exp (- x)))))) args seed
     else if f = F_SIGMOID then seed1 (\<lambda>x s. let sigX = 1 / (1 + exp (- x)) in Inr (s * (sigX * (1 - sigX)))) args seed
     else if f = F_TANH then seed1 (\<lambda>x s. Inr (s * (1 - tanh x * tanh x))) args seed
     else if f = F_RELU then
       (case args of a # _ \<Rightarrow> rmap (\<lambda>x. [if x \<le> 0 then F8 0 else seed]) (DatumGetFloat8 a) | _ \<Rightarrow> Inl Crash)
     else if f = F_MAT_MUL then seed_mat_mul args seed
     else if f = F_SILU_M then seed_m silu_m_derive args seed
     else if f = F_SIGMOID_M then seed_m sigmoid_m_derive args seed
     else if f = F_TANH_M then seed_m tanh_m_derive args seed
     else if f = F_RELU_M then seed_m relu_m_derive args seed
     else if f = F_MAT_ADD then Inr [seed, seed]
     else Inl (derive_unsupported funcid))"

text \<open>An \<open>ExprState\<close> after an evaluation: its steps, the slots, and where each input row starts in the derivatives.\<close>

record ExprState =
  steps :: "step list"
  slots :: "dest \<Rightarrow> fval"
  lambdaContainsMatrix :: bool
  indexArray :: "nat list"

definition add_seed :: "bool \<Rightarrow> fval \<Rightarrow> fval \<Rightarrow> fval result" where
  "add_seed matrix d seed =
    (if matrix then rbind (DatumGetArrayTypeP d) (\<lambda>a. rbind (DatumGetArrayTypeP seed) (\<lambda>b. rmap F8Array (matrix_add_inplace a b)))
     else rbind (DatumGetFloat8 d) (\<lambda>x. rbind (DatumGetFloat8 seed) (\<lambda>y. Inr (F8 (x + y)))))"

text \<open>The number is that of the step's opcode.\<close>

definition unrecognized_step :: "nat \<Rightarrow> pg_error" where
  "unrecognized_step opcode = Ereport ERRCODE_FEATURE_NOT_SUPPORTED
    (''Derive(Interpreted): current step-opcode '' @ show_nat opcode @ '' not recognized, aborting...'')"

definition field_index :: "ExprState \<Rightarrow> int \<Rightarrow> int \<Rightarrow> int" where
  "field_index state fetchIndex fieldnum =
    (case steps state ! nat (fetchIndex - 1) of
       EEOP_PARAM_EXTERN _ pid \<Rightarrow> int (indexArray state ! nat (pid - 1)) + (fieldnum - 1)
     | _ \<Rightarrow> -1)"

text \<open>The walk. It returns the index of the step in front of the subtree; \<open>n\<close> bounds the depth of the recursion.\<close>

fun ExecLambdaDeriveSubtree :: "nat \<Rightarrow> ExprState \<Rightarrow> int \<Rightarrow> fval \<Rightarrow> fval list \<Rightarrow> (int \<times> fval list) result"
  and derive_arguments :: "nat \<Rightarrow> ExprState \<Rightarrow> int \<Rightarrow> fval list \<Rightarrow> fval list \<Rightarrow> (int \<times> fval list) result" where
  "ExecLambdaDeriveSubtree 0 state fetchIndex seed derivatives = Inl Diverge"
| "ExecLambdaDeriveSubtree (Suc n) state fetchIndex seed derivatives =
    (if fetchIndex < 0 \<or> int (length (steps state)) \<le> fetchIndex then Inl Crash
     else case steps state ! nat fetchIndex of
       EEOP_FIELDSELECT _ fieldnum _ \<Rightarrow>
         let k = field_index state fetchIndex fieldnum
         in if 1 \<le> fetchIndex \<and> 0 \<le> k \<and> k < int (length derivatives) then
              rmap (\<lambda>d. (fetchIndex - 2, derivatives[nat k := d])) (add_seed (lambdaContainsMatrix state) (derivatives ! nat k) seed)
            else Inl Crash
     | EEOP_CONST _ _ \<Rightarrow> Inr (fetchIndex - 1, derivatives)
     | EEOP_FUNCEXPR _ funcid c nargs \<Rightarrow>
         rbind (derive_seeds funcid (call_args (slots state) c nargs) seed) (\<lambda>seeds.
           derive_arguments n state (fetchIndex - 1) (rev seeds) derivatives)
     | EEOP_PARAM_EXTERN _ _ \<Rightarrow> Inl (unrecognized_step 44)
     | EEOP_DONE \<Rightarrow> Inl (unrecognized_step 0))"
| "derive_arguments n state fetchIndex [] derivatives = Inr (fetchIndex, derivatives)"
| "derive_arguments n state fetchIndex (seed # seeds) derivatives =
    rbind (ExecLambdaDeriveSubtree n state fetchIndex seed derivatives) (\<lambda>(i, d). derive_arguments n state i seeds d)"

definition FLOAT8ARRAYOID :: oid where "FLOAT8ARRAYOID = 1022"
definition FLOAT8OID :: oid where "FLOAT8OID = 701"

definition ExecCheckLambdaForMatrix :: "step list \<Rightarrow> bool" where
  "ExecCheckLambdaForMatrix ss = list_ex (\<lambda>s. case s of EEOP_FIELDSELECT _ _ t \<Rightarrow> t = FLOAT8ARRAYOID | _ \<Rightarrow> False) ss"

text \<open>The index of the first field of each input row, and the number of all fields.\<close>

fun index_from :: "nat \<Rightarrow> nat list \<Rightarrow> nat list" where
  "index_from runningTally [] = []"
| "index_from runningTally (natts # ns) = runningTally # index_from (runningTally + natts) ns"

definition ExecGenerateIndexArray :: "nat list \<Rightarrow> nat list" where
  "ExecGenerateIndexArray natts = index_from 0 natts"

definition ExecGetLambdaDerivativesLength :: "nat list \<Rightarrow> nat" where
  "ExecGetLambdaDerivativesLength natts = sum_list natts"

text \<open>Compile, evaluate on the rows, and derive; \<open>natts\<close> are the numbers of columns of the inputs.\<close>

definition ExecInitLambdaExpr :: "nat list \<Rightarrow> fval Node \<Rightarrow> ExprState option" where
  "ExecInitLambdaExpr natts expr =
    map_option (\<lambda>(ss, _). \<lparr>steps = ss @ [EEOP_DONE], slots = (\<lambda>_. F8 0), lambdaContainsMatrix = ExecCheckLambdaForMatrix (ss @ [EEOP_DONE]),
                            indexArray = ExecGenerateIndexArray natts\<rparr>) (ExecInitExprRec expr Result 0)"

definition ExecDeriveLambdaExpr :: "(oid \<Rightarrow> fval list \<Rightarrow> fval result) \<Rightarrow> ExprState \<Rightarrow> fval list \<Rightarrow> fval list \<Rightarrow> (fval \<times> fval list) result" where
  "ExecDeriveLambdaExpr P expression params derivatives =
    rbind (exec_steps P params (steps expression) (slots expression)) (\<lambda>m.
      let seed = (if lambdaContainsMatrix expression then F8Array (createScalar 1) else F8 1);
          state = expression\<lparr>slots := m\<rparr>
      in rmap (\<lambda>(_, d). (m Result, d))
           (ExecLambdaDeriveSubtree (length (steps state)) state (int (length (steps state)) - 2) seed derivatives))"

end
