(* ===== verification/Derive_Steps.thy ===== *)
theory Derive_Steps
  imports Auto_Diff
begin

text \<open>
  From steps to trees. The steps that \<open>ExecInitExprRec\<close> emits for a body evaluate its expression tree, and the walk of
  \<open>ExecLambdaDeriveSubtree\<close> back through the array of steps, which finds the arguments of a call by the index that the walk
  over the previous argument returns, is reverse-mode differentiation by recursion over that tree.
\<close>

section \<open>Trees\<close>

text \<open>Bodies of constants, input fields and calls.\<close>

datatype dterm = Lit fval | Field int int oid | Call oid "dterm list"

lemma tree_induct [case_names Lit Field Call Nil Cons]:
  assumes "\<And>v. A (Lit v)" "\<And>pid fieldnum rt. A (Field pid fieldnum rt)" "\<And>funcid ts. B ts \<Longrightarrow> A (Call funcid ts)"
    "B []" "\<And>t ts. A t \<Longrightarrow> B ts \<Longrightarrow> B (t # ts)"
  shows "A t" "B ts"
proof -
  have list: "B ts" if "\<And>t. t \<in> set ts \<Longrightarrow> A t" for ts using that by (induction ts) (simp_all add: assms)
  show A: "A t" for t by (induction t) (simp_all add: assms(1-3) list)
  show "B ts" by (rule list) (rule A)
qed

fun to_term :: "fval Node \<Rightarrow> dterm option" where
  "to_term (Const _ _ _ (Scalar v) False) = Some (Lit v)"
| "to_term (FieldSelect (Param PARAM_EXTERN pid _ _ _ _) fieldnum resulttype) = Some (Field pid fieldnum resulttype)"
| "to_term (FuncExpr funcid _ args) = map_option (Call funcid) (those (map to_term args))"
| "to_term (OpExpr T_OpExpr opfuncid _ args) = map_option (Call opfuncid) (those (map to_term args))"
| "to_term _ = None"

fun teval :: "(oid \<Rightarrow> fval list \<Rightarrow> fval result) \<Rightarrow> fval list \<Rightarrow> dterm \<Rightarrow> fval result"
  and tevals :: "(oid \<Rightarrow> fval list \<Rightarrow> fval result) \<Rightarrow> fval list \<Rightarrow> dterm list \<Rightarrow> fval list result" where
  "teval P params (Lit v) = Inr v"
| "teval P params (Field pid fieldnum _) =
    rbind (nth_datum params pid) (\<lambda>r. case r of Row vs \<Rightarrow> nth_datum vs fieldnum | _ \<Rightarrow> Inl Crash)"
| "teval P params (Call funcid ts) = rbind (tevals P params ts) (fn_call P funcid)"
| "tevals P params [] = Inr []"
| "tevals P params (t # ts) = rbind (teval P params t) (\<lambda>v. rmap ((#) v) (tevals P params ts))"

text \<open>Reverse mode over the tree: the arguments of a call get their seeds from the last to the first.\<close>

fun tree_derive :: "(oid \<Rightarrow> fval list \<Rightarrow> fval result) \<Rightarrow> fval list \<Rightarrow> bool \<Rightarrow> nat list \<Rightarrow> dterm \<Rightarrow> fval \<Rightarrow> fval list \<Rightarrow> fval list result"
  and tree_derives :: "(oid \<Rightarrow> fval list \<Rightarrow> fval result) \<Rightarrow> fval list \<Rightarrow> bool \<Rightarrow> nat list \<Rightarrow> dterm list \<Rightarrow> fval list \<Rightarrow> fval list \<Rightarrow> fval list result" where
  "tree_derive P params matrix idx (Lit v) seed D = Inr D"
| "tree_derive P params matrix idx (Field pid fieldnum _) seed D =
    (let k = int (idx ! nat (pid - 1)) + (fieldnum - 1)
     in if 0 \<le> k \<and> k < int (length D) then rmap (\<lambda>d. D[nat k := d]) (add_seed matrix (D ! nat k) seed) else Inl Crash)"
| "tree_derive P params matrix idx (Call funcid ts) seed D =
    rbind (tevals P params ts) (\<lambda>vs. rbind (derive_seeds funcid vs seed) (\<lambda>seeds. tree_derives P params matrix idx ts seeds D))"
| "tree_derives P params matrix idx (t # ts) (seed # seeds) D =
    rbind (tree_derives P params matrix idx ts seeds D) (tree_derive P params matrix idx t seed)"
| "tree_derives P params matrix idx _ _ D = Inr D"

text \<open>The calls have the number of arguments of their function.\<close>

definition fn_arity :: "fn \<Rightarrow> nat" where
  "fn_arity f =
    (if f \<in> {F_NUMERIC_MUL, F_FLOAT8MUL, F_NUMERIC_DIV, F_FLOAT8DIV, F_NUMERIC_ADD, F_FLOAT8PL, F_NUMERIC_SUB, F_FLOAT8MI,
             F_DPOW, F_POW_FLOAT8_FLOAT8, F_POWER_FLOAT8_FLOAT8, F_ATAN2, F_SOFTMAX_CCE, F_MAT_MUL, F_MAT_ADD} then 2 else 1)"

fun arity_ok :: "dterm \<Rightarrow> bool" where
  "arity_ok (Call funcid ts) \<longleftrightarrow>
    (case fn_of_oid funcid of None \<Rightarrow> True | Some f \<Rightarrow> length ts = fn_arity f) \<and> list_all arity_ok ts"
| "arity_ok _ \<longleftrightarrow> True"

fun array_field :: "dterm \<Rightarrow> bool" where
  "array_field (Field _ _ resulttype) \<longleftrightarrow> resulttype = FLOAT8ARRAYOID"
| "array_field (Call _ ts) \<longleftrightarrow> list_ex array_field ts"
| "array_field (Lit _) \<longleftrightarrow> False"

lemma seed_lengths:
  "seed1 rule1 args s = Inr ss \<Longrightarrow> length ss = 1"
  "seed2 rule2 args s = Inr ss \<Longrightarrow> length ss = 2"
  "seed_m der args s = Inr ss \<Longrightarrow> length ss = 1"
  "seed_mat_mul args s = Inr ss \<Longrightarrow> length ss = 2"
  "seed_softmax_cce args s = Inr ss \<Longrightarrow> length ss = 2"
  by (auto simp: seed1_def seed2_def seed_m_def seed_mat_mul_def seed_softmax_cce_def result_simps split: list.splits)

lemma derive_seeds_length: "derive_seeds funcid vs s = Inr ss \<Longrightarrow> fn_of_oid funcid = Some f \<Longrightarrow> length ss = fn_arity f"
  by (cases f) (auto simp: derive_seeds_def fn_arity_def result_simps split: list.splits dest: seed_lengths)

section \<open>Input rows\<close>

text \<open>The position of a field in the derivatives, the fields that exist, and the rows that hold the value of each position.\<close>

definition field_pos :: "nat list \<Rightarrow> int \<Rightarrow> int \<Rightarrow> nat" where
  "field_pos natts pid fieldnum = ExecGenerateIndexArray natts ! nat (pid - 1) + nat (fieldnum - 1)"

fun fields_ok :: "nat list \<Rightarrow> dterm \<Rightarrow> bool" where
  "fields_ok natts (Lit v) \<longleftrightarrow> True"
| "fields_ok natts (Field pid fieldnum _) \<longleftrightarrow> 1 \<le> pid \<and> pid \<le> int (length natts) \<and> 1 \<le> fieldnum \<and> fieldnum \<le> int (natts ! nat (pid - 1))"
| "fields_ok natts (Call funcid ts) \<longleftrightarrow> list_all (fields_ok natts) ts"

definition input_rows :: "nat list \<Rightarrow> (nat \<Rightarrow> 'a) \<Rightarrow> ('a \<Rightarrow> fval) \<Rightarrow> fval list" where
  "input_rows natts xs f =
    map (\<lambda>p. Row (map (\<lambda>j. f (xs (ExecGenerateIndexArray natts ! p + j))) [0..<natts ! p])) [0..<length natts]"

lemma input_field:
  assumes "fields_ok natts (Field pid fieldnum rt)"
  shows "teval P (input_rows natts xs f) (Field pid fieldnum rt) = Inr (f (xs (field_pos natts pid fieldnum)))"
  using assms by (auto simp: nth_datum_def input_rows_def field_pos_def)

lemma tevals_map: "(\<And>t. t \<in> set ts \<Longrightarrow> teval P params t = Inr (f t)) \<Longrightarrow> tevals P params ts = Inr (map f ts)"
  by (induction ts) simp_all

lemma index_from_add: "i < length ns \<Longrightarrow> index_from a ns ! i = a + sum_list (take i ns)"
  by (induction ns arbitrary: a i) (auto simp: nth_Cons split: nat.splits)

lemma field_pos_less: "fields_ok natts (Field pid fieldnum rt) \<Longrightarrow> field_pos natts pid fieldnum < sum_list natts"
proof -
  assume ok: "fields_ok natts (Field pid fieldnum rt)"
  let ?p = "nat (pid - 1)"
  have p: "?p < length natts" "nat (fieldnum - 1) < natts ! ?p" using ok by auto
  have "sum_list natts = sum_list (take ?p natts) + natts ! ?p + sum_list (drop (Suc ?p) natts)"
    by (subst id_take_nth_drop [OF p(1)]) simp
  then show ?thesis using p by (simp add: field_pos_def ExecGenerateIndexArray_def index_from_add)
qed

section \<open>Compilation\<close>

fun calls :: "dterm \<Rightarrow> nat" where
  "calls (Call funcid ts) = Suc (sum_list (map calls ts))"
| "calls _ = 0"

fun code :: "dterm \<Rightarrow> dest \<Rightarrow> nat \<Rightarrow> step list"
  and codes :: "dterm list \<Rightarrow> nat \<Rightarrow> nat \<Rightarrow> nat \<Rightarrow> step list" where
  "code (Lit v) d k = [EEOP_CONST d v]"
| "code (Field pid fieldnum resulttype) d k = [EEOP_PARAM_EXTERN d pid, EEOP_FIELDSELECT d fieldnum resulttype]"
| "code (Call funcid ts) d k = codes ts k 0 (Suc k) @ [EEOP_FUNCEXPR d funcid k (length ts)]"
| "codes [] c argno k = []"
| "codes (t # ts) c argno k = code t (Arg c argno) k @ codes ts c (Suc argno) (k + calls t)"

lemma those_map_Cons: "those (map f (x # xs)) = Some ys \<longleftrightarrow> (\<exists>y ys'. f x = Some y \<and> those (map f xs) = Some ys' \<and> ys = y # ys')"
  by (auto split: option.splits)

lemma those_length: "those (map f xs) = Some ys \<Longrightarrow> length xs = length ys"
  by (induction xs arbitrary: ys) (auto split: option.splits)

lemma init_code:
  "to_term e = Some t \<Longrightarrow> ExecInitExprRec e d k = Some (code t d k, k + calls t)"
  "those (map to_term es) = Some ts \<Longrightarrow> ExecInitFunc es c argno k = Some (codes ts c argno k, k + sum_list (map calls ts))"
proof (induction e d k and es c argno k arbitrary: t and ts rule: ExecInitExprRec_ExecInitFunc.induct)
  case (3 arg fieldnum resulttype d k)
  then show ?case by (cases arg) (auto split: if_splits ParamKind.splits elim: to_term.elims)
next
  case (4 funcid rt args d k)
  then show ?case by (auto simp: those_length)
next
  case (5 opfuncid rt args d k)
  then show ?case by (auto simp: those_length)
next
  case (8 arg args c argno k)
  from "8.prems" obtain t0 ts0 where t: "to_term arg = Some t0" "those (map to_term args) = Some ts0" "ts = t0 # ts0"
    unfolding those_map_Cons by blast
  show ?case using "8.IH"(1) [OF t(1)] "8.IH"(2) [OF _ refl t(2)] t(3) by simp
qed simp_all

lemma code_matrix:
  "ExecCheckLambdaForMatrix (code t d k) = array_field t"
  "ExecCheckLambdaForMatrix (codes ts c argno k) = list_ex array_field ts"
  by (induction t d k and ts c argno k rule: code_codes.induct) (auto simp: ExecCheckLambdaForMatrix_def)

section \<open>Evaluation\<close>

text \<open>After an evaluation the argument slots of the calls of a body hold the values of its subterms.\<close>

fun holds :: "(oid \<Rightarrow> fval list \<Rightarrow> fval result) \<Rightarrow> fval list \<Rightarrow> (dest \<Rightarrow> fval) \<Rightarrow> dterm \<Rightarrow> nat \<Rightarrow> bool"
  and holds_all :: "(oid \<Rightarrow> fval list \<Rightarrow> fval result) \<Rightarrow> fval list \<Rightarrow> (dest \<Rightarrow> fval) \<Rightarrow> dterm list \<Rightarrow> nat \<Rightarrow> bool" where
  "holds P params m (Call funcid ts) k \<longleftrightarrow> tevals P params ts = Inr (call_args m k (length ts)) \<and> holds_all P params m ts (Suc k)"
| "holds P params m _ k \<longleftrightarrow> True"
| "holds_all P params m [] k \<longleftrightarrow> True"
| "holds_all P params m (t # ts) k \<longleftrightarrow> holds P params m t k \<and> holds_all P params m ts (k + calls t)"

fun in_calls :: "nat \<Rightarrow> nat \<Rightarrow> dest \<Rightarrow> bool" where
  "in_calls a b (Arg c i) \<longleftrightarrow> a \<le> c \<and> c < b"
| "in_calls a b Result \<longleftrightarrow> False"

fun below :: "nat \<Rightarrow> dest \<Rightarrow> bool" where
  "below k (Arg c i) \<longleftrightarrow> c < k"
| "below k Result \<longleftrightarrow> True"

lemma holds_cong:
  "(\<And>x. in_calls k (k + calls t) x \<Longrightarrow> m' x = m x) \<Longrightarrow> holds P params m' t k = holds P params m t k"
  "(\<And>x. in_calls k (k + sum_list (map calls ts)) x \<Longrightarrow> m' x = m x) \<Longrightarrow> holds_all P params m' ts k = holds_all P params m ts k"
proof (induction P params m t k and P params m ts k rule: holds_holds_all.induct)
  case (1 P params m funcid ts k)
  have "holds_all P params m' ts (Suc k) = holds_all P params m ts (Suc k)"
  proof (rule 1)
    fix x assume "in_calls (Suc k) (Suc k + sum_list (map calls ts)) x"
    then show "m' x = m x" using "1.prems" by (cases x) auto
  qed
  moreover have "call_args m' k (length ts) = call_args m k (length ts)" by (simp add: call_args_def "1.prems")
  ultimately show ?case by simp
next
  case (4 P params m t ts k)
  have "holds P params m' t k = holds P params m t k"
  proof (rule 4(1))
    fix x assume "in_calls k (k + calls t) x"
    then show "m' x = m x" using "4.prems" by (cases x) auto
  qed
  moreover have "holds_all P params m' ts (k + calls t) = holds_all P params m ts (k + calls t)"
  proof (rule 4(2))
    fix x assume "in_calls (k + calls t) (k + calls t + sum_list (map calls ts)) x"
    then show "m' x = m x" using "4.prems" by (cases x) (auto simp: add.assoc)
  qed
  ultimately show ?case by simp
qed simp_all

lemma exec_steps_append: "exec_steps P params (ss @ ss') m = rbind (exec_steps P params ss m) (exec_steps P params ss')"
proof (induction ss arbitrary: m)
  case (Cons s ss)
  then show ?case by (cases "exec_step P params s m") simp_all
qed simp

lemma exec_field: "exec_steps P params (code (Field pid fieldnum rt) d k) m = rmap (\<lambda>v. m(d := v)) (teval P params (Field pid fieldnum rt))"
proof (cases "nth_datum params pid")
  case (Inr r)
  then show ?thesis by (cases r; cases "nth_datum params pid"; cases r) (auto simp: rmap_def rbind_def split: sum.splits)
qed simp

lemma tevals_length: "tevals P params ts = Inr vs \<Longrightarrow> length vs = length ts"
  by (induction ts arbitrary: vs) (auto simp: result_simps)

lemma exec_code:
  "teval P params t = Inr v \<Longrightarrow> below k d \<Longrightarrow>
    \<exists>m'. exec_steps P params (code t d k) m = Inr m' \<and> m' d = v \<and> holds P params m' t k \<and>
      (\<forall>x. x \<noteq> d \<longrightarrow> \<not> in_calls k (k + calls t) x \<longrightarrow> m' x = m x)"
  "tevals P params ts = Inr vs \<Longrightarrow> c < k \<Longrightarrow>
    \<exists>m'. exec_steps P params (codes ts c argno k) m = Inr m' \<and>
      map (\<lambda>i. m' (Arg c (argno + i))) [0..<length ts] = vs \<and> holds_all P params m' ts k \<and>
      (\<forall>x. \<not> (\<exists>i \<ge> argno. x = Arg c i) \<longrightarrow> \<not> in_calls k (k + sum_list (map calls ts)) x \<longrightarrow> m' x = m x)"
proof (induction t d k and ts c argno k arbitrary: m v and m vs rule: code_codes.induct)
  case (2 pid fieldnum rt d k)
  show ?case unfolding exec_field "2.prems"(1) by auto
next
  case (3 funcid ts d k)
  from "3.prems"(1) obtain vs where vs: "tevals P params ts = Inr vs" "fn_call P funcid vs = Inr v" by (auto simp: result_simps)
  obtain m1 where m1: "exec_steps P params (codes ts k 0 (Suc k)) m = Inr m1"
      "call_args m1 k (length ts) = vs" "holds_all P params m1 ts (Suc k)"
      "\<forall>x. \<not> (\<exists>i. x = Arg k i) \<longrightarrow> \<not> in_calls (Suc k) (Suc k + sum_list (map calls ts)) x \<longrightarrow> m1 x = m x"
    using "3.IH" [OF vs(1), of m] by (auto simp: call_args_def)
  let ?m = "m1(d := v)"
  have "exec_steps P params (code (Call funcid ts) d k) m = Inr ?m" using m1(1,2) vs(2) by (simp add: exec_steps_append)
  moreover have "holds P params ?m (Call funcid ts) k"
  proof -
    have "holds P params m1 (Call funcid ts) k" using m1(2,3) vs(1) by simp
    moreover have "?m x = m1 x" if "in_calls k (k + calls (Call funcid ts)) x" for x using that "3.prems"(2) by (cases x; cases d) auto
    ultimately show ?thesis using holds_cong(1) [of k "Call funcid ts" ?m m1] by blast
  qed
  moreover have "?m x = m x" if "x \<noteq> d" "\<not> in_calls k (k + calls (Call funcid ts)) x" for x
    using that m1(4) by (cases x) auto
  moreover have "?m d = v" by simp
  ultimately show ?case by blast
next
  case (5 t ts c argno k)
  from "5.prems"(1) obtain v vs' where vs: "teval P params t = Inr v" "tevals P params ts = Inr vs'" "vs = v # vs'" by (auto simp: result_simps)
  obtain m1 where m1: "exec_steps P params (code t (Arg c argno) k) m = Inr m1" "m1 (Arg c argno) = v"
      "holds P params m1 t k" "\<forall>x. x \<noteq> Arg c argno \<longrightarrow> \<not> in_calls k (k + calls t) x \<longrightarrow> m1 x = m x"
    using "5.IH"(1) [OF vs(1), of m] "5.prems"(2) by auto
  obtain m2 where m2: "exec_steps P params (codes ts c (Suc argno) (k + calls t)) m1 = Inr m2"
      "map (\<lambda>i. m2 (Arg c (Suc argno + i))) [0..<length ts] = vs'" "holds_all P params m2 ts (k + calls t)"
      "\<forall>x. \<not> (\<exists>i \<ge> Suc argno. x = Arg c i) \<longrightarrow> \<not> in_calls (k + calls t) (k + calls t + sum_list (map calls ts)) x \<longrightarrow> m2 x = m1 x"
    using "5.IH"(2) [OF vs(2), of m1] "5.prems"(2) by auto
  have "exec_steps P params (codes (t # ts) c argno k) m = Inr m2" using m1(1) m2(1) by (simp add: exec_steps_append)
  moreover have "map (\<lambda>i. m2 (Arg c (argno + i))) [0..<length (t # ts)] = vs"
  proof -
    have "m2 (Arg c argno) = m1 (Arg c argno)" using m2(4) "5.prems"(2) by simp
    moreover have "map (\<lambda>i. m2 (Arg c (argno + i))) [Suc 0..<Suc (length ts)] = vs'"
      unfolding map_Suc_upt [symmetric] map_map using m2(2) by (simp add: comp_def)
    ultimately show ?thesis using m1(2) vs(3) by (simp add: upt_conv_Cons del: upt_Suc)
  qed
  moreover have "holds P params m2 t k"
  proof -
    have "m2 x = m1 x" if "in_calls k (k + calls t) x" for x using that m2(4) "5.prems"(2) by (cases x) auto
    then show ?thesis using holds_cong(1) [of k t m2 m1] m1(3) by blast
  qed
  moreover have "m2 x = m x" if "\<not> (\<exists>i \<ge> argno. x = Arg c i)" "\<not> in_calls k (k + sum_list (map calls (t # ts))) x" for x
  proof -
    have "m2 x = m1 x" using m2(4) that by (cases x) auto
    moreover have "m1 x = m x" using m1(4) that by (cases x) auto
    ultimately show ?thesis by simp
  qed
  ultimately show ?case using m2(3) by (intro exI [of _ m2]) simp
qed simp_all

lemma exec_code_error:
  "teval P params t = Inl e \<Longrightarrow> below k d \<Longrightarrow> exec_steps P params (code t d k) m = Inl e"
  "tevals P params ts = Inl e \<Longrightarrow> c < k \<Longrightarrow> exec_steps P params (codes ts c argno k) m = Inl e"
proof (induction t d k and ts c argno k arbitrary: m and m rule: code_codes.induct)
  case (2 pid fieldnum rt d k)
  show ?case unfolding exec_field "2.prems"(1) by simp
next
  case (3 funcid ts d k)
  show ?case
  proof (cases "tevals P params ts")
    case (Inr vs)
    obtain m1 where "exec_steps P params (codes ts k 0 (Suc k)) m = Inr m1" "call_args m1 k (length ts) = vs"
      using exec_code(2) [OF Inr, of k "Suc k" 0 m] by (auto simp: call_args_def)
    then show ?thesis using "3.prems"(1) Inr by (simp add: exec_steps_append)
  qed (use 3 in \<open>simp add: exec_steps_append\<close>)
next
  case (5 t ts c argno k)
  show ?case
  proof (cases "teval P params t")
    case (Inr v)
    then have e: "tevals P params ts = Inl e" using "5.prems"(1) by (cases "tevals P params ts") auto
    obtain m1 where "exec_steps P params (code t (Arg c argno) k) m = Inr m1"
      using exec_code(1) [OF Inr, of k "Arg c argno" m] "5.prems"(2) by auto
    then show ?thesis using "5.IH"(2) [OF e] "5.prems"(2) by (simp add: exec_steps_append)
  qed (use 5 in \<open>simp add: exec_steps_append\<close>)
qed simp_all

section \<open>The walk\<close>

lemma derive_arguments_append:
  "derive_arguments n st i (ss @ ss') D = rbind (derive_arguments n st i ss D) (\<lambda>(i, d). derive_arguments n st i ss' d)"
proof (induction ss arbitrary: i D)
  case (Cons s ss)
  then show ?case by (cases "ExecLambdaDeriveSubtree n st i s D") auto
qed simp

lemma rmap_pair: "rbind (rmap (\<lambda>x. (i, x)) r) (\<lambda>(i, d). f i d) = rbind r (f i)"
  by (cases r) simp_all

lemma derive_walk:
  "steps st = pre @ code t d k @ post \<Longrightarrow> holds P params (slots st) t k \<Longrightarrow> arity_ok t \<Longrightarrow> length (code t d k) \<le> n \<Longrightarrow>
    ExecLambdaDeriveSubtree n st (int (length pre) + int (length (code t d k)) - 1) s D =
      rmap (\<lambda>D'. (int (length pre) - 1, D')) (tree_derive P params (lambdaContainsMatrix st) (indexArray st) t s D)"
  "steps st = pre @ codes ts c argno k @ post \<Longrightarrow> holds_all P params (slots st) ts k \<Longrightarrow> list_all arity_ok ts \<Longrightarrow>
    length (codes ts c argno k) \<le> n \<Longrightarrow> length ss = length ts \<Longrightarrow>
    derive_arguments n st (int (length pre) + int (length (codes ts c argno k)) - 1) (rev ss) D =
      rmap (\<lambda>D'. (int (length pre) - 1, D')) (tree_derives P params (lambdaContainsMatrix st) (indexArray st) ts ss D)"
proof (induction t d k and ts c argno k arbitrary: pre post s D n and pre post ss D n rule: code_codes.induct)
  case (1 v d k)
  then obtain n' where "n = Suc n'" by (cases n) auto
  then show ?case using 1 by (simp add: nth_append)
next
  case (2 pid fieldnum rt d k)
  then obtain n' where "n = Suc n'" by (cases n) auto
  moreover have "steps st ! (length pre + 1) = EEOP_FIELDSELECT d fieldnum rt" "steps st ! length pre = EEOP_PARAM_EXTERN d pid"
    using "2.prems"(1) by (simp_all add: nth_append)
  moreover from this(2) have "field_index st (1 + int (length pre)) fieldnum = int (indexArray st ! nat (pid - 1)) + (fieldnum - 1)"
    by (simp add: field_index_def)
  moreover have "int (length pre) + int (length (code (Field pid fieldnum rt) d k)) - 1 = 1 + int (length pre)"
    "nat (1 + int (length pre)) = length pre + 1" "length (steps st) \<ge> length pre + 2" using "2.prems"(1) by simp_all
  ultimately show ?case by (simp add: Let_def rmap_def rbind_assoc del: code.simps)
next
  case (3 funcid ts d k)
  then obtain n' where n: "n = Suc n'" by (cases n) auto
  let ?l = "length (codes ts k 0 (Suc k))" and ?vs = "call_args (slots st) k (length ts)"
  have vs: "tevals P params ts = Inr ?vs" "holds_all P params (slots st) ts (Suc k)" using "3.prems"(2) by simp_all
  have step: "steps st ! (length pre + ?l) = EEOP_FUNCEXPR d funcid k (length ts)" "length pre + ?l < length (steps st)"
    using "3.prems"(1) by (simp_all add: nth_append)
  have walk: "ExecLambdaDeriveSubtree n st (int (length pre) + int (length (code (Call funcid ts) d k)) - 1) s D =
      rbind (derive_seeds funcid ?vs s) (\<lambda>seeds. derive_arguments n' st (int (length pre) + int ?l - 1) (rev seeds) D)"
    using step n by (simp add: nat_add_distrib flip: of_nat_add)
  show ?case
  proof (cases "derive_seeds funcid ?vs s")
    case (Inr ss)
    then obtain f where f: "fn_of_oid funcid = Some f" by (cases "fn_of_oid funcid") (auto simp: derive_seeds_def)
    have "length ss = length ts" using derive_seeds_length [OF Inr f] "3.prems"(3) f by simp
    then have "derive_arguments n' st (int (length pre) + int ?l - 1) (rev ss) D =
        rmap (\<lambda>D'. (int (length pre) - 1, D')) (tree_derives P params (lambdaContainsMatrix st) (indexArray st) ts ss D)"
      using "3.prems" vs n by (intro "3.IH" [where post = "EEOP_FUNCEXPR d funcid k (length ts) # post"]) auto
    then show ?thesis unfolding walk using vs(1) Inr by simp
  qed (unfold walk, use vs(1) in simp)
next
  case (5 t ts c argno k)
  then obtain s ss' where ss: "ss = s # ss'" "length ss' = length ts" by (cases ss) auto
  let ?a = "length (code t (Arg c argno) k)" and ?b = "length (codes ts c (Suc argno) (k + calls t))"
  have "derive_arguments n st (int (length (pre @ code t (Arg c argno) k)) + int ?b - 1) (rev ss') D =
      rmap (\<lambda>D'. (int (length (pre @ code t (Arg c argno) k)) - 1, D')) (tree_derives P params (lambdaContainsMatrix st) (indexArray st) ts ss' D)"
    using "5.prems" ss by (intro "5.IH"(2) [where post = post]) auto
  moreover have "ExecLambdaDeriveSubtree n st (int (length pre) + int ?a - 1) s D' =
      rmap (\<lambda>D'. (int (length pre) - 1, D')) (tree_derive P params (lambdaContainsMatrix st) (indexArray st) t s D')" for D'
    using "5.prems" ss by (intro "5.IH"(1) [where post = "codes ts c (Suc argno) (k + calls t) @ post"]) auto
  ultimately show ?case using ss
    by (cases "tree_derives P params (lambdaContainsMatrix st) (indexArray st) ts ss' D";
        simp add: derive_arguments_append add.assoc split_def rmap_def rbind_assoc)
qed simp

definition first_seed :: "dterm \<Rightarrow> fval" where
  "first_seed t = (if array_field t then F8Array (createScalar 1) else F8 1)"

lemma init_term:
  assumes "to_term expr = Some t"
  obtains st where "ExecInitLambdaExpr natts expr = Some st" "steps st = code t Result 0 @ [EEOP_DONE]"
    "lambdaContainsMatrix st = array_field t" "indexArray st = ExecGenerateIndexArray natts"
  using init_code(1) [OF assms, of Result 0] code_matrix(1) [of t Result 0]
  by (auto simp: ExecInitLambdaExpr_def ExecCheckLambdaForMatrix_def)

lemma eval_tree:
  assumes "steps st = code t Result 0 @ [EEOP_DONE]"
  shows "rmap (\<lambda>m. m Result) (exec_steps P params (steps st) m) = teval P params t"
proof (cases "teval P params t")
  case (Inl e)
  then show ?thesis using exec_code_error(1) [OF Inl, of 0 Result m] assms by (simp add: exec_steps_append)
next
  case (Inr v)
  then show ?thesis using exec_code(1) [OF Inr, of 0 Result m] assms by (auto simp: exec_steps_append)
qed

lemma derive_tree:
  assumes st: "steps st = code t Result 0 @ [EEOP_DONE]" "lambdaContainsMatrix st = array_field t" and "arity_ok t"
  shows "ExecDeriveLambdaExpr P st params D =
    rbind (teval P params t) (\<lambda>v. rmap (Pair v) (tree_derive P params (array_field t) (indexArray st) t (first_seed t) D))"
proof (cases "teval P params t")
  case (Inl e)
  then show ?thesis using exec_code_error(1) [OF Inl, of 0 Result "slots st"] st
    by (simp add: ExecDeriveLambdaExpr_def exec_steps_append)
next
  case (Inr v)
  then obtain m where m: "exec_steps P params (steps st) (slots st) = Inr m" "m Result = v" "holds P params m t 0"
    using exec_code(1) [OF Inr, of 0 Result "slots st"] st by (auto simp: exec_steps_append)
  have "ExecLambdaDeriveSubtree (length (steps st)) (st\<lparr>slots := m\<rparr>) (int (length ([] :: step list)) + int (length (code t Result 0)) - 1) s D =
      rmap (\<lambda>D'. (int (length ([] :: step list)) - 1, D')) (tree_derive P params (array_field t) (indexArray st) t s D)" for s
    using derive_walk(1) [of "st\<lparr>slots := m\<rparr>" "[]" t Result 0 "[EEOP_DONE]" P params "length (steps st)"] st m assms(3) by simp
  then show ?thesis using Inr m st
    by (simp add: ExecDeriveLambdaExpr_def Let_def first_seed_def rmap_def rbind_assoc)
qed

text \<open>The value of a lambda: what the evaluation of its steps leaves in the result.\<close>

definition lambda_result :: "(oid \<Rightarrow> fval list \<Rightarrow> fval result) \<Rightarrow> ExprState \<Rightarrow> fval list \<Rightarrow> real" where
  "lambda_result P expression params =
    (case rbind (exec_steps P params (steps expression) (slots expression)) (\<lambda>m. DatumGetFloat8 (m Result)) of Inr v \<Rightarrow> v | Inl _ \<Rightarrow> 0)"

lemma lambda_result_tree:
  assumes "steps st = code t Result 0 @ [EEOP_DONE]" "teval P params t = Inr (F8 v)"
  shows "lambda_result P st params = v"
proof -
  have "rmap (\<lambda>m. m Result) (exec_steps P params (steps st) (slots st)) = Inr (F8 v)" using eval_tree [OF assms(1)] assms(2) by simp
  then show ?thesis by (auto simp: lambda_result_def result_simps dest: sym)
qed

text \<open>C21: steps and trees. For a body of constants, input fields and calls, every call with the number of arguments of its
  function, the compiled steps evaluate the expression tree, and \<open>ExecDeriveLambdaExpr\<close>, which walks back through the array of
  steps, is reverse-mode differentiation by recursion over the tree: it returns the same value and the same derivatives, or
  the same error.\<close>

theorem derive_steps_tree:
  assumes "to_term expr = Some t" "arity_ok t"
  shows "\<exists>st. ExecInitLambdaExpr natts expr = Some st \<and>
    (\<forall>P params m. rmap (\<lambda>m. m Result) (exec_steps P params (steps st) m) = teval P params t) \<and>
    (\<forall>P params D. ExecDeriveLambdaExpr P st params D =
      rbind (teval P params t) (\<lambda>v. rmap (Pair v) (tree_derive P params (array_field t) (ExecGenerateIndexArray natts) t (first_seed t) D)))"
proof -
  obtain st where "ExecInitLambdaExpr natts expr = Some st" and st: "steps st = code t Result 0 @ [EEOP_DONE]"
      "lambdaContainsMatrix st = array_field t" "indexArray st = ExecGenerateIndexArray natts"
    by (rule init_term [OF assms(1)])
  then show ?thesis using eval_tree [OF st(1)] derive_tree [OF st(1,2) assms(2)] by auto
qed

text \<open>The body \<open>pow(a.x - 3, 2) + a.x * a.y\<close>.\<close>

definition ex_field :: "int \<Rightarrow> fval Node" where
  "ex_field i = FieldSelect (Param PARAM_EXTERN 1 2249 (-1) 0 True) i FLOAT8OID"

definition ex_float :: "real \<Rightarrow> fval Node" where
  "ex_float v = Const FLOAT8OID (-1) 0 (Scalar (F8 v)) False"

definition ex_body :: "fval Node" where
  "ex_body = OpExpr T_OpExpr 218 FLOAT8OID
    [FuncExpr 1346 FLOAT8OID [OpExpr T_OpExpr 219 FLOAT8OID [ex_field 1, ex_float 3], ex_float 2],
     OpExpr T_OpExpr 216 FLOAT8OID [ex_field 1, ex_field 2]]"

definition ex_body_term :: dterm where
  "ex_body_term = Call 218 [Call 1346 [Call 219 [Field 1 1 FLOAT8OID, Lit (F8 3)], Lit (F8 2)],
    Call 216 [Field 1 1 FLOAT8OID, Field 1 2 FLOAT8OID]]"

lemma ex_body_tree: "to_term ex_body = Some ex_body_term" "arity_ok ex_body_term"
  by (simp_all add: ex_body_def ex_field_def ex_float_def ex_body_term_def fn_of_oid_def fn_oids_def fn_arity_def)

theorem derive_steps_tree_witness:
  "\<exists>st. ExecInitLambdaExpr [2] ex_body = Some st \<and>
    ExecDeriveLambdaExpr (\<lambda>_ _. Inl Crash) st [Row [F8 1, F8 5]] [F8 0, F8 0] = Inr (F8 9, [F8 1, F8 1])"
proof -
  obtain st where st: "ExecInitLambdaExpr [2] ex_body = Some st"
    "\<forall>P params D. ExecDeriveLambdaExpr P st params D = rbind (teval P params ex_body_term) (\<lambda>v. rmap (Pair v)
      (tree_derive P params (array_field ex_body_term) (ExecGenerateIndexArray [2]) ex_body_term (first_seed ex_body_term) D))"
    using derive_steps_tree [OF ex_body_tree] by blast
  have call: "fn_of_oid 216 = Some F_FLOAT8MUL" "fn_of_oid 218 = Some F_FLOAT8PL" "fn_of_oid 219 = Some F_FLOAT8MI" "fn_of_oid 1346 = Some F_POW_FLOAT8_FLOAT8"
    by (simp_all add: fn_of_oid_def fn_oids_def)
  show ?thesis using st
    by (simp add: ex_body_term_def nth_datum_def fn_call_def call binary8_def float8mul_def float8pl_def float8mi_def dpow_def derive_seeds_def seed2_def first_seed_def
      FLOAT8OID_def FLOAT8ARRAYOID_def Let_def ExecGenerateIndexArray_def add_seed_def c_pow_def)
qed

end
