(* ===== verification/Diff_Correct.thy ===== *)
theory Diff_Correct
  imports Derive_Steps
begin

text \<open>
  Derivation computes derivatives: for bodies of \<open>float8\<close> arithmetic, the walk of \<open>ExecLambdaDeriveSubtree\<close> adds to every
  entry of the derivatives the partial derivative of the value of the lambda in the input field of that entry.
\<close>

section \<open>The functions\<close>

text \<open>
  Value, partial derivatives and domain of the scalar functions. The flag of a binary function tells that its second
  argument is a constant: with a constant integer exponent a power may have a base that is not
  positive.
\<close>

datatype rule =
    Unary "real \<Rightarrow> real" "real \<Rightarrow> real" "real \<Rightarrow> bool"
  | Binary "real \<Rightarrow> real \<Rightarrow> real" "real \<Rightarrow> real \<Rightarrow> real" "real \<Rightarrow> real \<Rightarrow> real" "bool \<Rightarrow> real \<Rightarrow> real \<Rightarrow> bool"

definition abs_rule :: rule where
  "abs_rule = Unary abs (\<lambda>x. if x < 0 then -1 else 1) (\<lambda>x. x \<noteq> 0)"

definition pow_rule :: rule where
  "pow_rule = Binary c_pow (\<lambda>x y. y * c_pow x (y - 1)) (\<lambda>x y. c_pow x y * ln x)
    (\<lambda>c x y. 0 < x \<or> c \<and> of_int \<lfloor>y\<rfloor> = y \<and> (x \<noteq> 0 \<or> 1 \<le> y))"

definition sqrt_rule :: rule where
  "sqrt_rule = Unary sqrt (\<lambda>x. 1 / (2 * sqrt x)) (\<lambda>x. 0 < x)"

definition silu_rule :: rule where
  "silu_rule = Unary silu (\<lambda>x. (1 + exp (- x) + x * exp (- x)) / ((1 + exp (- x)) * (1 + exp (- x)))) (\<lambda>_. True)"

definition scalar_rule :: "fn \<Rightarrow> rule option" where
  "scalar_rule f =
    (case f of
       F_FLOAT8MUL \<Rightarrow> Some (Binary (\<lambda>x y. x * y) (\<lambda>x y. y) (\<lambda>x y. x) (\<lambda>_ _ _. True))
     | F_FLOAT8DIV \<Rightarrow> Some (Binary (\<lambda>x y. x / y) (\<lambda>x y. 1 / y) (\<lambda>x y. - x / (y * y)) (\<lambda>_ x y. y \<noteq> 0))
     | F_FLOAT8PL \<Rightarrow> Some (Binary (\<lambda>x y. x + y) (\<lambda>_ _. 1) (\<lambda>_ _. 1) (\<lambda>_ _ _. True))
     | F_FLOAT8MI \<Rightarrow> Some (Binary (\<lambda>x y. x - y) (\<lambda>_ _. 1) (\<lambda>_ _. -1) (\<lambda>_ _ _. True))
     | F_FLOAT8UM \<Rightarrow> Some (Unary (\<lambda>x. - x) (\<lambda>_. -1) (\<lambda>_. True))
     | F_FLOAT8ABS \<Rightarrow> Some abs_rule | F_ABS_FLOAT8 \<Rightarrow> Some abs_rule
     | F_DPOW \<Rightarrow> Some pow_rule | F_POW_FLOAT8_FLOAT8 \<Rightarrow> Some pow_rule
     | F_DSQRT \<Rightarrow> Some sqrt_rule | F_SQRT_FLOAT8 \<Rightarrow> Some sqrt_rule
     | F_EXP_FLOAT8 \<Rightarrow> Some (Unary exp exp (\<lambda>_. True))
     | F_LN_FLOAT8 \<Rightarrow> Some (Unary ln (\<lambda>x. 1 / x) (\<lambda>x. 0 < x))
     | F_DLOG10 \<Rightarrow> Some (Unary (log 10) (\<lambda>x. 1 / (x * ln 10)) (\<lambda>x. 0 < x))
     | F_SIN \<Rightarrow> Some (Unary sin cos (\<lambda>_. True))
     | F_COS \<Rightarrow> Some (Unary cos (\<lambda>x. - sin x) (\<lambda>_. True))
     | F_TAN \<Rightarrow> Some (Unary tan (\<lambda>x. 1 / (cos x * cos x)) (\<lambda>x. cos x \<noteq> 0))
     | F_COT \<Rightarrow> Some (Unary (\<lambda>x. 1 / tan x) (\<lambda>x. -1 / (sin x * sin x)) (\<lambda>x. sin x \<noteq> 0))
     | F_ASIN \<Rightarrow> Some (Unary arcsin (\<lambda>x. 1 / (sqrt (1 - x) * sqrt (1 + x))) (\<lambda>x. -1 < x \<and> x < 1))
     | F_ACOS \<Rightarrow> Some (Unary arccos (\<lambda>x. - (1 / (sqrt (1 - x) * sqrt (1 + x)))) (\<lambda>x. -1 < x \<and> x < 1))
     | F_ATAN \<Rightarrow> Some (Unary arctan (\<lambda>x. 1 / (x * x + 1)) (\<lambda>_. True))
     | F_ATAN2 \<Rightarrow> Some (Binary c_atan2 (\<lambda>x y. y / (x * x + y * y)) (\<lambda>x y. - x / (x * x + y * y)) (\<lambda>_ x y. 0 < y \<or> x \<noteq> 0))
     | F_SILU \<Rightarrow> Some silu_rule
     | F_SIGMOID \<Rightarrow> Some (Unary sigmoid (\<lambda>x. sigmoid x * (1 - sigmoid x)) (\<lambda>_. True))
     | F_TANH \<Rightarrow> Some (Unary tanh (\<lambda>x. 1 - tanh x * tanh x) (\<lambda>_. True))
     | F_RELU \<Rightarrow> Some (Unary relu (\<lambda>x. if x \<le> 0 then 0 else 1) (\<lambda>x. x \<noteq> 0))
     | _ \<Rightarrow> None)"

lemmas rule_defs = scalar_rule_def abs_rule_def pow_rule_def sqrt_rule_def silu_rule_def

lemmas call_defs = fn_call_def unary8_def binary8_def float8mul_def float8div_def float8pl_def float8mi_def float8um_def float8abs_def
  dpow_def dsqrt_def dexp_def dlog1_def dlog10_def log_check_def range_check_def dacos_def dasin_def datan_def datan2_def dcos_def
  dsin_def dtan_def dcot_def

lemma rule_call1:
  assumes "fn_of_oid funcid = Some f" "scalar_rule f = Some (Unary v d D)" "D x" shows "fn_call P funcid [F8 x] = Inr (F8 (v x))"
  using assms by (cases f) (auto simp: call_defs rule_defs)

lemma rule_call2:
  assumes "fn_of_oid funcid = Some f" "scalar_rule f = Some (Binary v px py D)" "D c x y" shows "fn_call P funcid [F8 x, F8 y] = Inr (F8 (v x y))"
  using assms by (cases f) (auto simp: call_defs rule_defs)

lemma rule_seed1:
  assumes "fn_of_oid funcid = Some f" "scalar_rule f = Some (Unary v d D)" "D x"
  shows "derive_seeds funcid [F8 x] (F8 s) = Inr [F8 (s * d x)]"
  using assms by (cases f) (auto simp: derive_seeds_def seed1_def rule_defs sigmoid_def Let_def)

lemma rule_seed2:
  assumes "fn_of_oid funcid = Some f" "scalar_rule f = Some (Binary v px py D)" "D c x y"
  shows "derive_seeds funcid [F8 x, F8 y] (F8 s) = Inr [F8 (s * px x y), F8 (s * py x y)]"
  using assms by (cases f) (auto simp: derive_seeds_def seed2_def rule_defs ac_simps)

lemma sqrt_split: "-1 < x \<Longrightarrow> x < 1 \<Longrightarrow> sqrt (1 - x\<^sup>2) = sqrt (1 - x) * sqrt (1 + x)"
  by (simp add: real_sqrt_mult [symmetric] power2_eq_square algebra_simps)

lemma DERIV_cot: "sin x \<noteq> 0 \<Longrightarrow> ((\<lambda>x. 1 / tan x) has_real_derivative -1 / (sin x * sin x)) (at (x :: real))"
proof -
  assume s: "sin x \<noteq> 0"
  have eq: "(\<lambda>x. 1 / tan x) = (\<lambda>x :: real. cos x / sin x)" by (auto simp: tan_def)
  have "((\<lambda>x. cos x / sin x) has_real_derivative (- sin x * sin x - cos x * cos x) / (sin x * sin x)) (at x)"
    by (rule DERIV_divide [OF DERIV_cos DERIV_sin s])
  moreover have "- sin x * sin x - cos x * cos x = -1" using sin_cos_squared_add [of x] by (simp add: power2_eq_square algebra_simps)
  ultimately show ?thesis unfolding eq by simp
qed

lemma rule_deriv1:
  assumes "scalar_rule f = Some (Unary v d D)" "D x" shows "(v has_real_derivative d x) (at x)"
proof (cases f)
  case F_LN_FLOAT8
  then show ?thesis using assms by (auto simp: rule_defs intro!: derivative_eq_intros)
next
  case F_DLOG10
  then show ?thesis using assms by (auto simp: rule_defs intro!: derivative_eq_intros)
next
  case F_TAN
  then show ?thesis using assms DERIV_tan [of x] by (auto simp: rule_defs power2_eq_square inverse_eq_divide)
next
  case F_COT
  then show ?thesis using assms DERIV_cot [of x] by (auto simp: rule_defs)
next
  case F_ASIN
  then show ?thesis using assms DERIV_arcsin [of x] sqrt_split [of x] by (auto simp: rule_defs inverse_eq_divide)
next
  case F_ACOS
  then show ?thesis using assms DERIV_arccos [of x] sqrt_split [of x] by (auto simp: rule_defs inverse_eq_divide)
next
  case F_ATAN
  then show ?thesis using assms DERIV_arctan [of x] by (auto simp: rule_defs inverse_eq_divide power2_eq_square add.commute)
next
  case F_DSQRT
  then show ?thesis using assms DERIV_real_sqrt [of x] by (auto simp: rule_defs inverse_eq_divide mult.commute)
next
  case F_SQRT_FLOAT8
  then show ?thesis using assms DERIV_real_sqrt [of x] by (auto simp: rule_defs inverse_eq_divide mult.commute)
next
  case F_TANH
  then show ?thesis using assms by (auto simp: rule_defs power2_eq_square intro!: derivative_eq_intros)
qed (use assms DERIV_abs [of x] DERIV_relu [of x] DERIV_silu [of x] DERIV_sigmoid [of x] DERIV_exp [of x] DERIV_sin [of x] DERIV_cos [of x]
      DERIV_minus [OF DERIV_ident [of "at x"]] in \<open>auto simp: rule_defs\<close>)

lemma isCont_ev:
  assumes "isCont (g :: real \<Rightarrow> real) t" "eventually Q (nhds (g t))" shows "eventually (\<lambda>u. Q (g u)) (nhds t)"
  using assms by (auto simp: continuous_within tendsto_at_iff_tendsto_nhds elim: eventually_compose_filterlim)

lemma rule_open1:
  assumes "scalar_rule f = Some (Unary v d D)" "D x" shows "eventually D (nhds x)"
proof -
  have ne: "eventually (\<lambda>y. y \<noteq> 0) (nhds z)" if "z \<noteq> 0" for z :: real using that by (rule t1_space_nhds)
  have cos: "eventually (\<lambda>y. cos y \<noteq> 0) (nhds x)" if "cos x \<noteq> 0" using isCont_ev [OF isCont_cos ne [OF that]] .
  have sin: "eventually (\<lambda>y. sin y \<noteq> 0) (nhds x)" if "sin x \<noteq> 0" using isCont_ev [OF isCont_sin ne [OF that]] .
  have pos: "eventually (\<lambda>y. 0 < y) (nhds x)" if "0 < x" using eventually_pos [OF DERIV_ident that] .
  have rng: "eventually (\<lambda>y. -1 < y \<and> y < 1) (nhds x)" if "-1 < x" "x < 1"
    using eventually_nhds_in_open [of "{-1<..<1}" x] that by simp
  show ?thesis using assms ne [of x] cos sin pos rng by (cases f) (auto simp: rule_defs)
qed

lemma pow_deriv:
  assumes a: "(a has_real_derivative a') (at t)" and b: "(b has_real_derivative b') (at t)"
    and dom: "0 < a t \<or> c \<and> of_int \<lfloor>b t\<rfloor> = b t \<and> (a t \<noteq> 0 \<or> 1 \<le> b t)" and const: "c \<Longrightarrow> \<forall>u. b u = b t"
  shows "((\<lambda>u. c_pow (a u) (b u)) has_real_derivative b t * c_pow (a t) (b t - 1) * a' + c_pow (a t) (b t) * ln (a t) * b') (at t)"
proof (cases "0 < a t")
  case True
  have ev: "eventually (\<lambda>u. c_pow (a u) (b u) = a u powr b u) (nhds t)"
    using eventually_pos [OF a True] by eventually_elim (rule c_pow_pos)
  have "a t powr b t * (b' * ln (a t) + a' * b t / a t) = b t * a t powr (b t - 1) * a' + a t powr b t * ln (a t) * b'"
    using True by (simp add: powr_diff field_simps)
  then show ?thesis
    using DERIV_cong_ev [OF refl ev refl] DERIV_powr [OF a True b] True by (simp add: c_pow_pos)
next
  case False
  then have c: "c" "of_int \<lfloor>b t\<rfloor> = b t" "a t \<noteq> 0 \<or> 1 \<le> \<lfloor>b t\<rfloor>" using dom by (auto simp: le_floor_iff)
  obtain y where y: "b = (\<lambda>_. y)" using const [OF c(1)] by (metis ext)
  then have "b' = 0" using DERIV_unique [OF b] DERIV_const by metis
  have m: "of_int \<lfloor>y\<rfloor> = y" "a t \<noteq> 0 \<or> 1 \<le> \<lfloor>y\<rfloor>" using c(2,3) y by auto
  from DERIV_chain2 [OF DERIV_c_pow_int [OF m(2)] a]
  have "((\<lambda>u. c_pow (a u) y) has_real_derivative y * c_pow (a t) (y - 1) * a') (at t)" unfolding m(1) .
  then show ?thesis using \<open>b' = 0\<close> y by simp
qed

lemma rule_deriv2:
  assumes r: "scalar_rule f = Some (Binary v px py D)" and dom: "D c (a t) (b t)"
    and a: "(a has_real_derivative a') (at t)" and b: "(b has_real_derivative b') (at t)" and const: "c \<Longrightarrow> \<forall>u. b u = b t"
  shows "((\<lambda>u. v (a u) (b u)) has_real_derivative px (a t) (b t) * a' + py (a t) (b t) * b') (at t)"
proof (cases f)
  case F_FLOAT8DIV
  then have "b t \<noteq> 0" using r dom by (auto simp: rule_defs)
  then show ?thesis using DERIV_divide [OF a b] r F_FLOAT8DIV by (auto simp: rule_defs field_simps)
next
  case F_ATAN2
  then show ?thesis using r dom DERIV_atan2 [OF a b] by (auto simp: rule_defs)
next
  case F_DPOW
  then have eqs: "v = c_pow" "px = (\<lambda>x y. y * c_pow x (y - 1))" "py = (\<lambda>x y. c_pow x y * ln x)"
      "D = (\<lambda>c x y. 0 < x \<or> c \<and> of_int \<lfloor>y\<rfloor> = y \<and> (x \<noteq> 0 \<or> 1 \<le> y))" using r by (simp_all add: scalar_rule_def pow_rule_def del: of_int_floor_cancel)
  show ?thesis using pow_deriv [OF a b _ const, of c] dom unfolding eqs by simp
next
  case F_POW_FLOAT8_FLOAT8
  then have eqs: "v = c_pow" "px = (\<lambda>x y. y * c_pow x (y - 1))" "py = (\<lambda>x y. c_pow x y * ln x)"
      "D = (\<lambda>c x y. 0 < x \<or> c \<and> of_int \<lfloor>y\<rfloor> = y \<and> (x \<noteq> 0 \<or> 1 \<le> y))" using r by (simp_all add: scalar_rule_def pow_rule_def del: of_int_floor_cancel)
  show ?thesis using pow_deriv [OF a b _ const, of c] dom unfolding eqs by simp
qed (use r DERIV_mult [OF a b] DERIV_add [OF a b] DERIV_diff [OF a b] in \<open>auto simp: rule_defs mult.commute add.commute\<close>)

lemma pow_open:
  fixes a b :: "real \<Rightarrow> real"
  assumes a: "isCont a t" and dom: "0 < a t \<or> c \<and> of_int \<lfloor>b t\<rfloor> = b t \<and> (a t \<noteq> 0 \<or> 1 \<le> b t)" and const: "c \<Longrightarrow> \<forall>u. b u = b t"
  shows "eventually (\<lambda>u. 0 < a u \<or> c \<and> of_int \<lfloor>b u\<rfloor> = b u \<and> (a u \<noteq> 0 \<or> 1 \<le> b u)) (nhds (t :: real))"
proof (cases "a t = 0")
  case True
  then have "c" "of_int \<lfloor>b t\<rfloor> = b t" "1 \<le> b t" using dom by auto
  have "0 < a u \<or> c \<and> of_int \<lfloor>b u\<rfloor> = b u \<and> (a u \<noteq> 0 \<or> 1 \<le> b u)" for u
    unfolding const [OF \<open>c\<close>, rule_format, of u] using \<open>c\<close> \<open>of_int \<lfloor>b t\<rfloor> = b t\<close> \<open>1 \<le> b t\<close> by simp
  then show ?thesis by (intro always_eventually allI)
next
  case False
  have ev: "eventually (\<lambda>u. a u \<noteq> 0) (nhds t)" by (rule isCont_ev [OF a t1_space_nhds [OF False]])
  show ?thesis
  proof (cases "0 < a t")
    case True
    have "eventually (\<lambda>y. 0 < y) (nhds (a t))" using eventually_nhds_in_open [of "{0<..}" "a t"] True by simp
    from isCont_ev [OF a this] show ?thesis by eventually_elim simp
  next
    case False
    then have "c" "of_int \<lfloor>b t\<rfloor> = b t" using dom by auto
    with const [OF \<open>c\<close>] have int: "of_int \<lfloor>b u\<rfloor> = b u" for u by metis
    from ev show ?thesis by eventually_elim (use \<open>c\<close> int in blast)
  qed
qed

lemma rule_open2:
  assumes r: "scalar_rule f = Some (Binary v px py D)" and dom: "D c (a t) (b t)"
    and a: "isCont a t" and b: "isCont b t" and const: "c \<Longrightarrow> \<forall>u. b u = b t"
  shows "eventually (\<lambda>u. D c (a u) (b u)) (nhds (t :: real))"
proof -
  have ne: "eventually (\<lambda>u. g u \<noteq> 0) (nhds t)" if "isCont g t" "g t \<noteq> 0" for g :: "real \<Rightarrow> real"
    by (rule isCont_ev [OF that(1) t1_space_nhds [OF that(2)]])
  have pos: "eventually (\<lambda>u. 0 < g u) (nhds t)" if "isCont g t" "0 < g t" for g :: "real \<Rightarrow> real"
    using isCont_ev [OF that(1), of "\<lambda>y. 0 < y"] eventually_nhds_in_open [of "{0<..}" "g t"] that(2) by simp
  have "eventually (\<lambda>u. 0 < b u \<or> a u \<noteq> 0) (nhds t)" if "0 < b t \<or> a t \<noteq> 0"
    using that ne [OF a] pos [OF b] by (auto elim: eventually_mono)
  moreover have "eventually (\<lambda>u. D c (a u) (b u)) (nhds t)" if "D = (\<lambda>c x y. 0 < x \<or> c \<and> of_int \<lfloor>y\<rfloor> = y \<and> (x \<noteq> 0 \<or> 1 \<le> y))"
    using pow_open [OF a _ const, of c] dom unfolding that by simp
  ultimately show ?thesis using r dom ne [OF b] by (cases f) (auto simp: rule_defs)
qed

section \<open>Scalar bodies\<close>

definition call_rule :: "oid \<Rightarrow> rule option" where
  "call_rule funcid = Option.bind (fn_of_oid funcid) scalar_rule"

definition call_value :: "oid \<Rightarrow> real list \<Rightarrow> real" where
  "call_value funcid vs =
    (case (call_rule funcid, vs) of
       (Some (Unary v _ _), [x]) \<Rightarrow> v x
     | (Some (Binary v _ _ _), [x, y]) \<Rightarrow> v x y
     | _ \<Rightarrow> 0)"

definition call_partials :: "oid \<Rightarrow> real list \<Rightarrow> real list" where
  "call_partials funcid vs =
    (case (call_rule funcid, vs) of
       (Some (Unary _ d _), [x]) \<Rightarrow> [d x]
     | (Some (Binary _ px py _), [x, y]) \<Rightarrow> [px x y, py x y]
     | _ \<Rightarrow> [])"

definition call_dom :: "oid \<Rightarrow> bool list \<Rightarrow> real list \<Rightarrow> bool" where
  "call_dom funcid cs vs \<longleftrightarrow>
    (case (call_rule funcid, vs) of
       (Some (Unary _ _ D), [x]) \<Rightarrow> D x
     | (Some (Binary _ _ _ D), [x, y]) \<Rightarrow> D (cs ! 1) x y
     | _ \<Rightarrow> False)"

fun const_term :: "dterm \<Rightarrow> bool" where
  "const_term (Lit _) = True"
| "const_term _ = False"

fun term_value :: "nat list \<Rightarrow> (nat \<Rightarrow> real) \<Rightarrow> dterm \<Rightarrow> real" where
  "term_value natts xs (Lit v) = (case v of F8 x \<Rightarrow> x | _ \<Rightarrow> 0)"
| "term_value natts xs (Field pid fieldnum _) = xs (field_pos natts pid fieldnum)"
| "term_value natts xs (Call funcid ts) = call_value funcid (map (term_value natts xs) ts)"

text \<open>Constants and fields are \<open>float8\<close>, and the point \<open>xs\<close> lies in the domain of every call.\<close>

fun term_dom :: "nat list \<Rightarrow> (nat \<Rightarrow> real) \<Rightarrow> dterm \<Rightarrow> bool" where
  "term_dom natts xs (Lit v) \<longleftrightarrow> (case v of F8 _ \<Rightarrow> True | _ \<Rightarrow> False)"
| "term_dom natts xs (Field pid fieldnum resulttype) \<longleftrightarrow> resulttype = FLOAT8OID"
| "term_dom natts xs (Call funcid ts) \<longleftrightarrow>
    list_all (term_dom natts xs) ts \<and> call_dom funcid (map const_term ts) (map (term_value natts xs) ts)"

fun term_grad :: "nat list \<Rightarrow> (nat \<Rightarrow> real) \<Rightarrow> nat \<Rightarrow> dterm \<Rightarrow> real" where
  "term_grad natts xs k (Lit v) = 0"
| "term_grad natts xs k (Field pid fieldnum _) = (if field_pos natts pid fieldnum = k then 1 else 0)"
| "term_grad natts xs k (Call funcid ts) =
    sum_list (map2 (*) (call_partials funcid (map (term_value natts xs) ts)) (map (term_grad natts xs k) ts))"

lemma call_dom_cases:
  assumes "call_dom funcid cs vs"
  obtains (one) f v d D x where "fn_of_oid funcid = Some f" "scalar_rule f = Some (Unary v d D)" "vs = [x]" "D x"
  | (two) f v px py D x y where "fn_of_oid funcid = Some f" "scalar_rule f = Some (Binary v px py D)" "vs = [x, y]" "D (cs ! 1) x y"
  using assms by (auto simp: call_dom_def call_rule_def split: option.splits rule.splits list.splits Option.bind_splits)

lemma call_simps1:
  assumes "fn_of_oid funcid = Some f" "scalar_rule f = Some (Unary v d D)"
  shows "call_value funcid [x] = v x" "call_partials funcid [x] = [d x]" "call_dom funcid cs [x] = D x"
  using assms by (simp_all add: call_value_def call_partials_def call_dom_def call_rule_def)

lemma call_simps2:
  assumes "fn_of_oid funcid = Some f" "scalar_rule f = Some (Binary v px py D)"
  shows "call_value funcid [x, y] = v x y" "call_partials funcid [x, y] = [px x y, py x y]" "call_dom funcid cs [x, y] = D (cs ! 1) x y"
  using assms by (simp_all add: call_value_def call_partials_def call_dom_def call_rule_def)

lemma term_value_num: "const_term t \<Longrightarrow> term_value natts xs t = term_value natts xs' t"
  by (cases t) auto

text \<open>The recursive gradient is the derivative of the value.\<close>

lemma term_deriv:
  "term_dom natts xs t \<Longrightarrow> ((\<lambda>u. term_value natts (xs(k := u)) t) has_real_derivative term_grad natts xs k t) (at (xs k))"
proof (induction t)
  case (Field pid fieldnum rt)
  then show ?case by (cases "field_pos natts pid fieldnum = k") (auto intro!: derivative_eq_intros)
next
  case (Call funcid ts)
  let ?g = "\<lambda>t u. term_value natts (xs(k := u)) t"
  have same: "?g t (xs k) = term_value natts xs t" for t by simp
  from Call.prems have dom: "call_dom funcid (map const_term ts) (map (term_value natts xs) ts)" "\<forall>t \<in> set ts. term_dom natts xs t"
    by (simp_all add: list_all_iff)
  from dom(1) show ?case
  proof (cases rule: call_dom_cases)
    case (one f v d D x)
    then obtain t where ts: "ts = [t]" "x = ?g t (xs k)" by auto
    have "(?g t has_real_derivative term_grad natts xs k t) (at (xs k))" by (rule Call.IH) (use dom(2) ts in simp_all)
    from DERIV_chain2 [OF rule_deriv1 [OF one(2), of "?g t (xs k)"] this] one(4) ts
    show ?thesis by (simp add: call_simps1 [OF one(1,2)] del: fun_upd_apply)
  next
    case (two f v px py D x y)
    then obtain t t' where ts: "ts = [t, t']" "x = ?g t (xs k)" "y = ?g t' (xs k)" by auto
    have d: "(?g t has_real_derivative term_grad natts xs k t) (at (xs k))" "(?g t' has_real_derivative term_grad natts xs k t') (at (xs k))"
      by (rule Call.IH; use dom(2) ts in simp)+
    have "\<forall>u. ?g t' u = ?g t' (xs k)" if "const_term t'" using term_value_num [OF that] by blast
    from rule_deriv2 [OF two(2) _ d this] two(4) ts show ?thesis by (simp add: call_simps2 [OF two(1,2)] del: fun_upd_apply)
  qed
qed simp

lemma term_dom_near:
  "term_dom natts xs t \<Longrightarrow> eventually (\<lambda>u. term_dom natts (xs(k := u)) t) (nhds (xs k))"
proof (induction t)
  case (Call funcid ts)
  let ?g = "\<lambda>t u. term_value natts (xs(k := u)) t"
  from Call.prems have dom: "call_dom funcid (map const_term ts) (map (term_value natts xs) ts)" "\<forall>t \<in> set ts. term_dom natts xs t"
    by (simp_all add: list_all_iff)
  have cont: "isCont (?g t) (xs k)" if "t \<in> set ts" for t using DERIV_isCont [OF term_deriv] dom(2) that by blast
  have args: "eventually (\<lambda>u. \<forall>t \<in> set ts. term_dom natts (xs(k := u)) t) (nhds (xs k))"
    by (rule eventually_ball_finite [OF finite_set ballI]) (use Call.IH dom(2) in blast)
  have "eventually (\<lambda>u. call_dom funcid (map const_term ts) (map (term_value natts (xs(k := u))) ts)) (nhds (xs k))"
    using dom(1)
  proof (cases rule: call_dom_cases)
    case (one f v d D x)
    then obtain t where ts: "ts = [t]" "x = ?g t (xs k)" by auto
    have "eventually (\<lambda>u. D (?g t u)) (nhds (xs k))"
      by (rule isCont_ev [OF cont rule_open1 [OF one(2)]]) (use one ts in auto)
    then show ?thesis by (simp add: call_simps1 [OF one(1,2)] ts del: fun_upd_apply)
  next
    case (two f v px py D x y)
    then obtain t t' where ts: "ts = [t, t']" "x = ?g t (xs k)" "y = ?g t' (xs k)" by auto
    have "\<forall>u. ?g t' u = ?g t' (xs k)" if "const_term t'" using term_value_num [OF that] by blast
    from rule_open2 [OF two(2), of "const_term t'" "?g t" "xs k" "?g t'", OF _ cont cont this] two(4) ts
    show ?thesis by (simp add: call_simps2 [OF two(1,2)] del: fun_upd_apply)
  qed
  with args show ?case by eventually_elim (simp add: list_all_iff del: fun_upd_apply)
qed simp_all

section \<open>Evaluation\<close>

lemma call_exec:
  "call_dom funcid cs vs \<Longrightarrow> fn_call P funcid (map F8 vs) = Inr (F8 (call_value funcid vs))"
  by (erule call_dom_cases) (simp_all add: call_simps1 call_simps2 rule_call1 rule_call2)

lemma teval_value:
  "term_dom natts xs t \<Longrightarrow> fields_ok natts t \<Longrightarrow> teval P (input_rows natts xs F8) t = Inr (F8 (term_value natts xs t))"
proof (induction t)
  case (Lit v)
  then show ?case by (cases v) auto
next
  case (Field pid fieldnum rt)
  show ?case unfolding input_field [OF Field.prems(2)] by simp
next
  case (Call funcid ts)
  then have "tevals P (input_rows natts xs F8) ts = Inr (map (\<lambda>t. F8 (term_value natts xs t)) ts)"
    by (intro tevals_map) (auto simp: list_all_iff)
  moreover have "fn_call P funcid (map F8 (map (term_value natts xs) ts)) = Inr (F8 (call_value funcid (map (term_value natts xs) ts)))"
    using Call.prems(1) by (intro call_exec [where cs = "map const_term ts"]) simp
  ultimately show ?case by (simp add: comp_def)
qed

end
