(* ===== verification/Diff_Gradient.thy ===== *)
theory Diff_Gradient
  imports Diff_Correct
begin

text \<open>
  Reverse mode over a tree of \<open>float8\<close> arithmetic adds the seed times the gradient to the derivatives, so that
  \<open>ExecDeriveLambdaExpr\<close> returns the value of the lambda and its partial derivatives in all input fields.
\<close>

section \<open>The seeds\<close>

lemma call_seeds:
  assumes "call_dom funcid cs vs"
  shows "derive_seeds funcid (map F8 vs) (F8 s) = Inr (map (\<lambda>p. F8 (s * p)) (call_partials funcid vs))"
    "length (call_partials funcid vs) = length vs"
  using assms by (cases rule: call_dom_cases; simp add: call_simps1 call_simps2 rule_seed1 rule_seed2)+

definition add_grad :: "nat list \<Rightarrow> (nat \<Rightarrow> real) \<Rightarrow> real list \<Rightarrow> dterm list \<Rightarrow> real list \<Rightarrow> real list" where
  "add_grad natts xs ss ts D = map (\<lambda>k. D ! k + sum_list (map2 (*) ss (map (term_grad natts xs k) ts))) [0..<length D]"

lemma length_add_grad [simp]: "length (add_grad natts xs ss ts D) = length D"
  by (simp add: add_grad_def)

lemma add_grad_Nil [simp]: "add_grad natts xs [] [] D = D"
  by (simp add: add_grad_def map_nth)

lemma add_grad_Cons:
  "add_grad natts xs [s] [t] (add_grad natts xs ss ts D) = add_grad natts xs (s # ss) (t # ts) D"
  by (simp add: add_grad_def)

lemma add_grad_Call:
  "length ps = length ts \<Longrightarrow> ps = call_partials funcid (map (term_value natts xs) ts) \<Longrightarrow>
   add_grad natts xs (map (\<lambda>p. s * p) ps) ts D = add_grad natts xs [s] [Call funcid ts] D"
proof -
  have "sum_list (map2 (*) (map ((*) s) ps) gs) = s * sum_list (map2 (*) ps gs)" for gs
    by (induction ps gs rule: list_induct2') (simp_all add: algebra_simps)
  moreover assume "ps = call_partials funcid (map (term_value natts xs) ts)"
  ultimately show ?thesis by (simp add: add_grad_def)
qed

lemma field_derive:
  assumes "fields_ok natts (Field pid fieldnum rt)" "length D = sum_list natts"
  shows "tree_derive P params False (ExecGenerateIndexArray natts) (Field pid fieldnum rt) (F8 s) (map F8 D) =
    Inr (map F8 (add_grad natts xs [s] [Field pid fieldnum rt] D))"
proof -
  let ?k = "field_pos natts pid fieldnum"
  have k: "?k < length D" using field_pos_less [OF assms(1)] assms(2) by simp
  have "int (ExecGenerateIndexArray natts ! nat (pid - 1)) + (fieldnum - 1) = int ?k" using assms(1) by (simp add: field_pos_def)
  moreover have "(map F8 D)[?k := F8 (D ! ?k + s)] = map F8 (add_grad natts xs [s] [Field pid fieldnum rt] D)"
    using k by (intro nth_equalityI) (auto simp: add_grad_def nth_list_update)
  ultimately show ?thesis using k by (simp add: add_seed_def)
qed

lemma tree_gradient:
  "term_dom natts xs t \<Longrightarrow> fields_ok natts t \<Longrightarrow> length D = sum_list natts \<Longrightarrow>
    tree_derive P (input_rows natts xs F8) False (ExecGenerateIndexArray natts) t (F8 s) (map F8 D) =
      Inr (map F8 (add_grad natts xs [s] [t] D))"
  "list_all (term_dom natts xs) ts \<Longrightarrow> list_all (fields_ok natts) ts \<Longrightarrow> length D = sum_list natts \<Longrightarrow> length ss = length ts \<Longrightarrow>
    tree_derives P (input_rows natts xs F8) False (ExecGenerateIndexArray natts) ts (map F8 ss) (map F8 D) =
      Inr (map F8 (add_grad natts xs ss ts D))"
proof (induction t and ts arbitrary: s D and ss D rule: tree_induct)
  case (Lit v)
  have "add_grad natts xs [s] [Lit v] D = D" by (simp add: add_grad_def map_nth)
  then show ?case by simp
next
  case (Field pid fieldnum rt)
  then show ?case using field_derive by blast
next
  case (Call funcid ts)
  let ?vs = "map (term_value natts xs) ts"
  let ?ps = "call_partials funcid ?vs"
  have dom: "call_dom funcid (map const_term ts) ?vs" "list_all (term_dom natts xs) ts" using Call.prems(1) by simp_all
  have "tevals P (input_rows natts xs F8) ts = Inr (map F8 ?vs)"
    unfolding map_map comp_def by (rule tevals_map, rule teval_value) (use dom(2) Call.prems(2) in \<open>auto simp: list_all_iff\<close>)
  moreover have "tree_derives P (input_rows natts xs F8) False (ExecGenerateIndexArray natts) ts (map F8 (map (\<lambda>p. s * p) ?ps)) (map F8 D) =
      Inr (map F8 (add_grad natts xs (map (\<lambda>p. s * p) ?ps) ts D))"
    using Call.prems dom(2) call_seeds(2) [OF dom(1)] by (intro Call.IH) auto
  ultimately show ?case
    using call_seeds(1) [OF dom(1), of s] call_seeds(2) [OF dom(1)] add_grad_Call [of ?ps ts funcid natts xs s D] by (simp add: comp_def)
next
  case (Cons t ts)
  then obtain s ss' where "ss = s # ss'" "length ss' = length ts" by (cases ss) auto
  then show ?case using Cons.IH(1) [of "add_grad natts xs ss' ts D" s] Cons.IH(2) [of D ss'] Cons.prems by (simp add: add_grad_Cons)
qed simp

section \<open>Gradients\<close>

lemma rule_arity:
  "scalar_rule f = Some (Unary v d D) \<Longrightarrow> fn_arity f = 1"
  "scalar_rule f = Some (Binary v' px py D') \<Longrightarrow> fn_arity f = 2"
  by (cases f; simp add: rule_defs fn_arity_def)+

lemma scalar_tree: "term_dom natts xs t \<Longrightarrow> \<not> array_field t \<and> arity_ok t"
proof (induction t)
  case (Call funcid ts)
  then have "\<forall>t \<in> set ts. \<not> array_field t \<and> arity_ok t" "call_dom funcid (map const_term ts) (map (term_value natts xs) ts)"
    by (auto simp: list_all_iff)
  moreover from this(2) have "length ts = fn_arity f" if "fn_of_oid funcid = Some f" for f
    using that by (cases rule: call_dom_cases) (auto simp: rule_arity)
  ultimately show ?case by (auto simp: list_all_iff list_ex_iff split: option.splits)
qed (auto simp: FLOAT8OID_def FLOAT8ARRAYOID_def)

text \<open>C1: reverse-mode differentiation computes the gradient. For a lambda of \<open>float8\<close> arithmetic at a point in the domain
  of its functions, \<open>ExecDeriveLambdaExpr\<close> returns the value of the lambda and adds to each entry of the derivatives the
  partial derivative of that value in the corresponding field of the input rows.\<close>

theorem lambda_derive_gradient:
  assumes "to_term expr = Some t" "fields_ok natts t" "term_dom natts xs t"
    and "ExecInitLambdaExpr natts expr = Some st" "length D = ExecGetLambdaDerivativesLength natts"
  shows "\<exists>D'. ExecDeriveLambdaExpr P st (input_rows natts xs F8) (map F8 D) = Inr (F8 (lambda_result P st (input_rows natts xs F8)), map F8 D') \<and>
    (\<forall>k < length D. ((\<lambda>u. lambda_result P st (input_rows natts (xs(k := u)) F8)) has_real_derivative (D' ! k - D ! k)) (at (xs k)))"
proof -
  have scalar: "\<not> array_field t" "arity_ok t" using scalar_tree [OF assms(3)] by auto
  have st: "steps st = code t Result 0 @ [EEOP_DONE]" "lambdaContainsMatrix st = array_field t" "indexArray st = ExecGenerateIndexArray natts"
    by (rule init_term [OF assms(1), of natts]; use assms(4) in simp)+
  have val: "lambda_result P st (input_rows natts ys F8) = term_value natts ys t" if ys: "term_dom natts ys t" for ys
    by (rule lambda_result_tree [OF st(1) teval_value [OF ys assms(2)]])
  define D' where "D' = add_grad natts xs [1] [t] D"
  have "ExecDeriveLambdaExpr P st (input_rows natts xs F8) (map F8 D) = Inr (F8 (lambda_result P st (input_rows natts xs F8)), map F8 D')"
    using derive_tree [OF st(1,2) scalar(2)] teval_value [OF assms(3,2)] tree_gradient(1) [OF assms(3,2), of D P 1] scalar(1) st(3) assms(5) val [OF assms(3)]
    by (simp add: first_seed_def D'_def ExecGetLambdaDerivativesLength_def)
  moreover have "((\<lambda>u. lambda_result P st (input_rows natts (xs(k := u)) F8)) has_real_derivative (D' ! k - D ! k)) (at (xs k))" if "k < length D" for k
  proof -
    have near: "eventually (\<lambda>u. lambda_result P st (input_rows natts (xs(k := u)) F8) = term_value natts (xs(k := u)) t) (nhds (xs k))"
      using term_dom_near [OF assms(3), of k] by eventually_elim (rule val)
    have "D' ! k - D ! k = term_grad natts xs k t" using that by (simp add: D'_def add_grad_def)
    then show ?thesis using DERIV_cong_ev [OF refl near refl] term_deriv [OF assms(3), of k] by simp
  qed
  ultimately show ?thesis by blast
qed

text \<open>The body \<open>pow(a.x - 3, 2) + a.x * a.y\<close> at the point \<open>(1, 5)\<close>.\<close>

definition ex_point :: "nat \<Rightarrow> real" where "ex_point k = (if k = 0 then 1 else 5)"

lemma ex_rules:
  "call_rule 216 = Some (Binary (\<lambda>x y. x * y) (\<lambda>x y. y) (\<lambda>x y. x) (\<lambda>_ _ _. True))"
  "call_rule 218 = Some (Binary (\<lambda>x y. x + y) (\<lambda>_ _. 1) (\<lambda>_ _. 1) (\<lambda>_ _ _. True))"
  "call_rule 219 = Some (Binary (\<lambda>x y. x - y) (\<lambda>_ _. 1) (\<lambda>_ _. -1) (\<lambda>_ _ _. True))"
  "call_rule 1346 = Some pow_rule"
  by (simp_all add: call_rule_def fn_of_oid_def fn_oids_def scalar_rule_def)

lemma ex_term: "to_term ex_body = Some ex_body_term" "fields_ok [2] ex_body_term" "term_dom [2] ex_point ex_body_term"
  by (simp_all add: ex_body_def ex_field_def ex_float_def ex_body_term_def call_dom_def call_value_def ex_rules pow_rule_def
      field_pos_def ExecGenerateIndexArray_def ex_point_def)

theorem lambda_derive_gradient_witness:
  "\<exists>st D'. ExecInitLambdaExpr [2] ex_body = Some st \<and>
    ExecDeriveLambdaExpr (\<lambda>_ _. Inl Crash) st (input_rows [2] ex_point F8) [F8 0, F8 0] =
      Inr (F8 (lambda_result (\<lambda>_ _. Inl Crash) st (input_rows [2] ex_point F8)), map F8 D') \<and>
    ((\<lambda>u. lambda_result (\<lambda>_ _. Inl Crash) st (input_rows [2] (ex_point(1 := u)) F8)) has_real_derivative D' ! 1) (at 5)"
proof -
  obtain st where st: "ExecInitLambdaExpr [2] ex_body = Some st" using init_code(1) [OF ex_term(1)] by (simp add: ExecInitLambdaExpr_def)
  have len: "length [0, 0 :: real] = ExecGetLambdaDerivativesLength [2]" by (simp add: ExecGetLambdaDerivativesLength_def)
  from lambda_derive_gradient [OF ex_term st len, of "\<lambda>_ _. Inl Crash"]
  obtain D' where D': "ExecDeriveLambdaExpr (\<lambda>_ _. Inl Crash) st (input_rows [2] ex_point F8) (map F8 [0, 0]) =
      Inr (F8 (lambda_result (\<lambda>_ _. Inl Crash) st (input_rows [2] ex_point F8)), map F8 D')"
    "\<forall>k < 2. ((\<lambda>u. lambda_result (\<lambda>_ _. Inl Crash) st (input_rows [2] (ex_point(k := u)) F8)) has_real_derivative (D' ! k - [0, 0] ! k)) (at (ex_point k))"
    by auto
  from D'(2) [rule_format, of 1]
  have "((\<lambda>u. lambda_result (\<lambda>_ _. Inl Crash) st (input_rows [2] (ex_point(1 := u)) F8)) has_real_derivative D' ! 1) (at 5)"
    by (simp add: ex_point_def del: fun_upd_apply)
  then show ?thesis using st D'(1) by auto
qed

end
