(* ===== verification/Matrix_Algebra.thy ===== *)
theory Matrix_Algebra
  imports Matrix_Ops
begin

text \<open>
  What the matrix operations compute. Both products have the sums of the matrix product as elements,
  so they agree; the transposes of the derivative of a product are its adjoints; transposing twice gives
  the matrix back; \<open>softmax\<close> is a probability distribution, and the derivative of \<open>softmax_cce\<close> is that
  of the negated function.
\<close>

section \<open>Products\<close>

lemma row_div:
  fixes n :: nat
  assumes "i * n \<le> p" "p < i * n + n"
  shows "p div n = i" "p mod n = p - i * n"
proof -
  show "p div n = i" using assms by (intro div_nat_eqI) (simp_all add: mult.commute add.commute)
  then show "p mod n = p - i * n" by (simp add: modulo_nat_def mult.commute)
qed

lemma fold_row:
  fixes g :: "nat \<Rightarrow> 'a :: semiring_0"
  assumes "K \<le> c" "i * c + c \<le> length ps"
  shows "fold (\<lambda>k ps. ps[MAT_2D i k c := ps ! MAT_2D i k c + g k]) [0..<K] ps =
    map (\<lambda>p. ps ! p + (if i * c \<le> p \<and> p < i * c + K then g (p - i * c) else 0)) [0..<length ps]"
  using assms(1)
proof (induction K)
  case 0
  then show ?case by (intro nth_equalityI) auto
next
  case (Suc K)
  then show ?case using assms(2) by (intro nth_equalityI) (auto simp: MAT_2D_def nth_list_update less_Suc_eq)
qed

lemma fold_rows:
  fixes g :: "nat \<Rightarrow> nat \<Rightarrow> 'a :: semiring_0"
  assumes "i * c + c \<le> length ps"
  shows "fold (\<lambda>j. fold (\<lambda>k ps. ps[MAT_2D i k c := ps ! MAT_2D i k c + g j k]) [0..<c]) [0..<J] ps =
    map (\<lambda>p. ps ! p + (if i * c \<le> p \<and> p < i * c + c then \<Sum>j < J. g j (p - i * c) else 0)) [0..<length ps]"
proof (induction J)
  case 0
  then show ?case by (intro nth_equalityI) auto
next
  case (Suc J)
  let ?q = "map (\<lambda>p. ps ! p + (if i * c \<le> p \<and> p < i * c + c then \<Sum>j < J. g j (p - i * c) else 0)) [0..<length ps]"
  have "fold (\<lambda>j. fold (\<lambda>k ps. ps[MAT_2D i k c := ps ! MAT_2D i k c + g j k]) [0..<c]) [0..<Suc J] ps =
      fold (\<lambda>k ps. ps[MAT_2D i k c := ps ! MAT_2D i k c + g J k]) [0..<c] ?q" using Suc by simp
  also have "\<dots> = map (\<lambda>p. ?q ! p + (if i * c \<le> p \<and> p < i * c + c then g J (p - i * c) else 0)) [0..<length ?q]"
    using assms by (intro fold_row) simp_all
  finally show ?case by (auto simp: add.assoc intro!: nth_equalityI)
qed

lemma mul_acc_entries:
  assumes "I * dimc \<le> length ps"
  shows "mul_acc I dimb dimc ps1 ps2 ps = map (\<lambda>p. ps ! p + (if p < I * dimc then
      \<Sum>j < dimb. ps1 ! MAT_2D (p div dimc) j dimb * ps2 ! MAT_2D j (p mod dimc) dimc else 0)) [0..<length ps]"
  using assms
proof (induction I)
  case 0
  then show ?case by (simp add: mul_acc_def map_nth)
next
  case (Suc I)
  let ?g = "\<lambda>i j k. ps1 ! MAT_2D i j dimb * ps2 ! MAT_2D j k dimc"
  let ?q = "map (\<lambda>p. ps ! p + (if p < I * dimc then \<Sum>j < dimb. ?g (p div dimc) j (p mod dimc) else 0)) [0..<length ps]"
  have "mul_acc (Suc I) dimb dimc ps1 ps2 ps =
      fold (\<lambda>j. fold (\<lambda>k ps. ps[MAT_2D I k dimc := ps ! MAT_2D I k dimc + ?g I j k]) [0..<dimc]) [0..<dimb] ?q"
    using Suc by (simp add: mul_acc_def)
  also have "\<dots> = map (\<lambda>p. ?q ! p + (if I * dimc \<le> p \<and> p < I * dimc + dimc then \<Sum>j < dimb. ?g I j (p - I * dimc) else 0)) [0..<length ?q]"
    using Suc.prems by (intro fold_rows) (simp add: add.commute)
  finally have eq: "mul_acc (Suc I) dimb dimc ps1 ps2 ps = \<dots>" .
  show ?case unfolding eq
  proof (rule nth_equalityI)
    fix p assume "p < length (map (\<lambda>p. ?q ! p + (if I * dimc \<le> p \<and> p < I * dimc + dimc then \<Sum>j < dimb. ?g I j (p - I * dimc) else 0)) [0..<length ?q])"
    then show "map (\<lambda>p. ?q ! p + (if I * dimc \<le> p \<and> p < I * dimc + dimc then \<Sum>j < dimb. ?g I j (p - I * dimc) else 0)) [0..<length ?q] ! p =
        map (\<lambda>p. ps ! p + (if p < Suc I * dimc then \<Sum>j < dimb. ?g (p div dimc) j (p mod dimc) else 0)) [0..<length ps] ! p"
      using row_div [of I dimc p] by (cases "p < I * dimc"; cases "p < I * dimc + dimc") (auto simp: add.commute)
  qed simp
qed

lemma foldl_sum: "foldl (\<lambda>s j. s + f j) a [0..<n] = a + (\<Sum>j < n. f j)" for a :: "'a :: comm_monoid_add"
  by (induction n) (simp_all add: add.assoc)

lemma mul_dot_entries:
  "mul_dot dima dimb dimc ps1 ps2 =
    map (\<lambda>p. \<Sum>j < dimb. ps1 ! MAT_2D (p div dimc) j dimb * ps2 ! MAT_2D j (p mod dimc) dimc) [0..<dima * dimc]"
  by (simp add: mul_dot_def concat_cells foldl_sum)

lemma mul_acc_dot: "mul_acc dima dimb dimc ps1 ps2 (replicate (dima * dimc) 0) = mul_dot dima dimb dimc ps1 ps2"
  by (simp add: mul_acc_entries mul_dot_entries)

lemma mul_shape_size: "mul_shape a1 a2 = Inr (dima, dimb, dimc, dims, lbs) \<Longrightarrow> ArrayGetNItems dims = dima * dimc"
  by (auto simp: mul_shape_def ArrayGetNItems_def Let_def split: list.splits if_splits dest: arg_cong [of "[_]" _ prod_list])

lemma matrix_mul_internal_plain:
  "matrix_mul_internal a b False False =
    (if isScalar a then rbind (copyArray b) (\<lambda>_. matrix_mul a b)
     else if isScalar b then rbind (copyArray a) (\<lambda>_. matrix_mul a b)
     else matrix_mul a b)"
proof (cases "isScalar a \<or> isScalar b")
  case False
  then show ?thesis
    by (cases "mul_shape a b")
      (auto simp: matrix_mul_internal_def matrix_mul_def initResult_def mul_acc_dot dest: mul_shape_size split: sum.splits)
qed (auto simp: matrix_mul_internal_def matrix_mul_def copyArray_fits)

lemma matrix_mul_plain: "\<not> isScalar a \<Longrightarrow> \<not> isScalar b \<Longrightarrow> matrix_mul a b = matrix_mul_internal a b False False"
  by (simp add: matrix_mul_internal_plain)

section \<open>Matrices\<close>

lemma items_from_prod: "items_from k ds = Inr n \<Longrightarrow> n = k * prod_list ds \<and> n \<le> MaxArraySize"
proof (induction ds arbitrary: k)
  case (Cons d ds)
  then show ?case using Cons.IH [of "k * d"] by (simp add: mult.assoc split: if_splits)
qed (simp split: if_splits)

lemma ArrayGetNItems_safe: "ds \<noteq> [] \<Longrightarrow> ArrayGetNItemsSafe ds = Inr n \<Longrightarrow> n = prod_list ds \<and> n \<le> MaxArraySize"
  using items_from_prod [of 1 ds n] by (simp add: ArrayGetNItemsSafe_def)

lemma size_fits:
  "m \<le> 2147483647 \<Longrightarrow> n \<le> 2147483647 \<Longrightarrow> m * n \<le> MaxArraySize \<Longrightarrow> ArrayGetNItemsSafe [m, n] = Inr (m * n)"
  "m \<le> MaxArraySize \<Longrightarrow> ArrayGetNItemsSafe [m] = Inr m"
  by (auto simp: ArrayGetNItemsSafe_def MaxArraySize_def)

text \<open>A matrix has two dimensions; a column vector may have one.\<close>

definition is_mat :: "nat \<Rightarrow> nat \<Rightarrow> 'a ArrayType \<Rightarrow> bool" where
  "is_mat m n a \<longleftrightarrow> arr_ok a \<and> \<not> isScalar a \<and> (arr_dims a = [m, n] \<or> n = 1 \<and> arr_dims a = [m])"

definition entry :: "nat \<Rightarrow> 'a ArrayType \<Rightarrow> nat \<Rightarrow> nat \<Rightarrow> 'a" where
  "entry n a i k = arr_data a ! MAT_2D i k n"

lemma is_mat_length: "is_mat m n a \<Longrightarrow> length (arr_data a) = m * n"
  by (auto simp: is_mat_def arr_ok_def dest: ArrayGetNItems_safe)

lemma is_mat_size: "is_mat m n a \<Longrightarrow> m * n \<le> MaxArraySize \<and> m \<le> 2147483647 \<and> n \<le> 2147483647"
  by (auto simp: is_mat_def arr_ok_def dest: ArrayGetNItems_safe)

lemma is_matI:
  assumes "arr_dims a = [m, n] \<and> arr_lbs a = [lb, lb'] \<or> n = 1 \<and> arr_dims a = [m] \<and> arr_lbs a = [lb]" "lb \<noteq> -1"
    "length (arr_data a) = m * n" "m * n \<le> MaxArraySize" "m \<le> 2147483647" "n \<le> 2147483647"
  shows "is_mat m n a"
  using assms size_fits(1) [of m n] size_fits(2) [of m] by (auto simp: is_mat_def arr_ok_def isScalar_def)

lemma cell_bound: "i < m \<Longrightarrow> k < n \<Longrightarrow> i * n + k < m * n" for m :: nat
  by (metis add_less_cancel_left less_le_trans mult_Suc add.commute mult_le_mono1 Suc_leI)

lemma sum_cells: "(\<Sum>q < m * n. f (q div n) (q mod n)) = (\<Sum>i < m. \<Sum>k < n. f i k)" for n :: nat
proof (induction m)
  case (Suc m)
  have "{..<Suc m * n} = {..<m * n} \<union> {m * n..<m * n + n}" by auto
  then have "(\<Sum>q < Suc m * n. f (q div n) (q mod n)) =
      (\<Sum>q < m * n. f (q div n) (q mod n)) + (\<Sum>q = m * n..<m * n + n. f (q div n) (q mod n))"
    by (simp add: sum.union_disjoint ivl_disj_int)
  also have "(\<Sum>q = m * n..<m * n + n. f (q div n) (q mod n)) = (\<Sum>k < n. f m k)"
    by (rule sum.reindex_bij_witness [of _ "\<lambda>k. m * n + k" "\<lambda>q. q - m * n"]) (auto simp: row_div)
  finally show ?case using Suc by simp
qed simp

lemma matrix_mul_mat:
  assumes a: "is_mat m n a" and b: "is_mat n p b" and "arr_dims a = [m, n] \<or> arr_dims b = [n, p]" "2 \<le> m \<or> 2 \<le> p" "m * p \<le> MaxArraySize"
  obtains c where "matrix_mul a b = Inr c" "is_mat m p c" "arr_dims c = (if length (arr_dims b) = 1 then [m] else [m, p])"
    "arr_lbs c = (if length (arr_dims b) = 1 then [1] else [1, 1])"
    "\<And>i k. i < m \<Longrightarrow> k < p \<Longrightarrow> entry p c i k = (\<Sum>j < n. entry n a i j * entry p b j k)"
proof -
  let ?dims = "if length (arr_dims b) = 1 then [m] else [m, p]"
  let ?c = "(initResult ?dims [1, 1])\<lparr>arr_data := mul_dot m n p (arr_data a) (arr_data b)\<rparr>"
  have shape: "mul_shape a b = Inr (m, n, p, ?dims, [1, 1])"
    using assms by (auto simp: mul_shape_def is_mat_def Let_def)
  have "p = 1" if "length (arr_dims b) = 1" using b that by (auto simp: is_mat_def)
  note fits = this is_mat_size [OF a] is_mat_size [OF b] assms(5)
  have "ArrayGetNItemsSafe ?dims = Inr (m * p)" using fits size_fits(1) [of m p] size_fits(2) [of m] by auto
  then have "matrix_mul a b = Inr ?c"
    using a b shape matrix_mul_plain [of a b]
    by (simp add: matrix_mul_internal_def mul_in_bounds_def is_mat_length) (auto simp: is_mat_def)
  moreover have "is_mat m p ?c"
    using fits by (intro is_matI [where lb' = 1]) (auto simp: initResult_def mul_dot_entries)
  moreover have "arr_dims ?c = ?dims" "arr_lbs ?c = (if length (arr_dims b) = 1 then [1] else [1, 1])"
    by (simp_all add: initResult_def)
  moreover have "entry p ?c i k = (\<Sum>j < n. entry n a i j * entry p b j k)" if "i < m" "k < p" for i k
    using that cell_bound [OF that] by (simp add: entry_def mul_dot_entries MAT_2D_def div_mult_self3)
  ultimately show thesis by (rule that)
qed

lemma matrix_transpose_mat:
  assumes "is_mat m n a" "arr_dims a = [m, n] \<and> m \<noteq> 1 \<or> arr_dims a = [m] \<and> n = 1" "nth (arr_lbs a) (length (arr_dims a) - 1) \<noteq> -1"
  obtains b where "matrix_transpose_internal a = Inr b" "is_mat n m b" "arr_dims b = [n, m]"
    "\<And>i k. i < m \<Longrightarrow> k < n \<Longrightarrow> entry m b k i = entry n a i k"
  using assms(2)
proof (elim disjE conjE)
  assume d: "arr_dims a = [m, n]" "m \<noteq> 1"
  then obtain l0 l1 where l: "arr_lbs a = [l0, l1]"
    using assms(1) by (auto simp: is_mat_def arr_ok_def length_Suc_conv)
  let ?b = "\<lparr>arr_dims = [n, m], arr_lbs = [l1, l0], arr_data = map (\<lambda>q. arr_data a ! MAT_2D (q mod m) (q div m) n) [0..<n * m]\<rparr>"
  have "matrix_transpose_internal a = Inr ?b" using assms(1) d l is_mat_length [OF assms(1)]
    by (auto simp: matrix_transpose_internal_def is_mat_def concat_cells)
  moreover have "is_mat n m ?b" using assms(3) d l is_mat_size [OF assms(1)]
    by (intro is_matI [where lb = l1 and lb' = l0]) (auto simp: mult.commute)
  ultimately show thesis by (rule that) (simp_all add: entry_def MAT_2D_def cell_bound)
next
  assume d: "arr_dims a = [m]" "n = 1"
  then obtain l where l: "arr_lbs a = [l]" using assms(1) by (auto simp: is_mat_def arr_ok_def length_Suc_conv)
  let ?b = "\<lparr>arr_dims = [1, m], arr_lbs = [1, l], arr_data = arr_data a\<rparr>"
  have "matrix_transpose_internal a = Inr ?b" using assms(1) d l is_mat_length [OF assms(1)]
    by (auto simp: matrix_transpose_internal_def is_mat_def)
  moreover have "is_mat n m ?b" using d is_mat_length [OF assms(1)] is_mat_size [OF assms(1)]
    by (intro is_matI [where lb = 1 and lb' = l]) auto
  ultimately show thesis by (rule that) (simp_all add: d entry_def MAT_2D_def)
qed

definition dot :: "'a :: semiring_0 ArrayType \<Rightarrow> 'a ArrayType \<Rightarrow> 'a" where
  "dot a b = (\<Sum>q < length (arr_data a). arr_data a ! q * arr_data b ! q)"

lemma dot_entries: "is_mat m n a \<Longrightarrow> dot a b = (\<Sum>i < m. \<Sum>k < n. entry n a i k * entry n b i k)"
  using sum_cells [of "\<lambda>i k. entry n a i k * entry n b i k" n m]
  by (simp add: dot_def is_mat_length entry_def MAT_2D_def)

lemma matrix_mul_adjoint_left:
  fixes a :: "'a :: comm_semiring_0 ArrayType"
  assumes "is_mat m n a" "is_mat n p b" "is_mat m p s" "arr_dims a = [m, n]" "2 \<le> m" "2 \<le> n"
    "arr_dims b = [n, p] \<or> arr_dims b = [n]" "nth (arr_lbs b) (length (arr_dims b) - 1) \<noteq> -1"
  obtains c x where "matrix_mul a b = Inr c" "matrix_mul_internal s b False True = Inr x" "is_mat m n x" "arr_dims x = [m, n]"
    "arr_lbs x = [1, 1]" "dot s c = dot x a"
proof -
  have pre: "arr_dims b = [n, p] \<and> n \<noteq> 1 \<or> arr_dims b = [n] \<and> p = 1" using assms by (auto simp: is_mat_def)
  obtain bt where bt: "matrix_transpose_internal b = Inr bt" "is_mat p n bt" "arr_dims bt = [p, n]"
      "\<And>i k. i < n \<Longrightarrow> k < p \<Longrightarrow> entry n bt k i = entry p b i k"
    by (rule matrix_transpose_mat [OF assms(2) pre assms(8) that])
  have s: "\<not> isScalar s" "\<not> isScalar bt" using assms bt by (simp_all add: is_mat_def)
  obtain c where c: "matrix_mul a b = Inr c" "is_mat m p c"
      "\<And>i k. i < m \<Longrightarrow> k < p \<Longrightarrow> entry p c i k = (\<Sum>j < n. entry n a i j * entry p b j k)"
    by (rule matrix_mul_mat [OF assms(1,2) _ _ _ that]) (use assms is_mat_size [OF assms(3)] in simp_all)
  obtain x where x: "matrix_mul s bt = Inr x" "is_mat m n x" "arr_dims x = [m, n]" "arr_lbs x = [1, 1]"
      "\<And>i j. i < m \<Longrightarrow> j < n \<Longrightarrow> entry n x i j = (\<Sum>k < p. entry p s i k * entry n bt k j)"
    by (rule matrix_mul_mat [OF assms(3) bt(2) _ _ _ that]) (use assms bt is_mat_size [OF assms(1)] in simp_all)
  have "matrix_mul_internal s b False True = Inr x"
    using bt(1) s x(1) matrix_mul_plain [OF s] by (simp add: matrix_mul_internal_def)
  moreover have "dot s c = dot x a"
  proof -
    have "dot s c = (\<Sum>i < m. \<Sum>k < p. \<Sum>j < n. entry p s i k * (entry n a i j * entry p b j k))"
      by (simp add: dot_entries [OF assms(3)] c(3) sum_distrib_left)
    also have "\<dots> = (\<Sum>i < m. \<Sum>j < n. \<Sum>k < p. entry p s i k * entry n bt k j * entry n a i j)"
      by (rule sum.cong [OF refl], subst sum.swap) (simp add: bt(4) ac_simps)
    also have "\<dots> = dot x a" by (simp add: dot_entries [OF x(2)] x(5) sum_distrib_right)
    finally show ?thesis .
  qed
  ultimately show thesis using that c(1) x(2-4) by blast
qed

lemma matrix_mul_adjoint_right:
  fixes a :: "'a :: comm_semiring_0 ArrayType"
  assumes "is_mat m n a" "is_mat n p b" "is_mat m p s" "arr_dims a = [m, n]" "2 \<le> m" "2 \<le> n"
    "nth (arr_lbs a) 1 \<noteq> -1"
  obtains c y where "matrix_mul a b = Inr c" "matrix_mul_internal a s True False = Inr y" "is_mat n p y"
    "arr_dims y = (if length (arr_dims s) = 1 then [n] else [n, p])"
    "arr_lbs y = (if length (arr_dims s) = 1 then [1] else [1, 1])" "dot s c = dot y b"
proof -
  have pre: "arr_dims a = [m, n] \<and> m \<noteq> 1 \<or> arr_dims a = [m] \<and> n = 1" "nth (arr_lbs a) (length (arr_dims a) - 1) \<noteq> -1"
    using assms by auto
  obtain at' where at': "matrix_transpose_internal a = Inr at'" "is_mat n m at'" "arr_dims at' = [n, m]"
      "\<And>i k. i < m \<Longrightarrow> k < n \<Longrightarrow> entry m at' k i = entry n a i k"
    by (rule matrix_transpose_mat [OF assms(1) pre that])
  have s: "\<not> isScalar at'" "\<not> isScalar s" using assms at' by (simp_all add: is_mat_def)
  obtain c where c: "matrix_mul a b = Inr c" "is_mat m p c"
      "\<And>i k. i < m \<Longrightarrow> k < p \<Longrightarrow> entry p c i k = (\<Sum>j < n. entry n a i j * entry p b j k)"
    by (rule matrix_mul_mat [OF assms(1,2) _ _ _ that]) (use assms is_mat_size [OF assms(3)] in simp_all)
  obtain y where y: "matrix_mul at' s = Inr y" "is_mat n p y" "arr_dims y = (if length (arr_dims s) = 1 then [n] else [n, p])"
      "arr_lbs y = (if length (arr_dims s) = 1 then [1] else [1, 1])"
      "\<And>j k. j < n \<Longrightarrow> k < p \<Longrightarrow> entry p y j k = (\<Sum>i < m. entry m at' j i * entry p s i k)"
    by (rule matrix_mul_mat [OF at'(2) assms(3) _ _ _ that]) (use assms at' is_mat_size [OF assms(2)] in simp_all)
  have "matrix_mul_internal a s True False = Inr y"
    using at'(1) s y(1) matrix_mul_plain [OF s] by (simp add: matrix_mul_internal_def)
  moreover have "dot s c = dot y b"
  proof -
    have "dot s c = (\<Sum>i < m. \<Sum>k < p. \<Sum>j < n. entry p s i k * (entry n a i j * entry p b j k))"
      by (simp add: dot_entries [OF assms(3)] c(3) sum_distrib_left)
    also have "\<dots> = (\<Sum>i < m. \<Sum>j < n. \<Sum>k < p. entry p s i k * (entry n a i j * entry p b j k))"
      by (rule sum.cong [OF refl], rule sum.swap)
    also have "\<dots> = (\<Sum>j < n. \<Sum>i < m. \<Sum>k < p. entry p s i k * (entry n a i j * entry p b j k))" by (rule sum.swap)
    also have "\<dots> = (\<Sum>j < n. \<Sum>k < p. \<Sum>i < m. entry m at' j i * entry p s i k * entry p b j k)"
      by (rule sum.cong [OF refl], subst sum.swap) (simp add: at'(4) ac_simps)
    also have "\<dots> = dot y b" by (simp add: dot_entries [OF y(2)] y(5) sum_distrib_right)
    finally show ?thesis .
  qed
  ultimately show thesis using that c(1) y(2-4) by blast
qed

text \<open>C23: the two matrix products agree up to copying. \<open>matrix_mul\<close>, which adds up the products in the zeroed result array, and
  \<open>matrix_mul_internal\<close> without transposes, which computes one element after the other, return the same array or fail
  with the same error; only with a scalar factor \<open>matrix_mul_internal\<close> copies the other factor with \<open>copyArray\<close>, and fails where that
  writes past its memory.\<close>

theorem matrix_mul_agree:
  "matrix_mul_internal a b False False =
    (if isScalar a then rbind (copyArray b) (\<lambda>_. matrix_mul a b)
     else if isScalar b then rbind (copyArray a) (\<lambda>_. matrix_mul a b)
     else matrix_mul a b)"
  by (rule matrix_mul_internal_plain)

text \<open>C22: the derivative of a matrix product. For a left factor with at least two rows and columns, a right factor that is a
  matrix or a column vector, and no lower bound of -1, which marks a scalar, \<open>matrix_mul_internal(seed, y, false, true)\<close> and \<open>matrix_mul_internal(x, seed, true, false)\<close>, the
  seeds that derivation gives to the factors of \<open>matrix_mul(x, y)\<close>, have the dimensions of the factors and are the
  adjoints of the product: the scalar product of the seed with the product is that of the new seeds with the factors.\<close>

theorem matrix_mul_seeds:
  fixes x :: "'a :: comm_semiring_0 ArrayType"
  assumes "is_mat m n x" "is_mat n p y" "is_mat m p seed" "2 \<le> m" "2 \<le> n"
    and "arr_dims y = [n] \<longleftrightarrow> arr_dims seed = [m]" "list_all (\<lambda>lb. lb \<noteq> -1) (arr_lbs x)" "list_all (\<lambda>lb. lb \<noteq> -1) (arr_lbs y)"
  shows "\<exists>xy seedX seedY. matrix_mul x y = Inr xy \<and> arr_dims xy = arr_dims seed \<and>
    matrix_mul_internal seed y False True = Inr seedX \<and> arr_dims seedX = arr_dims x \<and> dot seed xy = dot seedX x \<and>
    matrix_mul_internal x seed True False = Inr seedY \<and> arr_dims seedY = arr_dims y \<and> dot seed xy = dot seedY y"
proof -
  have x: "arr_dims x = [m, n]" "arr_lbs x ! 1 \<noteq> -1" using assms(1,5,7) by (auto simp: is_mat_def arr_ok_def list_all_length)
  have y: "arr_dims y = [n, p] \<or> arr_dims y = [n]" "arr_lbs y ! (length (arr_dims y) - 1) \<noteq> -1"
    using assms(2,8) by (auto simp: is_mat_def arr_ok_def list_all_length)
  obtain xy where xy: "matrix_mul x y = Inr xy" "arr_dims xy = (if length (arr_dims y) = 1 then [m] else [m, p])"
    by (rule matrix_mul_mat [OF assms(1,2) _ _ _ that]) (use x assms(4) is_mat_size [OF assms(3)] in simp_all)
  obtain xy' sx where sx: "matrix_mul x y = Inr xy'" "matrix_mul_internal seed y False True = Inr sx" "arr_dims sx = [m, n]" "dot seed xy' = dot sx x"
    by (rule matrix_mul_adjoint_left [OF assms(1-3) x(1) assms(4,5) y that])
  obtain xy'' sy where sy: "matrix_mul x y = Inr xy''" "matrix_mul_internal x seed True False = Inr sy"
      "arr_dims sy = (if length (arr_dims seed) = 1 then [n] else [n, p])" "dot seed xy'' = dot sy y"
    by (rule matrix_mul_adjoint_right [OF assms(1-3) x(1) assms(4,5) x(2) that])
  have "arr_dims xy = arr_dims seed" "arr_dims sy = arr_dims y"
    using xy(2) sy(3) y(1) assms(3,6) by (auto simp: is_mat_def)
  then show ?thesis using xy sx sy x(1) by auto
qed

definition ex_x :: "int ArrayType" where
  "ex_x = \<lparr>arr_dims = [2, 3], arr_lbs = [1, 1], arr_data = [1, 2, 3, 4, 5, 6]\<rparr>"

definition ex_y :: "int ArrayType" where
  "ex_y = \<lparr>arr_dims = [3], arr_lbs = [1], arr_data = [7, 8, 9]\<rparr>"

definition ex_seed :: "int ArrayType" where
  "ex_seed = \<lparr>arr_dims = [2], arr_lbs = [1], arr_data = [1, -1]\<rparr>"

theorem matrix_mul_seeds_witness:
  "\<exists>xy seedX seedY. matrix_mul ex_x ex_y = Inr xy \<and> arr_data xy = [50, 122] \<and> matrix_mul_internal ex_seed ex_y False True = Inr seedX \<and>
    dot ex_seed xy = dot seedX ex_x \<and> matrix_mul_internal ex_x ex_seed True False = Inr seedY \<and> dot ex_seed xy = dot seedY ex_y"
proof -
  have "is_mat 2 3 ex_x" "is_mat 3 1 ex_y" "is_mat 2 1 ex_seed" "arr_dims ex_y = [3] \<longleftrightarrow> arr_dims ex_seed = [2]"
    "list_all (\<lambda>lb. lb \<noteq> -1) (arr_lbs ex_x)" "list_all (\<lambda>lb. lb \<noteq> -1) (arr_lbs ex_y)"
    by (simp_all add: ex_x_def ex_y_def ex_seed_def is_mat_def arr_ok_def isScalar_def ArrayGetNItemsSafe_def MaxArraySize_def)
  from matrix_mul_seeds [OF this(1-3) _ _ this(4-6)]
  obtain xy sx sy where *: "matrix_mul ex_x ex_y = Inr xy" "matrix_mul_internal ex_seed ex_y False True = Inr sx" "dot ex_seed xy = dot sx ex_x"
    "matrix_mul_internal ex_x ex_seed True False = Inr sy" "dot ex_seed xy = dot sy ex_y" by auto
  moreover have "rmap arr_data (matrix_mul ex_x ex_y) = Inr [50, 122]"
  proof -
    have "mul_acc 2 3 1 (arr_data ex_x) (arr_data ex_y) [0, 0] = [50, 122]" by code_simp
    then show ?thesis
      by (simp add: ex_x_def ex_y_def matrix_mul_def isScalar_def mul_shape_def ArrayGetNItemsSafe_def MaxArraySize_def mul_in_bounds_def
          initResult_def ArrayGetNItems_def numeral_2_eq_2)
  qed
  ultimately show ?thesis by auto
qed

section \<open>Transposes\<close>

text \<open>Transposing twice gives the array back, for a column vector and for a matrix with more than one column; the lower
  bounds must be those of arrays that are not scalars, and a row vector must have lower bound 1.\<close>

lemma matrix_transpose_twice:
  assumes "is_mat m n a" "n \<noteq> 1 \<or> arr_dims a = [m]" "list_all (\<lambda>lb. lb \<noteq> -1) (arr_lbs a)" "m = 1 \<Longrightarrow> n \<noteq> 1 \<Longrightarrow> hd (arr_lbs a) = 1"
  shows "\<exists>b. matrix_transpose_internal a = Inr b \<and> matrix_transpose_internal b = Inr a"
proof (cases "arr_dims a = [m]")
  case True
  then obtain l where l: "arr_lbs a = [l]" using assms(1) by (auto simp: is_mat_def arr_ok_def length_Suc_conv)
  have len: "length (arr_data a) = m" using is_mat_length [OF assms(1)] assms(1) True by (auto simp: is_mat_def)
  have "matrix_transpose_internal a = Inr \<lparr>arr_dims = [1, m], arr_lbs = [1, l], arr_data = arr_data a\<rparr>"
    using assms(1) True l len by (auto simp: matrix_transpose_internal_def is_mat_def)
  moreover have "matrix_transpose_internal \<lparr>arr_dims = [1, m], arr_lbs = [1, l], arr_data = arr_data a\<rparr> = Inr a"
    using True l len by (cases a) (auto simp: matrix_transpose_internal_def isScalar_def)
  ultimately show ?thesis by blast
next
  case False
  then have d: "arr_dims a = [m, n]" "n \<noteq> 1" using assms(1,2) by (auto simp: is_mat_def)
  then obtain l0 l1 where l: "arr_lbs a = [l0, l1]" "l0 \<noteq> -1" "l1 \<noteq> -1"
    using assms(1,3) by (auto simp: is_mat_def arr_ok_def length_Suc_conv)
  note len = is_mat_length [OF assms(1)]
  show ?thesis
  proof (cases "m = 1")
    case True
    then have "l0 = 1" using assms(4) d l by simp
    have "matrix_transpose_internal a = Inr \<lparr>arr_dims = [n], arr_lbs = [l1], arr_data = arr_data a\<rparr>"
      using d l len True by (auto simp: matrix_transpose_internal_def isScalar_def)
    moreover have "matrix_transpose_internal \<lparr>arr_dims = [n], arr_lbs = [l1], arr_data = arr_data a\<rparr> = Inr a"
      using d l len True \<open>l0 = 1\<close> by (cases a) (auto simp: matrix_transpose_internal_def isScalar_def)
    ultimately show ?thesis by blast
  next
    case m: False
    let ?b = "\<lparr>arr_dims = [n, m], arr_lbs = [l1, l0], arr_data = map (\<lambda>q. arr_data a ! MAT_2D (q mod m) (q div m) n) [0..<n * m]\<rparr>"
    have "matrix_transpose_internal a = Inr ?b"
      using d l len m by (auto simp: matrix_transpose_internal_def isScalar_def concat_cells)
    moreover have same: "map (\<lambda>k. arr_data ?b ! MAT_2D (k mod n) (k div n) m) [0..<m * n] = arr_data a"
    proof (rule nth_equalityI)
      fix k assume "k < length (map (\<lambda>k. arr_data ?b ! MAT_2D (k mod n) (k div n) m) [0..<m * n])"
      then have k: "k < m * n" by simp
      then have "k div n < m" "k mod n < n" by (auto simp: less_mult_imp_div_less) (metis mod_less_divisor mult_0_right not_less_zero neq0_conv)
      then show "map (\<lambda>k. arr_data ?b ! MAT_2D (k mod n) (k div n) m) [0..<m * n] ! k = arr_data a ! k"
        using k cell_bound [of "k mod n" n "k div n" m] by (simp add: MAT_2D_def)
    qed (simp add: len)
    moreover have "matrix_transpose_internal ?b =
        Inr \<lparr>arr_dims = [m, n], arr_lbs = [l0, l1], arr_data = map (\<lambda>k. arr_data ?b ! MAT_2D (k mod n) (k div n) m) [0..<m * n]\<rparr>"
      using d l by (simp add: matrix_transpose_internal_def isScalar_def concat_cells)
    moreover have "a = \<lparr>arr_dims = [m, n], arr_lbs = [l0, l1], arr_data = arr_data a\<rparr>" using d l by (cases a) simp
    ultimately show ?thesis unfolding same by metis
  qed
qed

section \<open>Softmax\<close>

lemma foldl_sum_list: "foldl (\<lambda>s x. s + f x) a xs = a + sum_list (map f xs)" for a :: "'b :: comm_monoid_add"
  by (induction xs arbitrary: a) (simp_all add: add.assoc)

lemma sum_exp_pos: "xs \<noteq> [] \<Longrightarrow> 0 < sum_list (map exp xs)" for xs :: "real list"
  by (cases xs) (auto intro!: add_pos_nonneg sum_list_nonneg)

lemma sum_exp_shift: "sum_list (map (\<lambda>x. exp (x - m)) xs) = sum_list (map exp xs) / exp m" for m :: real
  by (induction xs) (simp_all add: exp_diff add_divide_distrib)

lemma softmax_exp: "softmax a = Inr b \<Longrightarrow> arr_data b = map (\<lambda>x. exp x / sum_list (map exp (arr_data a))) (arr_data a)"
  unfolding softmax_def Let_def foldl_sum_list add_0 sum_exp_shift copyArray_fits by (auto simp: exp_diff split: if_splits)

lemma log_softmax_exp: "xs \<noteq> [] \<Longrightarrow> log_softmax xs = map (\<lambda>x. x - ln (sum_list (map exp xs))) xs"
  using sum_exp_pos [of xs] by (simp add: log_softmax_def Let_def foldl_sum_list sum_exp_shift comp_def ln_div)

lemma index_max_fold:
  fixes f :: "real \<Rightarrow> real"
  assumes "strict_mono_on (set xs) f" "m \<in> set xs" "list_all (\<lambda>i. i < length xs) ks"
  shows "snd (fold (\<lambda>i (m, k). if map f xs ! i > m then (map f xs ! i, i) else (m, k)) ks (f m, k)) =
    snd (fold (\<lambda>i (m, k). if xs ! i > m then (xs ! i, i) else (m, k)) ks (m, k))"
  using assms(2,3)
proof (induction ks arbitrary: m k)
  case (Cons i ks)
  then have i: "i < length xs" "xs ! i \<in> set xs" by simp_all
  then have "f (xs ! i) > f m \<longleftrightarrow> xs ! i > m" using strict_mono_on_less [OF assms(1)] Cons.prems(1) by blast
  then show ?case using Cons i by simp
qed simp

lemma index_max_fold_hd:
  "arr_data a \<noteq> [] \<Longrightarrow> index_max a = Inr (snd (fold (\<lambda>i (m, k). if arr_data a ! i > m then (arr_data a ! i, i) else (m, k))
    [1..<length (arr_data a)] (hd (arr_data a), 0)))"
  by (auto simp: index_max_def split: list.split)

text \<open>\<open>softmax\<close> of a non-empty array is the distribution with weights \<open>exp x\<close>: all elements are positive, they add up to 1,
  and the largest element stays where it was, so that \<open>index_max\<close> finds the same index before and after.\<close>

lemma softmax_distribution:
  assumes "arr_data a \<noteq> []" and b: "softmax a = Inr b"
  shows "arr_data b = map (\<lambda>x. exp x / sum_list (map exp (arr_data a))) (arr_data a) \<and>
    list_all (\<lambda>y. 0 < y) (arr_data b) \<and> sum_list (arr_data b) = 1 \<and> index_max b = index_max a"
proof -
  let ?s = "sum_list (map exp (arr_data a))" let ?f = "\<lambda>x. exp x / ?s"
  have s: "0 < ?s" by (rule sum_exp_pos [OF assms(1)])
  have "sum_list (map (\<lambda>x. exp x / c) xs) = sum_list (map exp xs) / c" for c :: real and xs by (induction xs) (simp_all add: add_divide_distrib)
  then have "sum_list (map ?f (arr_data a)) = 1" using s by simp
  moreover have "index_max b = index_max a"
  proof -
    have "strict_mono_on (set (arr_data a)) ?f" using s by (auto intro!: strict_mono_onI divide_strict_right_mono)
    from index_max_fold [OF this, of "hd (arr_data a)" "[1..<length (arr_data a)]" 0] assms(1)
    show ?thesis unfolding index_max_fold_hd [OF assms(1)] by (subst index_max_fold_hd) (simp_all only: softmax_exp [OF b], simp_all add: list_all_iff hd_map)
  qed
  ultimately show ?thesis using s by (simp add: softmax_exp [OF b] list_all_iff)
qed

definition cce_value :: "real ArrayType \<Rightarrow> real ArrayType \<Rightarrow> real" where
  "cce_value input labels = (case softmax_cce_internal input labels of Inr v \<Rightarrow> v | Inl _ \<Rightarrow> 0)"

definition cce_args :: "real ArrayType \<Rightarrow> real ArrayType \<Rightarrow> bool" where
  "cce_args input labels \<longleftrightarrow> arr_dims input = arr_dims labels \<and> \<not> not_vector (arr_dims input) \<and>
    arr_data input \<noteq> [] \<and> length (arr_data labels) = length (arr_data input) \<and> sum_list (arr_data labels) = 1"

lemma cce_sum:
  assumes "cce_args input labels"
  shows "softmax_cce_internal input labels = Inr (cce_value input labels)"
    "cce_value input labels = sum_list (map2 (*) (arr_data input) (arr_data labels)) - ln (sum_list (map exp (arr_data input)))"
proof -
  have split: "length ls = length xs \<Longrightarrow> sum_list (map2 (*) (map (\<lambda>x. x - c) xs) ls) = sum_list (map2 (*) xs ls) - c * sum_list ls" for c :: real and xs ls
    by (induction xs ls rule: list_induct2') (simp_all add: algebra_simps)
  let ?v = "sum_list (map2 (*) (log_softmax (arr_data input)) (arr_data labels))"
  have "softmax_cce_internal input labels = Inr ?v"
    using assms foldl_sum_list [of "\<lambda>x. x" 0] by (auto simp: cce_args_def softmax_cce_internal_def same_dims_def)
  then show "softmax_cce_internal input labels = Inr (cce_value input labels)"
    "cce_value input labels = sum_list (map2 (*) (arr_data input) (arr_data labels)) - ln (sum_list (map exp (arr_data input)))"
    using assms by (simp_all add: cce_value_def cce_args_def log_softmax_exp split)
qed

lemma softmax_cce_seed:
  assumes "cce_args input labels" "length (arr_data input) = ArrayGetNItems (arr_dims input)"
  shows "softmax_cce_derive input labels =
    Inr (input\<lparr>arr_data := map2 (\<lambda>x l. exp x / sum_list (map exp (arr_data input)) - l) (arr_data input) (arr_data labels)\<rparr>)"
  using assms sum_exp_pos [of "arr_data input"]
  by (auto simp: cce_args_def softmax_cce_derive_def log_softmax_exp exp_diff map_zip_map)

lemma DERIV_sum_list:
  assumes "\<And>q. q < length (xs t) \<Longrightarrow> ((\<lambda>u. f (xs u ! q)) has_real_derivative f' q) (at t)" "\<And>u. length (xs u) = n"
  shows "((\<lambda>u. sum_list (map f (xs u))) has_real_derivative (\<Sum>q < n. f' q)) (at t)"
proof -
  have "sum_list (map f (xs u)) = (\<Sum>q < n. f (xs u ! q))" for u
    using assms(2) [of u] by (simp add: sum_list_sum_nth atLeast0LessThan)
  then show ?thesis using assms by (simp only:) (rule DERIV_sum, simp)
qed

text \<open>The value along a curve of inputs.\<close>

lemma cce_deriv:
  assumes xs: "\<And>u. length (xs u) = length ls" "\<And>q. q < length ls \<Longrightarrow> ((\<lambda>u. xs u ! q) has_real_derivative d q) (at t)" "ls \<noteq> []"
  shows "((\<lambda>u. sum_list (map2 (*) (xs u) ls) - ln (sum_list (map exp (xs u)))) has_real_derivative
    - (\<Sum>q < length ls. (exp (xs t ! q) / sum_list (map exp (xs t)) - ls ! q) * d q)) (at t)"
proof -
  let ?E = "\<lambda>u. sum_list (map exp (xs u))"
  have ne: "xs u \<noteq> []" for u using xs(1) [of u] xs(3) by auto
  have "sum_list (map2 (*) (xs u) ls) = (\<Sum>q < length ls. xs u ! q * ls ! q)" for u
    using xs(1) [of u] by (simp add: sum_list_sum_nth atLeast0LessThan)
  then have 1: "((\<lambda>u. sum_list (map2 (*) (xs u) ls)) has_real_derivative (\<Sum>q < length ls. d q * ls ! q)) (at t)"
    by (simp only:) (intro DERIV_sum DERIV_cmult_right xs(2), simp)
  have "(?E has_real_derivative (\<Sum>q < length ls. exp (xs t ! q) * d q)) (at t)"
    by (rule DERIV_sum_list) (use xs in \<open>auto intro!: derivative_eq_intros\<close>)
  from DERIV_chain2 [OF DERIV_ln_divide [OF sum_exp_pos [OF ne]] this]
  have "((\<lambda>u. ln (?E u)) has_real_derivative 1 / ?E t * (\<Sum>q < length ls. exp (xs t ! q) * d q)) (at t)" .
  from DERIV_diff [OF 1 this] show ?thesis
    by (rule DERIV_cong) (simp add: sum_distrib_left flip: sum_subtractf sum_negf, simp add: algebra_simps)
qed

text \<open>C24: the sign of the loss. For labels that add up to 1, \<open>softmax_cce_derive\<close> is the gradient in the input of the
  negative of the value that \<open>softmax_cce\<close> returns: the value is the sum of the label times the logarithm of the
  probability, without the minus sign of the cross-entropy loss.\<close>

theorem softmax_cce_sign:
  assumes "cce_args input labels" "length (arr_data input) = ArrayGetNItems (arr_dims input)" "i < length (arr_data input)"
  shows "\<exists>d. softmax_cce_derive input labels = Inr d \<and> softmax_cce_internal input labels = Inr (cce_value input labels) \<and>
    ((\<lambda>u. - cce_value (input\<lparr>arr_data := (arr_data input)[i := u]\<rparr>) labels) has_real_derivative arr_data d ! i) (at (arr_data input ! i))"
proof -
  let ?xs = "\<lambda>u. (arr_data input)[i := u]" and ?ls = "arr_data labels" and ?t = "arr_data input ! i"
  let ?d = "input\<lparr>arr_data := map2 (\<lambda>x l. exp x / sum_list (map exp (arr_data input)) - l) (arr_data input) ?ls\<rparr>"
  have len: "length ?ls = length (arr_data input)" "arr_data input \<noteq> []" using assms(1) by (simp_all add: cce_args_def)
  have val: "cce_value (input\<lparr>arr_data := ?xs u\<rparr>) labels = sum_list (map2 (*) (?xs u) ?ls) - ln (sum_list (map exp (?xs u)))" for u
    using cce_sum(2) [of "input\<lparr>arr_data := ?xs u\<rparr>" labels] assms(1) by (auto simp: cce_args_def)
  have "((\<lambda>u. ?xs u ! q) has_real_derivative (if q = i then 1 else 0)) (at ?t)" if "q < length ?ls" for q
    using that len assms(3) by (cases "q = i") simp_all
  then have "((\<lambda>u. sum_list (map2 (*) (?xs u) ?ls) - ln (sum_list (map exp (?xs u)))) has_real_derivative
      - (\<Sum>q < length ?ls. (exp (?xs ?t ! q) / sum_list (map exp (?xs ?t)) - ?ls ! q) * (if q = i then 1 else 0))) (at ?t)"
    by (intro cce_deriv) (use len in auto)
  from DERIV_minus [OF this] have "((\<lambda>u. - cce_value (input\<lparr>arr_data := ?xs u\<rparr>) labels) has_real_derivative
      (\<Sum>q < length ?ls. (exp (?xs ?t ! q) / sum_list (map exp (?xs ?t)) - ?ls ! q) * (if q = i then 1 else 0))) (at ?t)"
    unfolding val minus_minus .
  moreover have "(\<Sum>q < length ?ls. (exp (?xs ?t ! q) / sum_list (map exp (?xs ?t)) - ?ls ! q) * (if q = i then 1 else 0)) = arr_data ?d ! i"
    using assms(3) len by (simp add: if_distrib [of "\<lambda>x. _ * x"] cong: if_cong)
  ultimately show ?thesis using softmax_cce_seed [OF assms(1,2)] cce_sum(1) [OF assms(1)] by auto
qed

theorem softmax_cce_sign_witness:
  "\<exists>d. softmax_cce_derive \<lparr>arr_dims = [2], arr_lbs = [1], arr_data = [0, 0]\<rparr> \<lparr>arr_dims = [2], arr_lbs = [1], arr_data = [1, 0]\<rparr> = Inr d \<and>
    ((\<lambda>u. - cce_value \<lparr>arr_dims = [2], arr_lbs = [1], arr_data = [u, 0]\<rparr> \<lparr>arr_dims = [2], arr_lbs = [1], arr_data = [1, 0]\<rparr>)
      has_real_derivative arr_data d ! 0) (at 0)"
  using softmax_cce_sign [of "\<lparr>arr_dims = [2], arr_lbs = [1], arr_data = [0, 0]\<rparr>" "\<lparr>arr_dims = [2], arr_lbs = [1], arr_data = [1, 0]\<rparr>" 0]
  by (auto simp: cce_args_def not_vector_def ArrayGetNItems_def)

end
