(* ===== verification/Networks.thy ===== *)
theory Networks
  imports Derive_Steps Matrix_Algebra
begin

text \<open>
  Neural networks as lambda bodies: matrix products, sums and activations over constant and input matrices. Networks of
  fitting dimensions evaluate without errors, and the derivative of their value in an element of an input matrix follows
  from those of their parts.
\<close>

section \<open>Networks\<close>

definition std_array :: "nat list \<Rightarrow> 'a list \<Rightarrow> 'a ArrayType" where
  "std_array ds v = \<lparr>arr_dims = ds, arr_lbs = replicate (length ds) 1, arr_data = v\<rparr>"

lemma std_array_simps [simp]:
  "arr_dims (std_array ds v) = ds" "arr_lbs (std_array ds v) = replicate (length ds) 1" "arr_data (std_array ds v) = v"
  "\<not> isScalar (std_array ds v)" "map_array f (std_array ds v) = std_array ds (map f v)"
  by (cases ds; simp add: std_array_def isScalar_def map_array_def)+

text \<open>Vectors and matrices with at least two elements in each dimension. Activations and sums copy an array, which has to stay
  within its memory.\<close>

definition dims_ok :: "nat list \<Rightarrow> bool" where
  "dims_ok ds \<longleftrightarrow> ds \<noteq> [] \<and> length ds \<le> 2 \<and> list_all (\<lambda>d. 2 \<le> d \<and> d \<le> 2147483647) ds \<and> prod_list ds \<le> MaxArraySize"

text \<open>Value, derivative and the points where it exists, for the element-wise functions.\<close>

definition act_fn :: "fn \<Rightarrow> ((real \<Rightarrow> real) \<times> (real \<Rightarrow> real)) option" where
  "act_fn f =
    (case f of
       F_SILU_M \<Rightarrow> Some (silu, \<lambda>x. (1 + exp (- x) + x * exp (- x)) / ((1 + exp (- x)) * (1 + exp (- x))))
     | F_SIGMOID_M \<Rightarrow> Some (sigmoid, \<lambda>x. sigmoid x * (1 - sigmoid x))
     | F_TANH_M \<Rightarrow> Some (tanh, \<lambda>x. 1 - tanh x * tanh x)
     | F_RELU_M \<Rightarrow> Some (relu, \<lambda>x. if x > 0 then 1 else 0)
     | _ \<Rightarrow> None)"

inductive net :: "nat list \<Rightarrow> (nat \<Rightarrow> nat list) \<Rightarrow> dterm \<Rightarrow> nat list \<Rightarrow> bool" for natts fdims where
  net_lit: "dims_ok ds \<Longrightarrow> length v = prod_list ds \<Longrightarrow> net natts fdims (Lit (F8Array (std_array ds v))) ds"
| net_field: "fields_ok natts (Field pid fieldnum FLOAT8ARRAYOID) \<Longrightarrow> dims_ok (fdims (field_pos natts pid fieldnum)) \<Longrightarrow>
    net natts fdims (Field pid fieldnum FLOAT8ARRAYOID) (fdims (field_pos natts pid fieldnum))"
| net_act: "net natts fdims t ds \<Longrightarrow> fn_of_oid funcid = Some f \<Longrightarrow> act_fn f = Some (v, d) \<Longrightarrow> copy_fits ds \<Longrightarrow>
    net natts fdims (Call funcid [t]) ds"
| net_add: "net natts fdims t ds \<Longrightarrow> net natts fdims t' ds \<Longrightarrow> fn_of_oid funcid = Some F_MAT_ADD \<Longrightarrow> copy_fits ds \<Longrightarrow>
    net natts fdims (Call funcid [t, t']) ds"
| net_mul: "net natts fdims t [m, n] \<Longrightarrow> net natts fdims t' (n # ps) \<Longrightarrow> prod_list (m # ps) \<le> MaxArraySize \<Longrightarrow>
    fn_of_oid funcid = Some F_MAT_MUL \<Longrightarrow> net natts fdims (Call funcid [t, t']) (m # ps)"

lemma net_dims: "net natts fdims t ds \<Longrightarrow> dims_ok ds"
  by (induction rule: net.induct) (auto simp: dims_ok_def)

lemma net_arity: "net natts fdims t ds \<Longrightarrow> arity_ok t"
  by (induction rule: net.induct) (auto simp: fn_arity_def act_fn_def split: fn.splits)

text \<open>The input rows hold matrices of the given dimensions.\<close>

definition shaped :: "nat list \<Rightarrow> (nat \<Rightarrow> nat list) \<Rightarrow> (nat \<Rightarrow> real list) \<Rightarrow> bool" where
  "shaped natts fdims e \<longleftrightarrow> (\<forall>k < sum_list natts. length (e k) = prod_list (fdims k))"

definition matrix_rows :: "nat list \<Rightarrow> (nat \<Rightarrow> nat list) \<Rightarrow> (nat \<Rightarrow> real list) \<Rightarrow> fval list" where
  "matrix_rows natts fdims e = input_rows natts (\<lambda>k. std_array (fdims k) (e k)) F8Array"

definition val :: "(oid \<Rightarrow> fval list \<Rightarrow> fval result) \<Rightarrow> fval list \<Rightarrow> dterm \<Rightarrow> real list" where
  "val P rows t = (case teval P rows t of Inr (F8Array a) \<Rightarrow> arr_data a | _ \<Rightarrow> [])"

lemma std_mat: "dims_ok (m # ps) \<Longrightarrow> length v = prod_list (m # ps) \<Longrightarrow> is_mat m (prod_list ps) (std_array (m # ps) v)"
  by (cases ps; intro is_matI [where lb = 1 and lb' = 1]) (auto simp: dims_ok_def)

lemma std_mul:
  assumes "dims_ok [m, n]" "dims_ok (n # ps)" "dims_ok (m # ps)" "length a = m * n" "length b = prod_list (n # ps)"
  shows "matrix_mul (std_array [m, n] a) (std_array (n # ps) b) = Inr (std_array (m # ps) (mul_dot m n (prod_list ps) a b))"
proof -
  have m: "2 \<le> m" "length ps \<le> 1" using assms(1,2) by (auto simp: dims_ok_def)
  have "mul_shape (std_array [m, n] a) (std_array (n # ps) b) = Inr (m, n, prod_list ps, m # ps, [1, 1])"
    using m by (cases ps; cases "tl ps") (auto simp: mul_shape_def)
  moreover have "ArrayGetNItemsSafe (m # ps) = Inr (prod_list (m # ps))"
    using assms(3) m(2) by (cases ps; cases "tl ps") (auto simp: dims_ok_def size_fits)
  moreover have "initResult (m # ps) [1, 1] \<lparr>arr_data := v\<rparr> = std_array (m # ps) v" for v :: "'a list"
    using m(2) by (cases ps; cases "tl ps") (auto simp: initResult_def std_array_def)
  ultimately show ?thesis using assms(4,5)
    by (simp add: matrix_mul_plain matrix_mul_internal_def mul_in_bounds_def)
qed

lemma std_elem_mult: "matrix_elem_mult (std_array ds x) (std_array ds y) = Inr (std_array ds (map2 (*) x y))"
  by (simp add: matrix_elem_mult_def same_dims_def)

lemma std_add: "matrix_add_inplace (std_array ds x) (std_array ds y) = Inr (std_array ds (map2 (+) x y))"
  by (simp add: matrix_add_inplace_def same_dims_def)

lemma act_value:
  assumes "fn_of_oid funcid = Some f" "act_fn f = Some (v, d)" "copy_fits ds"
  shows "fn_call P funcid [F8Array (std_array ds x)] = Inr (F8Array (std_array ds (map v x)))"
  using assms by (cases f) (auto simp: act_fn_def fn_call_def unary_m_def silu_m_internal_def sigmoid_m_internal_def tanh_m_internal_def
      relu_m_internal_def copy_map_fits silu_def sigmoid_def relu_def)

lemma silu_square: "c_pow (1 + exp y) 2 = (1 + exp y) * (1 + exp y)" for y :: real
proof -
  have "0 < 1 + exp y" using exp_gt_zero [of y] by linarith
  then show ?thesis by (simp add: c_pow_pos power2_eq_square flip: powr_realpow)
qed

lemma act_seed:
  assumes "fn_of_oid funcid = Some f" "act_fn f = Some (v, d)" "copy_fits ds"
  shows "derive_seeds funcid [F8Array (std_array ds x)] (F8Array (std_array ds s)) =
      Inr [F8Array (std_array ds (map2 (*) s (map d x)))]"
  using assms by (cases f) (auto simp: act_fn_def derive_seeds_def seed_m_def silu_m_derive_def sigmoid_m_derive_def tanh_m_derive_def
      relu_m_derive_def copy_map_fits std_elem_mult silu_square sigmoid_def Let_def)

lemma act_deriv: "act_fn f = Some (v, d) \<Longrightarrow> f \<noteq> F_RELU_M \<or> x \<noteq> 0 \<Longrightarrow> (v has_real_derivative d x) (at x)"
  using DERIV_silu [of x] DERIV_sigmoid [of x] DERIV_relu [of x]
  by (cases f) (auto simp: act_fn_def power2_eq_square intro!: derivative_eq_intros)

section \<open>Evaluation\<close>

definition evals :: "(oid \<Rightarrow> fval list \<Rightarrow> fval result) \<Rightarrow> fval list \<Rightarrow> dterm \<Rightarrow> nat list \<Rightarrow> real list \<Rightarrow> bool" where
  "evals P rows t ds v \<longleftrightarrow> teval P rows t = Inr (F8Array (std_array ds v)) \<and> length v = prod_list ds"

lemma evals_val: "evals P rows t ds v \<Longrightarrow> val P rows t = v"
  by (simp add: evals_def val_def)

lemma evals_field:
  assumes "net natts fdims (Field pid fieldnum FLOAT8ARRAYOID) ds" "shaped natts fdims e"
  shows "evals P (matrix_rows natts fdims e) (Field pid fieldnum FLOAT8ARRAYOID) ds (e (field_pos natts pid fieldnum))"
proof -
  have ok: "fields_ok natts (Field pid fieldnum FLOAT8ARRAYOID)" "ds = fdims (field_pos natts pid fieldnum)"
    using assms(1) by (auto elim: net.cases)
  then show ?thesis using input_field [OF ok(1), of P "\<lambda>k. std_array (fdims k) (e k)" F8Array] field_pos_less [OF ok(1)] assms(2)
    by (simp add: evals_def matrix_rows_def shaped_def del: teval.simps)
qed

lemma evals_act:
  "evals P rows t ds x \<Longrightarrow> fn_of_oid funcid = Some f \<Longrightarrow> act_fn f = Some (v, d) \<Longrightarrow> copy_fits ds \<Longrightarrow> evals P rows (Call funcid [t]) ds (map v x)"
  by (simp add: evals_def act_value)

lemma evals_add:
  "evals P rows t ds x \<Longrightarrow> evals P rows t' ds y \<Longrightarrow> fn_of_oid funcid = Some F_MAT_ADD \<Longrightarrow> copy_fits ds \<Longrightarrow>
   evals P rows (Call funcid [t, t']) ds (map2 (+) x y)"
  by (simp add: evals_def fn_call_def binary_m_def matrix_add_internal_def copyArray_fits std_add)

lemma evals_mul:
  "evals P rows t [m, n] x \<Longrightarrow> evals P rows t' (n # ps) y \<Longrightarrow> dims_ok [m, n] \<Longrightarrow> dims_ok (n # ps) \<Longrightarrow> dims_ok (m # ps) \<Longrightarrow>
   fn_of_oid funcid = Some F_MAT_MUL \<Longrightarrow> evals P rows (Call funcid [t, t']) (m # ps) (mul_dot m n (prod_list ps) x y)"
  by (simp add: evals_def fn_call_def binary_m_def std_mul mul_dot_entries)

lemma net_mul_dims:
  "net natts fdims t [m, n] \<Longrightarrow> net natts fdims t' (n # ps) \<Longrightarrow> prod_list (m # ps) \<le> MaxArraySize \<Longrightarrow>
    dims_ok [m, n] \<and> dims_ok (n # ps) \<and> dims_ok (m # ps)"
  by (auto dest!: net_dims simp: dims_ok_def)

lemma net_evals:
  assumes "net natts fdims t ds" "shaped natts fdims e"
  shows "evals P (matrix_rows natts fdims e) t ds (val P (matrix_rows natts fdims e) t)"
proof -
  have "\<exists>v. evals P (matrix_rows natts fdims e) t ds v"
    using assms
  proof (induction rule: net.induct)
    case (net_lit ds v)
    then show ?case by (auto simp: evals_def)
  next
    case (net_field pid fieldnum)
    then show ?case using evals_field [OF net.net_field [of natts pid fieldnum fdims]] by blast
  next
    case (net_act t ds funcid f v d)
    then show ?case using evals_act [OF _ net_act(2-4)] by blast
  next
    case (net_add t ds t' funcid)
    then show ?case using evals_add [OF _ _ net_add(3,4)] by blast
  next
    case (net_mul t m n t' ps funcid)
    then obtain x y where "evals P (matrix_rows natts fdims e) t [m, n] x" "evals P (matrix_rows natts fdims e) t' (n # ps) y" by blast
    then show ?case using evals_mul net_mul_dims [OF net_mul(1-3)] net_mul(4) by blast
  qed
  then show ?thesis using evals_val by blast
qed

section \<open>Forward derivatives\<close>

definition upd :: "(nat \<Rightarrow> real list) \<Rightarrow> nat \<Rightarrow> nat \<Rightarrow> real \<Rightarrow> nat \<Rightarrow> real list" where
  "upd e k p u j = (if j = k then (e k)[p := u] else e j)"

lemma upd_same [simp]: "upd e k p (e k ! p) = e"
  by (auto simp: upd_def)

lemma shaped_upd: "shaped natts fdims e \<Longrightarrow> shaped natts fdims (upd e k p u)"
  by (simp add: shaped_def upd_def)

text \<open>The derivative of the elements of the value in element \<open>p\<close> of field \<open>k\<close>.\<close>

definition tangent :: "(oid \<Rightarrow> fval list \<Rightarrow> fval result) \<Rightarrow> nat list \<Rightarrow> (nat \<Rightarrow> nat list) \<Rightarrow> (nat \<Rightarrow> real list) \<Rightarrow> nat \<Rightarrow> nat \<Rightarrow> dterm \<Rightarrow> real list \<Rightarrow> bool" where
  "tangent P natts fdims e k p t \<delta> \<longleftrightarrow> length \<delta> = length (val P (matrix_rows natts fdims e) t) \<and>
    (\<forall>q < length \<delta>. ((\<lambda>u. val P (matrix_rows natts fdims (upd e k p u)) t ! q) has_real_derivative \<delta> ! q) (at (e k ! p)))"

lemma tangent_nth:
  "tangent P natts fdims e k p t \<delta> \<Longrightarrow> q < length \<delta> \<Longrightarrow>
    ((\<lambda>u. val P (matrix_rows natts fdims (upd e k p u)) t ! q) has_real_derivative \<delta> ! q) (at (e k ! p))"
  by (simp add: tangent_def)

lemma tangent_unique: "tangent P natts fdims e k p t \<delta> \<Longrightarrow> tangent P natts fdims e k p t \<delta>' \<Longrightarrow> \<delta> = \<delta>'"
  unfolding tangent_def by (intro nth_equalityI) (simp, metis DERIV_unique)

text \<open>The functions of a network map tangents of their arguments to a tangent of the result.\<close>

lemma tangentI:
  assumes "\<And>u. val P (matrix_rows natts fdims (upd e k p u)) t = f u" "length \<delta> = length (f (e k ! p))"
    "\<And>q. q < length \<delta> \<Longrightarrow> ((\<lambda>u. f u ! q) has_real_derivative \<delta> ! q) (at (e k ! p))"
  shows "tangent P natts fdims e k p t \<delta>"
  using assms(1) [of "e k ! p"] assms by (simp add: tangent_def)

lemma tangent_lit: "tangent P natts fdims e k p (Lit (F8Array (std_array ds v))) (replicate (length v) 0)"
  by (simp add: tangent_def val_def)

lemma tangent_field:
  assumes "net natts fdims (Field pid fieldnum FLOAT8ARRAYOID) ds" "shaped natts fdims e" "p < length (e k)"
  shows "tangent P natts fdims e k p (Field pid fieldnum FLOAT8ARRAYOID)
    (map (\<lambda>q. if field_pos natts pid fieldnum = k \<and> q = p then 1 else 0) [0..<length (e (field_pos natts pid fieldnum))])"
proof (rule tangentI)
  show "val P (matrix_rows natts fdims (upd e k p u)) (Field pid fieldnum FLOAT8ARRAYOID) = upd e k p u (field_pos natts pid fieldnum)" for u
    by (rule evals_val [OF evals_field [OF assms(1) shaped_upd [OF assms(2)]]])
  let ?\<delta> = "map (\<lambda>q. if field_pos natts pid fieldnum = k \<and> q = p then 1 else 0 :: real) [0..<length (e (field_pos natts pid fieldnum))]"
  fix q assume "q < length ?\<delta>"
  then show "((\<lambda>u. upd e k p u (field_pos natts pid fieldnum) ! q) has_real_derivative ?\<delta> ! q) (at (e k ! p))"
    using assms(3) by (cases "field_pos natts pid fieldnum = k"; cases "q = p") (auto simp: upd_def)
qed (simp add: upd_def)

lemma tangent_act:
  assumes t: "net natts fdims t ds" "shaped natts fdims e" "tangent P natts fdims e k p t \<delta>"
    and f: "fn_of_oid funcid = Some f" "act_fn f = Some (v, d)" "copy_fits ds" "f = F_RELU_M \<Longrightarrow> 0 \<notin> set (val P (matrix_rows natts fdims e) t)"
  shows "tangent P natts fdims e k p (Call funcid [t]) (map2 (\<lambda>x y. d x * y) (val P (matrix_rows natts fdims e) t) \<delta>)"
proof (rule tangentI)
  show "val P (matrix_rows natts fdims (upd e k p u)) (Call funcid [t]) = map v (val P (matrix_rows natts fdims (upd e k p u)) t)" for u
    by (rule evals_val [OF evals_act [OF net_evals [OF t(1) shaped_upd [OF t(2)]] f(1-3)]])
  have len: "length (val P (matrix_rows natts fdims (upd e k p u)) t) = prod_list ds" for u
    using net_evals [OF t(1) shaped_upd [OF t(2)]] by (simp add: evals_def)
  show l: "length (map2 (\<lambda>x y. d x * y) (val P (matrix_rows natts fdims e) t) \<delta>) =
      length (map v (val P (matrix_rows natts fdims (upd e k p (e k ! p))) t))" using t(3) by (simp add: tangent_def)
  fix q assume q: "q < length (map2 (\<lambda>x y. d x * y) (val P (matrix_rows natts fdims e) t) \<delta>)"
  let ?x = "val P (matrix_rows natts fdims e) t ! q"
  have d: "((\<lambda>u. val P (matrix_rows natts fdims (upd e k p u)) t ! q) has_real_derivative \<delta> ! q) (at (e k ! p))"
    using t(3) q by (simp add: tangent_def)
  have "(v has_real_derivative d ?x) (at (val P (matrix_rows natts fdims (upd e k p (e k ! p))) t ! q))"
    using act_deriv [OF f(2), of ?x] f(4) q by (auto simp: in_set_conv_nth)
  from DERIV_chain2 [OF this d] show "((\<lambda>u. map v (val P (matrix_rows natts fdims (upd e k p u)) t) ! q) has_real_derivative
      map2 (\<lambda>x y. d x * y) (val P (matrix_rows natts fdims e) t) \<delta> ! q) (at (e k ! p))"
    using q l len len [of "e k ! p"] by simp
qed

lemma tangent_add:
  assumes t: "net natts fdims t ds" "tangent P natts fdims e k p t \<delta>" and t': "net natts fdims t' ds" "tangent P natts fdims e k p t' \<delta>'"
    and e: "shaped natts fdims e" and f: "fn_of_oid funcid = Some F_MAT_ADD" "copy_fits ds"
  shows "tangent P natts fdims e k p (Call funcid [t, t']) (map2 (+) \<delta> \<delta>')"
proof (rule tangentI)
  let ?V = "\<lambda>u t. val P (matrix_rows natts fdims (upd e k p u)) t"
  show "?V u (Call funcid [t, t']) = map2 (+) (?V u t) (?V u t')" for u
    by (rule evals_val [OF evals_add [OF net_evals [OF t(1) shaped_upd [OF e]] net_evals [OF t'(1) shaped_upd [OF e]] f]])
  have len: "length (?V u t) = prod_list ds" "length (?V u t') = prod_list ds" for u
    using net_evals [OF t(1) shaped_upd [OF e]] net_evals [OF t'(1) shaped_upd [OF e]] by (simp_all add: evals_def)
  have l: "length \<delta> = prod_list ds" "length \<delta>' = prod_list ds" using t(2) t'(2) len [of "e k ! p"] by (simp_all add: tangent_def)
  then show "length (map2 (+) \<delta> \<delta>') = length (map2 (+) (?V (e k ! p) t) (?V (e k ! p) t'))" using len [of "e k ! p"] by simp
  fix q assume q: "q < length (map2 (+) \<delta> \<delta>')"
  have "((\<lambda>u. ?V u t ! q) has_real_derivative \<delta> ! q) (at (e k ! p))" "((\<lambda>u. ?V u t' ! q) has_real_derivative \<delta>' ! q) (at (e k ! p))"
    using t(2) t'(2) q l by (simp_all add: tangent_def)
  from DERIV_add [OF this] show "((\<lambda>u. map2 (+) (?V u t) (?V u t') ! q) has_real_derivative map2 (+) \<delta> \<delta>' ! q) (at (e k ! p))"
    using q l len by simp
qed

lemma length_mul_dot [simp]: "length (mul_dot m n p x y) = m * p"
  by (simp add: mul_dot_entries)

lemma mul_dot_nth:
  "q < m * p \<Longrightarrow> mul_dot m n p x y ! q = (\<Sum>j < n. x ! (q div p * n + j) * y ! (j * p + q mod p))"
  by (simp add: mul_dot_entries MAT_2D_def)

lemma cell_less: "q < m * p \<Longrightarrow> q div p < m \<and> q mod p < p" for p :: nat
  by (cases "p = 0") (auto simp: less_mult_imp_div_less)

lemma tangent_mul:
  assumes t: "net natts fdims t [m, n]" "tangent P natts fdims e k p t \<delta>"
    and t': "net natts fdims t' (n # ps)" "tangent P natts fdims e k p t' \<delta>'"
    and e: "shaped natts fdims e" and f: "fn_of_oid funcid = Some F_MAT_MUL" "prod_list (m # ps) \<le> MaxArraySize"
  shows "tangent P natts fdims e k p (Call funcid [t, t']) (map2 (+)
    (mul_dot m n (prod_list ps) \<delta> (val P (matrix_rows natts fdims e) t')) (mul_dot m n (prod_list ps) (val P (matrix_rows natts fdims e) t) \<delta>'))"
proof (rule tangentI)
  let ?V = "\<lambda>u t. val P (matrix_rows natts fdims (upd e k p u)) t" and ?r = "prod_list ps"
  show "?V u (Call funcid [t, t']) = mul_dot m n ?r (?V u t) (?V u t')" for u
    using evals_mul [OF net_evals [OF t(1) shaped_upd [OF e]] net_evals [OF t'(1) shaped_upd [OF e]] _ _ _ f(1)] net_mul_dims [OF t(1) t'(1) f(2)]
    by (intro evals_val) blast
  have len: "length (?V u t) = m * n" "length (?V u t') = n * ?r" for u
    using net_evals [OF t(1) shaped_upd [OF e]] net_evals [OF t'(1) shaped_upd [OF e]] by (simp_all add: evals_def)
  have l: "length \<delta> = m * n" "length \<delta>' = n * ?r" using t(2) t'(2) len [of "e k ! p"] by (simp_all add: tangent_def)
  let ?\<delta> = "map2 (+) (mul_dot m n ?r \<delta> (val P (matrix_rows natts fdims e) t')) (mul_dot m n ?r (val P (matrix_rows natts fdims e) t) \<delta>')"
  show "length ?\<delta> = length (mul_dot m n ?r (?V (e k ! p) t) (?V (e k ! p) t'))" by (simp add: mul_dot_entries)
  fix q assume "q < length ?\<delta>"
  then have q: "q < m * ?r" by (simp add: mul_dot_entries)
  have "((\<lambda>u. ?V u t ! (q div ?r * n + j) * ?V u t' ! (j * ?r + q mod ?r)) has_real_derivative
      \<delta> ! (q div ?r * n + j) * ?V (e k ! p) t' ! (j * ?r + q mod ?r) + \<delta>' ! (j * ?r + q mod ?r) * ?V (e k ! p) t ! (q div ?r * n + j)) (at (e k ! p))"
    if "j < n" for j
    using l cell_less [OF q] that by (intro DERIV_mult tangent_nth [OF t(2)] tangent_nth [OF t'(2)]) (simp_all add: cell_bound)
  then have "((\<lambda>u. \<Sum>j < n. ?V u t ! (q div ?r * n + j) * ?V u t' ! (j * ?r + q mod ?r)) has_real_derivative
      (\<Sum>j < n. \<delta> ! (q div ?r * n + j) * ?V (e k ! p) t' ! (j * ?r + q mod ?r) + \<delta>' ! (j * ?r + q mod ?r) * ?V (e k ! p) t ! (q div ?r * n + j))) (at (e k ! p))"
    by (intro DERIV_sum) simp
  moreover have "?\<delta> ! q = (\<Sum>j < n. \<delta> ! (q div ?r * n + j) * ?V (e k ! p) t' ! (j * ?r + q mod ?r) + \<delta>' ! (j * ?r + q mod ?r) * ?V (e k ! p) t ! (q div ?r * n + j))"
    using q by (simp add: mul_dot_nth sum.distrib) (simp only: mult.commute [of "\<delta>' ! _"])
  ultimately show "((\<lambda>u. mul_dot m n ?r (?V u t) (?V u t') ! q) has_real_derivative ?\<delta> ! q) (at (e k ! p))"
    using q by (simp only: mul_dot_nth)
qed

text \<open>Networks are differentiable where no argument of \<open>relu_m\<close> has a zero.\<close>

fun smooth :: "(oid \<Rightarrow> fval list \<Rightarrow> fval result) \<Rightarrow> fval list \<Rightarrow> dterm \<Rightarrow> bool" where
  "smooth P rows (Call funcid ts) \<longleftrightarrow> list_all (smooth P rows) ts \<and>
    (fn_of_oid funcid = Some F_RELU_M \<longrightarrow> list_all (\<lambda>t. 0 \<notin> set (val P rows t)) ts)"
| "smooth P rows _ \<longleftrightarrow> True"

lemma tangent_exists:
  "net natts fdims t ds \<Longrightarrow> shaped natts fdims e \<Longrightarrow> smooth P (matrix_rows natts fdims e) t \<Longrightarrow> p < length (e k) \<Longrightarrow>
    \<exists>\<delta>. tangent P natts fdims e k p t \<delta>"
proof (induction rule: net.induct)
  case (net_lit ds v)
  then show ?case using tangent_lit by blast
next
  case (net_field pid fieldnum)
  show ?case using tangent_field [OF net.net_field [of natts pid fieldnum fdims] net_field(3,5)] net_field(1,2) by blast
next
  case (net_act t ds funcid f v d)
  then obtain \<delta> where "tangent P natts fdims e k p t \<delta>" by auto
  then show ?case using tangent_act [OF net_act(1,6) _ net_act(2-4)] net_act by fastforce
next
  case (net_add t ds t' funcid)
  then obtain \<delta> \<delta>' where "tangent P natts fdims e k p t \<delta>" "tangent P natts fdims e k p t' \<delta>'" by auto
  then show ?case using tangent_add [OF net_add(1) _ net_add(2) _ net_add(7,3,4)] by blast
next
  case (net_mul t m n t' ps funcid)
  then obtain \<delta> \<delta>' where "tangent P natts fdims e k p t \<delta>" "tangent P natts fdims e k p t' \<delta>'" by auto
  then show ?case using tangent_mul [OF net_mul(1) _ net_mul(2) _ net_mul(7,4,3)] by blast
qed

end
