(* ===== verification/Network_Gradient.thy ===== *)
theory Network_Gradient
  imports Networks
begin

text \<open>
  Reverse mode on networks. The seed of a subterm is a linear form on its value, and the walk adds the derivative of that
  form to the derivatives; for the loss \<open>softmax_cce\<close> of a network this is the gradient of the negated value.
\<close>

section \<open>Seeds\<close>

definition dotl :: "real list \<Rightarrow> real list \<Rightarrow> real" where
  "dotl s d = (\<Sum>q < length s. s ! q * d ! q)"

lemma dot_dotl: "dot (std_array ds s) (std_array ds' d) = dotl s d"
  by (simp add: dot_def dotl_def)

lemma dotl_add: "length d = length s \<Longrightarrow> length d' = length s \<Longrightarrow> dotl s (map2 (+) d d') = dotl s d + dotl s d'"
  by (simp add: dotl_def distrib_left sum.distrib)

lemma dotl_act: "length x = length s \<Longrightarrow> length y = length s \<Longrightarrow> dotl (map2 (*) s (map d x)) y = dotl s (map2 (\<lambda>x y. d x * y) x y)"
  by (simp add: dotl_def mult.assoc)

lemma std_array_eq: "arr_dims a = ds \<Longrightarrow> arr_lbs a = replicate (length ds) 1 \<Longrightarrow> a = std_array ds (arr_data a)"
  by (cases a) (simp add: std_array_def)

text \<open>The left seed times a change of the left factor is the seed times the change of the product, and so on the right.\<close>

lemma mul_seed_left:
  fixes s :: "real list"
  assumes d: "dims_ok [m, n]" "dims_ok (n # ps)" "dims_ok (m # ps)" and l: "length y = prod_list (n # ps)" "length s = prod_list (m # ps)"
  obtains sx where "matrix_mul_internal (std_array (m # ps) s) (std_array (n # ps) y) False True = Inr (std_array [m, n] sx)" "length sx = m * n"
    "\<And>\<delta>. length \<delta> = m * n \<Longrightarrow> dotl sx \<delta> = dotl s (mul_dot m n (prod_list ps) \<delta> y)"
proof -
  have n: "2 \<le> m" "2 \<le> n" "length ps \<le> 1" using d by (auto simp: dims_ok_def)
  have y: "arr_dims (std_array (n # ps) y) = [n, prod_list ps] \<or> arr_dims (std_array (n # ps) y) = [n]"
      "arr_lbs (std_array (n # ps) y) ! (length (arr_dims (std_array (n # ps) y)) - 1) \<noteq> -1"
    using n(3) by (cases ps; cases "tl ps"; simp)+
  have ex: "\<exists>x. matrix_mul_internal (std_array (m # ps) s) (std_array (n # ps) y) False True = Inr (std_array [m, n] x) \<and> length x = m * n \<and>
      dotl x \<delta> = dotl s (mul_dot m n (prod_list ps) \<delta> y)" if \<delta>: "length \<delta> = m * n" for \<delta>
  proof -
    have a: "is_mat m n (std_array [m, n] \<delta>)" using std_mat [OF d(1)] \<delta> by simp
    obtain c x where x: "matrix_mul (std_array [m, n] \<delta>) (std_array (n # ps) y) = Inr c"
        "matrix_mul_internal (std_array (m # ps) s) (std_array (n # ps) y) False True = Inr x" "is_mat m n x" "arr_dims x = [m, n]" "arr_lbs x = [1, 1]"
        "dot (std_array (m # ps) s) c = dot x (std_array [m, n] \<delta>)"
      by (rule matrix_mul_adjoint_left [OF a std_mat [OF d(2) l(1)] std_mat [OF d(3) l(2)] std_array_simps(1) n(1,2) y that])
    have c: "c = std_array (m # ps) (mul_dot m n (prod_list ps) \<delta> y)" using x(1) std_mul [OF d \<delta> l(1)] by simp
    have xs: "x = std_array [m, n] (arr_data x)" using x(4,5) by (intro std_array_eq) simp_all
    then have "dot x (std_array [m, n] \<delta>) = dotl (arr_data x) \<delta>" by (metis dot_dotl)
    then show ?thesis using x(2,6) xs is_mat_length [OF x(3)] c by (intro exI [of _ "arr_data x"]) (simp add: dot_dotl)
  qed
  obtain sx where sx: "matrix_mul_internal (std_array (m # ps) s) (std_array (n # ps) y) False True = Inr (std_array [m, n] sx)" "length sx = m * n"
    using ex [of "replicate (m * n) 0"] by auto
  show thesis
  proof (rule that [OF sx])
    fix \<delta> :: "real list" assume "length \<delta> = m * n"
    from ex [OF this] sx(1) show "dotl sx \<delta> = dotl s (mul_dot m n (prod_list ps) \<delta> y)" by (auto dest: arg_cong [of _ _ arr_data])
  qed
qed

lemma mul_seed_right:
  fixes s :: "real list"
  assumes d: "dims_ok [m, n]" "dims_ok (n # ps)" "dims_ok (m # ps)" and l: "length x = m * n" "length s = prod_list (m # ps)"
  obtains sy where "matrix_mul_internal (std_array [m, n] x) (std_array (m # ps) s) True False = Inr (std_array (n # ps) sy)"
    "length sy = prod_list (n # ps)" "\<And>\<delta>. length \<delta> = prod_list (n # ps) \<Longrightarrow> dotl sy \<delta> = dotl s (mul_dot m n (prod_list ps) x \<delta>)"
proof -
  have n: "2 \<le> m" "2 \<le> n" "length ps \<le> 1" using d by (auto simp: dims_ok_def)
  have a: "is_mat m n (std_array [m, n] x)" using std_mat [OF d(1)] l(1) by simp
  have lb: "arr_lbs (std_array [m, n] x) ! 1 \<noteq> -1" by simp
  have ex: "\<exists>y. matrix_mul_internal (std_array [m, n] x) (std_array (m # ps) s) True False = Inr (std_array (n # ps) y) \<and> length y = prod_list (n # ps) \<and>
      dotl y \<delta> = dotl s (mul_dot m n (prod_list ps) x \<delta>)" if \<delta>: "length \<delta> = prod_list (n # ps)" for \<delta>
  proof -
    obtain c y where y: "matrix_mul (std_array [m, n] x) (std_array (n # ps) \<delta>) = Inr c"
        "matrix_mul_internal (std_array [m, n] x) (std_array (m # ps) s) True False = Inr y" "is_mat n (prod_list ps) y"
        "arr_dims y = (if length (arr_dims (std_array (m # ps) s)) = 1 then [n] else [n, prod_list ps])"
        "arr_lbs y = (if length (arr_dims (std_array (m # ps) s)) = 1 then [1] else [1, 1])"
        "dot (std_array (m # ps) s) c = dot y (std_array (n # ps) \<delta>)"
      by (rule matrix_mul_adjoint_right [OF a std_mat [OF d(2) \<delta>] std_mat [OF d(3) l(2)] std_array_simps(1) n(1,2) lb that])
    have c: "c = std_array (m # ps) (mul_dot m n (prod_list ps) x \<delta>)" using y(1) std_mul [OF d l(1) \<delta>] by simp
    have ys: "y = std_array (n # ps) (arr_data y)" using y(4,5) n(3) by (intro std_array_eq) (cases ps; cases "tl ps"; simp)+
    then have "dot y (std_array (n # ps) \<delta>) = dotl (arr_data y) \<delta>" by (metis dot_dotl)
    then show ?thesis using y(2,6) ys is_mat_length [OF y(3)] c by (intro exI [of _ "arr_data y"]) (simp add: dot_dotl)
  qed
  obtain sy where sy: "matrix_mul_internal (std_array [m, n] x) (std_array (m # ps) s) True False = Inr (std_array (n # ps) sy)"
      "length sy = prod_list (n # ps)"
    using ex [of "replicate (prod_list (n # ps)) 0"] by auto
  show thesis
  proof (rule that [OF sy])
    fix \<delta> :: "real list" assume "length \<delta> = prod_list (n # ps)"
    from ex [OF this] sy(1) show "dotl sy \<delta> = dotl s (mul_dot m n (prod_list ps) x \<delta>)" by (auto dest: arg_cong [of _ _ arr_data])
  qed
qed

section \<open>The derivatives\<close>

text \<open>An entry of the derivatives stands for a number per element of its field: all equal for a scalar array, to which a seed
  is added by copying the seed.\<close>

definition rep :: "nat list \<Rightarrow> fval \<Rightarrow> (nat \<Rightarrow> real) \<Rightarrow> bool" where
  "rep ds d g \<longleftrightarrow> copy_fits ds \<and> (\<exists>v. d = F8Array (createScalar v) \<and> (\<forall>p < prod_list ds. g p = v)) \<or>
    d = F8Array (std_array ds (map g [0..<prod_list ds]))"

definition reps :: "nat list \<Rightarrow> (nat \<Rightarrow> nat list) \<Rightarrow> fval list \<Rightarrow> (nat \<Rightarrow> nat \<Rightarrow> real) \<Rightarrow> bool" where
  "reps natts fdims D g \<longleftrightarrow> length D = sum_list natts \<and> (\<forall>k < length D. rep (fdims k) (D ! k) (g k))"

lemma createScalar_simps [simp]:
  "isScalar (createScalar v)" "arr_data (createScalar v) = [v]" "map_array f (createScalar v) = createScalar (f v)"
  by (simp_all add: createScalar_def isScalar_def map_array_def)

lemma rep_array: "d = F8Array (std_array ds v) \<Longrightarrow> v = map g [0..<prod_list ds] \<Longrightarrow> rep ds d g"
  by (simp add: rep_def)

lemma add_seed_array:
  assumes "rep ds d g" "length s = prod_list ds"
  shows "\<exists>d'. add_seed True d (F8Array (std_array ds s)) = Inr d' \<and> rep ds d' (\<lambda>p. g p + s ! p)"
  using assms(1) unfolding rep_def [of ds d g]
proof (elim disjE exE conjE)
  fix v assume v: "d = F8Array (createScalar v)" "\<forall>p < prod_list ds. g p = v" "copy_fits ds"
  have "add_seed True d (F8Array (std_array ds s)) = Inr (F8Array (std_array ds (map (\<lambda>x. x + v) s)))"
    using v by (simp add: add_seed_def matrix_add_inplace_def copy_map_fits)
  moreover have "map (\<lambda>x. x + v) s = map (\<lambda>p. g p + s ! p) [0..<prod_list ds]"
    using assms(2) v(2) by (intro nth_equalityI) simp_all
  ultimately show ?thesis using rep_array by blast
next
  assume d: "d = F8Array (std_array ds (map g [0..<prod_list ds]))"
  have "add_seed True d (F8Array (std_array ds s)) = Inr (F8Array (std_array ds (map2 (+) (map g [0..<prod_list ds]) s)))"
    using d by (simp add: add_seed_def std_add)
  moreover have "map2 (+) (map g [0..<prod_list ds]) s = map (\<lambda>p. g p + s ! p) [0..<prod_list ds]"
    using assms(2) by (intro nth_equalityI) simp_all
  ultimately show ?thesis using rep_array by blast
qed

text \<open>Adding a scalar to an array does not copy; adding it to a scalar would write past the memory of the copy.\<close>

lemma add_seed_zero:
  "rep ds d g \<Longrightarrow> d = F8Array (std_array ds v) \<Longrightarrow> \<exists>d'. add_seed True d (F8Array (createScalar 0)) = Inr d' \<and> rep ds d' g"
proof -
  assume d: "rep ds d g" "d = F8Array (std_array ds v)"
  have "std_array ds v \<noteq> createScalar x" for x using createScalar_simps(1) [of x] std_array_simps(4) [of ds v] by metis
  then have "add_seed True d (F8Array (createScalar 0)) = Inr d" using d by (auto simp: rep_def add_seed_def matrix_add_inplace_def)
  then show ?thesis using d(1) by blast
qed

lemma reps_upd:
  "reps natts fdims D g \<Longrightarrow> k < length D \<Longrightarrow> rep (fdims k) d h \<Longrightarrow> reps natts fdims (D[k := d]) (g(k := h))"
  by (auto simp: reps_def nth_list_update)

lemma field_at: "fields_ok natts (Field pid fieldnum rt) \<Longrightarrow> int (ExecGenerateIndexArray natts ! nat (pid - 1)) + (fieldnum - 1) = int (field_pos natts pid fieldnum)"
  by (simp add: field_pos_def)

lemma array_field_derive:
  assumes ok: "fields_ok natts (Field pid fieldnum rt)" and D: "reps natts fdims D g"
    and add: "\<exists>d'. add_seed True (D ! field_pos natts pid fieldnum) s = Inr d' \<and> rep (fdims (field_pos natts pid fieldnum)) d' h"
  shows "\<exists>D'. tree_derive P params True (ExecGenerateIndexArray natts) (Field pid fieldnum rt) s D = Inr D' \<and>
    reps natts fdims D' (g(field_pos natts pid fieldnum := h))"
proof -
  have k: "field_pos natts pid fieldnum < length D" using field_pos_less [OF ok] D by (simp add: reps_def)
  then show ?thesis using add reps_upd [OF D k] by (auto simp: field_at [OF ok] Let_def)
qed

lemma dotl_unit: "p < length s \<Longrightarrow> dotl s (map (\<lambda>q. if b \<and> q = p then 1 else 0) [0..<length s]) = (if b then s ! p else 0)"
  by (auto simp: dotl_def if_distrib [of "\<lambda>x. _ * x"] cong: if_cong)

text \<open>The walk over a subterm adds the derivative of the scalar product of its seed with its value.\<close>

definition added :: "(oid \<Rightarrow> fval list \<Rightarrow> fval result) \<Rightarrow> nat list \<Rightarrow> (nat \<Rightarrow> nat list) \<Rightarrow> (nat \<Rightarrow> real list) \<Rightarrow> dterm \<Rightarrow> real list \<Rightarrow>
    (nat \<Rightarrow> nat \<Rightarrow> real) \<Rightarrow> (nat \<Rightarrow> nat \<Rightarrow> real) \<Rightarrow> bool" where
  "added P natts fdims e t s g g' \<longleftrightarrow>
    (\<forall>k p \<delta>. k < sum_list natts \<longrightarrow> p < length (e k) \<longrightarrow> tangent P natts fdims e k p t \<delta> \<longrightarrow> g' k p = g k p + dotl s \<delta>)"

definition derives :: "(oid \<Rightarrow> fval list \<Rightarrow> fval result) \<Rightarrow> nat list \<Rightarrow> (nat \<Rightarrow> nat list) \<Rightarrow> (nat \<Rightarrow> real list) \<Rightarrow> dterm \<Rightarrow> nat list \<Rightarrow> bool" where
  "derives P natts fdims e t ds \<longleftrightarrow> (\<forall>s D g. length s = prod_list ds \<longrightarrow> reps natts fdims D g \<longrightarrow>
    (\<exists>D' g'. tree_derive P (matrix_rows natts fdims e) True (ExecGenerateIndexArray natts) t (F8Array (std_array ds s)) D = Inr D' \<and>
      reps natts fdims D' g' \<and> added P natts fdims e t s g g'))"

lemma derivesE:
  assumes "derives P natts fdims e t ds" "length s = prod_list ds" "reps natts fdims D g"
  obtains D' g' where "tree_derive P (matrix_rows natts fdims e) True (ExecGenerateIndexArray natts) t (F8Array (std_array ds s)) D = Inr D'"
    "reps natts fdims D' g'" "added P natts fdims e t s g g'"
  using assms unfolding derives_def by blast

lemma addedI:
  "(\<And>k p \<delta>. k < sum_list natts \<Longrightarrow> p < length (e k) \<Longrightarrow> tangent P natts fdims e k p t \<delta> \<Longrightarrow> g' k p = g k p + dotl s \<delta>) \<Longrightarrow>
    added P natts fdims e t s g g'"
  by (simp add: added_def)

lemma addedD:
  "added P natts fdims e t s g g' \<Longrightarrow> k < sum_list natts \<Longrightarrow> p < length (e k) \<Longrightarrow> tangent P natts fdims e k p t \<delta> \<Longrightarrow> g' k p = g k p + dotl s \<delta>"
  by (simp add: added_def)

lemma net_values:
  assumes "net natts fdims t ds" "shaped natts fdims e"
  shows "teval P (matrix_rows natts fdims e) t = Inr (F8Array (std_array ds (val P (matrix_rows natts fdims e) t)))"
    "length (val P (matrix_rows natts fdims e) t) = prod_list ds"
    "tangent P natts fdims e k p t \<delta> \<Longrightarrow> length \<delta> = prod_list ds"
  using net_evals [OF assms, of P] by (simp_all add: evals_def tangent_def)

lemma derives_lit: "length v = prod_list ds \<Longrightarrow> derives P natts fdims e (Lit (F8Array (std_array ds v))) ds"
  unfolding derives_def
proof (intro allI impI)
  fix s :: "real list" and D g assume len: "length v = prod_list ds" "length s = prod_list ds" and D: "reps natts fdims D g"
  have "added P natts fdims e (Lit (F8Array (std_array ds v))) s g g"
  proof (rule addedI)
    fix k p \<delta> assume "tangent P natts fdims e k p (Lit (F8Array (std_array ds v))) \<delta>"
    then have "\<delta> = replicate (length v) 0" by (rule tangent_unique [OF _ tangent_lit])
    then show "g k p = g k p + dotl s \<delta>" using len by (simp add: dotl_def)
  qed
  then show "\<exists>D' g'. tree_derive P (matrix_rows natts fdims e) True (ExecGenerateIndexArray natts) (Lit (F8Array (std_array ds v))) (F8Array (std_array ds s)) D = Inr D' \<and>
      reps natts fdims D' g' \<and> added P natts fdims e (Lit (F8Array (std_array ds v))) s g g'" using D by auto
qed

lemma derives_field:
  assumes "net natts fdims (Field pid fieldnum FLOAT8ARRAYOID) ds" and e: "shaped natts fdims e"
  shows "derives P natts fdims e (Field pid fieldnum FLOAT8ARRAYOID) ds"
  unfolding derives_def
proof (intro allI impI)
  let ?k = "field_pos natts pid fieldnum" and ?t = "Field pid fieldnum FLOAT8ARRAYOID"
  have ok: "fields_ok natts ?t" "ds = fdims ?k" using assms(1) by (auto elim: net.cases)
  fix s :: "real list" and D g assume s: "length s = prod_list ds" and D: "reps natts fdims D g"
  have k: "?k < length D" using field_pos_less [OF ok(1)] D by (simp add: reps_def)
  have len: "length (e ?k) = length s" using e k D s ok(2) by (simp add: shaped_def reps_def)
  let ?g = "g(?k := \<lambda>p. g ?k p + s ! p)"
  have "added P natts fdims e ?t s g ?g"
  proof (rule addedI)
    fix k p \<delta> assume kp: "k < sum_list natts" "p < length (e k)" and t: "tangent P natts fdims e k p ?t \<delta>"
    have \<delta>: "\<delta> = map (\<lambda>q. if ?k = k \<and> q = p then 1 else 0) [0..<length s]"
      using tangent_unique [OF t tangent_field [OF assms(1) e kp(2)]] len by simp
    show "?g k p = g k p + dotl s \<delta>"
    proof (cases "?k = k")
      case True
      then show ?thesis using dotl_unit [of p s True] kp(2) len unfolding \<delta> by auto
    next
      case False
      then show ?thesis unfolding \<delta> by (simp add: dotl_def)
    qed
  qed
  moreover have "\<exists>D'. tree_derive P (matrix_rows natts fdims e) True (ExecGenerateIndexArray natts) ?t (F8Array (std_array ds s)) D = Inr D' \<and>
      reps natts fdims D' ?g"
    using array_field_derive [OF ok(1) D add_seed_array [of "fdims ?k" "D ! ?k" "g ?k" s]] k D s ok(2) by (simp add: reps_def)
  ultimately show "\<exists>D' g'. tree_derive P (matrix_rows natts fdims e) True (ExecGenerateIndexArray natts) ?t (F8Array (std_array ds s)) D = Inr D' \<and>
      reps natts fdims D' g' \<and> added P natts fdims e ?t s g g'" by blast
qed

lemma derives_act:
  assumes t: "net natts fdims t ds" "derives P natts fdims e t ds" and e: "shaped natts fdims e" and sm: "smooth P (matrix_rows natts fdims e) (Call funcid [t])"
    and f: "fn_of_oid funcid = Some f" "act_fn f = Some (v, d)" "copy_fits ds"
  shows "derives P natts fdims e (Call funcid [t]) ds"
  unfolding derives_def
proof (intro allI impI)
  let ?rows = "matrix_rows natts fdims e" let ?x = "val P ?rows t"
  fix s :: "real list" and D g assume s: "length s = prod_list ds" and D: "reps natts fdims D g"
  let ?s = "map2 (*) s (map d ?x)"
  have "length ?s = prod_list ds" using s net_values(2) [OF t(1) e] by simp
  then obtain D' g' where D': "tree_derive P ?rows True (ExecGenerateIndexArray natts) t (F8Array (std_array ds ?s)) D = Inr D'"
      "reps natts fdims D' g'" "added P natts fdims e t ?s g g'" by (rule derivesE [OF t(2) _ D])
  have "added P natts fdims e (Call funcid [t]) s g g'"
  proof (rule addedI)
    fix k p \<delta> assume kp: "k < sum_list natts" "p < length (e k)" and c: "tangent P natts fdims e k p (Call funcid [t]) \<delta>"
    obtain \<alpha> where \<alpha>: "tangent P natts fdims e k p t \<alpha>" using tangent_exists [OF t(1) e _ kp(2)] sm by auto
    have "\<delta> = map2 (\<lambda>x y. d x * y) ?x \<alpha>" by (rule tangent_unique [OF c tangent_act [OF t(1) e \<alpha> f]]) (use sm f(1) in simp)
    then show "g' k p = g k p + dotl s \<delta>"
      using addedD [OF D'(3) kp \<alpha>] s net_values(2,3) [OF t(1) e] \<alpha> by (simp add: dotl_act)
  qed
  moreover have "tree_derive P ?rows True (ExecGenerateIndexArray natts) (Call funcid [t]) (F8Array (std_array ds s)) D = Inr D'"
    using D'(1) net_values(1) [OF t(1) e, of P] act_seed [OF f, of ?x s] by simp
  ultimately show "\<exists>D' g'. tree_derive P ?rows True (ExecGenerateIndexArray natts) (Call funcid [t]) (F8Array (std_array ds s)) D = Inr D' \<and>
      reps natts fdims D' g' \<and> added P natts fdims e (Call funcid [t]) s g g'" using D'(2) by blast
qed

text \<open>The walk over the two arguments of a call.\<close>

lemma derives_both:
  assumes t: "net natts fdims t ds" "derives P natts fdims e t ds" and t': "net natts fdims t' ds'" "derives P natts fdims e t' ds'"
    and e: "shaped natts fdims e" and D: "reps natts fdims D g" and len: "length s = prod_list ds" "length s' = prod_list ds'"
    and sm: "smooth P (matrix_rows natts fdims e) (Call funcid [t, t'])"
    and seeds: "derive_seeds funcid [F8Array (std_array ds (val P (matrix_rows natts fdims e) t)), F8Array (std_array ds' (val P (matrix_rows natts fdims e) t'))]
      seed = Inr [F8Array (std_array ds s), F8Array (std_array ds' s')]"
    and sum: "\<And>k p \<alpha> \<beta> \<delta>. tangent P natts fdims e k p t \<alpha> \<Longrightarrow> tangent P natts fdims e k p t' \<beta> \<Longrightarrow>
      tangent P natts fdims e k p (Call funcid [t, t']) \<delta> \<Longrightarrow> dotl r \<delta> = dotl s \<alpha> + dotl s' \<beta>"
  shows "\<exists>D' g'. tree_derive P (matrix_rows natts fdims e) True (ExecGenerateIndexArray natts) (Call funcid [t, t']) seed D = Inr D' \<and>
    reps natts fdims D' g' \<and> added P natts fdims e (Call funcid [t, t']) r g g'"
proof -
  let ?rows = "matrix_rows natts fdims e"
  have sm': "smooth P ?rows t" "smooth P ?rows t'" using sm by simp_all
  obtain D1 g1 where D1: "tree_derive P ?rows True (ExecGenerateIndexArray natts) t' (F8Array (std_array ds' s')) D = Inr D1"
      "reps natts fdims D1 g1" "added P natts fdims e t' s' g g1" by (rule derivesE [OF t'(2) len(2) D])
  obtain D2 g2 where D2: "tree_derive P ?rows True (ExecGenerateIndexArray natts) t (F8Array (std_array ds s)) D1 = Inr D2"
      "reps natts fdims D2 g2" "added P natts fdims e t s g1 g2" by (rule derivesE [OF t(2) len(1) D1(2)])
  have "added P natts fdims e (Call funcid [t, t']) r g g2"
  proof (rule addedI)
    fix k p \<delta> assume kp: "k < sum_list natts" "p < length (e k)" and c: "tangent P natts fdims e k p (Call funcid [t, t']) \<delta>"
    obtain \<alpha> \<beta> where ab: "tangent P natts fdims e k p t \<alpha>" "tangent P natts fdims e k p t' \<beta>"
      using tangent_exists [OF t(1) e sm'(1) kp(2)] tangent_exists [OF t'(1) e sm'(2) kp(2)] by blast
    then show "g2 k p = g k p + dotl r \<delta>" using addedD [OF D1(3) kp ab(2)] addedD [OF D2(3) kp ab(1)] sum [OF ab c] by simp
  qed
  moreover have "tree_derive P ?rows True (ExecGenerateIndexArray natts) (Call funcid [t, t']) seed D = Inr D2"
    using D1(1) D2(1) net_values(1) [OF t(1) e, of P] net_values(1) [OF t'(1) e, of P] seeds by simp
  ultimately show ?thesis using D2(2) by blast
qed

lemma derives_add:
  assumes t: "net natts fdims t ds" "derives P natts fdims e t ds" and t': "net natts fdims t' ds" "derives P natts fdims e t' ds"
    and e: "shaped natts fdims e" and f: "fn_of_oid funcid = Some F_MAT_ADD" "copy_fits ds" and sm: "smooth P (matrix_rows natts fdims e) (Call funcid [t, t'])"
  shows "derives P natts fdims e (Call funcid [t, t']) ds"
  unfolding derives_def
proof (intro allI impI)
  fix s :: "real list" and D g assume s: "length s = prod_list ds" and D: "reps natts fdims D g"
  show "\<exists>D' g'. tree_derive P (matrix_rows natts fdims e) True (ExecGenerateIndexArray natts) (Call funcid [t, t']) (F8Array (std_array ds s)) D = Inr D' \<and>
      reps natts fdims D' g' \<and> added P natts fdims e (Call funcid [t, t']) s g g'"
  proof (rule derives_both [OF t t' e D s s sm])
    fix k p \<alpha> \<beta> \<delta> assume ab: "tangent P natts fdims e k p t \<alpha>" "tangent P natts fdims e k p t' \<beta>"
      and c: "tangent P natts fdims e k p (Call funcid [t, t']) \<delta>"
    have "\<delta> = map2 (+) \<alpha> \<beta>" by (rule tangent_unique [OF c tangent_add [OF t(1) ab(1) t'(1) ab(2) e f]])
    then show "dotl s \<delta> = dotl s \<alpha> + dotl s \<beta>" using net_values(3) [OF t(1) e ab(1)] net_values(3) [OF t'(1) e ab(2)] s by (simp add: dotl_add)
  qed (simp add: derive_seeds_def f(1))
qed

lemma derives_mul:
  assumes t: "net natts fdims t [m, n]" "derives P natts fdims e t [m, n]" and t': "net natts fdims t' (n # ps)" "derives P natts fdims e t' (n # ps)"
    and e: "shaped natts fdims e" and f: "fn_of_oid funcid = Some F_MAT_MUL" "prod_list (m # ps) \<le> MaxArraySize"
    and sm: "smooth P (matrix_rows natts fdims e) (Call funcid [t, t'])"
  shows "derives P natts fdims e (Call funcid [t, t']) (m # ps)"
  unfolding derives_def
proof (intro allI impI)
  let ?rows = "matrix_rows natts fdims e" and ?r = "prod_list ps" let ?x = "val P ?rows t" and ?y = "val P ?rows t'"
  fix s :: "real list" and D g assume s: "length s = prod_list (m # ps)" and D: "reps natts fdims D g"
  have dims: "dims_ok [m, n]" "dims_ok (n # ps)" "dims_ok (m # ps)" using net_mul_dims [OF t(1) t'(1) f(2)] by auto
  have len: "length ?x = m * n" "length ?y = prod_list (n # ps)" using net_values(2) [OF t(1) e, of P] net_values(2) [OF t'(1) e, of P] by simp_all
  obtain sx where sx: "matrix_mul_internal (std_array (m # ps) s) (std_array (n # ps) ?y) False True = Inr (std_array [m, n] sx)" "length sx = m * n"
      "\<And>\<delta>. length \<delta> = m * n \<Longrightarrow> dotl sx \<delta> = dotl s (mul_dot m n ?r \<delta> ?y)"
    by (rule mul_seed_left [OF dims len(2) s that])
  obtain sy where sy: "matrix_mul_internal (std_array [m, n] ?x) (std_array (m # ps) s) True False = Inr (std_array (n # ps) sy)"
      "length sy = prod_list (n # ps)" "\<And>\<delta>. length \<delta> = prod_list (n # ps) \<Longrightarrow> dotl sy \<delta> = dotl s (mul_dot m n ?r ?x \<delta>)"
    by (rule mul_seed_right [OF dims len(1) s that])
  have sx2: "length sx = prod_list [m, n]" using sx(2) by simp
  show "\<exists>D' g'. tree_derive P ?rows True (ExecGenerateIndexArray natts) (Call funcid [t, t']) (F8Array (std_array (m # ps) s)) D = Inr D' \<and>
      reps natts fdims D' g' \<and> added P natts fdims e (Call funcid [t, t']) s g g'"
  proof (rule derives_both [OF t t' e D sx2 sy(2) sm])
    fix k p \<alpha> \<beta> \<delta> assume ab: "tangent P natts fdims e k p t \<alpha>" "tangent P natts fdims e k p t' \<beta>"
      and c: "tangent P natts fdims e k p (Call funcid [t, t']) \<delta>"
    have "\<delta> = map2 (+) (mul_dot m n ?r \<alpha> ?y) (mul_dot m n ?r ?x \<beta>)"
      by (rule tangent_unique [OF c tangent_mul [OF t(1) ab(1) t'(1) ab(2) e f]])
    moreover have "length \<alpha> = m * n" "length \<beta> = prod_list (n # ps)" using net_values(3) [OF t(1) e ab(1)] net_values(3) [OF t'(1) e ab(2)] by simp_all
    ultimately show "dotl s \<delta> = dotl sx \<alpha> + dotl sy \<beta>" using s sx(3) sy(3) by (simp add: dotl_add)
  qed (use sx(1) sy(1) in \<open>simp add: derive_seeds_def seed_mat_mul_def f(1)\<close>)
qed

lemma net_derives:
  "net natts fdims t ds \<Longrightarrow> shaped natts fdims e \<Longrightarrow> smooth P (matrix_rows natts fdims e) t \<Longrightarrow> derives P natts fdims e t ds"
proof (induction rule: net.induct)
  case (net_lit ds v)
  show ?case by (rule derives_lit [OF net_lit(2)])
next
  case (net_field pid fieldnum)
  show ?case by (rule derives_field [OF net.net_field [OF net_field(1), of fdims, OF net_field(2)] net_field(3)])
next
  case (net_act t ds funcid f v d)
  then show ?case using derives_act [OF net_act(1) _ net_act(6,7,2-4)] by simp
next
  case (net_add t ds t' funcid)
  then show ?case using derives_add [OF net_add(1) _ net_add(2) _ net_add(7,3,4,8)] by simp
next
  case (net_mul t m n t' ps funcid)
  then show ?case using derives_mul [OF net_mul(1) _ net_mul(2) _ net_mul(7,4,3,8)] by simp
qed

section \<open>The loss\<close>

lemma loss_args:
  assumes "dims_ok [c]" "length x = c" "length l = c" "sum_list l = 1"
  shows "cce_args (std_array [c] x) (std_array [c] l)"
  using assms by (auto simp: cce_args_def not_vector_def dims_ok_def)

text \<open>The value of the loss, and the seeds of its two arguments.\<close>

lemma loss_value:
  assumes "dims_ok [c]" "length x = c" "length l = c" "sum_list l = 1" "fn_of_oid funcid = Some F_SOFTMAX_CCE"
  shows "fn_call P funcid [F8Array (std_array [c] x), F8Array (std_array [c] l)] = Inr (F8 (sum_list (map2 (*) x l) - ln (sum_list (map exp x))))"
  using cce_sum [OF loss_args [OF assms(1-4)]] assms(5) by (simp add: fn_call_def binary_m_def)

definition loss_grad :: "real list \<Rightarrow> real list \<Rightarrow> real list" where
  "loss_grad x l = map2 (\<lambda>v y. exp v / sum_list (map exp x) - y) x l"

lemma loss_seeds:
  assumes "dims_ok [c]" "length x = c" "length l = c" "sum_list l = 1" "fn_of_oid funcid = Some F_SOFTMAX_CCE" "copy_fits [c]"
  shows "derive_seeds funcid [F8Array (std_array [c] x), F8Array (std_array [c] l)] (F8Array (createScalar 1)) =
    Inr [F8Array (std_array [c] (loss_grad x l)), F8Array (createScalar 0)]"
proof -
  have "softmax_cce_derive (std_array [c] x) (std_array [c] l) = Inr (std_array [c] (loss_grad x l))"
    using softmax_cce_seed [OF loss_args [OF assms(1-4)]] assms(2) by (simp add: ArrayGetNItems_def loss_grad_def)
  then show ?thesis using assms(5,6) by (simp add: derive_seeds_def seed_softmax_cce_def matrix_mul_internal_def scale_array_def copyArray_fits)
qed

lemma loss_derive:
  assumes t: "net natts fdims t [c]" and l: "fields_ok natts (Field pid fieldnum FLOAT8ARRAYOID)" "fdims (field_pos natts pid fieldnum) = [c]"
      "sum_list (e (field_pos natts pid fieldnum)) = 1"
    and e: "shaped natts fdims e" "smooth P (matrix_rows natts fdims e) t" and f: "fn_of_oid funcid = Some F_SOFTMAX_CCE" "copy_fits [c]" and D: "reps natts fdims D g" "D ! field_pos natts pid fieldnum = F8Array (std_array [c] d)"
  shows "\<exists>D' g'. tree_derive P (matrix_rows natts fdims e) True (ExecGenerateIndexArray natts) (Call funcid [t, Field pid fieldnum FLOAT8ARRAYOID])
      (F8Array (createScalar 1)) D = Inr D' \<and> reps natts fdims D' g' \<and>
    added P natts fdims e t (loss_grad (val P (matrix_rows natts fdims e) t) (e (field_pos natts pid fieldnum))) g g'"
proof -
  let ?rows = "matrix_rows natts fdims e" and ?l = "Field pid fieldnum FLOAT8ARRAYOID" and ?k = "field_pos natts pid fieldnum"
  let ?x = "val P ?rows t" let ?s = "loss_grad ?x (e ?k)"
  have c: "dims_ok [c]" by (rule net_dims [OF t])
  have lab: "net natts fdims ?l [c]" using net.net_field [OF l(1), of fdims] l(2) c by simp
  have x: "teval P ?rows t = Inr (F8Array (std_array [c] ?x))" "length ?x = c" using net_values(1,2) [OF t e(1), of P] by simp_all
  have y: "teval P ?rows ?l = Inr (F8Array (std_array [c] (e ?k)))" "length (e ?k) = c"
    using evals_field [OF lab e(1), of P] by (simp_all add: evals_def)
  have k: "?k < length D" using field_pos_less [OF l(1)] D by (simp add: reps_def)
  then have r: "rep (fdims ?k) (D ! ?k) (g ?k)" "D ! ?k = F8Array (std_array (fdims ?k) d)"
    using D(1) l(2) D(2) unfolding reps_def by (blast, simp only:)
  from array_field_derive [OF l(1) D(1) add_seed_zero [OF r]]
  obtain D1 where D1: "tree_derive P ?rows True (ExecGenerateIndexArray natts) ?l (F8Array (createScalar 0)) D = Inr D1" "reps natts fdims D1 g" by auto
  have "length ?s = prod_list [c]" using x(2) y(2) by (simp add: loss_grad_def)
  then obtain D' g' where D': "tree_derive P ?rows True (ExecGenerateIndexArray natts) t (F8Array (std_array [c] ?s)) D1 = Inr D'"
      "reps natts fdims D' g'" "added P natts fdims e t ?s g g'" by (rule derivesE [OF net_derives [OF t e] _ D1(2)])
  have "tree_derive P ?rows True (ExecGenerateIndexArray natts) (Call funcid [t, ?l]) (F8Array (createScalar 1)) D = Inr D'"
    using x(1) y(1) loss_seeds [OF c x(2) y(2) l(3) f] D1(1) D'(1) by (simp del: teval.simps(2) tree_derive.simps(2))
  then show ?thesis using D'(2,3) by blast
qed

lemma loss_eval:
  assumes t: "net natts fdims t [c]" and l: "fields_ok natts (Field pid fieldnum FLOAT8ARRAYOID)" "fdims (field_pos natts pid fieldnum) = [c]"
      "sum_list (e (field_pos natts pid fieldnum)) = 1"
    and e: "shaped natts fdims e" and f: "fn_of_oid funcid = Some F_SOFTMAX_CCE"
  shows "teval P (matrix_rows natts fdims e) (Call funcid [t, Field pid fieldnum FLOAT8ARRAYOID]) =
    Inr (F8 (sum_list (map2 (*) (val P (matrix_rows natts fdims e) t) (e (field_pos natts pid fieldnum))) -
      ln (sum_list (map exp (val P (matrix_rows natts fdims e) t)))))"
proof -
  let ?rows = "matrix_rows natts fdims e" and ?l = "Field pid fieldnum FLOAT8ARRAYOID" and ?k = "field_pos natts pid fieldnum"
  have c: "dims_ok [c]" by (rule net_dims [OF t])
  have lab: "net natts fdims ?l [c]" using net.net_field [OF l(1), of fdims] l(2) c by simp
  have x: "teval P ?rows t = Inr (F8Array (std_array [c] (val P ?rows t)))" "length (val P ?rows t) = c" using net_values(1,2) [OF t e, of P] by simp_all
  have y: "teval P ?rows ?l = Inr (F8Array (std_array [c] (e ?k)))" "length (e ?k) = c"
    using evals_field [OF lab e, of P] by (simp_all add: evals_def)
  show ?thesis using x(1) y(1) loss_value [OF c x(2) y(2) l(3) f, of P] by (simp del: teval.simps(2))
qed

section \<open>Gradients\<close>

text \<open>The network \<open>relu_m(a.w * a.x)\<close> with weights of two rows and two columns, and its loss for the labels \<open>a.y\<close>.\<close>

definition ex_matrix :: "int \<Rightarrow> fval Node" where
  "ex_matrix i = FieldSelect (Param PARAM_EXTERN 1 2249 (-1) 0 True) i FLOAT8ARRAYOID"

definition ex_layer :: "fval Node" where
  "ex_layer = FuncExpr 9004 FLOAT8ARRAYOID [OpExpr T_OpExpr 9000 FLOAT8ARRAYOID [ex_matrix 1, ex_matrix 2]]"

definition ex_loss :: "fval Node" where
  "ex_loss = FuncExpr 7801 FLOAT8OID [ex_layer, ex_matrix 3]"

definition ex_layer_term :: dterm where
  "ex_layer_term = Call 9004 [Call 9000 [Field 1 1 FLOAT8ARRAYOID, Field 1 2 FLOAT8ARRAYOID]]"

definition ex_dims :: "nat \<Rightarrow> nat list" where
  "ex_dims k = (if k = 0 then [2, 2] else [2])"

definition ex_env :: "nat \<Rightarrow> real list" where
  "ex_env k = (if k = 0 then [1, 2, 3, 4] else [1, 0])"

lemma ex_oids: "fn_of_oid 9004 = Some F_RELU_M" "fn_of_oid 9000 = Some F_MAT_MUL" "fn_of_oid 7801 = Some F_SOFTMAX_CCE"
  by (simp_all add: fn_of_oid_def fn_oids_def)

lemma ex_terms: "to_term ex_layer = Some ex_layer_term" "to_term ex_loss = Some (Call 7801 [ex_layer_term, Field 1 3 FLOAT8ARRAYOID])"
  by (simp_all add: ex_layer_def ex_loss_def ex_matrix_def ex_layer_term_def)

lemma ex_product: "net [3] ex_dims (Call 9000 [Field 1 1 FLOAT8ARRAYOID, Field 1 2 FLOAT8ARRAYOID]) [2]"
proof -
  have "net [3] ex_dims (Field 1 1 FLOAT8ARRAYOID) [2, 2]" "net [3] ex_dims (Field 1 2 FLOAT8ARRAYOID) [2]"
    using net_field [of "[3]" 1 1 ex_dims] net_field [of "[3]" 1 2 ex_dims]
    by (simp_all add: ex_dims_def dims_ok_def MaxArraySize_def field_pos_def ExecGenerateIndexArray_def)
  from net_mul [OF this _ ex_oids(2)] show ?thesis by (simp add: MaxArraySize_def)
qed

lemma ex_net: "net [3] ex_dims ex_layer_term [2]"
  using net_act [OF ex_product ex_oids(1) _ copy_sizes(1)] by (simp add: ex_layer_term_def act_fn_def)

lemma ex_shaped: "shaped [3] ex_dims ex_env"
  by (simp add: shaped_def ex_dims_def ex_env_def)

lemma ex_smooth: "smooth P (matrix_rows [3] ex_dims ex_env) ex_layer_term"
proof -
  have f: "evals P (matrix_rows [3] ex_dims ex_env) (Field 1 1 FLOAT8ARRAYOID) [2, 2] [1, 2, 3, 4]"
    "evals P (matrix_rows [3] ex_dims ex_env) (Field 1 2 FLOAT8ARRAYOID) [2] [1, 0]"
    by (simp_all add: evals_def matrix_rows_def input_rows_def nth_datum_def ExecGenerateIndexArray_def ex_dims_def ex_env_def upt_rec numeral_nat)
  have "evals P (matrix_rows [3] ex_dims ex_env) (Call 9000 [Field 1 1 FLOAT8ARRAYOID, Field 1 2 FLOAT8ARRAYOID]) [2]
      (mul_dot 2 2 (prod_list []) [1, 2, 3, 4] [1, 0])"
    by (rule evals_mul [OF f _ _ _ ex_oids(2)]) (simp_all add: dims_ok_def MaxArraySize_def)
  then have "val P (matrix_rows [3] ex_dims ex_env) (Call 9000 [Field 1 1 FLOAT8ARRAYOID, Field 1 2 FLOAT8ARRAYOID]) = [1, 3]"
    using evals_val by (fastforce simp: mul_dot_def MAT_2D_def upt_rec numeral_nat)
  then show ?thesis by (simp add: ex_layer_term_def ex_oids)
qed

text \<open>C3: networks are well typed. A lambda whose body is a network of fitting dimensions, on input rows of matrices of those
  dimensions, compiles, and its steps evaluate without any error to an array of the dimensions of the network. All dimensions are at
  least two, and the arrays that activations and sums copy have sizes for which \<open>copyArray\<close> stays within its memory.\<close>

theorem network_types:
  assumes "to_term expr = Some t" "net natts fdims t ds" "shaped natts fdims e"
  shows "\<exists>st v. ExecInitLambdaExpr natts expr = Some st \<and>
    rmap (\<lambda>m. m Result) (exec_steps P (matrix_rows natts fdims e) (steps st) (slots st)) = Inr (F8Array (std_array ds v)) \<and> arr_ok (std_array ds v)"
proof -
  obtain st where st: "ExecInitLambdaExpr natts expr = Some st" "steps st = code t Result 0 @ [EEOP_DONE]" by (rule init_term [OF assms(1)])
  let ?v = "val P (matrix_rows natts fdims e) t"
  obtain d ds' where ds: "ds = d # ds'" using net_dims [OF assms(2)] by (cases ds) (auto simp: dims_ok_def)
  have "is_mat d (prod_list ds') (std_array ds ?v)" using std_mat net_dims [OF assms(2)] net_values(2) [OF assms(2,3), of P] unfolding ds by blast
  then have "arr_ok (std_array ds ?v)" by (simp add: is_mat_def)
  then show ?thesis using st eval_tree [OF st(2)] net_values(1) [OF assms(2,3), of P] by auto
qed

theorem network_types_witness:
  "\<exists>st v. ExecInitLambdaExpr [3] ex_layer = Some st \<and>
    rmap (\<lambda>m. m Result) (exec_steps (\<lambda>_ _. Inl Crash) (matrix_rows [3] ex_dims ex_env) (steps st) (slots st)) = Inr (F8Array (std_array [2] v)) \<and>
    arr_ok (std_array [2] v)"
  by (rule network_types [OF ex_terms(1) ex_net ex_shaped])

text \<open>C2: gradients of neural networks. Take a lambda \<open>softmax_cce(network, labels)\<close>, the network built of matrix products,
  sums and activations over input matrices with dimensions of at least two, with labels that add up to 1, at a point where no
  argument of \<open>relu_m\<close> has a zero. The copies of arrays have to stay within their memory: for the arguments of activations
  and sums, for the logits, and for each field whose derivatives start as a scalar; the derivatives of the labels start as a vector. Then
  \<open>ExecDeriveLambdaExpr\<close> returns the value of the lambda and adds to every element of the derivatives of every input
  matrix but the labels the partial derivative of the negated value in that element.\<close>

theorem network_gradient:
  assumes expr: "to_term expr = Some (Call funcid [t, Field pid fieldnum FLOAT8ARRAYOID])" "fn_of_oid funcid = Some F_SOFTMAX_CCE"
    and t: "net natts fdims t [c]" and l: "fields_ok natts (Field pid fieldnum FLOAT8ARRAYOID)" "fdims (field_pos natts pid fieldnum) = [c]"
      "sum_list (e (field_pos natts pid fieldnum)) = 1"
    and e: "shaped natts fdims e" "smooth P (matrix_rows natts fdims e) t" and c: "copy_fits [c]"
    and D: "reps natts fdims D g" "D ! field_pos natts pid fieldnum = F8Array (std_array [c] d)"
  shows "\<exists>st D' g'. ExecInitLambdaExpr natts expr = Some st \<and>
    ExecDeriveLambdaExpr P st (matrix_rows natts fdims e) D = Inr (F8 (lambda_result P st (matrix_rows natts fdims e)), D') \<and> reps natts fdims D' g' \<and>
    (\<forall>k p. k < sum_list natts \<and> k \<noteq> field_pos natts pid fieldnum \<and> p < length (e k) \<longrightarrow>
      ((\<lambda>u. - lambda_result P st (matrix_rows natts fdims (upd e k p u))) has_real_derivative g' k p - g k p) (at (e k ! p)))"
proof -
  let ?k = "field_pos natts pid fieldnum" let ?b = "Call funcid [t, Field pid fieldnum FLOAT8ARRAYOID]"
  let ?V = "\<lambda>e. val P (matrix_rows natts fdims e) t"
  obtain st where st: "ExecInitLambdaExpr natts expr = Some st" "steps st = code ?b Result 0 @ [EEOP_DONE]" "lambdaContainsMatrix st = array_field ?b"
      "indexArray st = ExecGenerateIndexArray natts" by (rule init_term [OF expr(1)])
  have val: "lambda_result P st (matrix_rows natts fdims e') = sum_list (map2 (*) (?V e') (e' ?k)) - ln (sum_list (map exp (?V e')))"
    if e': "shaped natts fdims e'" "sum_list (e' ?k) = 1" for e'
    by (rule lambda_result_tree [OF st(2) loss_eval [where e = e', OF t l(1,2) e'(2,1) expr(2), of P]])
  obtain D' g' where D': "tree_derive P (matrix_rows natts fdims e) True (ExecGenerateIndexArray natts) ?b (F8Array (createScalar 1)) D = Inr D'"
      "reps natts fdims D' g'" "added P natts fdims e t (loss_grad (?V e) (e ?k)) g g'" using loss_derive [where e = e, OF t l e expr(2) c D] by blast
  have "ExecDeriveLambdaExpr P st (matrix_rows natts fdims e) D = Inr (F8 (lambda_result P st (matrix_rows natts fdims e)), D')"
    using derive_tree [OF st(2,3), of P "matrix_rows natts fdims e" D] net_arity [OF t] expr(2) D'(1) st(4) val [OF e(1) l(3)]
      loss_eval [where e = e, OF t l e(1) expr(2), of P] by (simp add: first_seed_def fn_arity_def del: teval.simps tree_derive.simps)
  moreover have "((\<lambda>u. - lambda_result P st (matrix_rows natts fdims (upd e k p u))) has_real_derivative g' k p - g k p) (at (e k ! p))"
    if k: "k < sum_list natts" "k \<noteq> ?k" "p < length (e k)" for k p
  proof -
    obtain \<delta> where \<delta>: "tangent P natts fdims e k p t \<delta>" using tangent_exists [OF t e k(3)] by blast
    have len: "length (?V (upd e k p u)) = length (e ?k)" for u
      using net_values(2) [OF t shaped_upd [OF e(1)], of P] e(1) l(2) field_pos_less [OF l(1)] by (simp add: shaped_def)
    have "((\<lambda>u. sum_list (map2 (*) (?V (upd e k p u)) (e ?k)) - ln (sum_list (map exp (?V (upd e k p u))))) has_real_derivative
        - (\<Sum>q < length (e ?k). (exp (?V (upd e k p (e k ! p)) ! q) / sum_list (map exp (?V (upd e k p (e k ! p)))) - e ?k ! q) * \<delta> ! q)) (at (e k ! p))"
      using tangent_nth [OF \<delta>] net_values(3) [OF t e(1) \<delta>] len [of "e k ! p"] net_values(2) [OF t e(1), of P] l(3)
      by (intro cce_deriv len) auto
    moreover have "(\<Sum>q < length (e ?k). (exp (?V e ! q) / sum_list (map exp (?V e)) - e ?k ! q) * \<delta> ! q) = dotl (loss_grad (?V e) (e ?k)) \<delta>"
      using len [of "e k ! p"] by (simp add: dotl_def loss_grad_def)
    moreover have "g' k p - g k p = dotl (loss_grad (?V e) (e ?k)) \<delta>" using addedD [OF D'(3) k(1,3) \<delta>] by simp
    moreover have "lambda_result P st (matrix_rows natts fdims (upd e k p u)) = sum_list (map2 (*) (?V (upd e k p u)) (e ?k)) - ln (sum_list (map exp (?V (upd e k p u))))" for u
      using val [OF shaped_upd [OF e(1)], of k p u] l(3) k(2) by (simp add: upd_def)
    ultimately show ?thesis using DERIV_minus by fastforce
  qed
  ultimately show ?thesis using st(1) D'(2) by blast
qed

definition ex_start :: "fval list" where
  "ex_start = [F8Array (std_array [2, 2] [0, 0, 0, 0]), F8Array (createScalar 0), F8Array (std_array [2] [0, 0])]"

theorem network_gradient_witness:
  "\<exists>st D' g'. ExecInitLambdaExpr [3] ex_loss = Some st \<and>
    ExecDeriveLambdaExpr (\<lambda>_ _. Inl Crash) st (matrix_rows [3] ex_dims ex_env) ex_start =
      Inr (F8 (lambda_result (\<lambda>_ _. Inl Crash) st (matrix_rows [3] ex_dims ex_env)), D') \<and> reps [3] ex_dims D' g' \<and>
    ((\<lambda>u. - lambda_result (\<lambda>_ _. Inl Crash) st (matrix_rows [3] ex_dims (upd ex_env 0 1 u))) has_real_derivative g' 0 1) (at 2)"
proof -
  have l: "fields_ok [3] (Field 1 3 FLOAT8ARRAYOID)" "ex_dims (field_pos [3] 1 3) = [2]" "sum_list (ex_env (field_pos [3] 1 3)) = 1"
    by (simp_all add: field_pos_def ExecGenerateIndexArray_def ex_dims_def ex_env_def)
  have start: "reps [3] ex_dims ex_start (\<lambda>_ _. 0)" "ex_start ! field_pos [3] 1 3 = F8Array (std_array [2] [0, 0])"
    using copy_sizes(1) by (auto simp: reps_def rep_def ex_start_def ex_dims_def less_Suc_eq numeral_nat upt_rec field_pos_def ExecGenerateIndexArray_def)
  from network_gradient [where P = "\<lambda>_ _. Inl Crash", OF ex_terms(2) ex_oids(3) ex_net l ex_shaped ex_smooth copy_sizes(1) start]
  obtain st D' g' where *: "ExecInitLambdaExpr [3] ex_loss = Some st"
    "ExecDeriveLambdaExpr (\<lambda>_ _. Inl Crash) st (matrix_rows [3] ex_dims ex_env) ex_start =
      Inr (F8 (lambda_result (\<lambda>_ _. Inl Crash) st (matrix_rows [3] ex_dims ex_env)), D')" "reps [3] ex_dims D' g'"
    "\<And>k p. k < 3 \<and> k \<noteq> field_pos [3] 1 3 \<and> p < length (ex_env k) \<Longrightarrow>
      ((\<lambda>u. - lambda_result (\<lambda>_ _. Inl Crash) st (matrix_rows [3] ex_dims (upd ex_env k p u))) has_real_derivative g' k p - 0) (at (ex_env k ! p))"
    by auto
  have "((\<lambda>u. - lambda_result (\<lambda>_ _. Inl Crash) st (matrix_rows [3] ex_dims (upd ex_env 0 1 u))) has_real_derivative g' 0 1 - 0) (at (ex_env 0 ! 1))"
    by (rule *(4)) (simp add: field_pos_def ExecGenerateIndexArray_def ex_env_def)
  then show ?thesis using *(1-3) by (auto simp: ex_env_def)
qed

end
