(* ===== verification/Kmeans.thy ===== *)
theory Kmeans
  imports Apply_Mt
begin

text \<open>
  Clustering with a distance lambda: \<^verbatim>\<open>kmeans_v2\<close> of \<^verbatim>\<open>src/ext/kmeans_v2_ext.c\<close>. In every iteration the distance lambda is compiled once for each
  centroid, threads assign the points of their ranges to the nearest centroid and add them up, and the main thread merges the
  sums into new centroids.

  The threads share the array of assignments; sums, counts and the convergence flag are private, and distance functions only
  read. A step of a thread is therefore the treatment of one point. The arithmetic of \<open>float8\<close> is the argument \<open>F\<close>, injecting a
  centroid into the lambda and compiling it the argument \<open>compile\<close>. The arguments of a call are taken as they
  are named after they are read from the argument list. Threads start when they are created: a failing \<open>pthread_create\<close>
  is not modelled.
\<close>

section \<open>The worker threads\<close>

record 'f float8_ops =
  f_zero :: 'f
  f_add :: "'f \<Rightarrow> 'f \<Rightarrow> 'f"
  f_less :: "'f \<Rightarrow> 'f \<Rightarrow> bool"
  f_isnan :: "'f \<Rightarrow> bool"
  f_div_int :: "'f \<Rightarrow> int \<Rightarrow> 'f"
  f_dbl_max :: 'f

type_synonym 'f dist_fn = "'f list \<Rightarrow> 'f"

text \<open>The loop over the centroids: \<open>best_ci\<close>, \<open>best_d\<close> and \<open>first\<close> are its variables.\<close>

fun best_loop :: "'f float8_ops \<Rightarrow> 'f list \<Rightarrow> 'f dist_fn list \<Rightarrow> nat \<Rightarrow> nat \<Rightarrow> 'f \<Rightarrow> bool \<Rightarrow> nat" where
  "best_loop F p [] ci best_ci best_d first = best_ci"
| "best_loop F p (dist # dists) ci best_ci best_d first =
    (let d = dist p in
     if first \<or> (\<not> f_isnan F d \<and> f_less F d best_d) then best_loop F p dists (Suc ci) ci d False
     else best_loop F p dists (Suc ci) best_ci best_d first)"

definition best_centroid :: "'f float8_ops \<Rightarrow> 'f dist_fn list \<Rightarrow> 'f list \<Rightarrow> nat" where
  "best_centroid F dists p = best_loop F p dists 0 0 (f_dbl_max F) True"

text \<open>The fields of a work item that the thread changes, its range, and its loop variable \<open>pi\<close>.\<close>

record 'f KMeansV2WorkItem =
  start_pi :: "64 word"
  end_pi :: "64 word"
  cur_pi :: "64 word"
  coordsAgg :: "'f list"
  assignCount :: "int list"
  changesMade :: bool

definition add_coords :: "'f float8_ops \<Rightarrow> nat \<Rightarrow> nat \<Rightarrow> 'f list \<Rightarrow> 'f list \<Rightarrow> 'f list" where
  "add_coords F np best p agg = foldl (\<lambda>agg d. agg[best * np + d := f_add F (agg ! (best * np + d)) (p ! d)]) agg [0..<np]"

text \<open>The body of the loop of \<open>kmeans_v2_worker\<close>. Without centroids it writes to arrays of no elements.\<close>

definition worker_point :: "'f float8_ops \<Rightarrow> 'f dist_fn list \<Rightarrow> nat \<Rightarrow> 'f list \<Rightarrow> int list \<Rightarrow> 'f KMeansV2WorkItem \<Rightarrow>
    (int list \<times> 'f KMeansV2WorkItem) result" where
  "worker_point F dists np points assignments a =
    (let pi = unat (cur_pi a); p = row_at np points pi; best = best_centroid F dists p in
     if length (assignCount a) \<le> best then Inl Crash
     else Inr
       (if assignments ! pi \<noteq> int best then assignments[pi := int best] else assignments,
        a\<lparr>changesMade := assignments ! pi \<noteq> int best \<or> changesMade a, coordsAgg := add_coords F np best p (coordsAgg a),
          assignCount := (assignCount a)[best := assignCount a ! best + 1], cur_pi := cur_pi a + 1\<rparr>))"

definition in_loop :: "nat \<Rightarrow> 'f KMeansV2WorkItem \<Rightarrow> bool" where
  "in_loop num_points a \<longleftrightarrow> cur_pi a < end_pi a \<and> cur_pi a < of_nat num_points"

text \<open>All threads from their start until they are joined, in any order of their steps.\<close>

inductive workers_run :: "'f float8_ops \<Rightarrow> 'f dist_fn list \<Rightarrow> nat \<Rightarrow> 'f list \<Rightarrow> nat \<Rightarrow> int list \<Rightarrow> 'f KMeansV2WorkItem list \<Rightarrow>
    (int list \<times> 'f KMeansV2WorkItem list) result \<Rightarrow> bool" for F dists np points n where
  joined: "\<forall>a \<in> set items. \<not> in_loop n a \<Longrightarrow> workers_run F dists np points n assignments items (Inr (assignments, items))"
| point: "t < length items \<Longrightarrow> in_loop n (items ! t) \<Longrightarrow> worker_point F dists np points assignments (items ! t) = Inr (assignments', a') \<Longrightarrow>
    workers_run F dists np points n assignments' (items[t := a']) r \<Longrightarrow> workers_run F dists np points n assignments items r"
| crash: "t < length items \<Longrightarrow> in_loop n (items ! t) \<Longrightarrow> worker_point F dists np points assignments (items ! t) = Inl e \<Longrightarrow>
    workers_run F dists np points n assignments items (Inl e)"

section \<open>The main thread\<close>

definition kmeans_threads :: "int \<Rightarrow> nat \<Rightarrow> int" where
  "kmeans_threads nthreads num_points =
    (let nthreads = (if nthreads > int num_points \<and> num_points > 0 then int num_points else nthreads) in
     if nthreads < 1 then 1 else nthreads)"

text \<open>The work items at the start of an iteration, their buffers reset.\<close>

definition work_items :: "'f float8_ops \<Rightarrow> nat \<Rightarrow> nat \<Rightarrow> nat \<Rightarrow> int \<Rightarrow> 'f KMeansV2WorkItem list" where
  "work_items F np nc n nthreads = map (\<lambda>t.
    \<lparr>start_pi = chunk_bound (int n) t nthreads, end_pi = chunk_bound (int n) (t + 1) nthreads, cur_pi = chunk_bound (int n) t nthreads,
     coordsAgg = replicate (nc * np) (f_zero F), assignCount = replicate nc 0, changesMade = False\<rparr>) [0..nthreads - 1]"

definition total_count :: "'f KMeansV2WorkItem list \<Rightarrow> nat \<Rightarrow> int" where
  "total_count items ci = foldl (\<lambda>c a. c + assignCount a ! ci) 0 items"

definition total_sum :: "'f float8_ops \<Rightarrow> nat \<Rightarrow> 'f KMeansV2WorkItem list \<Rightarrow> nat \<Rightarrow> nat \<Rightarrow> 'f" where
  "total_sum F np items ci d = foldl (\<lambda>s a. f_add F s (coordsAgg a ! (ci * np + d))) (f_zero F) items"

text \<open>A store into the flat array of centroids.\<close>

definition store :: "'f list \<Rightarrow> nat \<Rightarrow> 'f \<Rightarrow> 'f list result" where
  "store xs i v = (if i < length xs then Inr (xs[i := v]) else Inl Crash)"

fun new_centroid :: "'f float8_ops \<Rightarrow> nat \<Rightarrow> nat \<Rightarrow> 'f KMeansV2WorkItem list \<Rightarrow> nat \<Rightarrow> nat list \<Rightarrow> 'f list \<Rightarrow> 'f list result" where
  "new_centroid F np ncol items ci [] centroids = Inr centroids"
| "new_centroid F np ncol items ci (d # ds) centroids =
    rbind (store centroids (ci * ncol + d) (f_div_int F (total_sum F np items ci d) (total_count items ci))) (\<lambda>centroids.
    new_centroid F np ncol items ci ds centroids)"

fun merge_centroids :: "'f float8_ops \<Rightarrow> nat \<Rightarrow> nat \<Rightarrow> 'f KMeansV2WorkItem list \<Rightarrow> nat list \<Rightarrow> 'f list \<Rightarrow> 'f list result" where
  "merge_centroids F np ncol items [] centroids = Inr centroids"
| "merge_centroids F np ncol items (ci # cis) centroids =
    rbind (if total_count items ci > 0 then new_centroid F np ncol items ci [0..<np] centroids else Inr centroids) (\<lambda>centroids.
    merge_centroids F np ncol items cis centroids)"

text \<open>The main loop; its result is the final centroids, assignments and the flag \<open>changed\<close>.\<close>

record 'f kmeans_args =
  natts_point :: nat
  natts_centroid :: nat
  num_points :: nat
  num_centroids :: nat
  flat_points :: "'f list"
  km_threads :: int
  maxit :: int

inductive kmeans_loop :: "'f float8_ops \<Rightarrow> ('f list \<Rightarrow> 'f dist_fn result) \<Rightarrow> 'f kmeans_args \<Rightarrow> int \<Rightarrow> bool \<Rightarrow> 'f list \<Rightarrow> int list \<Rightarrow>
    ('f list \<times> int list \<times> bool) result \<Rightarrow> bool" for F compile A where
  ended: "\<not> (iter < maxit A \<and> changed) \<Longrightarrow> kmeans_loop F compile A iter changed centroids assignments (Inr (centroids, assignments, changed))"
| not_compiled: "iter < maxit A \<Longrightarrow> changed \<Longrightarrow>
    rmapM (\<lambda>ci. compile (row_at (natts_centroid A) centroids ci)) [0..<num_centroids A] = Inl e \<Longrightarrow>
    kmeans_loop F compile A iter changed centroids assignments (Inl e)"
| crashed: "iter < maxit A \<Longrightarrow> changed \<Longrightarrow>
    rmapM (\<lambda>ci. compile (row_at (natts_centroid A) centroids ci)) [0..<num_centroids A] = Inr dists \<Longrightarrow>
    workers_run F dists (natts_point A) (flat_points A) (num_points A) assignments
      (work_items F (natts_point A) (num_centroids A) (num_points A) (km_threads A)) (Inl e) \<Longrightarrow>
    kmeans_loop F compile A iter changed centroids assignments (Inl e)"
| overrun: "iter < maxit A \<Longrightarrow> changed \<Longrightarrow>
    rmapM (\<lambda>ci. compile (row_at (natts_centroid A) centroids ci)) [0..<num_centroids A] = Inr dists \<Longrightarrow>
    workers_run F dists (natts_point A) (flat_points A) (num_points A) assignments
      (work_items F (natts_point A) (num_centroids A) (num_points A) (km_threads A)) (Inr (assignments', items)) \<Longrightarrow>
    merge_centroids F (natts_point A) (natts_centroid A) items [0..<num_centroids A] centroids = Inl e \<Longrightarrow>
    kmeans_loop F compile A iter changed centroids assignments (Inl e)"
| iteration: "iter < maxit A \<Longrightarrow> changed \<Longrightarrow>
    rmapM (\<lambda>ci. compile (row_at (natts_centroid A) centroids ci)) [0..<num_centroids A] = Inr dists \<Longrightarrow>
    workers_run F dists (natts_point A) (flat_points A) (num_points A) assignments
      (work_items F (natts_point A) (num_centroids A) (num_points A) (km_threads A)) (Inr (assignments', items)) \<Longrightarrow>
    merge_centroids F (natts_point A) (natts_centroid A) items [0..<num_centroids A] centroids = Inr centroids' \<Longrightarrow>
    kmeans_loop F compile A (iter + 1) (\<exists>a \<in> set items. changesMade a) centroids' assignments' r \<Longrightarrow>
    kmeans_loop F compile A iter changed centroids assignments r"

definition kmeans_args_of :: "nat \<Rightarrow> nat \<Rightarrow> int \<Rightarrow> int \<Rightarrow> 'f list list \<Rightarrow> 'f list list \<Rightarrow> 'f kmeans_args" where
  "kmeans_args_of np ncol nthreads iters pts cents =
    \<lparr>natts_point = np, natts_centroid = ncol, num_points = length pts, num_centroids = length cents,
     flat_points = concat pts, km_threads = kmeans_threads nthreads (length pts), maxit = iters\<rparr>"

definition kmeans_output :: "'f kmeans_args \<Rightarrow> int list \<Rightarrow> ('f list \<times> int) list" where
  "kmeans_output A assignments = map (\<lambda>pi. (row_at (natts_point A) (flat_points A) pi, assignments ! pi)) [0..<num_points A]"

text \<open>A call: the rows of points and of initial centroids are read into flat arrays, and all assignments start as -1.\<close>

inductive kmeans_v2 :: "'f float8_ops \<Rightarrow> ('f list \<Rightarrow> 'f dist_fn result) \<Rightarrow> nat \<Rightarrow> nat \<Rightarrow> int \<Rightarrow> int \<Rightarrow> 'f list list \<Rightarrow> 'f list list \<Rightarrow>
    ('f list \<times> int) list result \<Rightarrow> bool" for F compile np ncol nthreads iters pts cents where
  finished: "kmeans_loop F compile (kmeans_args_of np ncol nthreads iters pts cents) 0 True (concat cents) (replicate (length pts) (- 1)) r \<Longrightarrow>
    kmeans_v2 F compile np ncol nthreads iters pts cents
      (rmap (\<lambda>(_, assignments, _). kmeans_output (kmeans_args_of np ncol nthreads iters pts cents) assignments) r)"

section \<open>What the threads compute\<close>

lemma best_loop_less: "dists \<noteq> [] \<or> best < n \<Longrightarrow> (dists \<noteq> [] \<longrightarrow> first \<or> best < n) \<Longrightarrow> ci + length dists \<le> n \<Longrightarrow> best_loop F p dists ci best d first < n"
  by (induction dists arbitrary: ci best d first) (auto simp: Let_def)

lemma best_centroid_less: "dists \<noteq> [] \<Longrightarrow> best_centroid F dists p < length dists"
  unfolding best_centroid_def by (rule best_loop_less) auto

text \<open>The bounds of the ranges, as natural numbers.\<close>

lemma chunk_part:
  assumes "int n \<le> PG_INT32_MAX" "0 < T" "T \<le> PG_INT32_MAX" "t \<le> nat T"
  shows "unat (chunk_bound (int n) (int t) T) = part n (nat T) t"
  using unat_chunk_bound [of "int n" "int t" T] assms by (simp add: part_def nat_div_distrib nat_mult_distrib)

lemma part_mono: "t \<le> t' \<Longrightarrow> part n T t \<le> part n T t'"
  unfolding part_def by (intro div_le_mono mult_le_mono2)

lemma part_unique:
  assumes "part n T t \<le> i" "i < part n T (Suc t)" "part n T t' \<le> i" "i < part n T (Suc t')"
  shows "t = t'"
  using assms part_mono [of "Suc t" t' n T] part_mono [of "Suc t'" t n T] by (metis Suc_leI leD le_trans nat_neq_iff)

lemma part_find:
  assumes "0 < T" "i < n"
  obtains t where "t < T" "part n T t \<le> i" "i < part n T (Suc t)"
proof -
  have "i \<in> set (concat (map (\<lambda>i. [part n T i..<part n T (Suc i)]) [0..<T]))" unfolding parts_cover [OF assms(1)] using assms(2) by simp
  then show ?thesis using that by auto
qed

definition nearest_at :: "'f float8_ops \<Rightarrow> 'f dist_fn list \<Rightarrow> nat \<Rightarrow> 'f list \<Rightarrow> nat \<Rightarrow> nat" where
  "nearest_at F dists np points i = best_centroid F dists (row_at np points i)"

text \<open>The work item of thread \<open>t\<close> when it has treated the points of its range below \<open>k\<close>; \<open>asg\<close> are the assignments at the start.\<close>

definition item_at :: "'f float8_ops \<Rightarrow> 'f dist_fn list \<Rightarrow> nat \<Rightarrow> 'f list \<Rightarrow> nat \<Rightarrow> int \<Rightarrow> int list \<Rightarrow> nat \<Rightarrow> nat \<Rightarrow> 'f KMeansV2WorkItem" where
  "item_at F dists np points n T asg t k =
    (let idxs = [part n (nat T) t..<k]; near = nearest_at F dists np points in
     \<lparr>start_pi = chunk_bound (int n) (int t) T, end_pi = chunk_bound (int n) (int t + 1) T, cur_pi = of_nat k,
      coordsAgg = foldl (\<lambda>agg i. add_coords F np (near i) (row_at np points i) agg) (replicate (length dists * np) (f_zero F)) idxs,
      assignCount = foldl (\<lambda>c i. c[near i := c ! near i + 1]) (replicate (length dists) 0) idxs,
      changesMade = (\<exists>i \<in> set idxs. asg ! i \<noteq> int (near i))\<rparr>)"

definition pass_inv :: "'f float8_ops \<Rightarrow> 'f dist_fn list \<Rightarrow> nat \<Rightarrow> 'f list \<Rightarrow> nat \<Rightarrow> int \<Rightarrow> int list \<Rightarrow> (nat \<Rightarrow> nat) \<Rightarrow> int list \<Rightarrow> 'f KMeansV2WorkItem list \<Rightarrow> bool" where
  "pass_inv F dists np points n T asg pos assignments items \<longleftrightarrow>
    length items = nat T \<and> length assignments = n \<and>
    (\<forall>t < nat T. part n (nat T) t \<le> pos t \<and> pos t \<le> part n (nat T) (Suc t) \<and> items ! t = item_at F dists np points n T asg t (pos t)) \<and>
    (\<forall>i < n. assignments ! i = (if \<exists>t < nat T. part n (nat T) t \<le> i \<and> i < pos t then int (nearest_at F dists np points i) else asg ! i))"

lemma init_inv:
  assumes "int n \<le> PG_INT32_MAX" "0 < T" "T \<le> PG_INT32_MAX" "length asg = n"
  shows "pass_inv F dists np points n T asg (part n (nat T)) asg (work_items F np (length dists) n T)"
proof -
  have "chunk_bound (int n) (int t) T = of_nat (part n (nat T) t)" if "t < nat T" for t
    using chunk_part [OF assms(1-3), of t] that by (metis less_imp_le of_nat_unat ucast_id)
  then have "work_items F np (length dists) n T ! t = item_at F dists np points n T asg t (part n (nat T) t)" if "t < nat T" for t
    using that unfolding work_items_def upto_upt by (simp add: item_at_def)
  moreover have "length (work_items F np (length dists) n T) = nat T" unfolding work_items_def upto_upt by simp
  ultimately show ?thesis using assms(4) part_mono [of _ "Suc _" n "nat T"] by (auto simp: pass_inv_def)
qed

lemma item_in_loop:
  assumes "int n \<le> PG_INT32_MAX" "0 < T" "T \<le> PG_INT32_MAX" "t < nat T" "k \<le> part n (nat T) (Suc t)"
  shows "in_loop n (item_at F dists np points n T asg t k) \<longleftrightarrow> k < part n (nat T) (Suc t)"
proof -
  have le: "part n (nat T) (Suc t) \<le> n" using part_le [of "nat T" "Suc t" n] assms(2,4) by simp
  then have "unat (of_nat k :: 64 word) = k" "unat (of_nat n :: 64 word) = n" using assms(1,5) by (simp_all add: unat_small PG_INT32_MAX_def)
  moreover have "unat (chunk_bound (int n) (int t + 1) T) = part n (nat T) (Suc t)" using chunk_part [OF assms(1-3), of "Suc t"] assms(4) by (simp add: add.commute)
  ultimately show ?thesis using le by (auto simp: in_loop_def item_at_def Let_def word_less_nat_alt)
qed

lemma length_counts: "length (foldl (\<lambda>c i. c[f i := g c i]) c is) = length c"
  by (induction "is" arbitrary: c) auto

lemma point_item:
  assumes "dists \<noteq> []" "int n \<le> PG_INT32_MAX" "part n (nat T) t \<le> k" "k < n" "assignments ! k = asg ! k"
  shows "worker_point F dists np points assignments (item_at F dists np points n T asg t k) =
    Inr (assignments[k := int (nearest_at F dists np points k)], item_at F dists np points n T asg t (Suc k))"
proof -
  have k: "unat (of_nat k :: 64 word) = k" using assms(2,4) by (simp add: unat_small PG_INT32_MAX_def)
  have upt: "[part n (nat T) t..<Suc k] = [part n (nat T) t..<k] @ [k]" using assms(3) by simp
  show ?thesis using best_centroid_less [OF assms(1), of F "row_at np points k"] k
    unfolding worker_point_def item_at_def Let_def nearest_at_def upt by (simp add: length_counts not_le assms(5) [symmetric] add.commute del: upt_Suc) (metis list_update_id)
qed

text \<open>Whatever the order of the steps, the threads give every point its nearest centroid and end with the items of their whole ranges.\<close>

definition pass_end :: "'f float8_ops \<Rightarrow> 'f dist_fn list \<Rightarrow> nat \<Rightarrow> 'f list \<Rightarrow> nat \<Rightarrow> int \<Rightarrow> int list \<Rightarrow> int list \<times> 'f KMeansV2WorkItem list" where
  "pass_end F dists np points n T asg =
    (map (\<lambda>i. int (nearest_at F dists np points i)) [0..<n], map (\<lambda>t. item_at F dists np points n T asg t (part n (nat T) (Suc t))) [0..<nat T])"

lemma pass_step:
  assumes inv: "pass_inv F dists np points n T asg pos assignments items"
    and args: "dists \<noteq> []" "int n \<le> PG_INT32_MAX" "0 < T" "T \<le> PG_INT32_MAX" and t: "t < length items" "in_loop n (items ! t)"
  obtains "worker_point F dists np points assignments (items ! t) =
      Inr (assignments[pos t := int (nearest_at F dists np points (pos t))], item_at F dists np points n T asg t (Suc (pos t)))"
    "pass_inv F dists np points n T asg (pos(t := Suc (pos t))) (assignments[pos t := int (nearest_at F dists np points (pos t))])
      (items[t := item_at F dists np points n T asg t (Suc (pos t))])"
    "pos t < part n (nat T) (Suc t)" "t < nat T"
proof -
  have tT: "t < nat T" using t inv by (simp add: pass_inv_def)
  then have item: "items ! t = item_at F dists np points n T asg t (pos t)" "part n (nat T) t \<le> pos t" "pos t \<le> part n (nat T) (Suc t)"
    using inv by (auto simp: pass_inv_def)
  have less: "pos t < part n (nat T) (Suc t)" using item_in_loop [OF args(2-4) tT item(3), of F dists np points asg] t(2) item(1) by simp
  have n: "pos t < n" using part_le [of "nat T" "Suc t" n] args(3) tT less by simp
  have other: "\<not> (part n (nat T) t' \<le> pos t \<and> pos t < pos t')" if "t' < nat T" for t'
    using part_unique [of n "nat T" t "pos t" t'] item(2) less inv that by (force simp: pass_inv_def)
  then have "assignments ! pos t = asg ! pos t" using inv n by (auto simp: pass_inv_def)
  from point_item [OF args(1,2) item(2) n this, of F np points] have 1: "worker_point F dists np points assignments (items ! t) =
      Inr (assignments[pos t := int (nearest_at F dists np points (pos t))], item_at F dists np points n T asg t (Suc (pos t)))" unfolding item(1) .
  let ?b = "int (nearest_at F dists np points (pos t))"
  have len: "length assignments = n" "length items = nat T" using inv by (simp_all add: pass_inv_def)
  have seen: "(\<exists>t' < nat T. part n (nat T) t' \<le> i \<and> i < (pos(t := Suc (pos t))) t') \<longleftrightarrow> (\<exists>t' < nat T. part n (nat T) t' \<le> i \<and> i < pos t') \<or> i = pos t" for i
    using tT item(2) by (auto simp: less_Suc_eq)
  have "(assignments[pos t := ?b]) ! i = (if \<exists>t' < nat T. part n (nat T) t' \<le> i \<and> i < (pos(t := Suc (pos t))) t' then int (nearest_at F dists np points i) else asg ! i)"
    if "i < n" for i unfolding seen using inv that len n by (cases "i = pos t") (auto simp: pass_inv_def)
  moreover have "part n (nat T) t' \<le> (pos(t := Suc (pos t))) t' \<and> (pos(t := Suc (pos t))) t' \<le> part n (nat T) (Suc t') \<and>
      items[t := item_at F dists np points n T asg t (Suc (pos t))] ! t' = item_at F dists np points n T asg t' ((pos(t := Suc (pos t))) t')"
    if "t' < nat T" for t' using inv that len item(2) less by (cases "t' = t") (auto simp: pass_inv_def)
  ultimately have 2: "pass_inv F dists np points n T asg (pos(t := Suc (pos t))) (assignments[pos t := ?b])
      (items[t := item_at F dists np points n T asg t (Suc (pos t))])" using len unfolding pass_inv_def by simp
  show ?thesis by (rule that [OF 1 2 less tT])
qed

lemma pass_joined:
  assumes inv: "pass_inv F dists np points n T asg pos assignments items"
    and args: "int n \<le> PG_INT32_MAX" "0 < T" "T \<le> PG_INT32_MAX" and ended: "\<forall>a \<in> set items. \<not> in_loop n a"
  shows "(assignments, items) = pass_end F dists np points n T asg"
proof -
  have len: "length assignments = n" "length items = nat T" using inv by (simp_all add: pass_inv_def)
  have pos: "pos t = part n (nat T) (Suc t)" if t: "t < nat T" for t
  proof -
    have item: "items ! t = item_at F dists np points n T asg t (pos t)" "pos t \<le> part n (nat T) (Suc t)" using inv t by (auto simp: pass_inv_def)
    have "items ! t \<in> set items" using t len by simp
    then have "\<not> in_loop n (items ! t)" using ended by blast
    then show ?thesis using item item_in_loop [OF args t item(2), of F dists np points asg] by simp
  qed
  have "assignments ! i = int (nearest_at F dists np points i)" if i: "i < n" for i
  proof -
    obtain t where "t < nat T" "part n (nat T) t \<le> i" "i < part n (nat T) (Suc t)" using part_find [of "nat T" i n] args(2) i by auto
    then show ?thesis using inv i pos by (auto simp: pass_inv_def)
  qed
  then show ?thesis using inv len pos by (auto simp: pass_end_def pass_inv_def intro!: nth_equalityI)
qed

lemma workers_result:
  assumes "workers_run F dists np points n assignments items r" "pass_inv F dists np points n T asg pos assignments items"
    and args: "dists \<noteq> []" "int n \<le> PG_INT32_MAX" "0 < T" "T \<le> PG_INT32_MAX"
  shows "r = Inr (pass_end F dists np points n T asg)"
  using assms(1,2)
proof (induction arbitrary: pos)
  case (joined items assignments)
  then show ?case using pass_joined [OF _ args(2-4)] by metis
next
  case (point t items assignments assignments' a' r)
  from pass_step [OF point.prems args point.hyps(1,2)] show ?case using point.IH point.hyps(3) by (metis Inr_inject Pair_inject)
next
  case (crash t items assignments e)
  from pass_step [OF crash.prems args crash.hyps(1,2)] show ?case using crash.hyps(3) by simp
qed

lemma workers_end:
  assumes "pass_inv F dists np points n T asg pos assignments items"
    and args: "dists \<noteq> []" "int n \<le> PG_INT32_MAX" "0 < T" "T \<le> PG_INT32_MAX"
  shows "\<exists>r. workers_run F dists np points n assignments items r"
  using assms(1)
proof (induction "\<Sum>t < nat T. part n (nat T) (Suc t) - pos t" arbitrary: pos assignments items rule: less_induct)
  case less
  show ?case
  proof (cases "\<forall>a \<in> set items. \<not> in_loop n a")
    case True
    then show ?thesis by (blast intro: workers_run.joined)
  next
    case False
    then obtain t where t: "t < length items" "in_loop n (items ! t)" by (auto simp: in_set_conv_nth)
    show ?thesis
    proof (rule pass_step [OF less.prems args t])
      assume step: "worker_point F dists np points assignments (items ! t) = Inr (assignments[pos t := int (nearest_at F dists np points (pos t))], item_at F dists np points n T asg t (Suc (pos t)))"
        "pass_inv F dists np points n T asg (pos(t := Suc (pos t))) (assignments[pos t := int (nearest_at F dists np points (pos t))]) (items[t := item_at F dists np points n T asg t (Suc (pos t))])"
        "pos t < part n (nat T) (Suc t)" "t < nat T"
      have "(\<Sum>u < nat T. part n (nat T) (Suc u) - (pos(t := Suc (pos t))) u) < (\<Sum>u < nat T. part n (nat T) (Suc u) - pos u)"
        by (rule sum_strict_mono_ex1) (use step(3,4) in auto)
      from less.hyps [OF this step(2)] show ?thesis using workers_run.point [OF t step(1)] by blast
    qed
  qed
qed

text \<open>The outcome of a pass, for every schedule.\<close>

lemma workers_run_iff:
  assumes "dists \<noteq> []" "int n \<le> PG_INT32_MAX" "0 < T" "T \<le> PG_INT32_MAX" "length asg = n"
  shows "workers_run F dists np points n asg (work_items F np (length dists) n T) r \<longleftrightarrow> r = Inr (pass_end F dists np points n T asg)"
  using workers_result [OF _ init_inv [OF assms(2-5)] assms(1-4)] workers_end [OF init_inv [OF assms(2-5)] assms(1-4)] by metis

end
