(* ===== verification/Kmeans_Lloyd.thy ===== *)
theory Kmeans_Lloyd
  imports Complex_Main Kmeans
begin

text \<open>
  \<open>kmeans_v2\<close> is Lloyd's algorithm. The sums and counts of the threads are those of the clusters, the flat array of centroids
  holds their means, and the loop, whatever the schedules of its threads, gives the result of a function on rows. With real
  numbers the number of threads does not matter, and a run that ends without changes has found a stable clustering.
\<close>

section \<open>Sums and counts\<close>

lemma length_add_coords [simp]: "length (add_coords F np b p agg) = length agg"
proof -
  have "length (foldl (\<lambda>agg d. agg[b * np + d := f_add F (agg ! (b * np + d)) (p ! d)]) agg ds) = length agg" for ds
    by (induction ds arbitrary: agg) auto
  then show ?thesis by (simp add: add_coords_def)
qed

lemma add_coords_nth:
  assumes "b < nc" "ci < nc" "d < np" "length agg = nc * np"
  shows "add_coords F np b p agg ! (ci * np + d) = (if ci = b then f_add F (agg ! (ci * np + d)) (p ! d) else agg ! (ci * np + d))"
proof -
  have cell: "c * np + e < nc * np" if "c < nc" "e < np" for c e
    using that mult_le_mono1 [of "Suc c" nc np] by simp
  have "foldl (\<lambda>agg d. agg[b * np + d := f_add F (agg ! (b * np + d)) (p ! d)]) agg [0..<m] ! (ci * np + d) =
      (if ci = b \<and> d < m then f_add F (agg ! (ci * np + d)) (p ! d) else agg ! (ci * np + d)) \<and>
      length (foldl (\<lambda>agg d. agg[b * np + d := f_add F (agg ! (b * np + d)) (p ! d)]) agg [0..<m]) = length agg" if "m \<le> np" for m
    using that
  proof (induction m)
    case (Suc m)
    then show ?case using cell_unique [of d np m ci b] assms cell [of b m]
      by (cases "ci = b \<and> d = m") (auto simp: nth_list_update less_Suc_eq)
  qed simp
  from this [of np] show ?thesis using assms(3) by (simp add: add_coords_def)
qed

lemma agg_nth:
  assumes "\<And>i. i \<in> set idxs \<Longrightarrow> near i < nc" "ci < nc" "d < np" "length agg = nc * np"
  shows "foldl (\<lambda>agg i. add_coords F np (near i) (row i) agg) agg idxs ! (ci * np + d) =
    foldl (f_add F) (agg ! (ci * np + d)) (map (\<lambda>i. row i ! d) (filter (\<lambda>i. near i = ci) idxs))"
  using assms(1,4) by (induction idxs arbitrary: agg) (auto simp: add_coords_nth [OF _ assms(2,3)])

lemma counts_nth:
  assumes "\<And>i. i \<in> set idxs \<Longrightarrow> near i < length c" "ci < length c"
  shows "foldl (\<lambda>c i. c[near i := c ! near i + 1]) c idxs ! ci = c ! ci + int (length (filter (\<lambda>i. near i = ci) idxs))"
  using assms by (induction idxs arbitrary: c) (auto simp: nth_list_update)

section \<open>Lloyd's algorithm\<close>

text \<open>
  The specification, on rows. A cluster is the list of its points. Its coordinates are added up range by range, and then the sums of
  the ranges, because addition need not be associative; in a field this is the sum of the cluster.
\<close>

definition cluster :: "int list \<Rightarrow> nat \<Rightarrow> nat \<Rightarrow> nat \<Rightarrow> nat list" where
  "cluster asg ci lo hi = filter (\<lambda>i. asg ! i = int ci) [lo..<hi]"

definition cluster_sum :: "'f float8_ops \<Rightarrow> nat \<Rightarrow> 'f list list \<Rightarrow> int list \<Rightarrow> nat \<Rightarrow> nat \<Rightarrow> 'f" where
  "cluster_sum F T pts asg ci d = foldl (f_add F) (f_zero F) (map (\<lambda>t. foldl (f_add F) (f_zero F)
    (map (\<lambda>i. pts ! i ! d) (cluster asg ci (part (length pts) T t) (part (length pts) T (Suc t))))) [0..<T])"

definition lloyd_centroid :: "'f float8_ops \<Rightarrow> nat \<Rightarrow> nat \<Rightarrow> 'f list list \<Rightarrow> int list \<Rightarrow> nat \<Rightarrow> 'f list \<Rightarrow> 'f list" where
  "lloyd_centroid F T np pts asg ci centroid =
    (if cluster asg ci 0 (length pts) = [] then centroid
     else map (\<lambda>d. f_div_int F (cluster_sum F T pts asg ci d) (int (length (cluster asg ci 0 (length pts))))) [0..<np] @ drop np centroid)"

definition lloyd_assign :: "'f float8_ops \<Rightarrow> 'f dist_fn list \<Rightarrow> 'f list list \<Rightarrow> int list" where
  "lloyd_assign F dists pts = map (\<lambda>p. int (best_centroid F dists p)) pts"

definition lloyd_update :: "'f float8_ops \<Rightarrow> nat \<Rightarrow> nat \<Rightarrow> 'f list list \<Rightarrow> int list \<Rightarrow> 'f list list \<Rightarrow> 'f list list" where
  "lloyd_update F T np pts asg cents = map (\<lambda>ci. lloyd_centroid F T np pts asg ci (cents ! ci)) [0..<length cents]"

fun lloyd :: "'f float8_ops \<Rightarrow> ('f list \<Rightarrow> 'f dist_fn result) \<Rightarrow> nat \<Rightarrow> nat \<Rightarrow> 'f list list \<Rightarrow> nat \<Rightarrow> bool \<Rightarrow> 'f list list \<Rightarrow> int list \<Rightarrow>
    ('f list list \<times> int list \<times> bool) result" where
  "lloyd F compile T np pts 0 changed cents asg = Inr (cents, asg, changed)"
| "lloyd F compile T np pts (Suc k) changed cents asg =
    (if \<not> changed then Inr (cents, asg, changed)
     else rbind (rmapM compile cents) (\<lambda>dists.
       let asg' = lloyd_assign F dists pts in lloyd F compile T np pts k (asg' \<noteq> asg) (lloyd_update F T np pts asg' cents) asg'))"

lemma pass_assign:
  assumes "\<forall>p \<in> set pts. length p = np"
  shows "fst (pass_end F dists np (concat pts) (length pts) T asg) = lloyd_assign F dists pts"
  by (rule nth_equalityI) (use assms in \<open>auto simp: pass_end_def lloyd_assign_def nearest_at_def row_at_concat\<close>)

lemma near_assign:
  assumes "\<forall>p \<in> set pts. length p = np" "i < length pts"
  shows "int (nearest_at F dists np (concat pts) i) = lloyd_assign F dists pts ! i"
  using assms by (simp add: lloyd_assign_def nearest_at_def row_at_concat)

lemma pass_changed:
  assumes pts: "\<forall>p \<in> set pts. length p = np" and T: "0 < T" and asg: "length asg = length pts"
  shows "(\<exists>a \<in> set (snd (pass_end F dists np (concat pts) (length pts) T asg)). changesMade a) \<longleftrightarrow> lloyd_assign F dists pts \<noteq> asg"
proof -
  let ?n = "length pts"
  have "(\<exists>a \<in> set (snd (pass_end F dists np (concat pts) ?n T asg)). changesMade a) \<longleftrightarrow>
      (\<exists>t < nat T. \<exists>i \<in> {part ?n (nat T) t..<part ?n (nat T) (Suc t)}. asg ! i \<noteq> int (nearest_at F dists np (concat pts) i))"
    by (auto simp: pass_end_def item_at_def Let_def)
  also have "\<dots> \<longleftrightarrow> (\<exists>i < ?n. asg ! i \<noteq> int (nearest_at F dists np (concat pts) i))"
  proof
    assume "\<exists>i < ?n. asg ! i \<noteq> int (nearest_at F dists np (concat pts) i)"
    then obtain i where i: "i < ?n" "asg ! i \<noteq> int (nearest_at F dists np (concat pts) i)" by blast
    then show "\<exists>t < nat T. \<exists>i \<in> {part ?n (nat T) t..<part ?n (nat T) (Suc t)}. asg ! i \<noteq> int (nearest_at F dists np (concat pts) i)"
      using part_find [of "nat T" i ?n] T by (metis atLeastLessThan_iff zero_less_nat_eq)
  next
    assume "\<exists>t < nat T. \<exists>i \<in> {part ?n (nat T) t..<part ?n (nat T) (Suc t)}. asg ! i \<noteq> int (nearest_at F dists np (concat pts) i)"
    then obtain t i where i: "t < nat T" "i < part ?n (nat T) (Suc t)" "asg ! i \<noteq> int (nearest_at F dists np (concat pts) i)" by auto
    then have "i < ?n" using part_le [of "nat T" "Suc t" ?n] T by simp
    with i show "\<exists>i < ?n. asg ! i \<noteq> int (nearest_at F dists np (concat pts) i)" by blast
  qed
  also have "\<dots> \<longleftrightarrow> lloyd_assign F dists pts \<noteq> asg"
    using near_assign [OF pts] asg by (auto simp: list_eq_iff_nth_eq lloyd_assign_def)
  finally show ?thesis .
qed

lemma cluster_concat:
  assumes "0 < T"
  shows "concat (map (\<lambda>t. cluster asg ci (part n T t) (part n T (Suc t))) [0..<T]) = cluster asg ci 0 n"
  unfolding cluster_def filter_concat [symmetric] parts_cover [OF assms, of n, symmetric] by (simp add: filter_concat comp_def)

lemma item_cluster:
  fixes F :: "'f float8_ops"
  assumes pts: "\<forall>p \<in> set pts. length p = np" and dists: "dists \<noteq> []" and T: "0 < T" "t < nat T" and ci: "ci < length dists" "length asg = length pts"
  defines "it \<equiv> item_at F dists np (concat pts) (length pts) T asg t (part (length pts) (nat T) (Suc t))"
    and "cl \<equiv> cluster (lloyd_assign F dists pts) ci (part (length pts) (nat T) t) (part (length pts) (nat T) (Suc t))"
  shows "assignCount it ! ci = int (length cl)"
    "d < np \<Longrightarrow> coordsAgg it ! (ci * np + d) = foldl (f_add F) (f_zero F) (map (\<lambda>i. pts ! i ! d) cl)"
proof -
  let ?ran = "[part (length pts) (nat T) t..<part (length pts) (nat T) (Suc t)]" let ?near = "nearest_at F dists np (concat pts)"
  have less: "?near i < length dists" for i using best_centroid_less [OF dists] by (simp add: nearest_at_def)
  have n: "i < length pts" if "i \<in> set ?ran" for i using that part_le [of "nat T" "Suc t" "length pts"] T by simp
  then have cl: "filter (\<lambda>i. ?near i = ci) ?ran = cl" unfolding cl_def cluster_def
    by (intro filter_cong refl) (simp add: near_assign [OF pts, symmetric])
  show "assignCount it ! ci = int (length cl)"
    using counts_nth [of ?ran ?near "replicate (length dists) 0" ci] less ci(1) by (simp add: it_def item_at_def Let_def cl)
  assume d: "d < np"
  have cell: "ci * np + d < length dists * np" using d mult_le_mono1 [of "Suc ci" "length dists" np] ci(1) by simp
  have "coordsAgg it ! (ci * np + d) = foldl (f_add F) (f_zero F) (map (\<lambda>i. row_at np (concat pts) i ! d) cl)"
    using agg_nth [of ?ran ?near "length dists" ci d np "replicate (length dists * np) (f_zero F)" F "row_at np (concat pts)"] less ci(1) d cell
    by (simp add: it_def item_at_def Let_def cl)
  also have "map (\<lambda>i. row_at np (concat pts) i ! d) cl = map (\<lambda>i. pts ! i ! d) cl"
    using n by (auto simp: cl [symmetric] row_at_concat [OF pts])
  finally show "coordsAgg it ! (ci * np + d) = foldl (f_add F) (f_zero F) (map (\<lambda>i. pts ! i ! d) cl)" .
qed

lemma foldl_map': "foldl f a (map g xs) = foldl (\<lambda>a x. f a (g x)) a xs"
  by (induction xs arbitrary: a) auto

lemma foldl_int_sum: "foldl (\<lambda>c a. c + f a) (c :: int) xs = c + sum_list (map f xs)"
  by (induction xs arbitrary: c) auto

lemma pass_totals:
  fixes F :: "'f float8_ops"
  assumes pts: "\<forall>p \<in> set pts. length p = np" and dists: "dists \<noteq> []" and T: "0 < T" and ci: "ci < length dists" "length asg = length pts"
  defines "items \<equiv> snd (pass_end F dists np (concat pts) (length pts) T asg)" and "asg' \<equiv> lloyd_assign F dists pts"
  shows "total_count items ci = int (length (cluster asg' ci 0 (length pts)))"
    "d < np \<Longrightarrow> total_sum F np items ci d = cluster_sum F (nat T) pts asg' ci d"
proof -
  let ?item = "\<lambda>t. item_at F dists np (concat pts) (length pts) T asg t (part (length pts) (nat T) (Suc t))"
  have items: "items = map ?item [0..<nat T]" by (simp add: items_def pass_end_def)
  have "total_count items ci = sum_list (map (\<lambda>t. int (length (cluster asg' ci (part (length pts) (nat T) t) (part (length pts) (nat T) (Suc t))))) [0..<nat T])"
    unfolding total_count_def foldl_int_sum items map_map comp_def add_0_left
    by (intro arg_cong [of _ _ sum_list] map_cong refl) (use item_cluster(1) [OF pts dists T _ ci, of _ F] in \<open>auto simp: asg'_def\<close>)
  also have "\<dots> = int (length (concat (map (\<lambda>t. cluster asg' ci (part (length pts) (nat T) t) (part (length pts) (nat T) (Suc t))) [0..<nat T])))"
    by (simp add: length_concat comp_def sum_list_of_nat [symmetric])
  finally show "total_count items ci = int (length (cluster asg' ci 0 (length pts)))" using cluster_concat [of "nat T"] T by simp
  assume d: "d < np"
  show "total_sum F np items ci d = cluster_sum F (nat T) pts asg' ci d"
    unfolding total_sum_def cluster_sum_def items foldl_map' using item_cluster(2) [OF pts dists T _ ci d, of _ F]
    by (auto simp: asg'_def foldl_map' intro!: foldl_cong)
qed

section \<open>The flat array of centroids\<close>

lemma concat_update:
  assumes "\<forall>r \<in> set rows. length r = w" "i < length rows" "d < w"
  shows "(concat rows)[i * w + d := v] = concat (rows[i := (rows ! i)[d := v]])"
  using assms
proof (induction rows arbitrary: i)
  case (Cons r rows)
  then show ?case by (cases i) (auto simp: list_update_append add.assoc)
qed simp

lemma cell_in_rows:
  assumes "\<forall>r \<in> set rows. length r = w" "i < length rows" "d < w"
  shows "i * w + d < length (concat rows)"
proof -
  have "length (concat rows) = length rows * w" using assms(1) by (induction rows) auto
  moreover have "i * w + d < Suc i * w" using assms(3) by simp
  moreover have "Suc i * w \<le> length rows * w" using assms(2) by (intro mult_le_mono1) simp
  ultimately show ?thesis by simp
qed

lemma foldl_update:
  "m \<le> length r \<Longrightarrow> foldl (\<lambda>r d. r[d := g d (r ! d)]) r [0..<m] = map (\<lambda>d. g d (r ! d)) [0..<m] @ drop m r"
proof (induction m)
  case (Suc m)
  then show ?case by (auto simp: list_update_append nth_append Cons_nth_drop_Suc [symmetric])
qed simp

lemma new_centroid_rows:
  assumes "\<forall>r \<in> set rows. length r = w" "ci < length rows" "\<forall>d \<in> set ds. d < w"
  shows "new_centroid F np w items ci ds (concat rows) =
    Inr (concat (rows[ci := foldl (\<lambda>r d. r[d := f_div_int F (total_sum F np items ci d) (total_count items ci)]) (rows ! ci) ds]))"
  using assms
proof (induction ds arbitrary: rows)
  case (Cons d ds)
  let ?v = "f_div_int F (total_sum F np items ci d) (total_count items ci)" let ?rows = "rows[ci := (rows ! ci)[d := ?v]]"
  have "\<forall>r \<in> set ?rows. length r = w" using Cons.prems by (auto dest!: set_update_subset_insert [THEN subsetD])
  then have "new_centroid F np w items ci ds (concat ?rows) =
    Inr (concat (?rows[ci := foldl (\<lambda>r d. r[d := f_div_int F (total_sum F np items ci d) (total_count items ci)]) (?rows ! ci) ds]))"
    by (rule Cons.IH) (use Cons.prems in auto)
  then show ?case using Cons.prems by (simp add: store_def cell_in_rows concat_update)
qed simp

definition centroid_row :: "'f float8_ops \<Rightarrow> nat \<Rightarrow> 'f KMeansV2WorkItem list \<Rightarrow> nat \<Rightarrow> 'f list \<Rightarrow> 'f list" where
  "centroid_row F np items ci row =
    (if total_count items ci > 0 then map (\<lambda>d. f_div_int F (total_sum F np items ci d) (total_count items ci)) [0..<np] @ drop np row else row)"

lemma merge_rows:
  assumes "\<forall>r \<in> set rows. length r = w" "np \<le> w" "\<forall>ci \<in> set js. ci < length rows"
  shows "merge_centroids F np w items js (concat rows) = Inr (concat (foldl (\<lambda>rows ci. rows[ci := centroid_row F np items ci (rows ! ci)]) rows js))"
  using assms
proof (induction js arbitrary: rows)
  case (Cons ci js)
  let ?rows = "rows[ci := centroid_row F np items ci (rows ! ci)]"
  have "length (rows ! ci) = w" using Cons.prems by simp
  then have len: "length (centroid_row F np items ci (rows ! ci)) = w" using Cons.prems(2) by (simp add: centroid_row_def)
  then have "\<forall>r \<in> set ?rows. length r = w" using Cons.prems(1) by (auto dest!: set_update_subset_insert [THEN subsetD])
  then have "merge_centroids F np w items js (concat ?rows) = Inr (concat (foldl (\<lambda>rows ci. rows[ci := centroid_row F np items ci (rows ! ci)]) ?rows js))"
    using Cons.prems by (intro Cons.IH) auto
  moreover have "(if total_count items ci > 0 then new_centroid F np w items ci [0..<np] (concat rows) else Inr (concat rows)) = Inr (concat ?rows)"
    using Cons.prems new_centroid_rows [of rows w ci "[0..<np]" F np items]
      foldl_update [of np "rows ! ci" "\<lambda>d _. f_div_int F (total_sum F np items ci d) (total_count items ci)"]
    by (auto simp: centroid_row_def)
  ultimately show ?case by simp
qed simp

lemma merge_update:
  assumes pts: "\<forall>p \<in> set pts. length p = np" and cents: "\<forall>r \<in> set cents. length r = w" "np \<le> w" "cents \<noteq> []" and T: "0 < T"
    and dists: "length dists = length cents" "length asg = length pts"
  shows "merge_centroids F np w (snd (pass_end F dists np (concat pts) (length pts) T asg)) [0..<length cents] (concat cents) =
    Inr (concat (lloyd_update F (nat T) np pts (lloyd_assign F dists pts) cents))"
proof -
  let ?items = "snd (pass_end F dists np (concat pts) (length pts) T asg)"
  have "dists \<noteq> []" using dists(1) cents(3) by auto
  note tot = pass_totals [where F = F, OF pts this T _ dists(2)]
  have "foldl (\<lambda>rows ci. rows[ci := centroid_row F np ?items ci (rows ! ci)]) cents [0..<length cents] =
      map (\<lambda>ci. centroid_row F np ?items ci (cents ! ci)) [0..<length cents]"
    using foldl_update [of "length cents" cents "centroid_row F np ?items"] by simp
  also have "\<dots> = lloyd_update F (nat T) np pts (lloyd_assign F dists pts) cents"
    unfolding lloyd_update_def by (intro map_cong refl) (use tot dists(1) in \<open>auto simp: centroid_row_def lloyd_centroid_def\<close>)
  finally show ?thesis using merge_rows [OF cents(1,2), of "[0..<length cents]" F ?items] by simp
qed

section \<open>The loop\<close>

lemma compile_rows:
  assumes "\<forall>r \<in> set cents. length r = w"
  shows "rmapM (\<lambda>ci. compile (row_at w (concat cents) ci)) [0..<length cents] = rmapM compile cents"
proof -
  have "map (row_at w (concat cents)) [0..<length cents] = cents" by (rule nth_equalityI) (simp_all add: row_at_concat [OF assms])
  then show ?thesis using rmapM_map [of compile "row_at w (concat cents)" "[0..<length cents]"] by simp
qed

lemma kmeans_threads_bounds:
  "int n \<le> PG_INT32_MAX \<Longrightarrow> nthreads \<le> PG_INT32_MAX \<Longrightarrow> 0 < kmeans_threads nthreads n \<and> kmeans_threads nthreads n \<le> PG_INT32_MAX"
  by (simp add: kmeans_threads_def Let_def PG_INT32_MAX_def)

definition kmeans_ok :: "nat \<Rightarrow> nat \<Rightarrow> int \<Rightarrow> 'f list list \<Rightarrow> 'f list list \<Rightarrow> bool" where
  "kmeans_ok np w nthreads pts cents \<longleftrightarrow> (\<forall>p \<in> set pts. length p = np) \<and> (\<forall>r \<in> set cents. length r = w) \<and> np \<le> w \<and> cents \<noteq> [] \<and>
    int (length pts) \<le> PG_INT32_MAX \<and> nthreads \<le> PG_INT32_MAX"

lemma lloyd_update_rows:
  assumes "\<forall>r \<in> set cents. length r = w" "np \<le> w"
  shows "length (lloyd_update F T np pts asg cents) = length cents" "\<forall>r \<in> set (lloyd_update F T np pts asg cents). length r = w"
  using assms by (auto simp: lloyd_update_def lloyd_centroid_def)

lemma iteration_iff:
  fixes F :: "'f float8_ops"
  assumes ok: "kmeans_ok np w nthreads pts cents" and nc: "length cents = length cents0" and asg: "length asg = length pts" and go: "iter < iters" "changed"
    and dists: "rmapM compile cents = Inr dists"
  defines "A \<equiv> kmeans_args_of np w nthreads iters pts cents0" and "asg' \<equiv> lloyd_assign F dists pts" and "T \<equiv> kmeans_threads nthreads (length pts)"
  shows "kmeans_loop F compile A iter changed (concat cents) asg r \<longleftrightarrow>
    kmeans_loop F compile A (iter + 1) (asg' \<noteq> asg) (concat (lloyd_update F (nat T) np pts asg' cents)) asg' r"
proof -
  have ok': "\<forall>p \<in> set pts. length p = np" "\<forall>r \<in> set cents. length r = w" "np \<le> w" "cents \<noteq> []" "int (length pts) \<le> PG_INT32_MAX" "nthreads \<le> PG_INT32_MAX"
    using ok by (simp_all add: kmeans_ok_def)
  have T: "0 < T" "T \<le> PG_INT32_MAX" using kmeans_threads_bounds [OF ok'(5,6)] by (simp_all add: T_def)
  have len: "length dists = length cents" using dists by (auto simp: rmapM_eq_Inr dest: list_all2_lengthD)
  then have ne: "dists \<noteq> []" using ok'(4) by auto
  have A: "natts_point A = np" "natts_centroid A = w" "num_points A = length pts" "num_centroids A = length cents" "flat_points A = concat pts"
    "km_threads A = T" "maxit A = iters" by (simp_all add: A_def T_def kmeans_args_of_def nc)
  note comp = compile_rows [OF ok'(2), of compile, unfolded dists]
  note run = workers_run_iff [OF ne ok'(5) T asg, of F np "concat pts", unfolded len]
  obtain items where pass: "pass_end F dists np (concat pts) (length pts) T asg = (asg', items)"
    using pass_assign [OF ok'(1), of F dists T asg] by (cases "pass_end F dists np (concat pts) (length pts) T asg") (simp add: asg'_def)
  have merge: "merge_centroids F np w items [0..<length cents] (concat cents) = Inr (concat (lloyd_update F (nat T) np pts asg' cents))"
    using merge_update [OF ok'(1-4) T(1) len asg, of F] pass by (simp add: asg'_def)
  have ch: "(\<exists>a \<in> set items. changesMade a) \<longleftrightarrow> asg' \<noteq> asg" using pass_changed [OF ok'(1) T(1) asg, of F dists] pass by (simp add: asg'_def)
  show ?thesis by (subst kmeans_loop.simps) (simp add: A comp run pass merge ch go, blast)
qed

lemma kmeans_loop_iff:
  assumes "kmeans_ok np w nthreads pts cents" "length cents = length cents0" "length asg = length pts"
  shows "kmeans_loop F compile (kmeans_args_of np w nthreads iters pts cents0) iter changed (concat cents) asg r \<longleftrightarrow>
    r = rmap (\<lambda>(cents, asg, changed). (concat cents, asg, changed))
      (lloyd F compile (nat (kmeans_threads nthreads (length pts))) np pts (nat (iters - iter)) changed cents asg)"
  using assms
proof (induction "nat (iters - iter)" arbitrary: iter changed cents asg)
  case 0
  then show ?case by (subst kmeans_loop.simps) (auto simp: kmeans_args_of_def)
next
  case (Suc k)
  let ?A = "kmeans_args_of np w nthreads iters pts cents0" let ?T = "nat (kmeans_threads nthreads (length pts))"
  have go: "iter < iters" and k: "k = nat (iters - (iter + 1))" using Suc.hyps(2) by auto
  have rows: "\<forall>r \<in> set cents. length r = w" "np \<le> w" using Suc.prems(1) by (simp_all add: kmeans_ok_def)
  show ?case
  proof (cases "\<not> changed")
    case True
    then show ?thesis by (subst kmeans_loop.simps) (auto simp: Suc.hyps(2) [symmetric])
  next
    case changed: False
    show ?thesis
    proof (cases "rmapM compile cents")
      case (Inl e)
      note comp = compile_rows [OF rows(1), of compile, unfolded Inl]
      have "kmeans_loop F compile ?A iter changed (concat cents) asg r \<longleftrightarrow> r = Inl e"
        using go changed comp Suc.prems(2) by (subst kmeans_loop.simps) (auto simp: kmeans_args_of_def)
      then show ?thesis using changed Inl by (simp add: Suc.hyps(2) [symmetric])
    next
      case (Inr dists)
      let ?asg = "lloyd_assign F dists pts" let ?cents = "lloyd_update F ?T np pts ?asg cents"
      have len: "length ?cents = length cents" by (rule lloyd_update_rows [OF rows])
      have ok: "kmeans_ok np w nthreads pts ?cents" using Suc.prems(1) lloyd_update_rows [OF rows, of F ?T pts ?asg] by (auto simp: kmeans_ok_def)
      have "kmeans_loop F compile ?A (iter + 1) (?asg \<noteq> asg) (concat ?cents) ?asg r \<longleftrightarrow>
          r = rmap (\<lambda>(cents, asg, changed). (concat cents, asg, changed)) (lloyd F compile ?T np pts k (?asg \<noteq> asg) ?cents ?asg)"
        unfolding k by (rule Suc.hyps(1) [OF k ok]) (use len Suc.prems(2) in \<open>simp_all add: lloyd_assign_def\<close>)
      then show ?thesis using iteration_iff [where F = F and r = r, OF Suc.prems go _ Inr, of changed] changed Inr by (simp add: Suc.hyps(2) [symmetric] Let_def)
    qed
  qed
qed

lemma kmeans_v2_iff:
  assumes "kmeans_ok np w nthreads pts cents"
  shows "kmeans_v2 F compile np w nthreads iters pts cents r \<longleftrightarrow>
    r = rmap (\<lambda>(_, asg, _). zip pts asg) (lloyd F compile (nat (kmeans_threads nthreads (length pts))) np pts (nat iters) True cents (replicate (length pts) (- 1)))"
proof -
  let ?A = "kmeans_args_of np w nthreads iters pts cents"
  have len: "lloyd F compile T np pts k ch cs asg = Inr (c, a, b) \<Longrightarrow> length asg = length pts \<Longrightarrow> length a = length pts" for T k ch cs asg c a b
    by (induction k arbitrary: ch cs asg) (auto simp: result_simps lloyd_assign_def Let_def split: if_splits)
  have pts: "\<forall>p \<in> set pts. length p = np" using assms by (simp add: kmeans_ok_def)
  have out: "kmeans_output ?A asg = zip pts asg" if "length asg = length pts" for asg
    by (rule nth_equalityI) (use that in \<open>auto simp: kmeans_output_def kmeans_args_of_def row_at_concat [OF pts]\<close>)
  show ?thesis
    unfolding kmeans_v2.simps kmeans_loop_iff [OF assms refl length_replicate]
    using len [of _ _ True cents "replicate (length pts) (- 1)"] out
    by (cases "lloyd F compile (nat (kmeans_threads nthreads (length pts))) np pts (nat iters) True cents (replicate (length pts) (- 1))") auto
qed

section \<open>Stable clusterings\<close>

text \<open>The coordinates of every centroid with points are the ones computed from its cluster.\<close>

definition centered :: "'f float8_ops \<Rightarrow> nat \<Rightarrow> nat \<Rightarrow> 'f list list \<Rightarrow> 'f list list \<Rightarrow> int list \<Rightarrow> bool" where
  "centered F T np pts cents asg \<longleftrightarrow> lloyd_update F T np pts asg cents = cents"

lemma update_centered: "np \<le> w \<Longrightarrow> \<forall>r \<in> set cents. length r = w \<Longrightarrow> centered F T np pts (lloyd_update F T np pts asg cents) asg"
  unfolding centered_def by (rule nth_equalityI) (auto simp: lloyd_update_def lloyd_centroid_def)

lemma unassigned_centered: "centered F T np pts cents (replicate (length pts) (- 1))"
  unfolding centered_def by (rule nth_equalityI) (auto simp: lloyd_update_def lloyd_centroid_def cluster_def filter_empty_conv)

lemma lloyd_stable:
  assumes "lloyd F compile T np pts k changed cents asg = Inr (cents', asg', False)" "\<forall>r \<in> set cents. length r = w" "np \<le> w"
    "centered F T np pts cents asg" "\<not> changed \<Longrightarrow> \<exists>dists. rmapM compile cents = Inr dists \<and> asg = lloyd_assign F dists pts"
  shows "(\<exists>dists. rmapM compile cents' = Inr dists \<and> asg' = lloyd_assign F dists pts) \<and> centered F T np pts cents' asg' \<and>
    length cents' = length cents \<and> (\<forall>r \<in> set cents'. length r = w)"
  using assms
proof (induction k arbitrary: changed cents asg)
  case (Suc k)
  show ?case
  proof (cases changed)
    case True
    then obtain dists where dists: "rmapM compile cents = Inr dists" using Suc.prems(1) by (auto simp: result_simps)
    let ?asg = "lloyd_assign F dists pts" let ?cents = "lloyd_update F T np pts ?asg cents"
    have "lloyd F compile T np pts k (?asg \<noteq> asg) ?cents ?asg = Inr (cents', asg', False)" using Suc.prems(1) True dists by (simp add: Let_def)
    moreover have "\<exists>dists. rmapM compile ?cents = Inr dists \<and> ?asg = lloyd_assign F dists pts" if "\<not> ?asg \<noteq> asg"
      using that Suc.prems(4) dists by (auto simp: centered_def)
    ultimately show ?thesis using Suc.IH [of "?asg \<noteq> asg" ?cents ?asg] lloyd_update_rows [OF Suc.prems(2,3), of F T pts ?asg]
        update_centered [OF Suc.prems(3,2), of F T pts ?asg] Suc.prems(3) by simp
  qed (use Suc.prems in auto)
qed auto

section \<open>Real numbers\<close>

definition real_ops :: "real float8_ops" where
  "real_ops = \<lparr>f_zero = 0, f_add = (+), f_less = (<), f_isnan = (\<lambda>_. False), f_div_int = (\<lambda>x n. x / real_of_int n), f_dbl_max = 0\<rparr>"

text \<open>\<open>b\<close> is the first of the nearest centroids.\<close>

definition first_nearest :: "(nat \<Rightarrow> real) \<Rightarrow> nat \<Rightarrow> nat \<Rightarrow> bool" where
  "first_nearest d n b \<longleftrightarrow> b < n \<and> (\<forall>j < n. d b \<le> d j) \<and> (\<forall>j < b. d b < d j)"

lemma best_loop_nearest:
  "first_nearest (\<lambda>j. (all ! j) p) ci best \<Longrightarrow> best_d = (all ! best) p \<Longrightarrow> dists = drop ci all \<Longrightarrow> ci \<le> length all \<Longrightarrow>
    first_nearest (\<lambda>j. (all ! j) p) (length all) (best_loop real_ops p dists ci best best_d False)"
proof (induction dists arbitrary: ci best best_d)
  case (Cons dist dists)
  have ci: "ci < length all" "all ! ci = dist" "drop (Suc ci) all = dists" using drop_eq_ConsD [OF Cons.prems(3) [symmetric]] by auto
  show ?case
  proof (cases "dist p < best_d")
    case True
    then have "first_nearest (\<lambda>j. (all ! j) p) (Suc ci) ci" using Cons.prems(1,2) ci(2) by (force simp: first_nearest_def less_Suc_eq)
    then show ?thesis using Cons.IH [of "Suc ci" ci "dist p"] True ci by (simp add: real_ops_def)
  next
    case False
    then have "first_nearest (\<lambda>j. (all ! j) p) (Suc ci) best" using Cons.prems(1,2) ci(2) by (auto simp: first_nearest_def less_Suc_eq)
    then show ?thesis using Cons.IH [of "Suc ci" best best_d] False Cons.prems(2) ci by (simp add: real_ops_def)
  qed
qed simp

lemma best_centroid_nearest:
  assumes "dists \<noteq> []"
  shows "first_nearest (\<lambda>j. (dists ! j) p) (length dists) (best_centroid real_ops dists p)"
proof -
  obtain dist rest where d: "dists = dist # rest" using assms by (cases dists) auto
  have "first_nearest (\<lambda>j. (dists ! j) p) (Suc 0) 0" by (simp add: first_nearest_def)
  then have "first_nearest (\<lambda>j. (dists ! j) p) (length dists) (best_loop real_ops p rest (Suc 0) 0 (dist p) False)"
    by (rule best_loop_nearest) (simp_all add: d)
  moreover have "best_centroid real_ops dists p = best_loop real_ops p rest (Suc 0) 0 (dist p) False" by (simp add: best_centroid_def d)
  ultimately show ?thesis by simp
qed

lemma foldl_add_sum: "foldl (+) a xs = a + sum_list xs" for a :: real
  by (induction xs arbitrary: a) auto

lemma sum_list_map_concat: "sum_list (map f (concat xss)) = sum_list (map (\<lambda>xs. sum_list (map f xs)) xss)" for f :: "'b \<Rightarrow> real"
  by (induction xss) auto

lemma cluster_sum_real:
  assumes "0 < T"
  shows "cluster_sum real_ops T pts asg ci d = sum_list (map (\<lambda>i. pts ! i ! d) (cluster asg ci 0 (length pts)))"
proof -
  have "cluster_sum real_ops T pts asg ci d = sum_list (map (\<lambda>i. pts ! i ! d) (concat (map (\<lambda>t. cluster asg ci (part (length pts) T t) (part (length pts) T (Suc t))) [0..<T])))"
    by (simp add: cluster_sum_def real_ops_def foldl_add_sum sum_list_map_concat comp_def)
  then show ?thesis unfolding cluster_concat [OF assms] .
qed

section \<open>The clustering that is returned\<close>

text \<open>C29: \<open>kmeans_v2\<close> implements Lloyd's algorithm. Take at least one centroid, with at least the columns of a point. Whatever the order of the steps of the
  threads, the call has exactly one result, the one of the sequential algorithm, which adds up a cluster range by range: the points with the numbers of their clusters, or the error of
  a lambda that does not compile. No write is out of bounds. Nothing is assumed of the arithmetic and of the distance; memory is
  allocated and all threads start, as in the whole model of the function.\<close>

theorem kmeans_v2_lloyd:
  assumes "kmeans_ok np w nthreads pts cents"
  shows "kmeans_v2 F compile np w nthreads iters pts cents r \<longleftrightarrow>
    r = rmap (\<lambda>(_, asg, _). zip pts asg) (lloyd F compile (nat (kmeans_threads nthreads (length pts))) np pts (nat iters) True cents (replicate (length pts) (- 1)))"
  by (rule kmeans_v2_iff [OF assms])

definition ex_int_ops :: "int float8_ops" where
  "ex_int_ops = \<lparr>f_zero = 0, f_add = (+), f_less = (<), f_isnan = (\<lambda>_. False), f_div_int = (\<lambda>x n. x div n), f_dbl_max = 0\<rparr>"

definition ex_dist :: "int list \<Rightarrow> int dist_fn result" where
  "ex_dist c = Inr (\<lambda>p. \<bar>hd c - hd p\<bar>)"

theorem kmeans_v2_lloyd_witness:
  "kmeans_v2 ex_int_ops ex_dist 1 2 3 10 [[1], [2], [3], [40], [60]] [[0, 7], [1, 8]] (Inr [([1], 0), ([2], 0), ([3], 0), ([40], 1), ([60], 1)])"
proof -
  let ?pts = "[[1], [2], [3], [40], [60 :: int]]"
  have ok: "kmeans_ok 1 2 3 ?pts [[0, 7], [1, 8]]" by (simp add: kmeans_ok_def PG_INT32_MAX_def)
  have "rmap (\<lambda>(_, asg, _). zip ?pts asg)
      (lloyd ex_int_ops ex_dist (nat (kmeans_threads 3 (length ?pts))) 1 ?pts (nat 10) True [[0, 7], [1, 8]] (replicate (length ?pts) (- 1))) =
    Inr [([1], 0), ([2], 0), ([3], 0), ([40], 1), ([60], 1)]" by code_simp
  then show ?thesis unfolding kmeans_v2_lloyd [OF ok] by (rule sym)
qed

lemma first_nearest_cong: "\<forall>j < n. d j = e j \<Longrightarrow> first_nearest d n b \<longleftrightarrow> first_nearest e n b"
  by (auto simp: first_nearest_def)

text \<open>C30: converged clusterings are stable. When the loop ends because nothing changed, with real numbers and any distance, every point is assigned to the first of the final
  centroids that are nearest to it, and the coordinates of every final centroid with points are the mean of these points.\<close>

theorem kmeans_v2_stable:
  assumes "kmeans_ok np w nthreads pts cents"
    and "kmeans_loop real_ops (\<lambda>c. Inr (distance c)) (kmeans_args_of np w nthreads iters pts cents) 0 True (concat cents) (replicate (length pts) (- 1)) (Inr (cs, asg, False))"
  shows "length cs = length cents * w \<and> length asg = length pts \<and>
    (\<forall>i < length pts. \<exists>b. asg ! i = int b \<and> first_nearest (\<lambda>j. distance (row_at w cs j) (pts ! i)) (length cents) b) \<and>
    (\<forall>ci < length cents. let members = filter (\<lambda>i. asg ! i = int ci) [0..<length pts] in
      members \<noteq> [] \<longrightarrow> (\<forall>d < np. row_at w cs ci ! d = sum_list (map (\<lambda>i. pts ! i ! d) members) / real (length members)))"
proof -
  let ?T = "nat (kmeans_threads nthreads (length pts))"
  have ok: "\<forall>r \<in> set cents. length r = w" "np \<le> w" "cents \<noteq> []" "int (length pts) \<le> PG_INT32_MAX" "nthreads \<le> PG_INT32_MAX" using assms(1) by (simp_all add: kmeans_ok_def)
  have T: "0 < ?T" using kmeans_threads_bounds [OF ok(4,5)] by simp
  obtain rows where rows: "lloyd real_ops (\<lambda>c. Inr (distance c)) ?T np pts (nat iters) True cents (replicate (length pts) (- 1)) = Inr (rows, asg, False)" "cs = concat rows"
    using assms(2) unfolding kmeans_loop_iff [OF assms(1) refl length_replicate]
    by (cases "lloyd real_ops (\<lambda>c. Inr (distance c)) ?T np pts (nat iters) True cents (replicate (length pts) (- 1))") auto
  obtain dists where stable: "rmapM (\<lambda>c. Inr (distance c)) rows = Inr dists" "asg = lloyd_assign real_ops dists pts" "centered real_ops ?T np pts rows asg"
      "length rows = length cents" "\<forall>r \<in> set rows. length r = w" using lloyd_stable [OF rows(1) ok(1,2) unassigned_centered] by auto
  have dists: "dists = map distance rows" using stable(1) rmapM_total [of rows "\<lambda>c. Inr (distance c)" distance] by simp
  have row: "row_at w cs ci = rows ! ci" if "ci < length cents" for ci using row_at_concat [OF stable(5)] that stable(4) rows(2) by simp
  have "\<exists>b. asg ! i = int b \<and> first_nearest (\<lambda>j. distance (row_at w cs j) (pts ! i)) (length cents) b" if "i < length pts" for i
  proof -
    have "first_nearest (\<lambda>j. (dists ! j) (pts ! i)) (length dists) (best_centroid real_ops dists (pts ! i))"
      using stable(4) ok(3) dists by (intro best_centroid_nearest) auto
    then have "first_nearest (\<lambda>j. distance (row_at w cs j) (pts ! i)) (length cents) (best_centroid real_ops dists (pts ! i))"
      by (subst first_nearest_cong [where e = "\<lambda>j. (dists ! j) (pts ! i)"]) (simp_all add: dists row stable(4))
    then show ?thesis using that stable(2) by (auto simp: lloyd_assign_def)
  qed
  moreover have "row_at w cs ci ! d = sum_list (map (\<lambda>i. pts ! i ! d) (cluster asg ci 0 (length pts))) / real (length (cluster asg ci 0 (length pts)))"
    if "ci < length cents" "cluster asg ci 0 (length pts) \<noteq> []" "d < np" for ci d
  proof -
    have "lloyd_update real_ops ?T np pts asg rows ! ci = rows ! ci" using stable(3) by (simp add: centered_def)
    then have "rows ! ci = lloyd_centroid real_ops ?T np pts asg ci (rows ! ci)" using stable(4) that(1) by (simp add: lloyd_update_def)
    then have "rows ! ci ! d = lloyd_centroid real_ops ?T np pts asg ci (rows ! ci) ! d" by simp
    then show ?thesis using that by (simp add: row lloyd_centroid_def nth_append cluster_sum_real [OF T]) (simp add: real_ops_def)
  qed
  moreover have "length cs = length cents * w" using rows(2) stable(4,5) by (simp add: length_concat sum_list_triv map_idI cong: map_cong)
  moreover have "length asg = length pts" using stable(2) by (simp add: lloyd_assign_def)
  ultimately show ?thesis by (simp add: cluster_def Let_def)
qed

definition ex_real_dist :: "real list \<Rightarrow> real list \<Rightarrow> real" where
  "ex_real_dist c p = \<bar>c ! 0 - p ! 0\<bar>"

theorem kmeans_v2_stable_witness:
  "first_nearest (\<lambda>j. ex_real_dist ([[2], [10]] ! j) [4]) 2 0 \<and> ([[2], [10]] ! 0 ! 0 :: real) = (0 + 4) / 2"
proof -
  let ?pts = "[[0], [4], [10 :: real]]"
  have ok: "kmeans_ok 1 1 1 ?pts [[0], [10]]" by (simp add: kmeans_ok_def PG_INT32_MAX_def)
  have "rmap (\<lambda>(cents, asg, changed). (concat cents, asg, changed)) (lloyd real_ops (\<lambda>c. Inr (ex_real_dist c)) (nat (kmeans_threads 1 (length ?pts))) 1 ?pts
      (nat (5 - 0)) True [[0], [10]] (replicate (length ?pts) (- 1))) = Inr ([2, 10], [0, 0, 1], False)" by code_simp
  then have "kmeans_loop real_ops (\<lambda>c. Inr (ex_real_dist c)) (kmeans_args_of 1 1 1 5 ?pts [[0], [10]]) 0 True (concat [[0], [10]]) (replicate (length ?pts) (- 1)) (Inr ([2, 10], [0, 0, 1], False))"
    unfolding kmeans_loop_iff [OF ok refl length_replicate] by (rule sym)
  note stable = kmeans_v2_stable [OF ok this]
  have "first_nearest (\<lambda>j. ex_real_dist (row_at 1 [2, 10] j) [4]) 2 0" using stable by (auto dest!: spec [of _ 1] simp: numeral_2_eq_2)
  then have "first_nearest (\<lambda>j. ex_real_dist ([[2], [10]] ! j) [4]) 2 0"
    by (subst first_nearest_cong [where e = "\<lambda>j. ex_real_dist (row_at 1 [2, 10] j) [4]"]) (auto simp: row_at_def less_Suc_eq numeral_2_eq_2)
  moreover have "row_at 1 [2, 10 :: real] 0 ! 0 = (0 + 4) / 2" using stable by (auto dest!: spec [of _ 0] simp: upt_rec)
  ultimately show ?thesis by (simp add: row_at_def)
qed

end
