(* ===== verification/Spec2Isabelle.thy ===== *)
theory Spec2Isabelle
  imports Sig_Catalog Cached_Calls Lambda_Serial Diff_Gradient Network_Gradient Kmeans_Lloyd
begin

text \<open>
  \<^bold>\<open>First-class lambdas in PostgreSQL.\<close> The repository under \<^verbatim>\<open>src/hol-lambdas\<close> is PostgreSQL 17.4 with lambda expressions as values: they
  have a type with signatures, are stored in tables, passed to and applied by functions, partially applied, inlined, cached,
  differentiated, and run by threads and parallel workers. This development models the code that was added for this, and the
  vanilla code it stands on directly. Paths below are relative to \<^verbatim>\<open>src/hol-lambdas/src\<close>.

  \<^bold>\<open>Conventions\<close> (\<open>Prelude\<close>). \<open>ereport(ERROR)\<close> and \<open>elog(ERROR)\<close> are values of \<open>pg_error\<close>, and a function that may fail returns
  \<open>'a result\<close>, sequenced by \<open>rbind\<close>. \<open>Crash\<close> is undefined behaviour (a null pointer, an access out of bounds), \<open>Diverge\<close> the end of fuel.
  Object identifiers are 32-bit words; integers whose overflow matters are words, others are \<open>int\<close> or \<open>nat\<close> with their ranges as hypotheses.
  Code outside of the sources, and code that the lambda machinery only calls, is an argument: catalogued functions and operators,
  the constant folder, which may fail, detoasting, compilation by LLVM, the errors of inserting a row of the catalog, the failures
  of starting workers, the fields of generated node types.

  \<^bold>\<open>The parts, and where they are modelled\<close>

  \<^item> \<^bold>\<open>Signatures.\<close> \<open>Sig_Catalog\<close>: \<^verbatim>\<open>backend/catalog/pg_lambdasig.c\<close>, with the allocation of identifiers of \<^verbatim>\<open>catalog.c\<close> and \<^verbatim>\<open>varsup.c\<close>. A lambda type carries a typmod that is
    the key of a row of the catalog; rows hold a canonical key, written by \<open>LambdaSigAppendKey\<close> and read by a recursive-descent parser, which is a total function here. The
    locale \<open>signature_store\<close> is what clients rely on (creating gives a typmod that fetches the signature, now and later), interpreted on the catalog.
    Shown: keys parse back, validation accepts exactly the complete signatures of proper types, interning is injective and keeps all older typmods, it fails only
    when all typmods are used up or the row is rejected, narrowing keeps the masked arguments.

  \<^item> \<^bold>\<open>Expression trees.\<close> \<open>Lambda_Nodes\<close>: the nodes of \<^verbatim>\<open>include/nodes/primnodes.h\<close>, walker and mutator of \<^verbatim>\<open>nodeFuncs.c\<close>, lookups and the L3 test of \<^verbatim>\<open>lambda_helpers.c\<close>,
    the prescan of \<^verbatim>\<open>lambda_injector.c\<close>.

  \<^item> \<^bold>\<open>Inlining and partial application.\<close> \<open>Injector\<close>: \<^verbatim>\<open>lambda_injector.c\<close>, whole. \<open>Flattening\<close> has simple types for lambdas and proves with a
    reducibility argument that inlining well-typed lambdas ends; the fuel of \<open>scalar_inject_walk\<close> is needed only because untyped bindings may call each other for ever.

  \<^item> \<^bold>\<open>Evaluation.\<close> \<open>Evaluator\<close>: the cases of \<open>ExecInitExprRec\<close> and \<open>ExecEvalCallLambdaExpr\<close> (\<^verbatim>\<open>execExpr.c\<close>, \<^verbatim>\<open>execExprInterp.c\<close>) for lambda bodies, and \<open>lambda_cache_build\<close>. Fuel bounds the depth of
    calls. \<open>Flatten_Semantics\<close> and \<open>Lambda_Calls\<close> show that a call with all function arguments inlined gives every result of the call that evaluates them, unless
    folding the inlined body fails (\<open>hoisting_folds_untaken\<close> has an error in a branch that is never taken), that a
    residual called with the held arguments gives the result of the full call, and that well-typed calls end (some fuel is enough, and more changes nothing).
    Residuals that embed a lambda are excluded: evaluation reads it as a stored lambda (\<open>embedded_lambda_example\<close>).

  \<^item> \<^bold>\<open>The cache of built bodies.\<close> \<open>Simple_Hash\<close>, \<open>Hash_Table\<close>, \<open>Hash_Growth\<close>, \<open>Hash_Map\<close>: the open-addressing table of \<^verbatim>\<open>include/lib/simplehash.h\<close>, operation by operation, its Robin Hood
    invariant, and the refinement of a set of keys (locale \<open>key_store\<close>, a sublocale of \<open>key_laws\<close>). \<open>Hash_Bytes\<close>: \<open>hash_bytes\<close> of \<^verbatim>\<open>common/hashfn.c\<close>, aligned and unaligned, for both byte orders.
    \<open>Lambda_Cache\<close>: \<^verbatim>\<open>lambda_cache.c\<close> on a store of entries, interpreting \<open>key_laws\<close> on pointers to entries; the cache is transparent and holds exactly the least recently
    used window. \<open>Cached_Calls\<close>: a call site over the rows of a query, with and without inlining.

  \<^item> \<^bold>\<open>Stored lambdas.\<close> \<open>Node_Text\<close>: the text form of nodes, tokenizer and \<open>nodeRead\<close> of \<^verbatim>\<open>backend/nodes/read.c\<close>, writers of \<^verbatim>\<open>outfuncs.c\<close> and readers of \<^verbatim>\<open>readfuncs.c\<close>. \<open>Node_Roundtrip\<close> and \<open>Lambda_Text\<close>: every tree
    is read back, and nothing behind the text of a lambda is looked at; the length of the text is enough fuel for \<open>nodeRead\<close>. \<open>Lambda_Serial\<close>: \<^verbatim>\<open>lambda_serialize.c\<close> on bytes, and the way of a
    lambda through shared memory to a worker.

  \<^item> \<^bold>\<open>Derivatives.\<close> \<open>Float8_Funcs\<close> (\<^verbatim>\<open>float.c\<close>), \<open>Matrix_Ops\<close> (\<^verbatim>\<open>matrix_ops.c\<close>), \<open>Auto_Diff\<close>: the steps of derivable bodies and the walk back through them, \<open>ExecLambdaDeriveSubtree\<close> of \<^verbatim>\<open>execExpr.c\<close>.
    \<open>Derive_Steps\<close> shows that steps and walk are evaluation and reverse-mode differentiation on the tree. \<open>Diff_Correct\<close>, \<open>Diff_Gradient\<close>: for scalar bodies the
    derivatives are the partial derivatives of the value. \<open>Matrix_Algebra\<close>, \<open>Networks\<close>, \<open>Network_Gradient\<close>: matrix products and their adjoints, shapes of
    networks, and the gradient of a network with a cross-entropy loss, for dimensions of at least two. \<open>copyArray\<close> writes past the array it creates; it succeeds where the bytes
    still fit the chunk that the allocator of \<^verbatim>\<open>backend/utils/mmgr/aset.c\<close> rounds the request up to (\<open>copy_fits\<close>), and is a \<open>Crash\<close> otherwise.

  \<^item> \<^bold>\<open>Threads.\<close> \<open>Job_Queue\<close> (locale \<open>fifo\<close>, interpreted on the linked queue) and \<open>Thread_Pool\<close>: \<^verbatim>\<open>ext/threadpool.c\<close> as a step relation of main thread and workers; safety, progress and bounded runs, and the
    memory at the end. \<open>Apply_Mt\<close>: \<^verbatim>\<open>ext/apply_mt_ext.c\<close> on top of it, with the arrays of data and results and their 32-bit sizes. \<open>Kmeans\<close>: \<^verbatim>\<open>ext/kmeans_v2_ext.c\<close>, whose threads share an array of assignments; every interleaving of
    them is a derivation of \<open>workers_run\<close>. \<open>Kmeans_Lloyd\<close> shows that a call is the sequential algorithm of Lloyd, whatever the arithmetic, and that a clustering
    that no longer changes is stable: points are with their nearest centroids, and these are means.

  \<^item> \<^bold>\<open>Parallel workers.\<close> \<open>Apply_Pw\<close> and \<open>Pw_Results\<close>: \<^verbatim>\<open>ext/apply_mt_pw_ext.c\<close>, leader and workers as a step relation with the atomic job counter, the condition variable on which
    workers wait for the data, and workers that fail to start; the average without laws of the addition. Results, all causes of errors, liveness, independence of
    scheduling, agreement with the threads.

  \<^bold>\<open>Bounds.\<close> Counts of rows, lambdas and threads fit an \<open>int\<close>, as in the code; products of two of them stay below \<open>2 ^ 62\<close>, so the 64-bit bounds of jobs are exact. The
  32-bit products of \<open>apply_mt\<close> wrap around in the model; its properties assume that the number of results fits and that the arrays can be allocated, which bounds the offsets.
  Stored lambdas are shorter than 1 GiB (\<open>MaxAllocSize\<close>), a pack of them shorter than 4 GiB. A hash table keeps below its maximal size.

  \<^bold>\<open>Not modelled\<close>

  \<^item> \<open>float8\<close> is the field of real numbers in derivation, so rounding, overflow, infinities and NaN are not; parallel workers and clustering have an abstract arithmetic without laws, and the stability of clusters is stated over the reals.
    NULL inputs of derivable bodies are not either.
  \<^item> Arrays are values: operations that update an array in place return the new one. What an overrun destroys is not modelled, only that it happens.
  \<^item> Volatile functions, whose evaluations inlining may repeat, and interrupts.
  \<^item> The native code generated by \<^verbatim>\<open>backend/jit/llvm\<close> (no semantics of LLVM here; compiled lambdas are arguments), grammar and parse analysis of lambdas (\<^verbatim>\<open>parser/\<close>), which rest on the whole
    analyzer, planner hooks, deparsing (\<^verbatim>\<open>ruleutils.c\<close>, \<^verbatim>\<open>lambda_print.c\<close>), input and output functions (\<^verbatim>\<open>lambda.c\<close>).
  \<^item> The sequential table functions of \<^verbatim>\<open>ext/apply_ext.c\<close> and \<^verbatim>\<open>ext/lambda_ext.c\<close>. Of \<open>kmeans_v2\<close>, which position of the argument list holds what.
  \<^item> Memory contexts, concurrent transactions on the catalog other than by the errors of insertions, and the rest of PostgreSQL.
\<close>

end
